(* ===== verification/Prelude.thy ===== *)
theory Prelude
  imports Main "HOL-Library.Word" "HOL-Library.AList" "HOL-Library.Char_ord"
    "HOL-Library.List_Lexorder" "HOL-Library.Multiset"
begin

text \<open>
  What every component shares: the representation of JavaScript values (byte arrays, strings,
  insertion-ordered \<open>Map\<close> objects, decimal text of \<open>BigInt\<close>s), \<open>Array.prototype.sort\<close> with a
  comparator, and the generic lemmas on them.

  \<^item> A \<open>Uint8Array\<close> is a list of 8-bit words (\<open>bytes\<close>).
  \<^item> A JavaScript string is a list of code units; \<open>string\<close> (lists of \<open>char\<close>) covers the code
    units below 256. The order \<open><\<close> of \<open>Char_ord\<close> and \<open>List_Lexorder\<close> is the one of JavaScript's
    \<open><\<close> on strings: code unit by code unit, a proper prefix first.
  \<^item> A \<open>Map\<close> is an association list in insertion order: \<open>AList.update\<close> overwrites in place or
    appends, as \<open>Map.set\<close> does; \<open>AList.delete\<close> is \<open>Map.delete\<close>, \<open>map_of\<close> is \<open>Map.get\<close>.
  \<^item> \<open>sort_by\<close> is the stable sort ECMAScript requires of \<open>Array.prototype.sort\<close>.
\<close>

type_synonym bytes = "8 word list"
type_synonym ('k, 'v) jsmap = "('k \<times> 'v) list"

named_theorems js_map_laws \<open>lookup laws of insertion-ordered maps\<close>

text \<open>\<open>x ?? d\<close>.\<close>

definition or_else :: "'a option \<Rightarrow> 'a \<Rightarrow> 'a" where
  "or_else x d = (case x of None \<Rightarrow> d | Some y \<Rightarrow> y)"

section \<open>Insertion-ordered maps\<close>

abbreviation map_set :: "'k \<Rightarrow> 'v \<Rightarrow> ('k, 'v) jsmap \<Rightarrow> ('k, 'v) jsmap" where
  "map_set \<equiv> AList.update"

abbreviation map_del :: "'k \<Rightarrow> ('k, 'v) jsmap \<Rightarrow> ('k, 'v) jsmap" where
  "map_del \<equiv> AList.delete"

abbreviation keys :: "('k, 'v) jsmap \<Rightarrow> 'k list" where
  "keys m \<equiv> map fst m"

abbreviation vals :: "('k, 'v) jsmap \<Rightarrow> 'v list" where
  "vals m \<equiv> map snd m"

definition map_has :: "('k, 'v) jsmap \<Rightarrow> 'k \<Rightarrow> bool" where
  "map_has m k \<longleftrightarrow> map_of m k \<noteq> None"

text \<open>The interface of \<open>Map\<close> the components use, and what they rely on.\<close>

locale js_map =
  fixes empty :: 'm
    and get :: "'m \<Rightarrow> 'k \<Rightarrow> 'v option"
    and set_at :: "'k \<Rightarrow> 'v \<Rightarrow> 'm \<Rightarrow> 'm"
    and del :: "'k \<Rightarrow> 'm \<Rightarrow> 'm"
    and invar :: "'m \<Rightarrow> bool"
  assumes get_empty: "get empty k = None"
    and get_set: "get (set_at k v m) k' = (if k' = k then Some v else get m k')"
    and get_del: "get (del k m) k' = (if k' = k then None else get m k')"
    and invar_empty: "invar empty"
    and invar_set: "invar m \<Longrightarrow> invar (set_at k v m)"
    and invar_del: "invar m \<Longrightarrow> invar (del k m)"
begin

lemma get_set_same: "get (set_at k v m) k = Some v"
  by (simp add: get_set)

lemma get_set_other: "k' \<noteq> k \<Longrightarrow> get (set_at k v m) k' = get m k'"
  by (simp add: get_set)

lemma set_set: "get (set_at k v (set_at k v' m)) k' = get (set_at k v m) k'"
  by (simp add: get_set)

lemma del_set_fresh: "get m k = None \<Longrightarrow> get (del k (set_at k v m)) k' = get m k'"
  by (auto simp: get_set get_del)

lemma get_fold_set:
  "get (fold (\<lambda>(k, v). set_at k v) kvs m) k
     = (case map_of (rev kvs) k of None \<Rightarrow> get m k | Some v \<Rightarrow> Some v)"
  by (induction kvs arbitrary: m)
    (auto simp: get_set map_add_def split: option.splits)

lemma invar_fold_set: "invar m \<Longrightarrow> invar (fold (\<lambda>(k, v). set_at k v) kvs m)"
  by (induction kvs arbitrary: m) (auto intro: invar_set)

end

lemma map_of_delete: "map_of (map_del k m) k' = (if k' = k then None else map_of m k')"
  by (simp add: AList.delete_conv)

interpretation alist: js_map "[]" map_of map_set map_del "\<lambda>m. distinct (keys m)"
  by unfold_locales (auto simp: update_conv map_of_delete distinct_update distinct_delete)

lemmas map_of_set = alist.get_set
lemmas [js_map_laws] = alist.get_set alist.get_del alist.get_empty

lemma map_del_filter: "map_del k m = filter (\<lambda>(k', _). k' \<noteq> k) m"
  by (simp add: AList.delete_eq eq_commute)

lemma keys_set: "set (keys (map_set k v m)) = insert k (set (keys m))"
  by (induction m) auto

lemma map_of_mem: "distinct (keys m) \<Longrightarrow> map_of m k = Some v \<longleftrightarrow> (k, v) \<in> set m"
  by (simp add: map_of_eq_Some_iff)

lemma map_of_None_keys: "map_of m k = None \<longleftrightarrow> k \<notin> set (keys m)"
  by (simp add: map_of_eq_None_iff)

lemma keys_set_old: "k \<in> set (keys m) \<Longrightarrow> keys (map_set k v m) = keys m"
  by (induction m) auto

lemma keys_set_new: "k \<notin> set (keys m) \<Longrightarrow> map_set k v m = m @ [(k, v)]"
  by (induction m) auto

lemma set_old_map:
  "distinct (keys m) \<Longrightarrow> k \<in> set (keys m) \<Longrightarrow>
   map_set k v m = map (\<lambda>(k', v'). if k' = k then (k', v) else (k', v')) m"
proof (induction m)
  case (Cons p m)
  obtain k0 v0 where p: "p = (k0, v0)" by (cases p)
  show ?case
  proof (cases "k0 = k")
    case True
    then have "map (\<lambda>(k', v'). if k' = k then (k', v) else (k', v')) m = m"
      using Cons.prems(1) p by (intro map_idI) (auto simp: image_iff)
    with p True show ?thesis by simp
  qed (use Cons p in auto)
qed simp

lemma distinct_keys_filter: "distinct (keys m) \<Longrightarrow> distinct (keys (filter P m))"
  by (induction m) auto

lemma map_of_filter_vals:
  assumes "distinct (keys m)"
  shows "map_of (filter (\<lambda>(k, v). P k v) m) k =
    (case map_of m k of None \<Rightarrow> None | Some v \<Rightarrow> if P k v then Some v else None)"
proof -
  have "map_of (filter (\<lambda>(k, v). P k v) m) k = None" if "k \<notin> set (keys m)" for m
    using that by (auto simp: map_of_eq_None_iff)
  with assms show ?thesis
    by (induction m) (auto split: option.splits simp: map_of_None_keys)
qed

lemma map_of_map_vals:
  "map_of (map (\<lambda>(k, v). (k, f k v)) m) k = map_option (f k) (map_of m k)"
  by (induction m) auto

lemma sum_list_set_old:
  fixes f :: "'k \<Rightarrow> 'v \<Rightarrow> 'n::ab_group_add"
  assumes "distinct (keys m)" and "map_of m k = Some v0"
  shows "(\<Sum>(k', v') \<leftarrow> map_set k v m. f k' v')
           = (\<Sum>(k', v') \<leftarrow> m. f k' v') - f k v0 + f k v"
  using assms by (induction m) (auto split: if_splits)

lemma sum_list_set_new:
  assumes "map_of m k = None"
  shows "(\<Sum>(k', v') \<leftarrow> map_set k v m. f k' v') = (\<Sum>(k', v') \<leftarrow> m. f k' v') + f k v"
proof -
  from assms have "k \<notin> set (keys m)" by (simp add: map_of_eq_None_iff)
  then show ?thesis by (simp add: keys_set_new)
qed

lemma map_of_distinct_eq_perm:
  assumes "distinct (keys m)" "distinct (keys m')" "map_of m = map_of m'"
  shows "mset m = mset m'"
proof -
  have "distinct m" "distinct m'" using assms(1,2) by (auto simp: distinct_map)
  moreover have "set m = set m'"
    using assms by (metis (no_types) map_of_mem set_eqI surj_pair)
  ultimately show ?thesis by (simp add: set_eq_iff_mset_eq_distinct)
qed

section \<open>Array.prototype.sort\<close>

primrec ins_by :: "('a \<Rightarrow> 'a \<Rightarrow> int) \<Rightarrow> 'a \<Rightarrow> 'a list \<Rightarrow> 'a list" where
  "ins_by cmp x [] = [x]"
| "ins_by cmp x (y # ys) = (if cmp x y \<le> 0 then x # y # ys else y # ins_by cmp x ys)"

primrec sort_by :: "('a \<Rightarrow> 'a \<Rightarrow> int) \<Rightarrow> 'a list \<Rightarrow> 'a list" where
  "sort_by cmp [] = []"
| "sort_by cmp (x # xs) = ins_by cmp x (sort_by cmp xs)"

lemma mset_ins_by [simp]: "mset (ins_by cmp x xs) = add_mset x (mset xs)"
  by (induction xs) auto

lemma mset_sort_by [simp]: "mset (sort_by cmp xs) = mset xs"
  by (induction xs) auto

lemma set_ins_by [simp]: "set (ins_by cmp x xs) = insert x (set xs)"
  by (metis mset_ins_by set_mset_add_mset_insert set_mset_mset)

lemma set_sort_by [simp]: "set (sort_by cmp xs) = set xs"
  by (metis mset_sort_by set_mset_mset)

lemma length_sort_by [simp]: "length (sort_by cmp xs) = length xs"
  by (metis mset_sort_by size_mset)

lemma ins_by_cong:
  "(\<And>y. y \<in> set xs \<Longrightarrow> cmp x y \<le> 0 \<longleftrightarrow> cmp' x y \<le> 0) \<Longrightarrow> ins_by cmp x xs = ins_by cmp' x xs"
  by (induction xs) auto

lemma sort_by_cong:
  "(\<And>x y. x \<in> set xs \<Longrightarrow> y \<in> set xs \<Longrightarrow> cmp x y \<le> 0 \<longleftrightarrow> cmp' x y \<le> 0) \<Longrightarrow>
   sort_by cmp xs = sort_by cmp' xs"
proof (induction xs)
  case (Cons x xs)
  then have "sort_by cmp xs = sort_by cmp' xs" by simp
  moreover have "ins_by cmp x (sort_by cmp' xs) = ins_by cmp' x (sort_by cmp' xs)"
    by (rule ins_by_cong) (use Cons.prems in auto)
  ultimately show ?case by simp
qed simp

lemma ins_by_map: "ins_by c (f x) (map f xs) = map f (ins_by (\<lambda>a b. c (f a) (f b)) x xs)"
  by (induction xs) auto

lemma sort_by_map: "sort_by c (map f xs) = map f (sort_by (\<lambda>a b. c (f a) (f b)) xs)"
  by (induction xs) (simp_all add: ins_by_map)

text \<open>
  A comparator is consistent on a set \<open>D\<close> of values when "not greater" is a total preorder there;
  it is strict when it also tells distinct values of \<open>D\<close> apart. Then the sorted list depends only
  on which values are sorted, not on the order they arrived in.
\<close>

locale comparator =
  fixes cmp :: "'a \<Rightarrow> 'a \<Rightarrow> int" and D :: "'a set"
  assumes cmp_total: "x \<in> D \<Longrightarrow> y \<in> D \<Longrightarrow> cmp x y \<le> 0 \<or> cmp y x \<le> 0"
    and cmp_trans: "x \<in> D \<Longrightarrow> y \<in> D \<Longrightarrow> z \<in> D \<Longrightarrow> cmp x y \<le> 0 \<Longrightarrow> cmp y z \<le> 0 \<Longrightarrow> cmp x z \<le> 0"
begin

definition le :: "'a \<Rightarrow> 'a \<Rightarrow> bool" where
  "le x y \<longleftrightarrow> cmp x y \<le> 0"

lemma sorted_ins_by:
  "x \<in> D \<Longrightarrow> set xs \<subseteq> D \<Longrightarrow> sorted_wrt le xs \<Longrightarrow> sorted_wrt le (ins_by cmp x xs)"
proof (induction xs)
  case (Cons y ys)
  then show ?case
    unfolding le_def using cmp_total[of x y] by (auto intro: cmp_trans[of x y])
qed simp

lemma sorted_sort_by: "set xs \<subseteq> D \<Longrightarrow> sorted_wrt le (sort_by cmp xs)"
  by (induction xs) (simp_all add: sorted_ins_by)

lemma ins_by_head:
  "\<forall>y \<in> set xs. cmp x y \<le> 0 \<Longrightarrow> ins_by cmp x xs = x # xs"
  by (cases xs) auto

lemma sort_by_sorted: "sorted_wrt le xs \<Longrightarrow> sort_by cmp xs = xs"
  by (induction xs) (auto simp: ins_by_head le_def)

end

locale strict_comparator = comparator +
  assumes cmp_antisym: "x \<in> D \<Longrightarrow> y \<in> D \<Longrightarrow> cmp x y \<le> 0 \<Longrightarrow> cmp y x \<le> 0 \<Longrightarrow> x = y"
begin

lemma sorted_unique:
  "sorted_wrt le xs \<Longrightarrow> sorted_wrt le ys \<Longrightarrow> mset xs = mset ys \<Longrightarrow> set xs \<subseteq> D \<Longrightarrow> xs = ys"
proof (induction xs arbitrary: ys)
  case (Cons x xs)
  then obtain y ys' where ys: "ys = y # ys'" by (cases ys) auto
  have sets: "set (x # xs) = set ys" using Cons.prems(3) by (metis set_mset_mset)
  have "x = y"
  proof (rule ccontr)
    assume ne: "x \<noteq> y"
    then have "x \<in> set ys'" "y \<in> set xs" using sets ys by auto
    then have "cmp x y \<le> 0" "cmp y x \<le> 0"
      using Cons.prems(1,2) ys by (auto simp: le_def)
    with Cons.prems(4) \<open>y \<in> set xs\<close> ne show False using cmp_antisym by auto
  qed
  with Cons ys show ?case by auto
qed simp

lemma sort_by_perm:
  assumes "mset xs = mset ys" "set xs \<subseteq> D"
  shows "sort_by cmp xs = sort_by cmp ys"
proof (rule sorted_unique)
  have "set ys \<subseteq> D" using assms by (metis set_mset_mset)
  then show "sorted_wrt le (sort_by cmp ys)" by (rule sorted_sort_by)
qed (use assms in \<open>auto intro: sorted_sort_by\<close>)

end

end
