(* ===== verification/Decimal.thy ===== *)
theory Decimal
  imports Prelude
begin

text \<open>
  Decimal and hexadecimal text: \<open>BigInt.prototype.toString()\<close>, \<open>BigInt(text)\<close> and the
  hexadecimal codec of \<open>src/det/canonical.ts\<close> (\<open>toHex\<close>, \<open>fromHex\<close>).
\<close>

section \<open>Decimal text\<close>

definition is_digit :: "char \<Rightarrow> bool" where
  "is_digit c \<longleftrightarrow> 48 \<le> (of_char c :: nat) \<and> (of_char c :: nat) \<le> 57"

definition digit :: "nat \<Rightarrow> char" where
  "digit d = char_of (48 + d)"

definition digit_val :: "char \<Rightarrow> nat" where
  "digit_val c = of_char c - 48"

fun show_nat :: "nat \<Rightarrow> string" where
  "show_nat n = (if n < 10 then [digit n] else show_nat (n div 10) @ [digit (n mod 10)])"

declare show_nat.simps [simp del]

definition show_int :: "int \<Rightarrow> string" where
  "show_int n = (if n < 0 then CHR ''-'' # show_nat (nat (- n)) else show_nat (nat n))"

definition digits_val :: "string \<Rightarrow> nat" where
  "digits_val s = foldl (\<lambda>a c. 10 * a + digit_val c) 0 s"

text \<open>Canonical decimal text of a natural number: digits, no leading zero.\<close>

definition canon_digits :: "string \<Rightarrow> bool" where
  "canon_digits s \<longleftrightarrow> s \<noteq> [] \<and> list_all is_digit s \<and> (hd s = CHR ''0'' \<longrightarrow> tl s = [])"

lemma digit_val_digit [simp]: "d < 10 \<Longrightarrow> digit_val (digit d) = d"
  by (simp add: digit_val_def digit_def)

lemma is_digit_digit [simp]: "d < 10 \<Longrightarrow> is_digit (digit d)"
  by (simp add: is_digit_def digit_def)

lemma digit_digit_val [simp]: "is_digit c \<Longrightarrow> digit (digit_val c) = c"
  by (simp add: is_digit_def digit_def digit_val_def)

lemma digit_val_bound: "is_digit c \<Longrightarrow> digit_val c < 10"
  unfolding is_digit_def digit_val_def by linarith

lemma digit_eq_0: "d < 10 \<Longrightarrow> digit d = CHR ''0'' \<longleftrightarrow> d = 0"
proof -
  assume d: "d < 10"
  have "digit 0 = CHR ''0''" by code_simp
  then show ?thesis using d by (metis digit_val_digit zero_less_numeral)
qed

lemma digits_val_snoc: "digits_val (s @ [c]) = 10 * digits_val s + digit_val c"
  by (simp add: digits_val_def)

lemma digits_val_Nil [simp]: "digits_val [] = 0"
  by (simp add: digits_val_def)

lemma digits_val_show_nat [simp]: "digits_val (show_nat n) = n"
proof (induction n rule: show_nat.induct)
  case (1 n)
  show ?case
  proof (cases "n < 10")
    case True
    then show ?thesis
      using digits_val_snoc[of "[]" "digit n"] by (subst show_nat.simps) simp
  next
    case False
    with 1 show ?thesis by (subst show_nat.simps) (simp add: digits_val_snoc)
  qed
qed

lemma show_nat_inj: "show_nat m = show_nat n \<longleftrightarrow> m = n"
  by (metis digits_val_show_nat)

lemma show_nat_nonempty [simp]: "show_nat n \<noteq> []"
  by (subst show_nat.simps) simp

lemma show_nat_hd0: "hd (show_nat n) = CHR ''0'' \<longleftrightarrow> n = 0"
proof (induction n rule: show_nat.induct)
  case (1 n)
  show ?case
  proof (cases "n < 10")
    case True
    then show ?thesis by (subst show_nat.simps) (simp add: digit_eq_0)
  next
    case False
    with 1 show ?thesis by (subst show_nat.simps) (simp add: hd_append)
  qed
qed

lemma list_all_digit_show_nat [simp]: "list_all is_digit (show_nat n)"
proof (induction n rule: show_nat.induct)
  case (1 n)
  then show ?case by (subst show_nat.simps) simp
qed

lemma canon_digits_show_nat [simp]: "canon_digits (show_nat n)"
proof -
  have "n = 0 \<Longrightarrow> tl (show_nat n) = []" by (subst show_nat.simps) simp
  then show ?thesis by (auto simp: canon_digits_def show_nat_hd0)
qed

lemma digits_val_pos:
  "list_all is_digit s \<Longrightarrow> s \<noteq> [] \<Longrightarrow> hd s \<noteq> CHR ''0'' \<Longrightarrow> 0 < digits_val s"
proof (induction s rule: rev_induct)
  case (snoc c s)
  show ?case
  proof (cases "s = []")
    case True
    with snoc.prems have "is_digit c" "c \<noteq> CHR ''0''" by auto
    then have "digit_val c \<noteq> 0" using digit_eq_0[of "digit_val c"] digit_val_bound[of c] by auto
    with True show ?thesis using digits_val_snoc[of "[]" c] by simp
  next
    case False
    with snoc show ?thesis by (simp add: digits_val_snoc hd_append)
  qed
qed simp

lemma show_nat_digits_val: "canon_digits s \<Longrightarrow> show_nat (digits_val s) = s"
proof (induction s rule: rev_induct)
  case (snoc c s)
  from snoc.prems have c: "is_digit c" by (simp add: canon_digits_def)
  show ?case
  proof (cases "s = []")
    case True
    with c show ?thesis
      using digits_val_snoc[of "[]" c] by (subst show_nat.simps) (simp add: digit_val_bound)
  next
    case False
    with snoc.prems have s: "list_all is_digit s" "hd s \<noteq> CHR ''0''" "canon_digits s"
      by (auto simp: canon_digits_def hd_append)
    then have "0 < digits_val s" using digits_val_pos False by blast
    with c s(3) snoc.IH show ?thesis
      by (subst show_nat.simps) (simp add: digits_val_snoc digit_val_bound)
  qed
qed (simp add: canon_digits_def)

lemma show_nat_chars: "c \<in> set (show_nat n) \<Longrightarrow> is_digit c"
  using list_all_digit_show_nat[of n] by (simp add: list_all_iff)

lemma is_digit_minus [simp]: "\<not> is_digit CHR ''-''"
  by (simp add: is_digit_def)

lemma show_int_inj: "show_int m = show_int n \<longleftrightarrow> m = n"
proof -
  have "show_nat k \<noteq> CHR ''-'' # t" for k t
    using show_nat_chars[of "CHR ''-''" k] by auto
  then show ?thesis
    by (auto simp: show_int_def show_nat_inj split: if_splits)
      (metis)+
qed

lemma show_int_nonempty [simp]: "show_int n \<noteq> []"
  by (simp add: show_int_def)

lemma show_int_nonneg: "0 \<le> n \<Longrightarrow> show_int n = show_nat (nat n)"
  by (simp add: show_int_def)

section \<open>BigInt(text)\<close>

text \<open>
  \<open>BigInt\<close> of a string (StringToBigInt): surrounding white space is ignored, the empty text is
  0, a sign may precede decimal digits, and unsigned \<open>0x\<close>, \<open>0o\<close>, \<open>0b\<close> literals are read in
  their base. Anything else throws (\<open>None\<close>). White space is the code units below 256 that
  ECMAScript trims.
\<close>

definition is_space :: "char \<Rightarrow> bool" where
  "is_space c \<longleftrightarrow> (of_char c :: nat) \<in> {9, 10, 11, 12, 13, 32, 160}"

definition trim :: "string \<Rightarrow> string" where
  "trim s = rev (dropWhile is_space (rev (dropWhile is_space s)))"

definition base_digit :: "char \<Rightarrow> nat" where
  "base_digit c = (let n = of_char c in
     if 48 \<le> n \<and> n \<le> 57 then n - 48
     else if 97 \<le> n \<and> n \<le> 102 then n - 87
     else if 65 \<le> n \<and> n \<le> 70 then n - 55 else 16)"

definition parse_base :: "nat \<Rightarrow> string \<Rightarrow> nat option" where
  "parse_base b s = (if s \<noteq> [] \<and> list_all (\<lambda>c. base_digit c < b) s
     then Some (foldl (\<lambda>a c. b * a + base_digit c) 0 s) else None)"

definition BigInt_of :: "string \<Rightarrow> int option" where
  "BigInt_of txt = (let s = trim txt in
     case s of [] \<Rightarrow> Some 0
     | c # r \<Rightarrow>
       if c = CHR ''-'' then map_option (\<lambda>n. - int n) (parse_base 10 r)
       else if c = CHR ''+'' then map_option int (parse_base 10 r)
       else if c = CHR ''0'' \<and> r \<noteq> [] \<and> hd r \<in> set ''xX'' then map_option int (parse_base 16 (tl r))
       else if c = CHR ''0'' \<and> r \<noteq> [] \<and> hd r \<in> set ''oO'' then map_option int (parse_base 8 (tl r))
       else if c = CHR ''0'' \<and> r \<noteq> [] \<and> hd r \<in> set ''bB'' then map_option int (parse_base 2 (tl r))
       else map_option int (parse_base 10 s))"

lemma is_digit_not_space: "is_digit c \<Longrightarrow> \<not> is_space c"
  by (auto simp: is_digit_def is_space_def)

lemma base_digit_dec: "is_digit c \<Longrightarrow> base_digit c = digit_val c"
  by (auto simp: is_digit_def base_digit_def digit_val_def Let_def)

lemma trim_id: "(\<And>c. c \<in> set s \<Longrightarrow> \<not> is_space c) \<Longrightarrow> trim s = s"
proof -
  assume a: "\<And>c. c \<in> set s \<Longrightarrow> \<not> is_space c"
  have d: "dropWhile is_space t = t" if "\<And>c. c \<in> set t \<Longrightarrow> \<not> is_space c" for t
    using that by (cases t) auto
  have "dropWhile is_space s = s" "dropWhile is_space (rev s) = rev s"
    using a by (auto intro: d)
  then show ?thesis by (simp add: trim_def)
qed

lemma parse_base_dec:
  assumes "list_all is_digit s" "s \<noteq> []"
  shows "parse_base 10 s = Some (digits_val s)"
proof -
  have "foldl (\<lambda>a c. 10 * a + base_digit c) k s = foldl (\<lambda>a c. 10 * a + digit_val c) k s" for k
    using assms(1) by (induction s arbitrary: k) (auto simp: base_digit_dec)
  moreover have "list_all (\<lambda>c. base_digit c < 10) s"
    using assms(1) by (auto simp: list_all_iff base_digit_dec digit_val_bound)
  ultimately show ?thesis using assms(2) by (simp add: parse_base_def digits_val_def)
qed

lemma BigInt_of_digits:
  assumes "canon_digits s"
  shows "BigInt_of s = Some (int (digits_val s))"
proof -
  have d: "list_all is_digit s" "s \<noteq> []" using assms by (auto simp: canon_digits_def)
  obtain c r where s: "s = c # r" using d(2) by (cases s) auto
  have "trim s = s" using d(1) by (auto intro!: trim_id dest: is_digit_not_space simp: list_all_iff)
  moreover have "is_digit c" using d(1) s by simp
  then have "c \<noteq> CHR ''-''" "c \<noteq> CHR ''+''" by (auto simp: is_digit_def)
  moreover have "c = CHR ''0'' \<Longrightarrow> r = []" using assms s by (simp add: canon_digits_def)
  ultimately show ?thesis
    using parse_base_dec[OF d] s by (auto simp: BigInt_of_def Let_def)
qed

text \<open>\<open>BigInt(n.toString()) = n\<close>.\<close>

lemma BigInt_of_show_int [simp]: "BigInt_of (show_int n) = Some n"
proof (cases "n < 0")
  case False
  then show ?thesis by (simp add: show_int_def BigInt_of_digits)
next
  case True
  let ?d = "show_nat (nat (- n))"
  have "trim (CHR ''-'' # ?d) = CHR ''-'' # ?d"
  proof (rule trim_id)
    show "\<not> is_space c" if "c \<in> set (CHR ''-'' # ?d)" for c
      using that by (auto simp: is_space_def dest!: show_nat_chars is_digit_not_space)
  qed
  with True show ?thesis
    by (simp add: show_int_def BigInt_of_def Let_def parse_base_dec)
qed

section \<open>Hexadecimal text\<close>

definition hex_digit :: "nat \<Rightarrow> char" where
  "hex_digit d = (if d < 10 then char_of (48 + d) else char_of (87 + d))"

definition hex_val :: "char \<Rightarrow> nat option" where
  "hex_val c = (if base_digit c < 16 then Some (base_digit c) else None)"

primrec toHex :: "bytes \<Rightarrow> string" where
  "toHex [] = []"
| "toHex (b # bs) = hex_digit (unat b div 16) # hex_digit (unat b mod 16) # toHex bs"

text \<open>\<open>Buffer.from(h, "hex")\<close> stops at the first pair that is not hexadecimal.\<close>

fun fromHex :: "string \<Rightarrow> bytes" where
  "fromHex (c # d # r) = (case (hex_val c, hex_val d) of
     (Some a, Some b) \<Rightarrow> of_nat (16 * a + b) # fromHex r
   | _ \<Rightarrow> [])"
| "fromHex _ = []"

lemma base_digit_hex_digit: "d < 16 \<Longrightarrow> base_digit (hex_digit d) = d"
  by (auto simp: base_digit_def hex_digit_def Let_def)

lemma hex_val_hex_digit [simp]: "d < 16 \<Longrightarrow> hex_val (hex_digit d) = Some d"
  by (simp add: hex_val_def base_digit_hex_digit)

lemma byte_div16: "unat (b :: 8 word) div 16 < 16"
proof -
  have "unat b < 2 ^ LENGTH(8)" by (rule unsigned_less)
  then show ?thesis by (simp add: less_mult_imp_div_less)
qed

lemma fromHex_toHex [simp]: "fromHex (toHex bs) = bs"
  by (induction bs) (auto simp: byte_div16)

lemma toHex_inj: "toHex a = toHex b \<longleftrightarrow> a = b"
  by (metis fromHex_toHex)

lemma length_toHex [simp]: "length (toHex bs) = 2 * length bs"
  by (induction bs) auto

definition is_hex_lower :: "char \<Rightarrow> bool" where
  "is_hex_lower c \<longleftrightarrow> is_digit c \<or> (97 \<le> (of_char c :: nat) \<and> (of_char c :: nat) \<le> 102)"

lemma is_hex_lower_hex_digit: "d < 16 \<Longrightarrow> is_hex_lower (hex_digit d)"
  by (auto simp: is_hex_lower_def is_digit_def hex_digit_def)

lemma toHex_lower: "list_all is_hex_lower (toHex bs)"
  by (induction bs) (auto simp: is_hex_lower_hex_digit byte_div16)

lemma hex_digit_base: "is_hex_lower c \<Longrightarrow> base_digit c < 16 \<and> hex_digit (base_digit c) = c"
proof -
  assume c: "is_hex_lower c"
  let ?n = "of_char c :: nat"
  have "?n \<le> 57 \<and> 48 \<le> ?n \<or> 97 \<le> ?n \<and> ?n \<le> 102" using c by (auto simp: is_hex_lower_def is_digit_def)
  then have "base_digit c < 16 \<and> hex_digit (base_digit c) = char_of ?n"
    by (auto simp: base_digit_def hex_digit_def Let_def)
  then show ?thesis by simp
qed

text \<open>Lower-case hexadecimal text of even length is the text of the bytes it decodes to.\<close>

lemma toHex_fromHex:
  "list_all is_hex_lower s \<Longrightarrow> even (length s) \<Longrightarrow> toHex (fromHex s) = s \<and> length (fromHex s) = length s div 2"
proof (induction s rule: fromHex.induct)
  case (1 c d r)
  then have "base_digit c < 16" "hex_digit (base_digit c) = c" "base_digit d < 16" "hex_digit (base_digit d) = d"
    using hex_digit_base by auto
  moreover from this have "unat (word_of_nat (16 * base_digit c + base_digit d) :: 8 word) = 16 * base_digit c + base_digit d"
    by (simp add: unat_of_nat take_bit_nat_eq_self del: of_nat_add of_nat_mult)
  ultimately show ?case using 1 by (auto simp: hex_val_def simp del: of_nat_add of_nat_mult)
qed auto

lemma fromHex_inj:
  "list_all is_hex_lower s \<Longrightarrow> list_all is_hex_lower t \<Longrightarrow> even (length s) \<Longrightarrow> even (length t) \<Longrightarrow>
   fromHex s = fromHex t \<longleftrightarrow> s = t"
  by (metis toHex_fromHex)

end
