(* ===== verification/Canonical.thy ===== *)
theory Canonical
  imports Decimal
begin

text \<open>
  \<open>src/det/canonical.ts\<close>: byte helpers and canonical JSON.

  A JSON-shaped value is \<open>json\<close>. An object is the list of its own properties in insertion order
  with distinct keys. A number is \<open>JInt\<close> when it is integer valued (and below \<open>10 ^ 21\<close>, where
  \<open>JSON.stringify\<close> prints plain digits), otherwise \<open>JNum\<close> with the text it prints as.
  \<open>sortValue\<close> builds its result by assignment \<open>out[k] = \<dots>\<close>; assigning the key \<open>__proto__\<close> sets
  the prototype of \<open>out\<close> and creates no own property, so the model drops that member as the code
  does. \<open>show_json\<close> is \<open>JSON.stringify\<close>: it lists array-index keys first, in numeric order, then
  the others in insertion order.

  SHA-256 (\<open>node:crypto\<close>) is the parameter \<open>H :: bytes \<Rightarrow> bytes\<close> of every definition that hashes.
\<close>

section \<open>Bytes\<close>

definition utf8_char :: "char \<Rightarrow> bytes" where
  "utf8_char c = (let n = of_char c :: nat in
     if n < 128 then [of_nat n] else [of_nat (192 + n div 64), of_nat (128 + n mod 64)])"

definition utf8 :: "string \<Rightarrow> bytes" where
  "utf8 s = concat (map utf8_char s)"

definition sha256Hex :: "(bytes \<Rightarrow> bytes) \<Rightarrow> string \<Rightarrow> string" where
  "sha256Hex H s = toHex (H (utf8 s))"

definition concatBytes :: "bytes list \<Rightarrow> bytes" where
  "concatBytes arrs = concat arrs"

definition u32be :: "int \<Rightarrow> bytes" where
  "u32be n = (let w = (word_of_int n :: 32 word) in
     [ucast (drop_bit 24 w), ucast (drop_bit 16 w), ucast (drop_bit 8 w), ucast w])"

fun cmpBytes :: "bytes \<Rightarrow> bytes \<Rightarrow> int" where
  "cmpBytes (x # xs) (y # ys) = (if x \<noteq> y then int (unat x) - int (unat y) else cmpBytes xs ys)"
| "cmpBytes xs ys = int (length xs) - int (length ys)"

lemma length_u32be [simp]: "length (u32be n) = 4"
  by (simp add: u32be_def Let_def)

lemma bit_ucast_byte:
  "bit (ucast (drop_bit k w) :: 8 word) i \<longleftrightarrow> i < 8 \<and> bit (w :: 32 word) (k + i)"
  by (auto simp: bit_simps)

text \<open>\<open>u32be\<close> is injective on 32-bit values.\<close>

lemma u32be_inj: "u32be m = u32be n \<longleftrightarrow> (word_of_int m :: 32 word) = word_of_int n"
proof
  assume eq: "u32be m = u32be n"
  show "(word_of_int m :: 32 word) = word_of_int n"
  proof (rule bit_word_eqI)
    fix i assume i: "i < LENGTH(32)"
    let ?j = "i - i mod 8"
    have "i div 8 = 0 \<or> i div 8 = 1 \<or> i div 8 = 2 \<or> i div 8 = 3" using i by simp linarith
    moreover have "?j = 8 * (i div 8)" by (simp add: minus_mod_eq_mult_div)
    ultimately have "?j \<in> {0, 8, 16, 24}" by auto
    then have "(ucast (drop_bit ?j (word_of_int m :: 32 word)) :: 8 word)
                 = ucast (drop_bit ?j (word_of_int n :: 32 word))"
      using eq by (auto simp: u32be_def Let_def)
    then have "bit (word_of_int m :: 32 word) (?j + i mod 8) = bit (word_of_int n :: 32 word) (?j + i mod 8)"
      by (metis bit_ucast_byte mod_less_divisor zero_less_numeral)
    then show "bit (word_of_int m :: 32 word) i = bit (word_of_int n :: 32 word) i"
      by (simp add: le_add_diff_inverse2)
  qed
qed (simp add: u32be_def)

lemma u32be_inj_range:
  "0 \<le> m \<Longrightarrow> m < 2 ^ 32 \<Longrightarrow> 0 \<le> n \<Longrightarrow> n < 2 ^ 32 \<Longrightarrow> u32be m = u32be n \<longleftrightarrow> m = n"
  by (simp add: u32be_inj word_of_int_eq_iff take_bit_int_eq_self)

lemma utf8_char_prefix: "utf8_char c @ r = utf8_char d @ s \<Longrightarrow> c = d \<and> r = s"
proof -
  assume eq: "utf8_char c @ r = utf8_char d @ s"
  have b: "(of_char c :: nat) < 256" "(of_char d :: nat) < 256"
    by (simp_all add: nat_of_char_less_256)
  have inj: "of_nat a = (of_nat b :: 8 word) \<longleftrightarrow> a = b" if "a < 256" "b < 256" for a b :: nat
    using that by (simp add: word_of_nat_eq_iff take_bit_nat_eq_self)
  have "(of_char c :: nat) = of_char d \<and> r = s"
  proof (cases "(of_char c :: nat) < 128"; cases "(of_char d :: nat) < 128")
    assume "\<not> (of_char c :: nat) < 128" "\<not> (of_char d :: nat) < 128"
    moreover from this eq b have "(of_char c :: nat) div 64 = of_char d div 64"
      "(of_char c :: nat) mod 64 = of_char d mod 64" "r = s"
      by (auto simp: utf8_char_def Let_def inj simp del: of_nat_add)
    ultimately show ?thesis by (metis div_mult_mod_eq)
  qed (use eq b in \<open>auto simp: utf8_char_def Let_def inj simp del: of_nat_add\<close>)
  then show ?thesis by (metis of_char_eq_iff)
qed

lemma utf8_inj: "utf8 s = utf8 t \<longleftrightarrow> s = t"
proof
  show "utf8 s = utf8 t \<Longrightarrow> s = t"
  proof (induction s arbitrary: t)
    case Nil
    then show ?case by (cases t) (auto simp: utf8_def utf8_char_def Let_def split: if_splits)
  next
    case (Cons c s)
    then obtain d t' where t: "t = d # t'"
      by (cases t) (auto simp: utf8_def utf8_char_def Let_def split: if_splits)
    with Cons.prems have "utf8_char c @ utf8 s = utf8_char d @ utf8 t'"
      by (simp add: utf8_def)
    with Cons.IH t show ?case by (auto dest: utf8_char_prefix)
  qed
qed simp

lemma cmpBytes_self [simp]: "cmpBytes a a = 0"
  by (induction a) auto

lemma cmpBytes_eq0: "length a = length b \<Longrightarrow> cmpBytes a b = 0 \<longleftrightarrow> a = b"
  by (induction a b rule: cmpBytes.induct) (auto simp: word_uint_eq_iff)

lemma cmpBytes_antisym: "cmpBytes b a = - cmpBytes a b"
  by (induction a b rule: cmpBytes.induct) auto

lemma cmpBytes_Nil [simp]: "cmpBytes [] ys = - int (length ys)" "cmpBytes xs [] = int (length xs)"
  by (cases ys; simp) (cases xs; simp)

lemma cmpBytes_trans: "cmpBytes a b \<le> 0 \<Longrightarrow> cmpBytes b c \<le> 0 \<Longrightarrow> cmpBytes a c \<le> 0"
proof (induction a arbitrary: b c)
  case (Cons x xs)
  obtain y ys where b: "b = y # ys" using Cons.prems(1) by (cases b) auto
  obtain z zs where c: "c = z # zs" using Cons.prems(2) b by (cases c) auto
  show ?case using Cons b c by (auto split: if_splits simp: word_uint_eq_iff)
qed simp

end
