(* ===== verification/Json.thy ===== *)
theory Json
  imports Canonical
begin

text \<open>
  \<open>src/det/canonical.ts\<close>, canonical JSON: the value type, \<open>JSON.stringify\<close>, \<open>sortValue\<close> and
  \<open>canonicalize\<close>, with the unique decodability of the text.
\<close>

section \<open>Values and JSON.stringify\<close>

datatype json =
    JNull
  | JBool bool
  | JInt int
  | JNum string
  | JStr string
  | JArr "json list"
  | JObj "(string \<times> json) list"

definition esc :: "char \<Rightarrow> string" where
  "esc c = (if c = CHR 0x22 then [CHR 0x5C, CHR 0x22]
     else if c = CHR 0x5C then [CHR 0x5C, CHR 0x5C]
     else if c = CHR 0x08 then [CHR 0x5C, CHR ''b'']
     else if c = CHR 0x09 then [CHR 0x5C, CHR ''t'']
     else if c = CHR 0x0A then [CHR 0x5C, CHR ''n'']
     else if c = CHR 0x0C then [CHR 0x5C, CHR ''f'']
     else if c = CHR 0x0D then [CHR 0x5C, CHR ''r'']
     else let n = of_char c :: nat in
       if n < 32 then [CHR 0x5C, CHR ''u'', CHR ''0'', CHR ''0'', hex_digit (n div 16), hex_digit (n mod 16)]
       else [c])"

definition quote :: "string \<Rightarrow> string" where
  "quote s = CHR 0x22 # concat (map esc s) @ [CHR 0x22]"

fun commas :: "string list \<Rightarrow> string" where
  "commas [] = []"
| "commas [x] = x"
| "commas (x # y # zs) = x @ CHR '','' # commas (y # zs)"

text \<open>Array indices: canonical decimal text of \<open>0 \<dots> 2 ^ 32 - 2\<close>; such keys enumerate first.\<close>

definition is_index :: "string \<Rightarrow> bool" where
  "is_index k \<longleftrightarrow> canon_digits k \<and> digits_val k \<le> 4294967294"

definition own_order :: "(string \<times> 'v) list \<Rightarrow> (string \<times> 'v) list" where
  "own_order kvs = sort_key (\<lambda>p. digits_val (fst p)) (filter (\<lambda>p. is_index (fst p)) kvs)
                     @ filter (\<lambda>p. \<not> is_index (fst p)) kvs"

primrec show_json :: "json \<Rightarrow> string" where
  "show_json JNull = ''null''"
| "show_json (JBool b) = (if b then ''true'' else ''false'')"
| "show_json (JInt n) = show_int n"
| "show_json (JNum t) = t"
| "show_json (JStr s) = quote s"
| "show_json (JArr xs) = CHR ''['' # commas (map show_json xs) @ '']''"
| "show_json (JObj kvs) = CHR 0x7B #
     commas (map (\<lambda>(k, t). quote k @ CHR '':'' # t) (own_order (map (map_prod id show_json) kvs))) @ [CHR 0x7D]"

primrec sortValue :: "json \<Rightarrow> json" where
  "sortValue JNull = JNull"
| "sortValue (JBool b) = JBool b"
| "sortValue (JInt n) = JInt n"
| "sortValue (JNum t) = JNum t"
| "sortValue (JStr s) = JStr s"
| "sortValue (JArr xs) = JArr (map sortValue xs)"
| "sortValue (JObj kvs) = JObj (filter (\<lambda>(k, _). k \<noteq> ''__proto__'')
     (sort_key fst (map (map_prod id sortValue) kvs)))"

definition canonicalize :: "json \<Rightarrow> string" where
  "canonicalize v = show_json (sortValue v)"

definition canonicalBytes :: "json \<Rightarrow> bytes" where
  "canonicalBytes v = utf8 (canonicalize v)"

text \<open>Reading a member with the type the code tests for (\<open>typeof v === "string"\<close> and the like).\<close>

definition str_at :: "(string \<times> json) list \<Rightarrow> string \<Rightarrow> string option" where
  "str_at kvs k = (case map_of kvs k of Some (JStr s) \<Rightarrow> Some s | _ \<Rightarrow> None)"

definition int_at :: "(string \<times> json) list \<Rightarrow> string \<Rightarrow> int option" where
  "int_at kvs k = (case map_of kvs k of Some (JInt n) \<Rightarrow> Some n | _ \<Rightarrow> None)"

definition arr_at :: "(string \<times> json) list \<Rightarrow> string \<Rightarrow> json list option" where
  "arr_at kvs k = (case map_of kvs k of Some (JArr xs) \<Rightarrow> Some xs | _ \<Rightarrow> None)"

lemma str_at_Some [simp]: "str_at kvs k = Some s \<longleftrightarrow> map_of kvs k = Some (JStr s)"
  by (auto simp: str_at_def split: option.splits json.splits)

lemma int_at_Some [simp]: "int_at kvs k = Some n \<longleftrightarrow> map_of kvs k = Some (JInt n)"
  by (auto simp: int_at_def split: option.splits json.splits)

lemma arr_at_Some [simp]: "arr_at kvs k = Some xs \<longleftrightarrow> map_of kvs k = Some (JArr xs)"
  by (auto simp: arr_at_def split: option.splits json.splits)

section \<open>Well-formed values\<close>

text \<open>Text of a number that is not an integer: it shows a point or an exponent.\<close>

definition num_char :: "char \<Rightarrow> bool" where
  "num_char c \<longleftrightarrow> is_digit c \<or> c \<in> set ''+-.e''"

definition num_text :: "string \<Rightarrow> bool" where
  "num_text t \<longleftrightarrow> t \<noteq> [] \<and> list_all num_char t \<and> (is_digit (hd t) \<or> hd t = CHR ''-'')
     \<and> (CHR ''.'' \<in> set t \<or> CHR ''e'' \<in> set t)"

primrec wf_json :: "json \<Rightarrow> bool" where
  "wf_json JNull \<longleftrightarrow> True"
| "wf_json (JBool b) \<longleftrightarrow> True"
| "wf_json (JInt n) \<longleftrightarrow> True"
| "wf_json (JNum t) \<longleftrightarrow> num_text t"
| "wf_json (JStr s) \<longleftrightarrow> True"
| "wf_json (JArr xs) \<longleftrightarrow> list_all (\<lambda>b. b) (map wf_json xs)"
| "wf_json (JObj kvs) \<longleftrightarrow> distinct (map fst kvs) \<and> list_all snd (map (map_prod id wf_json) kvs)"

lemma wf_json_JArr [simp]: "wf_json (JArr xs) \<longleftrightarrow> (\<forall>x \<in> set xs. wf_json x)"
  by (auto simp: list_all_iff)

lemma wf_json_JObj [simp]:
  "wf_json (JObj kvs) \<longleftrightarrow> distinct (keys kvs) \<and> (\<forall>(k, v) \<in> set kvs. wf_json v)"
  by (auto simp: list_all_iff)

declare wf_json.simps(6,7) [simp del]

section \<open>Key order of objects\<close>

lemma mset_own_order [simp]: "mset (own_order kvs) = mset kvs"
  by (induction kvs) (auto simp: own_order_def)

lemma set_own_order [simp]: "set (own_order kvs) = set kvs"
  by (metis mset_own_order set_mset_mset)

lemma own_order_map_prod: "own_order (map (map_prod id f) kvs) = map (map_prod id f) (own_order kvs)"
proof -
  have ins: "map (map_prod id f) (insort_key (\<lambda>p. digits_val (fst p)) x ys)
      = insort_key (\<lambda>p. digits_val (fst p)) (map_prod id f x) (map (map_prod id f) ys)" for x ys
    by (induction ys) auto
  have "sort_key (\<lambda>p. digits_val (fst p)) (map (map_prod id f) ys)
      = map (map_prod id f) (sort_key (\<lambda>p. digits_val (fst p)) ys)" for ys
    by (induction ys) (simp_all add: ins[unfolded id_def] id_def)
  moreover have "filter (\<lambda>p. P (fst p)) (map (map_prod id f) kvs)
      = map (map_prod id f) (filter (\<lambda>p. P (fst p)) kvs)" for P
    by (simp add: filter_map o_def)
  ultimately show ?thesis by (simp add: own_order_def)
qed

text \<open>Objects printed in the order \<open>JSON.stringify\<close> visits them, nested ones included.\<close>

primrec ordered :: "json \<Rightarrow> json" where
  "ordered JNull = JNull"
| "ordered (JBool b) = JBool b"
| "ordered (JInt n) = JInt n"
| "ordered (JNum t) = JNum t"
| "ordered (JStr s) = JStr s"
| "ordered (JArr xs) = JArr (map ordered xs)"
| "ordered (JObj kvs) = JObj (own_order (map (map_prod id ordered) kvs))"

primrec show_raw :: "json \<Rightarrow> string" where
  "show_raw JNull = ''null''"
| "show_raw (JBool b) = (if b then ''true'' else ''false'')"
| "show_raw (JInt n) = show_int n"
| "show_raw (JNum t) = t"
| "show_raw (JStr s) = quote s"
| "show_raw (JArr xs) = CHR ''['' # commas (map show_raw xs) @ '']''"
| "show_raw (JObj kvs) = CHR 0x7B #
     commas (map (\<lambda>(k, t). quote k @ CHR '':'' # t) (map (map_prod id show_raw) kvs)) @ [CHR 0x7D]"

lemma show_json_raw: "show_json v = show_raw (ordered v)"
proof (induction v)
  case (JArr xs)
  then show ?case by (simp cong: map_cong)
next
  case (JObj kvs)
  have eq: "map (map_prod id show_json) kvs = map (map_prod id show_raw) (map (map_prod id ordered) kvs)"
    unfolding map_map using JObj by (intro map_cong refl) auto
  show ?case
    unfolding show_json.simps ordered.simps show_raw.simps eq own_order_map_prod ..
qed simp_all

section \<open>Unique decodability\<close>

text \<open>What may follow a value: the end of the text, a comma or a closing bracket.\<close>

definition delim :: "string \<Rightarrow> bool" where
  "delim r \<longleftrightarrow> r = [] \<or> hd r \<in> {CHR '','', CHR '']'', CHR 0x7D}"

lemma hex_digit_inj: "a < 16 \<Longrightarrow> b < 16 \<Longrightarrow> hex_digit a = hex_digit b \<longleftrightarrow> a = b"
  by (metis base_digit_hex_digit)

text \<open>The inverse of \<open>esc\<close>: one character read off the front of a quoted text.\<close>

definition unesc :: "string \<Rightarrow> (char \<times> string) option" where
  "unesc s = (case s of [] \<Rightarrow> None | x # t \<Rightarrow>
     if x \<noteq> CHR 0x5C then Some (x, t)
     else (case t of [] \<Rightarrow> None | y # u \<Rightarrow>
       if y = CHR ''b'' then Some (CHR 0x08, u)
       else if y = CHR ''t'' then Some (CHR 0x09, u)
       else if y = CHR ''n'' then Some (CHR 0x0A, u)
       else if y = CHR ''f'' then Some (CHR 0x0C, u)
       else if y = CHR ''r'' then Some (CHR 0x0D, u)
       else if y = CHR ''u'' then
         Some (char_of (16 * base_digit (u ! 2) + base_digit (u ! 3)), drop 4 u)
       else Some (y, u)))"

lemma unesc_esc [simp]: "unesc (esc c @ r) = Some (c, r)"
  by (simp add: esc_def unesc_def Let_def base_digit_hex_digit)

lemma esc_hd: "hd (esc c) \<noteq> CHR 0x22" "esc c \<noteq> []"
  by (auto simp: esc_def Let_def)

lemma esc_prefix: "esc c @ r = esc d @ s \<Longrightarrow> c = d \<and> r = s"
  by (metis unesc_esc option.inject prod.inject)

lemma quote_prefix: "quote k @ r = quote k' @ s \<Longrightarrow> k = k' \<and> r = s"
proof -
  have "concat (map esc k) @ CHR 0x22 # r = concat (map esc k') @ CHR 0x22 # s \<Longrightarrow> k = k' \<and> r = s"
  proof (induction k arbitrary: k')
    case Nil
    show ?case
    proof (cases k')
      case (Cons c' k'')
      with Nil esc_hd[of c'] show ?thesis by (cases "esc c'") auto
    qed (use Nil in simp)
  next
    case (Cons c k)
    show ?case
    proof (cases k')
      case Nil
      with Cons.prems esc_hd[of c] show ?thesis by (cases "esc c") auto
    next
      case (Cons c' k'')
      with Cons.prems have "c = c' \<and> concat (map esc k) @ CHR 0x22 # r = concat (map esc k'') @ CHR 0x22 # s"
        by (intro esc_prefix) simp
      with Cons.IH Cons show ?thesis by blast
    qed
  qed
  then show "quote k @ r = quote k' @ s \<Longrightarrow> k = k' \<and> r = s" by (simp add: quote_def)
qed

lemma commas_inj:
  assumes sh: "\<And>x y r s. x \<in> set xs \<Longrightarrow> y \<in> set ys \<Longrightarrow> sh x @ r = sh y @ s \<Longrightarrow> delim r \<Longrightarrow> delim s \<Longrightarrow> x = y \<and> r = s"
    and hd: "\<And>x. x \<in> set xs \<union> set ys \<Longrightarrow> sh x \<noteq> [] \<and> hd (sh x) \<noteq> c"
    and c: "c \<in> {CHR '']'', CHR 0x7D}"
    and eq: "commas (map sh xs) @ c # r = commas (map sh ys) @ c # s"
  shows "xs = ys \<and> r = s"
  using sh hd eq
proof (induction xs arbitrary: ys)
  case Nil
  show ?case
  proof (cases ys)
    case (Cons y ys')
    have "hd (commas (map sh ys) @ c # s) = hd (sh y)"
      using Nil.prems(2)[of y] Cons by (cases ys') auto
    with Nil.prems(2)[of y] Nil.prems(3) Cons show ?thesis by (metis append_Nil commas.simps(1) list.sel(1) list.set_intros(1) list.simps(8) UnI2)
  qed (use Nil in simp)
next
  case (Cons x xs)
  have cs: "commas (sh x # map sh xs) @ c # r = sh x @ (if xs = [] then [] else CHR '','' # commas (map sh xs)) @ c # r" for x xs r
    by (cases xs) auto
  show ?case
  proof (cases ys)
    case Nil
    have "hd (commas (map sh (x # xs)) @ c # r) = hd (sh x)"
      using Cons.prems(2)[of x] by (cases xs) auto
    with Cons.prems(2)[of x] Cons.prems(3) Nil show ?thesis by simp
  next
    case ys: (Cons y ys')
    let ?t = "\<lambda>zs q. (if zs = [] then [] else CHR '','' # commas (map sh zs)) @ c # q"
    have "sh x @ ?t xs r = sh y @ ?t ys' s"
      using Cons.prems(3) ys by (simp add: cs)
    moreover have "delim (?t xs r)" "delim (?t ys' s)" using c by (auto simp: delim_def)
    ultimately have xy: "x = y" and t: "?t xs r = ?t ys' s"
      using Cons.prems(1)[of x y "?t xs r" "?t ys' s"] ys by auto
    have "CHR '','' \<noteq> c" using c by auto
    with t have e: "commas (map sh xs) @ c # r = commas (map sh ys') @ c # s"
      by (auto split: if_splits)
    have "xs = ys' \<and> r = s"
      by (rule Cons.IH) (use Cons.prems(1,2) ys e in \<open>auto\<close>)
    with xy ys show ?thesis by simp
  qed
qed

text \<open>The first character tells the kind of a value.\<close>

definition kind :: "json \<Rightarrow> nat" where
  "kind v = (case v of JNull \<Rightarrow> 0 | JBool _ \<Rightarrow> 1 | JInt _ \<Rightarrow> 2 | JNum _ \<Rightarrow> 2 | JStr _ \<Rightarrow> 3 | JArr _ \<Rightarrow> 4 | JObj _ \<Rightarrow> 5)"

definition char_kind :: "char \<Rightarrow> nat" where
  "char_kind c = (if c = CHR ''n'' then 0 else if c = CHR ''t'' \<or> c = CHR ''f'' then 1
     else if is_digit c \<or> c = CHR ''-'' then 2 else if c = CHR 0x22 then 3
     else if c = CHR ''['' then 4 else if c = CHR 0x7B then 5 else 6)"

lemma not_digit_chars [simp]:
  "\<not> is_digit CHR ''n''" "\<not> is_digit CHR ''t''" "\<not> is_digit CHR ''f''" "\<not> is_digit CHR 0x22"
  "\<not> is_digit CHR ''[''" "\<not> is_digit CHR 0x7B" "\<not> is_digit CHR '']''" "\<not> is_digit CHR 0x7D"
  "\<not> is_digit CHR '',''" "\<not> is_digit CHR ''.''" "\<not> is_digit CHR ''e''"
  by (simp_all add: is_digit_def)

lemma digit_kind: "is_digit c \<Longrightarrow> char_kind c = 2"
  by (auto simp: char_kind_def)

lemma show_int_hd: "is_digit (hd (show_int n)) \<or> hd (show_int n) = CHR ''-''"
  using show_nat_chars[OF hd_in_set[OF show_nat_nonempty]] by (simp add: show_int_def)

lemma show_raw_kind: "wf_json v \<Longrightarrow> show_raw v \<noteq> [] \<and> char_kind (hd (show_raw v)) = kind v"
proof (cases v)
  case (JInt n)
  then show ?thesis using show_int_hd[of n] by (auto simp: kind_def digit_kind) (auto simp: char_kind_def)
next
  case (JNum t)
  moreover assume "wf_json v"
  ultimately show ?thesis by (auto simp: kind_def num_text_def digit_kind) (auto simp: char_kind_def)
qed (auto simp: kind_def char_kind_def quote_def)

lemma show_raw_not_closing:
  assumes "wf_json v" "c \<in> {CHR '']'', CHR 0x7D}"
  shows "show_raw v \<noteq> [] \<and> hd (show_raw v) \<noteq> c"
proof -
  have "char_kind CHR '']'' = 6" "char_kind CHR 0x7D = 6" by code_simp+
  with assms(2) have "char_kind c = 6" by fast
  moreover have "kind v < 6" by (cases v) (simp_all add: kind_def)
  ultimately show ?thesis using show_raw_kind[OF assms(1)] by auto
qed

lemma show_int_num: "list_all num_char (show_int n)" "CHR ''.'' \<notin> set (show_int n)" "CHR ''e'' \<notin> set (show_int n)"
  by (auto simp: show_int_def list_all_iff num_char_def dest!: show_nat_chars)

lemma num_prefix:
  assumes "list_all num_char t" "list_all num_char u" "delim r" "delim s" "t @ r = u @ s"
  shows "t = u \<and> r = s"
proof -
  have d: "takeWhile num_char (x @ y) = x" if "list_all num_char x" "delim y" for x y
    using that by (cases y) (auto simp: list_all_iff delim_def num_char_def takeWhile_append2)
  have "t = u" using d[OF assms(1,3)] d[OF assms(2,4)] assms(5) by simp
  with assms(5) show ?thesis by simp
qed

lemma show_raw_prefix:
  "wf_json v \<Longrightarrow> wf_json w \<Longrightarrow> delim r \<Longrightarrow> delim s \<Longrightarrow> show_raw v @ r = show_raw w @ s \<Longrightarrow> v = w \<and> r = s"
proof (induction v arbitrary: w r s)
  case JNull
  then have "kind w = 0" using show_raw_kind[of w] by (cases "show_raw w") (auto simp: char_kind_def)
  with JNull show ?case by (cases w) (auto simp: kind_def)
next
  case (JBool b)
  then have "kind w = 1" using show_raw_kind[of w]
    by (cases "show_raw w") (auto simp: char_kind_def split: if_splits)
  with JBool show ?case by (cases w) (auto simp: kind_def split: if_splits)
next
  case (JInt n)
  have "char_kind (hd (show_raw w)) = 2"
    using JInt show_raw_kind[of w] show_raw_kind[of "JInt n"]
    by (cases "show_raw w"; cases "show_int n") (auto simp: kind_def)
  then have "kind w = 2" using JInt show_raw_kind by metis
  then show ?case
  proof (cases w)
    case w: (JInt m)
    with JInt num_prefix[of "show_int n" "show_int m" r s] show ?thesis by (simp add: show_int_num show_int_inj)
  next
    case w: (JNum t)
    with JInt num_prefix[of "show_int n" t r s] have "show_int n = t" by (simp add: show_int_num num_text_def)
    with w JInt show ?thesis using show_int_num[of n] by (auto simp: num_text_def)
  qed (auto simp: kind_def)
next
  case (JNum t)
  have "char_kind (hd (show_raw w)) = 2"
    using JNum show_raw_kind[of w] show_raw_kind[of "JNum t"]
    by (cases "show_raw w"; cases t) (auto simp: kind_def)
  then have "kind w = 2" using JNum show_raw_kind by metis
  then show ?case
  proof (cases w)
    case w: (JInt m)
    with JNum num_prefix[of t "show_int m" r s] have "show_int m = t" by (simp add: show_int_num num_text_def)
    with w JNum show ?thesis using show_int_num[of m] by (auto simp: num_text_def)
  next
    case w: (JNum t')
    with JNum num_prefix[of t t' r s] show ?thesis by (simp add: num_text_def)
  qed (auto simp: kind_def)
next
  case (JStr t)
  then have "kind w = 3" using show_raw_kind[of w] by (cases "show_raw w") (auto simp: char_kind_def quote_def)
  then obtain t' where "w = JStr t'" by (cases w) (auto simp: kind_def)
  with JStr quote_prefix[of t r t' s] show ?case by simp
next
  case (JArr xs)
  then have "kind w = 4" using show_raw_kind[of w] by (cases "show_raw w") (auto simp: char_kind_def)
  then obtain ys where w: "w = JArr ys" by (cases w) (auto simp: kind_def)
  have "xs = ys \<and> r = s"
  proof (rule commas_inj[where sh = show_raw and c = "CHR '']''"])
    show "x = y \<and> r' = s'" if "x \<in> set xs" "y \<in> set ys" "show_raw x @ r' = show_raw y @ s'" "delim r'" "delim s'"
      for x y r' s' using JArr.IH[of x y r' s'] JArr.prems(1,2) w that by auto
  qed (use JArr.prems w show_raw_not_closing in auto)
  with w show ?case by simp
next
  case (JObj kvs)
  then have "kind w = 5" using show_raw_kind[of w] by (cases "show_raw w") (auto simp: char_kind_def)
  then obtain lvs where w: "w = JObj lvs" by (cases w) (auto simp: kind_def)
  let ?sh = "\<lambda>(k, v). quote k @ CHR '':'' # show_raw v"
  have sh: "map (\<lambda>(k, t). quote k @ CHR '':'' # t) (map (map_prod id show_raw) m) = map ?sh m" for m
    by auto
  have "kvs = lvs \<and> r = s"
  proof (rule commas_inj[where sh = ?sh and c = "CHR 0x7D"])
    fix p q r' s'
    assume a: "p \<in> set kvs" "q \<in> set lvs" "?sh p @ r' = ?sh q @ s'" "delim r'" "delim s'"
    obtain k v l u where pq: "p = (k, v)" "q = (l, u)" by (cases p, cases q) blast
    with a(3) have "k = l" "show_raw v @ r' = show_raw u @ s'"
      using quote_prefix[of k "CHR '':'' # show_raw v @ r'" l "CHR '':'' # show_raw u @ s'"] by auto
    moreover have "v = u \<and> r' = s'"
      by (rule JObj.IH[of p v]) (use a pq JObj.prems(1,2) w calculation in \<open>auto\<close>)
    ultimately show "p = q \<and> r' = s'" using pq by simp
  next
    fix p assume "p \<in> set kvs \<union> set lvs"
    show "?sh p \<noteq> [] \<and> hd (?sh p) \<noteq> CHR 0x7D" by (auto simp: quote_def split: prod.split)
  qed (use JObj.prems w sh[of kvs] sh[of lvs] in \<open>auto simp del: map_map\<close>)
  with w show ?case by simp
qed

section \<open>canonicalize determines the value\<close>

text \<open>The shape \<open>sortValue\<close> produces: strictly sorted keys at every level.\<close>

primrec norm_json :: "json \<Rightarrow> bool" where
  "norm_json JNull \<longleftrightarrow> True"
| "norm_json (JBool b) \<longleftrightarrow> True"
| "norm_json (JInt n) \<longleftrightarrow> True"
| "norm_json (JNum t) \<longleftrightarrow> True"
| "norm_json (JStr s) \<longleftrightarrow> True"
| "norm_json (JArr xs) \<longleftrightarrow> list_all (\<lambda>b. b) (map norm_json xs)"
| "norm_json (JObj kvs) \<longleftrightarrow> sorted (keys kvs) \<and> distinct (keys kvs)
     \<and> list_all snd (map (map_prod id norm_json) kvs)"

lemma norm_json_JArr [simp]: "norm_json (JArr xs) \<longleftrightarrow> (\<forall>x \<in> set xs. norm_json x)"
  by (auto simp: list_all_iff)

lemma norm_json_JObj [simp]: "norm_json (JObj kvs) \<longleftrightarrow>
   sorted (keys kvs) \<and> distinct (keys kvs) \<and> (\<forall>(k, v) \<in> set kvs. norm_json v)"
  by (auto simp: list_all_iff)

declare norm_json.simps(6,7) [simp del]

lemma keys_map_prod [simp]: "keys (map (map_prod id f) m) = keys m"
  by simp

lemma keys_filter_key: "keys (filter (\<lambda>(k, _). P k) m) = filter P (keys m)"
  by (induction m) auto

lemma sort_key_fst_facts:
  "sorted (keys (sort_key fst (m :: (string \<times> 'v) list)))"
  "distinct (keys (sort_key fst m)) \<longleftrightarrow> distinct (keys m)"
proof -
  show "sorted (keys (sort_key fst m))" by simp
  have "mset (keys (sort_key fst m)) = mset (keys m)" by simp
  then show "distinct (keys (sort_key fst m)) \<longleftrightarrow> distinct (keys m)" by (rule mset_eq_imp_distinct_iff)
qed

lemma wf_norm_sortValue: "wf_json v \<Longrightarrow> wf_json (sortValue v) \<and> norm_json (sortValue v)"
proof (induction v)
  case (JObj kvs)
  let ?m = "map (map_prod id sortValue) kvs"
  let ?f = "filter (\<lambda>(k, _). k \<noteq> ''__proto__'') (sort_key fst ?m)"
  have d: "distinct (keys ?m)" using JObj.prems by simp
  have "sorted (keys ?f) \<and> distinct (keys ?f)"
    unfolding keys_filter_key using sort_key_fst_facts[of ?m] d by (simp add: sorted_wrt_filter)
  moreover have "wf_json x \<and> norm_json x" if "(k, x) \<in> set ?f" for k x
    using that JObj by fastforce
  ultimately show ?case by (auto simp del: sort_key_simps)
qed auto

lemma wf_ordered: "wf_json v \<Longrightarrow> wf_json (ordered v)"
proof (induction v)
  case (JObj kvs)
  let ?m = "map (map_prod id ordered) kvs"
  have "mset (keys (own_order ?m)) = mset (keys ?m)" by (metis mset_map mset_own_order)
  then have "distinct (keys (own_order ?m))" using JObj.prems
    by (metis keys_map_prod mset_eq_imp_distinct_iff wf_json_JObj)
  then show ?case using JObj by fastforce
qed auto

lemma sorted_keys_unique:
  fixes x y :: "(string \<times> 'v) list"
  assumes "sorted (keys x)" "distinct (keys x)" "sorted (keys y)" "distinct (keys y)" "mset x = mset y"
  shows "x = y"
proof (rule map_sorted_distinct_set_unique)
  have s: "set x = set y" using assms(5) by (metis set_mset_mset)
  then show "set x = set y" .
  show "inj_on fst (set x \<union> set y)" using assms(2) s by (simp add: distinct_map)
qed (use assms in auto)

lemma ordered_inj: "norm_json v \<Longrightarrow> norm_json w \<Longrightarrow> ordered v = ordered w \<Longrightarrow> v = w"
proof (induction v arbitrary: w)
  case (JArr xs)
  then obtain ys where w: "w = JArr ys" "map ordered xs = map ordered ys" by (cases w) auto
  have "xs = ys"
  proof (rule nth_equalityI)
    show len: "length xs = length ys" using w(2) by (metis length_map)
    fix i assume i: "i < length xs"
    then have "ordered (xs ! i) = ordered (ys ! i)" using w(2) len by (metis nth_map)
    then show "xs ! i = ys ! i" using JArr i len w(1) by simp
  qed
  with w show ?case by simp
next
  case (JObj kvs)
  then obtain lvs where w: "w = JObj lvs"
    and o: "own_order (map (map_prod id ordered) kvs) = own_order (map (map_prod id ordered) lvs)"
    by (cases w) auto
  have "map (map_prod id ordered) kvs = map (map_prod id ordered) lvs"
    by (rule sorted_keys_unique) (use JObj.prems w o in \<open>auto intro: arg_cong[where f = mset] simp del: map_map
      dest: arg_cong[where f = mset]\<close>)
  then have m: "map (map_prod id ordered) kvs = map (map_prod id ordered) lvs" .
  have "kvs = lvs"
  proof (rule nth_equalityI)
    show len: "length kvs = length lvs" using m by (metis length_map)
    fix i assume i: "i < length kvs"
    then have e: "map_prod id ordered (kvs ! i) = map_prod id ordered (lvs ! i)" using m len by (metis nth_map)
    obtain k v l u where p: "kvs ! i = (k, v)" "lvs ! i = (l, u)" by fastforce
    have mem: "(k, v) \<in> set kvs" "(l, u) \<in> set lvs" using p i len by (metis nth_mem)+
    have "v = u" by (rule JObj.IH[OF mem(1)]) (use mem e p JObj.prems w in auto)
    with e p show "kvs ! i = lvs ! i" by simp
  qed
  with w show ?case by simp
qed (case_tac [!] w, auto)

lemma canonicalize_eq_iff:
  assumes "wf_json v" "wf_json w"
  shows "canonicalize v = canonicalize w \<longleftrightarrow> sortValue v = sortValue w"
proof
  assume "canonicalize v = canonicalize w"
  then have "show_raw (ordered (sortValue v)) @ [] = show_raw (ordered (sortValue w)) @ []"
    by (simp add: canonicalize_def show_json_raw)
  then have "ordered (sortValue v) = ordered (sortValue w)"
    using show_raw_prefix[of "ordered (sortValue v)" "ordered (sortValue w)" "[]" "[]"]
      assms wf_ordered wf_norm_sortValue by (simp add: delim_def)
  then show "sortValue v = sortValue w" using assms wf_norm_sortValue ordered_inj by blast
qed (simp add: canonicalize_def)

lemma map_of_sort_key_fst:
  "distinct (keys (m :: (string \<times> 'v) list)) \<Longrightarrow> map_of (sort_key fst m) = map_of m"
  using map_of_inject_set[of "sort_key fst m" m] sort_key_fst_facts(2)[of m] by simp

lemma map_of_sortValue_members:
  fixes kvs :: "(string \<times> json) list"
  assumes "distinct (keys kvs)"
  shows "map_of (filter (\<lambda>(k, _). k \<noteq> ''__proto__'') (sort_key fst (map (map_prod id sortValue) kvs))) k
    = (if k = ''__proto__'' then None else map_option sortValue (map_of kvs k))"
proof -
  let ?m = "map (map_prod id sortValue) kvs"
  have d: "distinct (keys ?m)" using assms by simp
  then have d': "distinct (keys (sort_key fst ?m))" by (simp only: sort_key_fst_facts(2))
  have "map_of (filter (\<lambda>(k, _). k \<noteq> ''__proto__'') (sort_key fst ?m)) k
      = (case map_of ?m k of None \<Rightarrow> None | Some v \<Rightarrow> if k \<noteq> ''__proto__'' then Some v else None)"
    using map_of_filter_vals[OF d', of "\<lambda>k _. k \<noteq> ''__proto__''" k] map_of_sort_key_fst[OF d] by simp
  moreover have "map_of ?m k = map_option sortValue (map_of kvs k)"
    using map_of_map_vals[of "\<lambda>_. sortValue" kvs k] by (simp add: map_prod_def)
  ultimately show ?thesis by (simp split: option.split)
qed

lemma sortValue_JObj_eq:
  assumes "wf_json (JObj a)" "wf_json (JObj b)"
  shows "sortValue (JObj a) = sortValue (JObj b) \<longleftrightarrow>
    (\<forall>k. k \<noteq> ''__proto__'' \<longrightarrow> map_option sortValue (map_of a k) = map_option sortValue (map_of b k))"
    (is "?lhs \<longleftrightarrow> ?rhs")
proof -
  let ?f = "\<lambda>kvs. filter (\<lambda>(k, _). k \<noteq> ''__proto__'') (sort_key fst (map (map_prod id sortValue) kvs))"
  have n: "sorted (keys (?f m)) \<and> distinct (keys (?f m))" if "wf_json (JObj m)" for m
    using wf_norm_sortValue[OF that] by simp
  have mo: "map_of (?f m) k = (if k = ''__proto__'' then None else map_option sortValue (map_of m k))"
    if "wf_json (JObj m)" for m k
    using that by (intro map_of_sortValue_members) simp
  have na: "sorted (keys (?f a))" "distinct (keys (?f a))" using n[OF assms(1)] by blast+
  have nb: "sorted (keys (?f b))" "distinct (keys (?f b))" using n[OF assms(2)] by blast+
  have ma: "map_of (?f a) k = (if k = ''__proto__'' then None else map_option sortValue (map_of a k))" for k
    by (rule mo[OF assms(1)])
  have mb: "map_of (?f b) k = (if k = ''__proto__'' then None else map_option sortValue (map_of b k))" for k
    by (rule mo[OF assms(2)])
  show ?thesis
  proof
    assume ?rhs
    then have "map_of (?f a) = map_of (?f b)" unfolding fun_eq_iff ma mb by simp
    then have "mset (?f a) = mset (?f b)" by (rule map_of_distinct_eq_perm[OF na(2) nb(2)])
    then have "?f a = ?f b" by (rule sorted_keys_unique[OF na nb])
    then show ?lhs by simp
  next
    assume ?lhs
    then have "?f a = ?f b" by simp
    then have "map_of (?f a) k = map_of (?f b) k" for k by simp
    then show ?rhs unfolding ma mb by (metis (full_types))
  qed
qed

text \<open>An object's text does not depend on the order its members were written in.\<close>

lemma sortValue_member:
  assumes "sortValue (JObj a) = sortValue (JObj b)" "wf_json (JObj a)" "wf_json (JObj b)" "k \<noteq> ''__proto__''"
  shows "map_option sortValue (map_of a k) = map_option sortValue (map_of b k)"
  using assms sortValue_JObj_eq by blast

lemma sortValue_JObj_D:
  "sortValue (JObj a) = sortValue (JObj b) \<Longrightarrow> wf_json (JObj a) \<Longrightarrow> wf_json (JObj b) \<Longrightarrow>
   \<forall>k \<in> set (keys a). k \<noteq> ''__proto__'' \<Longrightarrow> \<forall>k \<in> set (keys a). map_option sortValue (map_of a k) = map_option sortValue (map_of b k)"
  using sortValue_JObj_eq by blast

lemma canonicalize_perm:
  assumes "distinct (keys a)" "mset a = mset b"
  shows "canonicalize (JObj a) = canonicalize (JObj b)"
proof -
  let ?s = "\<lambda>m. sort_key fst (map (map_prod id sortValue) m)"
  have d: "distinct (keys b)" using assms by (metis mset_map mset_eq_imp_distinct_iff)
  have "mset (map (map_prod id sortValue) a) = mset (map (map_prod id sortValue) b)"
    using assms(2) by (metis mset_map)
  then have "?s a = ?s b"
    by (intro sorted_keys_unique) (use assms(1) d sort_key_fst_facts(2) in \<open>auto simp del: map_map simp: sort_key_fst_facts\<close>)
  then show ?thesis by (simp add: canonicalize_def)
qed

section \<open>Hash commitments\<close>

text \<open>
  Every root and id of the program is the SHA-256 of a canonical text. A scheme whose text
  determines a value \<open>sem\<close> binds that value: equal hashes give equal values or show a collision of
  the hash function on two texts of the scheme.
\<close>

definition collision :: "(bytes \<Rightarrow> bytes) \<Rightarrow> string \<Rightarrow> string \<Rightarrow> bool" where
  "collision H a b \<longleftrightarrow> utf8 a \<noteq> utf8 b \<and> H (utf8 a) = H (utf8 b)"

locale commitment =
  fixes enc :: "'a \<Rightarrow> string" and sem :: "'a \<Rightarrow> 'b" and ok :: "'a \<Rightarrow> bool"
  assumes enc_inj: "ok a \<Longrightarrow> ok b \<Longrightarrow> enc a = enc b \<Longrightarrow> sem a = sem b"
begin

lemma binding:
  assumes "ok a" "ok b" "sha256Hex H (enc a) = sha256Hex H (enc b)"
  shows "sem a = sem b \<or> collision H (enc a) (enc b)"
proof (cases "enc a = enc b")
  case False
  then show ?thesis using assms(3) by (simp add: sha256Hex_def toHex_inj collision_def utf8_inj)
next
  case True
  then show ?thesis using enc_inj[OF assms(1,2)] by blast
qed

end

interpretation canon: commitment canonicalize sortValue wf_json
  by unfold_locales (simp add: canonicalize_eq_iff)

end
