(* ===== verification/Networks.thy ===== *)
theory Networks
  imports Prelude
begin

text \<open>
  \<open>src/swap/networks.ts\<close>: the two chains and three networks, their policy constants and Core's dust
  threshold; and the refund windows of \<open>src/swap/htlc.ts\<close> (\<open>minRefundBlocks\<close>,
  \<open>defaultRefundBlocks\<close>), which the order board's deadlines are computed from.
\<close>

section \<open>Chains and networks\<close>

datatype chain = Bitcoin | Litecoin
datatype net = Mainnet | Testnet | Regtest

primrec chain_text :: "chain \<Rightarrow> string" where
  "chain_text Bitcoin = ''bitcoin''"
| "chain_text Litecoin = ''litecoin''"

primrec net_text :: "net \<Rightarrow> string" where
  "net_text Mainnet = ''mainnet''"
| "net_text Testnet = ''testnet''"
| "net_text Regtest = ''regtest''"

definition chain_of :: "string \<Rightarrow> chain option" where
  "chain_of s = (if s = ''bitcoin'' then Some Bitcoin else if s = ''litecoin'' then Some Litecoin else None)"

definition net_of :: "string \<Rightarrow> net option" where
  "net_of s = (if s = ''mainnet'' then Some Mainnet else if s = ''testnet'' then Some Testnet
     else if s = ''regtest'' then Some Regtest else None)"

lemma chain_of_text [simp]: "chain_of (chain_text c) = Some c"
  by (cases c) (simp_all add: chain_of_def)

lemma net_of_text [simp]: "net_of (net_text n) = Some n"
  by (cases n) (simp_all add: net_of_def)

lemma chain_of_SomeD: "chain_of s = Some c \<Longrightarrow> s = chain_text c"
  by (auto simp: chain_of_def split: if_splits)

lemma net_of_SomeD: "net_of s = Some n \<Longrightarrow> s = net_text n"
  by (auto simp: net_of_def split: if_splits)

lemma chain_text_inj: "chain_text a = chain_text b \<longleftrightarrow> a = b"
  by (metis chain_of_text option.inject)

lemma net_text_inj: "net_text a = net_text b \<longleftrightarrow> a = b"
  by (metis net_of_text option.inject)

record swap_network =
  nw_chain :: chain
  nw_net :: net
  bech32 :: string
  pubKeyHash :: int
  scriptHash :: int
  wif :: int
  blockSeconds :: int
  dustRelayFeePerKvB :: int
  minRelayFeePerKvB :: int

definition BTC_NW :: "net \<Rightarrow> string \<Rightarrow> int \<Rightarrow> int \<Rightarrow> int \<Rightarrow> swap_network" where
  "BTC_NW n hrp pkh sh w = \<lparr>nw_chain = Bitcoin, nw_net = n, bech32 = hrp, pubKeyHash = pkh,
     scriptHash = sh, wif = w, blockSeconds = 600, dustRelayFeePerKvB = 3000, minRelayFeePerKvB = 100\<rparr>"

definition LTC_NW :: "net \<Rightarrow> string \<Rightarrow> int \<Rightarrow> int \<Rightarrow> int \<Rightarrow> swap_network" where
  "LTC_NW n hrp pkh sh w = \<lparr>nw_chain = Litecoin, nw_net = n, bech32 = hrp, pubKeyHash = pkh,
     scriptHash = sh, wif = w, blockSeconds = 150, dustRelayFeePerKvB = 30000, minRelayFeePerKvB = 1000\<rparr>"

fun NETWORKS :: "chain \<Rightarrow> net \<Rightarrow> swap_network" where
  "NETWORKS Bitcoin Mainnet = BTC_NW Mainnet ''bc'' 0 5 128"
| "NETWORKS Bitcoin Testnet = BTC_NW Testnet ''tb'' 111 196 239"
| "NETWORKS Bitcoin Regtest = BTC_NW Regtest ''bcrt'' 111 196 239"
| "NETWORKS Litecoin Mainnet = LTC_NW Mainnet ''ltc'' 48 50 176"
| "NETWORKS Litecoin Testnet = LTC_NW Testnet ''tltc'' 111 58 239"
| "NETWORKS Litecoin Regtest = LTC_NW Regtest ''rltc'' 111 58 239"

definition swapNetwork :: "chain \<Rightarrow> net \<Rightarrow> swap_network" where
  "swapNetwork c n = NETWORKS c n"

section \<open>Dust\<close>

definition isWitnessProgram :: "bytes \<Rightarrow> bool" where
  "isWitnessProgram script \<longleftrightarrow>
     \<not> (length script < 4 \<or> length script > 42)
     \<and> \<not> (script ! 0 \<noteq> 0x00 \<and> (script ! 0 < 0x51 \<or> script ! 0 > 0x60))
     \<and> unat (script ! 1) + 2 = length script"

definition dustThreshold :: "swap_network \<Rightarrow> bytes \<Rightarrow> int" where
  "dustThreshold network script =
     (if length script > 0 \<and> script ! 0 = 0x6a then 0
      else let outSize = 8 + (if length script < 0xfd then 1 else 3) + int (length script);
               inSize = (if isWitnessProgram script then 32 + 4 + 1 + 107 div 4 + 4 else 32 + 4 + 1 + 107 + 4)
           in ((outSize + inSize) * dustRelayFeePerKvB network) div 1000)"

text \<open>A P2TR output script, \<open>OP_1\<close> and 32 bytes: the shape of every HTLC output.\<close>

definition P2TR_SCRIPT :: bytes where
  "P2TR_SCRIPT = [0x51, 0x20] @ replicate 32 0"

definition DUST :: "chain \<Rightarrow> int" where
  "DUST c = dustThreshold (NETWORKS c Mainnet) P2TR_SCRIPT"

lemma DUST_values: "DUST Bitcoin = 330" "DUST Litecoin = 3300"
  by code_simp+

lemma DUST_pos: "0 < DUST c"
  by (cases c) (simp_all add: DUST_values)

section \<open>Refund windows\<close>

datatype role = Initiator | Counterparty
datatype window_error = HoursNotPositive | AboveBip68Maximum int

definition MAX_REFUND_BLOCKS :: int where "MAX_REFUND_BLOCKS = 0xffff"
definition INITIATOR_REFUND_HOURS :: int where "INITIATOR_REFUND_HOURS = 24"
definition COUNTERPARTY_REFUND_HOURS :: int where "COUNTERPARTY_REFUND_HOURS = 12"

text \<open>\<open>Math.ceil\<close> of a quotient of integers.\<close>

definition ceil_div :: "int \<Rightarrow> int \<Rightarrow> int" where
  "ceil_div a b = - ((- a) div b)"

definition minRefundBlocks :: "chain \<Rightarrow> int \<Rightarrow> window_error + int" where
  "minRefundBlocks c hours =
     (if hours \<le> 0 then Inl HoursNotPositive
      else let blocks = ceil_div (hours * 3600) (blockSeconds (NETWORKS c Mainnet))
           in if blocks > MAX_REFUND_BLOCKS then Inl (AboveBip68Maximum blocks) else Inr blocks)"

definition defaultRefundBlocks :: "chain \<Rightarrow> role \<Rightarrow> window_error + int" where
  "defaultRefundBlocks c r = minRefundBlocks c
     (case r of Initiator \<Rightarrow> INITIATOR_REFUND_HOURS | Counterparty \<Rightarrow> COUNTERPARTY_REFUND_HOURS)"

lemma defaultRefundBlocks_values [simp]:
  "defaultRefundBlocks Bitcoin Initiator = Inr 144"
  "defaultRefundBlocks Bitcoin Counterparty = Inr 72"
  "defaultRefundBlocks Litecoin Initiator = Inr 576"
  "defaultRefundBlocks Litecoin Counterparty = Inr 288"
  by code_simp+

lemma blockSeconds_pos: "0 < blockSeconds (NETWORKS c n)"
  by (cases c; cases n) (simp_all add: BTC_NW_def LTC_NW_def)

lemma ceil_div_bounds: "0 < b \<Longrightarrow> a \<le> ceil_div a b * b \<and> (ceil_div a b - 1) * b < a"
proof -
  assume b: "0 < b"
  define q m where "q = (- a) div b" and "m = (- a) mod b"
  have "q * b + m = - a" unfolding q_def m_def by (rule div_mult_mod_eq)
  moreover have "0 \<le> m" "m < b" unfolding m_def using b by auto
  ultimately have "a \<le> - q * b" "(- q - 1) * b < a" by (simp_all add: left_diff_distrib)
  then show ?thesis unfolding ceil_div_def q_def by simp
qed

end
