(* ===== verification/FundsProof.thy ===== *)
theory FundsProof
  imports Json Networks
begin

text \<open>
  \<open>src/swap/proof.ts\<close>: the shape of a proof of funds, the message it signs and its check against an
  explorer. The tagged hash, Schnorr verification, the wallet address (\<open>@noble/curves\<close>,
  \<open>@scure/btc-signer\<close>) and the explorer's listing are parameters.
\<close>

section \<open>Shape\<close>

record proof_utxo =
  u_txid :: string
  u_vout :: int
  u_value :: string

record funds_proof =
  p_chain :: chain
  p_net :: net
  p_pubkey :: string
  p_utxos :: "proof_utxo list"
  p_sig :: string

datatype shape_error =
    ProofNotObject | ProofFields | ProofChain | ProofNet | ProofPubkey | ProofSig
  | UtxosNotArray | UtxosEmpty | UtxosTooMany | DuplicateUtxo string
  | UtxoNotObject nat | UtxoFields nat | UtxoTxid nat | UtxoVout nat | UtxoValue nat

definition MAX_PROOF_UTXOS :: nat where "MAX_PROOF_UTXOS = 32"

primrec MAX_MONEY :: "chain \<Rightarrow> int" where
  "MAX_MONEY Bitcoin = 2100000000000000"
| "MAX_MONEY Litecoin = 8400000000000000"

definition hex_text :: "nat \<Rightarrow> string \<Rightarrow> bool" where
  "hex_text n s \<longleftrightarrow> length s = n \<and> list_all is_hex_lower s"

text \<open>\<open>/^[1-9][0-9]{0,m}$/\<close>.\<close>

definition decimal_text :: "nat \<Rightarrow> string \<Rightarrow> bool" where
  "decimal_text m s \<longleftrightarrow> s \<noteq> [] \<and> list_all is_digit s \<and> hd s \<noteq> CHR ''0'' \<and> length s \<le> Suc m"

lemma decimal_text_canon: "decimal_text m s \<Longrightarrow> canon_digits s"
  by (auto simp: decimal_text_def canon_digits_def)

definition utxoError :: "json \<Rightarrow> nat \<Rightarrow> chain \<Rightarrow> shape_error option" where
  "utxoError u i c = (case u of
     JObj kvs \<Rightarrow>
       if commas (sort (keys kvs)) \<noteq> ''txid,value,vout'' then Some (UtxoFields i)
       else (case str_at kvs ''txid'' of None \<Rightarrow> Some (UtxoTxid i) | Some txid \<Rightarrow>
         if \<not> hex_text 64 txid then Some (UtxoTxid i)
         else (case int_at kvs ''vout'' of None \<Rightarrow> Some (UtxoVout i) | Some vout \<Rightarrow>
           if vout < 0 \<or> vout > 0xffffffff then Some (UtxoVout i)
           else (case str_at kvs ''value'' of None \<Rightarrow> Some (UtxoValue i) | Some value \<Rightarrow>
             if \<not> decimal_text 15 value \<or> the (BigInt_of value) > MAX_MONEY c then Some (UtxoValue i)
             else None)))
   | _ \<Rightarrow> Some (UtxoNotObject i))"

text \<open>A well-shaped entry read as a record (the cast \<open>p.proof as FundsProof\<close>).\<close>

definition as_utxo :: "json \<Rightarrow> proof_utxo" where
  "as_utxo u = (case u of JObj kvs \<Rightarrow>
     (case (str_at kvs ''txid'', int_at kvs ''vout'', str_at kvs ''value'') of
        (Some t, Some v, Some a) \<Rightarrow> \<lparr>u_txid = t, u_vout = v, u_value = a\<rparr>
      | _ \<Rightarrow> \<lparr>u_txid = [], u_vout = 0, u_value = []\<rparr>)
   | _ \<Rightarrow> \<lparr>u_txid = [], u_vout = 0, u_value = []\<rparr>)"

definition outpoint_key :: "proof_utxo \<Rightarrow> string" where
  "outpoint_key u = u_txid u @ CHR '':'' # show_int (u_vout u)"

fun utxosLoop :: "json list \<Rightarrow> nat \<Rightarrow> chain \<Rightarrow> string list \<Rightarrow> shape_error option" where
  "utxosLoop [] i c seen = None"
| "utxosLoop (u # us) i c seen =
     (case utxoError u i c of Some e \<Rightarrow> Some e
      | None \<Rightarrow> let key = outpoint_key (as_utxo u) in
          if key \<in> set seen then Some (DuplicateUtxo key)
          else utxosLoop us (Suc i) c (key # seen))"

definition utxosError :: "json option \<Rightarrow> chain \<Rightarrow> shape_error option" where
  "utxosError utxos c = (case utxos of
     Some (JArr us) \<Rightarrow> if us = [] then Some UtxosEmpty
       else if length us > MAX_PROOF_UTXOS then Some UtxosTooMany
       else utxosLoop us 0 c []
   | _ \<Rightarrow> Some UtxosNotArray)"

definition fundsProofShapeError :: "json \<Rightarrow> shape_error option" where
  "fundsProofShapeError x = (case x of
     JObj p \<Rightarrow>
       if commas (sort (keys p)) \<noteq> ''chain,net,pubkey,sig,utxos'' then Some ProofFields
       else (case Option.bind (str_at p ''chain'') chain_of of None \<Rightarrow> Some ProofChain | Some c \<Rightarrow>
         if Option.bind (str_at p ''net'') net_of = None then Some ProofNet
         else (case str_at p ''pubkey'' of None \<Rightarrow> Some ProofPubkey | Some pk \<Rightarrow>
           if \<not> hex_text 64 pk then Some ProofPubkey
           else (case str_at p ''sig'' of None \<Rightarrow> Some ProofSig | Some sg \<Rightarrow>
             if \<not> hex_text 128 sg then Some ProofSig
             else utxosError (map_of p ''utxos'') c)))
   | _ \<Rightarrow> Some ProofNotObject)"

definition as_proof :: "json \<Rightarrow> funds_proof option" where
  "as_proof x = (case x of JObj p \<Rightarrow>
     (case (Option.bind (str_at p ''chain'') chain_of, Option.bind (str_at p ''net'') net_of,
            str_at p ''pubkey'', arr_at p ''utxos'', str_at p ''sig'') of
        (Some c, Some n, Some pk, Some us, Some sg) \<Rightarrow>
          Some \<lparr>p_chain = c, p_net = n, p_pubkey = pk, p_utxos = map as_utxo us, p_sig = sg\<rparr>
      | _ \<Rightarrow> None)
   | _ \<Rightarrow> None)"

text \<open>The JSON of a proof, as a write's payload carries it.\<close>

definition utxo_json :: "proof_utxo \<Rightarrow> json" where
  "utxo_json u = JObj [(''txid'', JStr (u_txid u)), (''vout'', JInt (u_vout u)), (''value'', JStr (u_value u))]"

definition proof_json :: "funds_proof \<Rightarrow> json" where
  "proof_json p = JObj [(''chain'', JStr (chain_text (p_chain p))), (''net'', JStr (net_text (p_net p))),
     (''pubkey'', JStr (p_pubkey p)), (''utxos'', JArr (map utxo_json (p_utxos p))), (''sig'', JStr (p_sig p))]"

section \<open>What a well-shaped proof satisfies\<close>

definition utxo_ok :: "chain \<Rightarrow> proof_utxo \<Rightarrow> bool" where
  "utxo_ok c u \<longleftrightarrow> hex_text 64 (u_txid u) \<and> 0 \<le> u_vout u \<and> u_vout u \<le> 0xffffffff
     \<and> decimal_text 15 (u_value u) \<and> the (BigInt_of (u_value u)) \<le> MAX_MONEY c"

definition utxos_ok :: "chain \<Rightarrow> proof_utxo list \<Rightarrow> bool" where
  "utxos_ok c us \<longleftrightarrow> us \<noteq> [] \<and> length us \<le> MAX_PROOF_UTXOS \<and> (\<forall>u \<in> set us. utxo_ok c u)
     \<and> distinct (map outpoint_key us)"

definition proof_ok :: "funds_proof \<Rightarrow> bool" where
  "proof_ok p \<longleftrightarrow> hex_text 64 (p_pubkey p) \<and> hex_text 128 (p_sig p) \<and> utxos_ok (p_chain p) (p_utxos p)"

text \<open>An object whose sorted, comma-joined keys are those of \<open>ls\<close> and that has every key of \<open>ls\<close> has
  no other key: the joined text has no room for one.\<close>

lemma length_commas: "xs \<noteq> [] \<Longrightarrow> Suc (length (commas xs)) = (\<Sum>x\<leftarrow>xs. Suc (length x))"
  by (induction xs rule: commas.induct) auto

lemma keys_exact:
  assumes "commas (sort K) = commas ls" "set ls \<subseteq> set K" "distinct ls" "ls \<noteq> []"
  shows "mset K = mset ls"
proof -
  let ?f = "\<lambda>x :: string. Suc (length x)"
  have sub: "mset ls \<subseteq># mset K"
  proof (rule mset_subset_eqI)
    fix x
    have 1: "count (mset ls) x \<le> 1" using assms(3) by (simp add: distinct_count_atmost_1)
    show "count (mset ls) x \<le> count (mset K) x"
    proof (cases "x \<in> set ls")
      case True
      then have "0 < count (mset K) x"
        using assms(2) by (metis count_greater_zero_iff set_mset_mset subsetD)
      with 1 show ?thesis by linarith
    next
      case False
      then have "count (mset ls) x = 0" by simp
      then show ?thesis by linarith
    qed
  qed
  have ne: "sort K \<noteq> []" using assms(2,4) by (metis list.set(1) set_empty set_sort subset_empty)
  have sum: "(\<Sum>x\<leftarrow>xs. ?f x) = sum_mset (image_mset ?f (mset xs))" for xs
    by (metis mset_map sum_mset_sum_list)
  have "sum_mset (image_mset ?f (mset K)) = sum_mset (image_mset ?f (mset ls))"
    using length_commas[OF ne] length_commas[OF assms(4)] assms(1) sum[of "sort K"] sum[of ls] by simp
  moreover define R where "R = mset K - mset ls"
  have K: "mset K = mset ls + R" using sub by (simp add: R_def)
  ultimately have "sum_mset (image_mset ?f R) = 0" unfolding K by simp
  then have "R = {#}" by (cases R) auto
  with K show ?thesis by simp
qed

lemma obj_canon_eqI:
  assumes wf: "wf_json (JObj kvs)" "wf_json (JObj lvs)"
    and keys: "mset (keys kvs) = mset (keys lvs)"
    and vals: "\<And>k v. (k, v) \<in> set lvs \<Longrightarrow> \<exists>v'. map_of kvs k = Some v' \<and> sortValue v' = sortValue v"
  shows "sortValue (JObj kvs) = sortValue (JObj lvs)"
proof -
  have "map_option sortValue (map_of kvs k) = map_option sortValue (map_of lvs k)" for k
  proof (cases "map_of lvs k")
    case None
    then have "k \<notin> set (keys lvs)" by (simp add: map_of_None_keys)
    then have "k \<notin> set (keys kvs)" using keys by (metis set_mset_mset)
    then have "map_of kvs k = None" unfolding map_of_None_keys .
    with None show ?thesis by simp
  next
    case (Some v)
    then have "(k, v) \<in> set lvs" by (rule map_of_SomeD)
    with vals Some show ?thesis by fastforce
  qed
  then show ?thesis using sortValue_JObj_eq[OF wf] by blast
qed

lemma keys3: "set [''txid'', ''value'', ''vout''] \<subseteq> set (keys kvs) \<Longrightarrow>
  commas (sort (keys kvs)) = ''txid,value,vout'' \<Longrightarrow> mset (keys kvs) = mset [''txid'', ''value'', ''vout'']"
  by (rule keys_exact) auto

lemma keys5: "set [''chain'', ''net'', ''pubkey'', ''sig'', ''utxos''] \<subseteq> set (keys kvs) \<Longrightarrow>
  commas (sort (keys kvs)) = ''chain,net,pubkey,sig,utxos'' \<Longrightarrow>
  mset (keys kvs) = mset [''chain'', ''net'', ''pubkey'', ''sig'', ''utxos'']"
  by (rule keys_exact) auto

lemma map_of_key: "map_of m k = Some v \<Longrightarrow> k \<in> set (keys m)"
  by (metis map_of_None_keys option.distinct(1))

lemma utxoError_None:
  assumes "wf_json u" "utxoError u i c = None"
  shows "utxo_ok c (as_utxo u) \<and> sortValue u = sortValue (utxo_json (as_utxo u))"
proof -
  obtain kvs t v a where u: "u = JObj kvs"
    and m: "map_of kvs ''txid'' = Some (JStr t)" "map_of kvs ''vout'' = Some (JInt v)" "map_of kvs ''value'' = Some (JStr a)"
    and k: "commas (sort (keys kvs)) = ''txid,value,vout''"
    and ok: "hex_text 64 t" "0 \<le> v" "v \<le> 0xffffffff" "decimal_text 15 a" "the (BigInt_of a) \<le> MAX_MONEY c"
    using assms(2) by (cases u) (auto simp: utxoError_def not_less split: option.splits if_splits)
  have as: "as_utxo u = \<lparr>u_txid = t, u_vout = v, u_value = a\<rparr>"
    using u m by (simp add: as_utxo_def str_at_def int_at_def)
  have "mset (keys kvs) = mset [''txid'', ''value'', ''vout'']"
    by (rule keys3) (use m k in \<open>auto dest: map_of_key\<close>)
  then have "sortValue (JObj kvs) = sortValue (JObj [(''txid'', JStr t), (''vout'', JInt v), (''value'', JStr a)])"
    by (intro obj_canon_eqI) (use assms(1) u m in auto)
  with u as ok show ?thesis by (simp add: utxo_ok_def utxo_json_def)
qed

lemma utxoError_json: "utxo_ok c u \<Longrightarrow> utxoError (utxo_json u) i c = None \<and> as_utxo (utxo_json u) = u"
proof -
  have "commas (sort [''txid'', ''vout'', ''value'']) = ''txid,value,vout''" by code_simp
  then show "utxo_ok c u \<Longrightarrow> utxoError (utxo_json u) i c = None \<and> as_utxo (utxo_json u) = u"
    by (simp add: utxo_ok_def utxoError_def utxo_json_def as_utxo_def str_at_def int_at_def)
qed

lemma utxosLoop_None:
  assumes "utxosLoop us i c seen = None" "\<forall>u \<in> set us. wf_json u"
  shows "(\<forall>u \<in> set us. utxo_ok c (as_utxo u) \<and> sortValue u = sortValue (utxo_json (as_utxo u)))
     \<and> distinct (map (outpoint_key \<circ> as_utxo) us) \<and> set (map (outpoint_key \<circ> as_utxo) us) \<inter> set seen = {}"
  using assms
proof (induction us i c seen rule: utxosLoop.induct)
  case (2 u us i c seen)
  then have "utxoError u i c = None" "outpoint_key (as_utxo u) \<notin> set seen"
    "utxosLoop us (Suc i) c (outpoint_key (as_utxo u) # seen) = None"
    by (auto split: option.splits if_splits simp: Let_def)
  with 2 utxoError_None[of u i c] show ?case by auto
qed simp

lemma utxosLoop_json:
  assumes "\<forall>u \<in> set us. utxo_ok c u" "distinct (map outpoint_key us)" "set (map outpoint_key us) \<inter> set seen = {}"
  shows "utxosLoop (map utxo_json us) i c seen = None"
  using assms by (induction us arbitrary: i seen) (auto simp: utxoError_json Let_def)

lemma utxosError_json: "utxos_ok c us \<Longrightarrow> utxosError (Some (JArr (map utxo_json us))) c = None"
  by (simp add: utxos_ok_def utxosError_def utxosLoop_json)

text \<open>An accepted proof is the JSON of a well-formed record: nothing else rides along.\<close>

lemma fundsProofShape_sound:
  assumes "wf_json x" "fundsProofShapeError x = None"
  shows "\<exists>p. as_proof x = Some p \<and> proof_ok p \<and> sortValue x = sortValue (proof_json p)"
proof -
  obtain kvs ch c nt n pk sg us where x: "x = JObj kvs"
    and m: "map_of kvs ''chain'' = Some (JStr ch)" "map_of kvs ''net'' = Some (JStr nt)" "map_of kvs ''pubkey'' = Some (JStr pk)"
      "map_of kvs ''sig'' = Some (JStr sg)" "map_of kvs ''utxos'' = Some (JArr us)"
    and k: "commas (sort (keys kvs)) = ''chain,net,pubkey,sig,utxos''"
    and c: "chain_of ch = Some c" "net_of nt = Some n"
    and ok: "hex_text 64 pk" "hex_text 128 sg" "utxosError (Some (JArr us)) c = None"
    using assms(2)
    by (cases x) (auto simp: fundsProofShapeError_def bind_eq_Some_conv split: option.splits if_splits,
      auto simp: utxosError_def split: option.splits json.splits)
  let ?p = "\<lparr>p_chain = c, p_net = n, p_pubkey = pk, p_utxos = map as_utxo us, p_sig = sg\<rparr>"
  have "wf_json (JArr us)" using assms(1) x m(5) by (auto dest: map_of_SomeD)
  then have us: "(\<forall>u \<in> set us. utxo_ok c (as_utxo u) \<and> sortValue u = sortValue (utxo_json (as_utxo u)))
      \<and> distinct (map (outpoint_key \<circ> as_utxo) us)"
    using ok(3) utxosLoop_None[of us 0 c "[]"] by (auto simp: utxosError_def split: if_splits)
  have "us \<noteq> []" "length us \<le> MAX_PROOF_UTXOS" using ok(3) by (auto simp: utxosError_def split: if_splits)
  with us ok have "proof_ok ?p" by (auto simp: proof_ok_def utxos_ok_def o_def)
  moreover have "as_proof x = Some ?p" using x m c by (simp add: as_proof_def str_at_def arr_at_def)
  moreover have "sortValue x = sortValue (proof_json ?p)"
    unfolding x proof_json_def
  proof (rule obj_canon_eqI)
    show "mset (keys kvs) = mset (keys [(''chain'', JStr (chain_text (p_chain ?p))), (''net'', JStr (net_text (p_net ?p))),
     (''pubkey'', JStr (p_pubkey ?p)), (''utxos'', JArr (map utxo_json (p_utxos ?p))), (''sig'', JStr (p_sig ?p))])"
    proof -
      have "mset (keys kvs) = mset [''chain'', ''net'', ''pubkey'', ''sig'', ''utxos'']"
        by (rule keys5) (simp_all add: map_of_key[OF m(1)] map_of_key[OF m(2)] map_of_key[OF m(3)]
          map_of_key[OF m(4)] map_of_key[OF m(5)] k del: set_map)
      then show ?thesis by simp
    qed
    have "map sortValue us = map sortValue (map utxo_json (map as_utxo us))" using us by auto
    moreover have "ch = chain_text c" "nt = net_text n" using c by (auto dest: chain_of_SomeD net_of_SomeD)
    ultimately show "\<exists>v'. map_of kvs k = Some v' \<and> sortValue v' = sortValue v"
      if "(k, v) \<in> set [(''chain'', JStr (chain_text (p_chain ?p))), (''net'', JStr (net_text (p_net ?p))),
     (''pubkey'', JStr (p_pubkey ?p)), (''utxos'', JArr (map utxo_json (p_utxos ?p))), (''sig'', JStr (p_sig ?p))]" for k v
      using that m by auto
  qed (use assms(1) x in \<open>auto simp: utxo_json_def\<close>)
  ultimately show ?thesis by blast
qed

lemma fundsProofShape_complete:
  assumes "proof_ok p"
  shows "fundsProofShapeError (proof_json p) = None \<and> as_proof (proof_json p) = Some p"
proof -
  have "commas (sort [''chain'', ''net'', ''pubkey'', ''utxos'', ''sig'']) = ''chain,net,pubkey,sig,utxos''" by code_simp
  moreover have "map (as_utxo \<circ> utxo_json) (p_utxos p) = p_utxos p"
    using assms by (auto simp: proof_ok_def utxos_ok_def utxoError_json intro!: map_idI)
  ultimately show ?thesis using assms utxosError_json
    by (simp add: proof_ok_def fundsProofShapeError_def proof_json_def as_proof_def str_at_def arr_at_def)
qed

end
