(* ===== verification/FundsCheck.thy ===== *)
theory FundsCheck
  imports FundsProof
begin

text \<open>
  \<open>src/swap/proof.ts\<close>, second half: the message a proof of funds signs, signing it, and the check of
  a proof against an explorer. Parameters: \<open>taggedHash\<close>, \<open>sign\<close>, \<open>getPublicKey\<close> and \<open>verify\<close>
  (\<open>@noble/curves\<close>; \<open>None\<close> stands for a throw), the address encoding of \<open>@scure/btc-signer\<close>, and
  the explorer's listing of an address (\<open>None\<close> when every endpoint failed).
\<close>

section \<open>The signed message\<close>

datatype digest_error = FieldTooLong | EmptyMatchId | BadPubkey | BadUtxos shape_error

definition lp :: "string \<Rightarrow> digest_error + bytes" where
  "lp s = (let b = utf8 s; n = length b in
     if n > 0xffff then Inl FieldTooLong
     else Inr (concatBytes [[of_nat (n div 256), of_nat (n mod 256)], b]))"

definition u64be :: "int \<Rightarrow> bytes" where
  "u64be v = (let w = (word_of_int v :: 64 word) in
     map (\<lambda>k. ucast (drop_bit (8 * k) w)) [7, 6, 5, 4, 3, 2, 1, 0])"

definition utxo_bytes :: "proof_utxo \<Rightarrow> bytes" where
  "utxo_bytes u = fromHex (u_txid u) @ u32be (u_vout u) @ u64be (the (BigInt_of (u_value u)))"

definition FUNDS_PROOF_TAG :: string where "FUNDS_PROOF_TAG = ''gavl/funds-proof/v1''"

definition proofBody :: "string \<Rightarrow> chain \<Rightarrow> net \<Rightarrow> string \<Rightarrow> proof_utxo list \<Rightarrow> digest_error + bytes" where
  "proofBody matchId c n pubkey utxos = (case lp matchId of Inl e \<Rightarrow> Inl e | Inr m \<Rightarrow>
     (case lp (chain_text c) of Inl e \<Rightarrow> Inl e | Inr cb \<Rightarrow>
       (case lp (net_text n) of Inl e \<Rightarrow> Inl e | Inr nb \<Rightarrow>
         Inr (concatBytes ([m, cb, nb, fromHex pubkey, [of_nat (length utxos)]] @ map utxo_bytes utxos)))))"

definition proofDigest ::
  "(string \<Rightarrow> bytes \<Rightarrow> bytes) \<Rightarrow> string \<Rightarrow> chain \<Rightarrow> net \<Rightarrow> string \<Rightarrow> proof_utxo list \<Rightarrow> digest_error + bytes" where
  "proofDigest taggedHash matchId c n pubkey utxos =
     (if matchId = [] then Inl EmptyMatchId
      else if \<not> hex_text 64 pubkey then Inl BadPubkey
      else (case utxosError (Some (JArr (map utxo_json utxos))) c of
        Some e \<Rightarrow> Inl (BadUtxos e)
      | None \<Rightarrow> map_sum id (taggedHash FUNDS_PROOF_TAG) (proofBody matchId c n pubkey utxos)))"

section \<open>Signing and checking\<close>

definition signFundsProof ::
  "(string \<Rightarrow> bytes \<Rightarrow> bytes) \<Rightarrow> (bytes \<Rightarrow> bytes) \<Rightarrow> (bytes \<Rightarrow> bytes \<Rightarrow> bytes) \<Rightarrow>
   bytes \<Rightarrow> string \<Rightarrow> chain \<Rightarrow> net \<Rightarrow> proof_utxo list \<Rightarrow> digest_error + funds_proof" where
  "signFundsProof taggedHash getPublicKey sign walletPriv matchId c n utxos =
     (let pubkey = toHex (getPublicKey walletPriv) in
      case proofDigest taggedHash matchId c n pubkey utxos of
        Inl e \<Rightarrow> Inl e
      | Inr d \<Rightarrow> Inr \<lparr>p_chain = c, p_net = n, p_pubkey = pubkey, p_utxos = utxos, p_sig = toHex (sign d walletPriv)\<rparr>)"

record live_utxo =
  l_txid :: string
  l_vout :: int
  l_value :: int

record explorer =
  x_chain :: chain
  x_net :: net
  x_utxos :: "string \<Rightarrow> live_utxo list option"

datatype bad_proof =
    BadShape shape_error | WrongNetwork | BadSignature | Insufficient int int
  | NotUnspent string | ValueMismatch string int

datatype check_error = RequiredNegative | ExplorerFailed

datatype proof_check = CheckOk | CheckBad bad_proof

definition proof_sum :: "proof_utxo list \<Rightarrow> int" where
  "proof_sum us = (\<Sum>u \<leftarrow> us. the (BigInt_of (u_value u)))"

text \<open>\<open>new Map(entries)\<close>: a later entry of the same key overwrites the earlier.\<close>

definition live_map :: "live_utxo list \<Rightarrow> (string, int) jsmap" where
  "live_map us = fold (\<lambda>u m. map_set (l_txid u @ CHR '':'' # show_int (l_vout u)) (l_value u) m) us []"

fun checkLive :: "(string, int) jsmap \<Rightarrow> proof_utxo list \<Rightarrow> proof_check" where
  "checkLive live [] = CheckOk"
| "checkLive live (u # us) =
     (case map_of live (outpoint_key u) of
        None \<Rightarrow> CheckBad (NotUnspent (outpoint_key u))
      | Some v \<Rightarrow> if v \<noteq> the (BigInt_of (u_value u)) then CheckBad (ValueMismatch (outpoint_key u) v)
          else checkLive live us)"

definition verifyFundsProof ::
  "(string \<Rightarrow> bytes \<Rightarrow> bytes) \<Rightarrow> (bytes \<Rightarrow> bytes \<Rightarrow> bytes \<Rightarrow> bool option) \<Rightarrow> (bytes \<Rightarrow> swap_network \<Rightarrow> string) \<Rightarrow>
   json \<Rightarrow> string \<Rightarrow> int \<Rightarrow> explorer \<Rightarrow> check_error + proof_check" where
  "verifyFundsProof taggedHash verify p2tr x matchId required esplora =
     (case fundsProofShapeError x of Some e \<Rightarrow> Inr (CheckBad (BadShape e))
      | None \<Rightarrow> let p = the (as_proof x) in
        if p_chain p \<noteq> x_chain esplora \<or> p_net p \<noteq> x_net esplora then Inr (CheckBad WrongNetwork)
        else if required < 0 then Inl RequiredNegative
        else let sigOk = (case proofDigest taggedHash matchId (p_chain p) (p_net p) (p_pubkey p) (p_utxos p) of
                   Inl _ \<Rightarrow> False
                 | Inr d \<Rightarrow> (case verify (fromHex (p_sig p)) d (fromHex (p_pubkey p)) of None \<Rightarrow> False | Some b \<Rightarrow> b))
        in if \<not> sigOk then Inr (CheckBad BadSignature)
        else let s = proof_sum (p_utxos p) in
          if s < required then Inr (CheckBad (Insufficient s required))
          else (case x_utxos esplora (p2tr (fromHex (p_pubkey p)) (swapNetwork (p_chain p) (p_net p))) of
              None \<Rightarrow> Inl ExplorerFailed
            | Some us \<Rightarrow> Inr (checkLive (live_map us) (p_utxos p))))"

section \<open>The message determines its fields\<close>

lemma of_nat_byte_inj: "a < 256 \<Longrightarrow> b < 256 \<Longrightarrow> of_nat a = (of_nat b :: 8 word) \<longleftrightarrow> a = b"
  by (simp add: word_of_nat_eq_iff take_bit_nat_eq_self)

lemma lp_prefix:
  assumes "lp s = Inr a" "lp t = Inr b" "a @ r = b @ q"
  shows "s = t \<and> r = q"
proof -
  have a: "a = [of_nat (length (utf8 s) div 256), of_nat (length (utf8 s) mod 256)] @ utf8 s" "length (utf8 s) \<le> 0xffff"
    and b: "b = [of_nat (length (utf8 t) div 256), of_nat (length (utf8 t) mod 256)] @ utf8 t" "length (utf8 t) \<le> 0xffff"
    using assms(1,2) by (auto simp: lp_def Let_def concatBytes_def split: if_splits)
  have "length (utf8 s) div 256 = length (utf8 t) div 256" "length (utf8 s) mod 256 = length (utf8 t) mod 256"
    using assms(3) a b by (auto simp: of_nat_byte_inj)
  then have "length (utf8 s) = length (utf8 t)" by (metis div_mult_mod_eq)
  moreover have "utf8 s @ r = utf8 t @ q" using assms(3) a(1) b(1) by simp
  ultimately show ?thesis by (simp add: utf8_inj)
qed

lemma length_u64be [simp]: "length (u64be v) = 8"
  by (simp add: u64be_def Let_def)

lemma u64be_inj: "u64be m = u64be n \<longleftrightarrow> (word_of_int m :: 64 word) = word_of_int n"
proof
  assume eq: "u64be m = u64be n"
  have byte: "ucast (drop_bit (8 * k) (word_of_int m :: 64 word)) = (ucast (drop_bit (8 * k) (word_of_int n :: 64 word)) :: 8 word)"
    if "k < 8" for k
  proof -
    have "k \<in> set [7, 6, 5, 4, 3, 2, 1, 0]" using that by (simp, arith)
    then show ?thesis using eq unfolding u64be_def Let_def map_eq_conv by blast
  qed
  show "(word_of_int m :: 64 word) = word_of_int n"
  proof (rule bit_word_eqI)
    fix i assume i: "i < LENGTH(64)"
    then have "i div 8 < 8" by simp
    from byte[OF this] have "bit (ucast (drop_bit (8 * (i div 8)) (word_of_int m :: 64 word)) :: 8 word) (i mod 8)
        = bit (ucast (drop_bit (8 * (i div 8)) (word_of_int n :: 64 word)) :: 8 word) (i mod 8)" by simp
    then show "bit (word_of_int m :: 64 word) i = bit (word_of_int n :: 64 word) i"
      by (simp only: bit_ucast_iff bit_drop_bit_eq o_def) (simp add: i)
  qed
qed (simp add: u64be_def)

lemma u64be_inj_range:
  "0 \<le> m \<Longrightarrow> m < 2 ^ 64 \<Longrightarrow> 0 \<le> n \<Longrightarrow> n < 2 ^ 64 \<Longrightarrow> u64be m = u64be n \<longleftrightarrow> m = n"
  by (simp add: u64be_inj word_of_int_eq_iff take_bit_int_eq_self)

lemma MAX_MONEY_small: "MAX_MONEY c < 2 ^ 64"
  by (cases c) simp_all

lemma utxo_ok_value: "utxo_ok c u \<Longrightarrow> 0 < the (BigInt_of (u_value u)) \<and> the (BigInt_of (u_value u)) < 2 ^ 64"
proof -
  assume u: "utxo_ok c u"
  then have "0 < digits_val (u_value u)" by (auto simp: utxo_ok_def decimal_text_def intro!: digits_val_pos)
  moreover have "the (BigInt_of (u_value u)) = int (digits_val (u_value u))"
    using u BigInt_of_digits decimal_text_canon by (auto simp: utxo_ok_def)
  ultimately show ?thesis using u MAX_MONEY_small[of c] by (simp add: utxo_ok_def)
qed

lemma decimal_text_inj:
  "decimal_text m s \<Longrightarrow> decimal_text m t \<Longrightarrow> the (BigInt_of s) = the (BigInt_of t) \<Longrightarrow> s = t"
  by (metis BigInt_of_digits decimal_text_canon option.sel show_nat_digits_val of_nat_eq_iff)

lemma utxo_bytes_prefix:
  assumes "utxo_ok c u" "utxo_ok c v" "utxo_bytes u @ r = utxo_bytes v @ q"
  shows "u = v \<and> r = q"
proof -
  have len: "length (fromHex (u_txid w)) = 32" if "utxo_ok c w" for w
    using that toHex_fromHex[of "u_txid w"] by (simp add: utxo_ok_def hex_text_def)
  have parts: "fromHex (u_txid u) = fromHex (u_txid v)" "u32be (u_vout u) = u32be (u_vout v)"
    "u64be (the (BigInt_of (u_value u))) = u64be (the (BigInt_of (u_value v)))" "r = q"
    using assms(3) len[OF assms(1)] len[OF assms(2)] by (simp_all add: utxo_bytes_def)
  have "u_txid u = u_txid v" using parts(1) assms fromHex_inj[of "u_txid u" "u_txid v"]
    by (simp add: utxo_ok_def hex_text_def)
  moreover have "u_vout u = u_vout v" using parts(2) assms by (simp add: utxo_ok_def u32be_inj_range)
  moreover have "u_value u = u_value v"
    using parts(3) utxo_ok_value[OF assms(1)] utxo_ok_value[OF assms(2)] assms decimal_text_inj
    by (auto simp: u64be_inj_range utxo_ok_def)
  ultimately show ?thesis using parts(4) by simp
qed

lemma utxos_bytes_inj:
  "\<forall>u \<in> set us. utxo_ok c u \<Longrightarrow> \<forall>u \<in> set vs. utxo_ok c u \<Longrightarrow> length us = length vs \<Longrightarrow>
   concat (map utxo_bytes us) = concat (map utxo_bytes vs) \<Longrightarrow> us = vs"
proof (induction us arbitrary: vs)
  case (Cons u us)
  then obtain v vs' where vs: "vs = v # vs'" by (cases vs) auto
  with Cons.prems have "utxo_bytes u @ concat (map utxo_bytes us) = utxo_bytes v @ concat (map utxo_bytes vs')" by simp
  from utxo_bytes_prefix[OF _ _ this] Cons.prems vs
  have "u = v" "concat (map utxo_bytes us) = concat (map utxo_bytes vs')" by auto
  moreover have "us = vs'"
    by (rule Cons.IH) (use Cons.prems vs \<open>concat (map utxo_bytes us) = concat (map utxo_bytes vs')\<close> in simp_all)
  ultimately show ?case using vs by simp
qed simp

lemma length_utf8_le: "length (utf8 s) \<le> 2 * length s"
  by (induction s) (auto simp: utf8_def utf8_char_def Let_def)

text \<open>Two well-formed proofs with the same signed message are for the same match, chain, network, key
  and outpoints: no byte of one field can be read as another's.\<close>

lemma proofBody_inj:
  assumes b: "proofBody m c n pk us = Inr b" "proofBody m' c' n' pk' us' = Inr b"
    and ok: "hex_text 64 pk" "hex_text 64 pk'" "utxos_ok c us" "utxos_ok c' us'"
  shows "m = m' \<and> c = c' \<and> n = n' \<and> pk = pk' \<and> us = us'"
proof -
  obtain lm lc ln lm' lc' ln' where l: "lp m = Inr lm" "lp (chain_text c) = Inr lc" "lp (net_text n) = Inr ln"
      "lp m' = Inr lm'" "lp (chain_text c') = Inr lc'" "lp (net_text n') = Inr ln'"
    and eq: "lm @ lc @ ln @ fromHex pk @ of_nat (length us) # concat (map utxo_bytes us)
      = lm' @ lc' @ ln' @ fromHex pk' @ of_nat (length us') # concat (map utxo_bytes us')"
    using b by (auto simp: proofBody_def concatBytes_def split: sum.splits)
  have "m = m'" and e1: "lc @ ln @ fromHex pk @ of_nat (length us) # concat (map utxo_bytes us)
      = lc' @ ln' @ fromHex pk' @ of_nat (length us') # concat (map utxo_bytes us')"
    using lp_prefix[OF l(1,4) eq] by auto
  have "c = c'" and e2: "ln @ fromHex pk @ of_nat (length us) # concat (map utxo_bytes us)
      = ln' @ fromHex pk' @ of_nat (length us') # concat (map utxo_bytes us')"
    using lp_prefix[OF l(2,5) e1] by (auto simp: chain_text_inj)
  have "n = n'" and e3: "fromHex pk @ of_nat (length us) # concat (map utxo_bytes us)
      = fromHex pk' @ of_nat (length us') # concat (map utxo_bytes us')"
    using lp_prefix[OF l(3,6) e2] by (auto simp: net_text_inj)
  have "length (fromHex pk) = length (fromHex pk')"
    using ok(1,2) toHex_fromHex[of pk] toHex_fromHex[of pk'] by (simp add: hex_text_def)
  with e3 have e4: "fromHex pk = fromHex pk'" "(of_nat (length us) :: 8 word) = of_nat (length us')"
    "concat (map utxo_bytes us) = concat (map utxo_bytes us')" by auto
  have "pk = pk'" using e4(1) ok(1,2) fromHex_inj[of pk pk'] by (simp add: hex_text_def)
  moreover have "length us = length us'" using e4(2) ok(3,4)
    by (simp add: utxos_ok_def MAX_PROOF_UTXOS_def of_nat_byte_inj)
  then have "us = us'" using utxos_bytes_inj[of us c us'] ok(3,4) e4(3) \<open>c = c'\<close> by (simp add: utxos_ok_def)
  ultimately show ?thesis using \<open>m = m'\<close> \<open>c = c'\<close> \<open>n = n'\<close> by simp
qed

lemma proofDigest_Inr:
  "proofDigest th m c n pk us = Inr d \<Longrightarrow>
   m \<noteq> [] \<and> hex_text 64 pk \<and> utxosError (Some (JArr (map utxo_json us))) c = None \<and>
   (\<exists>b. proofBody m c n pk us = Inr b \<and> d = th FUNDS_PROOF_TAG b)"
  by (cases "proofBody m c n pk us") (auto simp: proofDigest_def split: if_splits option.splits)

section \<open>The explorer check\<close>

definition live_key :: "live_utxo \<Rightarrow> string" where
  "live_key u = l_txid u @ CHR '':'' # show_int (l_vout u)"

lemma live_map_eq: "map_of (live_map us) k = map_option l_value (find (\<lambda>u. live_key u = k) (rev us))"
proof -
  have "live_map us = fold (\<lambda>(k, v). map_set k v) (map (\<lambda>u. (live_key u, l_value u)) us) []"
    by (simp add: live_map_def live_key_def fold_map o_def)
  moreover have "map_of (map (\<lambda>u. (live_key u, l_value u)) xs) k = map_option l_value (find (\<lambda>u. live_key u = k) xs)" for xs
    by (induction xs) auto
  ultimately show ?thesis
    by (simp add: alist.get_fold_set rev_map split: option.split)
qed

lemma checkLive_ok:
  "checkLive live us = CheckOk \<longleftrightarrow> (\<forall>u \<in> set us. map_of live (outpoint_key u) = Some (the (BigInt_of (u_value u))))"
  by (induction live us rule: checkLive.induct) (auto split: option.splits)

lemma live_map_Some: "map_of (live_map us) k = Some v \<Longrightarrow> \<exists>l \<in> set us. live_key l = k \<and> l_value l = v"
  by (auto simp: live_map_eq find_Some_iff) (metis length_rev nth_mem set_rev)


text \<open>Only the record matters to the check, and a record that passes it is well formed.\<close>

lemma as_utxo_json [simp]: "as_utxo (utxo_json u) = u"
  by (simp add: as_utxo_def utxo_json_def str_at_def int_at_def)

lemma utxosError_sound:
  assumes "utxosError (Some (JArr (map utxo_json us))) c = None"
  shows "utxos_ok c us"
proof -
  have wf: "\<forall>u \<in> set (map utxo_json us). wf_json u" by (auto simp: utxo_json_def)
  have l: "utxosLoop (map utxo_json us) 0 c [] = None" and n: "us \<noteq> []" "length us \<le> MAX_PROOF_UTXOS"
    using assms by (auto simp: utxosError_def split: if_splits)
  from utxosLoop_None[OF l wf] have "\<forall>u \<in> set us. utxo_ok c u" "distinct (map outpoint_key us)"
    by (simp_all add: o_def)
  with n show ?thesis by (simp add: utxos_ok_def)
qed

lemma utxosError_iff: "utxosError (Some (JArr (map utxo_json us))) c = None \<longleftrightarrow> utxos_ok c us"
  using utxosError_sound utxosError_json by auto

lemma proofDigest_ok:
  "proofDigest th m c n pk us = Inr d \<longleftrightarrow>
   m \<noteq> [] \<and> hex_text 64 pk \<and> utxos_ok c us \<and> (\<exists>b. proofBody m c n pk us = Inr b \<and> d = th FUNDS_PROOF_TAG b)"
  by (cases "proofBody m c n pk us")
    (auto simp: proofDigest_def utxosError_iff[symmetric] split: option.splits)

text \<open>What the explorer must answer for the check to pass.\<close>

definition backed_by :: "live_utxo list \<Rightarrow> proof_utxo list \<Rightarrow> bool" where
  "backed_by live us \<longleftrightarrow> (\<forall>u \<in> set us. map_of (live_map live) (outpoint_key u) = Some (the (BigInt_of (u_value u))))"

lemma backed_by_live:
  "backed_by live us \<Longrightarrow> u \<in> set us \<Longrightarrow>
   \<exists>l \<in> set live. live_key l = outpoint_key u \<and> l_value l = the (BigInt_of (u_value u))"
  by (simp add: backed_by_def live_map_Some)

lemma verifyFundsProof_cases:
  assumes "wf_json x"
  shows "verifyFundsProof th ver p2tr x m req es = Inr CheckOk \<longleftrightarrow>
    (\<exists>p d us. fundsProofShapeError x = None \<and> as_proof x = Some p \<and> p_chain p = x_chain es \<and> p_net p = x_net es \<and> 0 \<le> req
      \<and> proofDigest th m (p_chain p) (p_net p) (p_pubkey p) (p_utxos p) = Inr d
      \<and> ver (fromHex (p_sig p)) d (fromHex (p_pubkey p)) = Some True
      \<and> req \<le> proof_sum (p_utxos p)
      \<and> x_utxos es (p2tr (fromHex (p_pubkey p)) (swapNetwork (p_chain p) (p_net p))) = Some us
      \<and> backed_by us (p_utxos p))"
proof (cases "fundsProofShapeError x")
  case None
  then obtain p where p: "as_proof x = Some p" using fundsProofShape_sound[OF assms] by blast
  with None show ?thesis
    by (auto simp: verifyFundsProof_def Let_def checkLive_ok backed_by_def split: sum.splits option.splits if_splits)
qed (simp add: verifyFundsProof_def)

section \<open>Properties\<close>

text \<open>A concrete proof, explorer and toy signature functions, at which the hypotheses below hold.\<close>

definition ex_utxo :: proof_utxo where
  "ex_utxo = \<lparr>u_txid = replicate 64 CHR ''a'', u_vout = 1, u_value = ''50000''\<rparr>"

definition ex_proof :: funds_proof where
  "ex_proof = \<lparr>p_chain = Bitcoin, p_net = Testnet, p_pubkey = replicate 64 CHR ''7'', p_utxos = [ex_utxo],
     p_sig = replicate 128 CHR ''0''\<rparr>"

definition ex_explorer :: explorer where
  "ex_explorer = \<lparr>x_chain = Bitcoin, x_net = Testnet,
     x_utxos = (\<lambda>_. Some [\<lparr>l_txid = replicate 64 CHR ''a'', l_vout = 1, l_value = 50000\<rparr>])\<rparr>"

lemma ex_value: "the (BigInt_of (u_value ex_utxo)) = 50000"
  using BigInt_of_digits[of "''50000''"]
  by (simp add: ex_utxo_def canon_digits_def is_digit_def digits_val_def digit_val_def)

lemma ex_utxo_ok: "utxo_ok Bitcoin ex_utxo"
proof -
  have "hex_text 64 (u_txid ex_utxo)" by (simp add: ex_utxo_def hex_text_def list_all_iff is_hex_lower_def is_digit_def)
  moreover have "decimal_text 15 (u_value ex_utxo)" by (simp add: ex_utxo_def decimal_text_def is_digit_def)
  moreover note ex_value
  ultimately show ?thesis by (simp add: utxo_ok_def ex_utxo_def)
qed

lemma ex_utxos_ok: "utxos_ok Bitcoin [ex_utxo]"
  by (simp add: utxos_ok_def MAX_PROOF_UTXOS_def ex_utxo_ok)

lemma ex_proof_ok: "proof_ok ex_proof"
  by (simp add: proof_ok_def ex_proof_def ex_utxos_ok hex_text_def list_all_iff is_hex_lower_def is_digit_def)

lemma ex_backed: "backed_by [\<lparr>l_txid = replicate 64 CHR ''a'', l_vout = 1, l_value = 50000\<rparr>] [ex_utxo]"
  using ex_value by (simp add: backed_by_def live_map_def outpoint_key_def ex_utxo_def)

lemma lp_ok: "2 * length s \<le> 0xffff \<Longrightarrow> \<exists>b. lp s = Inr b"
  using length_utf8_le[of s] by (auto simp: lp_def Let_def)

lemma proofBody_ok: "2 * length m \<le> 0xffff \<Longrightarrow> \<exists>b. proofBody m c n pk us = Inr b"
proof -
  assume "2 * length m \<le> 0xffff"
  moreover have "2 * length (chain_text c) \<le> 0xffff" "2 * length (net_text n) \<le> 0xffff"
    by (cases c; simp) (cases n; simp)
  ultimately show ?thesis by (auto simp: proofBody_def dest!: lp_ok)
qed

lemma ex_digest: "m \<noteq> [] \<Longrightarrow> 2 * length m \<le> 0xffff \<Longrightarrow>
  \<exists>d. proofDigest th m Bitcoin Testnet (p_pubkey ex_proof) [ex_utxo] = Inr d"
  using proofBody_ok[of m] ex_proof_ok by (auto simp: proofDigest_ok ex_utxos_ok proof_ok_def)

lemma wf_proof_json [simp]: "wf_json (proof_json p)"
  by (auto simp: proof_json_def utxo_json_def)

lemma ex_verifies:
  "verifyFundsProof (\<lambda>_ b. b) (\<lambda>_ _ _. Some True) (\<lambda>_ _. ''tb1q'') (proof_json ex_proof) ''m1'' 40000 ex_explorer = Inr CheckOk"
proof -
  obtain d where "proofDigest (\<lambda>_ b. b) ''m1'' Bitcoin Testnet (p_pubkey ex_proof) [ex_utxo] = Inr d"
    using ex_digest[of "''m1''"] by auto
  moreover have "proof_sum [ex_utxo] = 50000" by (simp add: proof_sum_def ex_value)
  ultimately show ?thesis
    using fundsProofShape_complete[OF ex_proof_ok] ex_backed
    by (subst verifyFundsProof_cases) (auto simp: ex_proof_def ex_explorer_def)
qed

text \<open>C1: an accepted proof of funds is a well-formed record and nothing else, signed for this match
  under its key, and every one of its distinct outpoints is listed by the explorer at the key's
  address with exactly the claimed value, the values adding up to at least what is required.\<close>

theorem verifyFundsProof_sound:
  assumes "wf_json x" and "verifyFundsProof th ver p2tr x m req es = Inr CheckOk"
  shows "\<exists>p d live. as_proof x = Some p \<and> proof_ok p \<and> sortValue x = sortValue (proof_json p)
    \<and> p_chain p = x_chain es \<and> p_net p = x_net es
    \<and> proofDigest th m (p_chain p) (p_net p) (p_pubkey p) (p_utxos p) = Inr d
    \<and> ver (fromHex (p_sig p)) d (fromHex (p_pubkey p)) = Some True
    \<and> x_utxos es (p2tr (fromHex (p_pubkey p)) (swapNetwork (p_chain p) (p_net p))) = Some live
    \<and> distinct (map outpoint_key (p_utxos p))
    \<and> (\<forall>u \<in> set (p_utxos p). \<exists>l \<in> set live. live_key l = outpoint_key u \<and> l_value l = the (BigInt_of (u_value u)))
    \<and> 0 \<le> req \<and> req \<le> (\<Sum>u \<leftarrow> p_utxos p. the (BigInt_of (u_value u)))"
proof -
  from assms obtain p d us where "fundsProofShapeError x = None" "as_proof x = Some p"
    and rest: "p_chain p = x_chain es" "p_net p = x_net es" "0 \<le> req"
      "proofDigest th m (p_chain p) (p_net p) (p_pubkey p) (p_utxos p) = Inr d"
      "ver (fromHex (p_sig p)) d (fromHex (p_pubkey p)) = Some True" "req \<le> proof_sum (p_utxos p)"
      "x_utxos es (p2tr (fromHex (p_pubkey p)) (swapNetwork (p_chain p) (p_net p))) = Some us"
      "backed_by us (p_utxos p)"
    unfolding verifyFundsProof_cases[OF assms(1)] by blast
  moreover from this fundsProofShape_sound[OF assms(1)]
  have ok: "proof_ok p" "sortValue x = sortValue (proof_json p)" by auto
  moreover have "distinct (map outpoint_key (p_utxos p))" using ok(1) by (simp add: proof_ok_def utxos_ok_def)
  ultimately show ?thesis using backed_by_live[OF rest(8)] unfolding proof_sum_def by blast
qed

theorem verifyFundsProof_sound_witness: "\<exists>p. as_proof (proof_json ex_proof) = Some p \<and> proof_ok p"
proof -
  from verifyFundsProof_sound[OF wf_proof_json ex_verifies] show ?thesis by blast
qed

text \<open>C2: a proof signed for one match cannot be replayed: when the messages of two well-formed proofs
  are equal, match, chain, network, key and outpoints are equal, or the two bodies that were hashed are
  a collision of the tagged hash.\<close>

theorem proofDigest_no_replay:
  assumes "proofDigest th m c n pk us = Inr d" and "proofDigest th m' c' n' pk' us' = Inr d"
  shows "(m = m' \<and> c = c' \<and> n = n' \<and> pk = pk' \<and> us = us')
    \<or> (\<exists>a b. proofBody m c n pk us = Inr a \<and> proofBody m' c' n' pk' us' = Inr b
          \<and> a \<noteq> b \<and> th FUNDS_PROOF_TAG a = th FUNDS_PROOF_TAG b)"
proof -
  from assms obtain b b' where b: "proofBody m c n pk us = Inr b" "proofBody m' c' n' pk' us' = Inr b'"
    "th FUNDS_PROOF_TAG b = th FUNDS_PROOF_TAG b'"
    and ok: "hex_text 64 pk" "hex_text 64 pk'" "utxos_ok c us" "utxos_ok c' us'"
    unfolding proofDigest_ok by metis
  show ?thesis
  proof (cases "b = b'")
    case True
    then show ?thesis using proofBody_inj[OF b(1) _ ok] b(2) by simp
  qed (use b in blast)
qed

theorem proofDigest_no_replay_witness:
  "let d = proofDigest (\<lambda>_ b. b) ''m1'' Bitcoin Testnet (p_pubkey ex_proof) [ex_utxo] in
   \<exists>b. d = Inr b \<and> (\<forall>m us. proofDigest (\<lambda>_ b. b) m Bitcoin Testnet (p_pubkey ex_proof) us = d \<longrightarrow> m = ''m1'' \<and> us = [ex_utxo])"
proof -
  obtain b where b: "proofDigest (\<lambda>_ b. b) ''m1'' Bitcoin Testnet (p_pubkey ex_proof) [ex_utxo] = Inr b"
    using ex_digest[of "''m1''"] by auto
  show ?thesis unfolding Let_def b using proofDigest_no_replay[OF _ b] by blast
qed

text \<open>Signing and checking fit together: the proof a wallet signs for a match passes the check of
  that match, against any explorer that lists its outpoints at the wallet's address.\<close>

theorem signed_proof_verifies:
  assumes schnorr: "\<And>d. ver (sign d priv) d (pub priv) = Some True" "\<And>d. length (sign d priv) = 64"
    and signed: "signFundsProof th pub sign priv m c n us = Inr p"
    and net: "x_chain es = c" "x_net es = n"
    and live: "x_utxos es (p2tr (pub priv) (swapNetwork c n)) = Some ls" "backed_by ls us"
    and req: "0 \<le> req" "req \<le> proof_sum us"
  shows "verifyFundsProof th ver p2tr (proof_json p) m req es = Inr CheckOk"
proof -
  obtain d where d: "proofDigest th m c n (toHex (pub priv)) us = Inr d"
    and p: "p_chain p = c" "p_net p = n" "p_pubkey p = toHex (pub priv)" "p_utxos p = us" "p_sig p = toHex (sign d priv)"
    using signed by (auto simp: signFundsProof_def Let_def split: sum.splits)
  have ok: "proof_ok p" using d schnorr(2)[of d] by (simp add: p proof_ok_def proofDigest_ok hex_text_def toHex_lower)
  have "fundsProofShapeError (proof_json p) = None" "as_proof (proof_json p) = Some p"
    using fundsProofShape_complete[OF ok] by simp_all
  then show ?thesis
    using d schnorr(1) net live req unfolding verifyFundsProof_cases[OF wf_proof_json]
    by (intro exI[of _ p] exI[of _ d] exI[of _ ls]) (simp add: p)
qed

theorem signed_proof_verifies_witness:
  "\<exists>p. verifyFundsProof (\<lambda>_ b. b) (\<lambda>_ _ _. Some True) (\<lambda>_ _. ''tb1q'') (proof_json p) ''m1'' 40000 ex_explorer = Inr CheckOk"
proof -
  let ?pub = "\<lambda>_ :: bytes. replicate 32 0x77 :: bytes" and ?sign = "\<lambda>_ _ :: bytes. replicate 64 0 :: bytes"
  have hex: "hex_text 64 (toHex (replicate 32 0x77))" by (simp add: hex_text_def toHex_lower)
  have "\<exists>d. proofDigest (\<lambda>_ b. b) ''m1'' Bitcoin Testnet (toHex (replicate 32 0x77)) [ex_utxo] = Inr d"
    using proofBody_ok[of "''m1''"] hex ex_utxos_ok by (auto simp: proofDigest_ok)
  then obtain p where p: "signFundsProof (\<lambda>_ b. b) ?pub ?sign [] ''m1'' Bitcoin Testnet [ex_utxo] = Inr p"
    by (auto simp: signFundsProof_def Let_def)
  have "proof_sum [ex_utxo] = 50000" by (simp add: proof_sum_def ex_value)
  then have "verifyFundsProof (\<lambda>_ b. b) (\<lambda>_ _ _. Some True) (\<lambda>_ _. ''tb1q'') (proof_json p) ''m1'' 40000 ex_explorer = Inr CheckOk"
    by (intro signed_proof_verifies[OF _ _ p _ _ _ ex_backed]) (simp_all add: ex_explorer_def)
  then show ?thesis by blast
qed

end
