(* ===== verification/Ops.thy ===== *)
theory Ops
  imports FundsProof
begin

text \<open>
  \<open>src/market/ops.ts\<close>: the operations of the order board and the strict parser of their payloads.
  Whether an x-only key lifts to a curve point (\<open>schnorr.utils.lift_x\<close> of \<open>@noble/curves\<close>) is the
  parameter \<open>lift_x :: int \<Rightarrow> bool\<close>.
\<close>

section \<open>Operations\<close>

definition DEFAULT_OFFER_TTL :: int where "DEFAULT_OFFER_TTL = 1440"
definition MAX_OFFER_TTL :: int where "MAX_OFFER_TTL = 2880"

record leg =
  leg_chain :: chain
  leg_amount :: int

datatype op =
    OfferPost (op_give: leg) (op_want: leg) (op_minFill: int) (op_expiresIn: int)
  | OfferCancel (op_offerId: string)
  | OfferTake (op_offerId: string) (op_fill: int) (op_hash: string) (op_takerKey: string)
  | SwapProof (op_matchId: string) (op_makerKey: "string option") (op_proof: funds_proof)
  | SwapLocked (op_matchId: string) (op_txid: string) (op_vout: int)
  | SwapAbort (op_matchId: string)

section \<open>Primitive checks\<close>

definition exact :: "(string \<times> json) list \<Rightarrow> string list \<Rightarrow> string list \<Rightarrow> bool" where
  "exact kvs required optional \<longleftrightarrow>
     list_all (\<lambda>k. map_has kvs k) required
     \<and> list_all (\<lambda>k. k \<in> set required \<or> k \<in> set optional) (keys kvs)"

definition isHex64 :: "string \<Rightarrow> bool" where
  "isHex64 v = hex_text 64 v"

definition isXOnlyKey :: "(int \<Rightarrow> bool) \<Rightarrow> string \<Rightarrow> bool" where
  "isXOnlyKey lift_x v \<longleftrightarrow> isHex64 v \<and> lift_x (the (BigInt_of (''0x'' @ v)))"

definition parseAmount :: "json option \<Rightarrow> int \<Rightarrow> int option" where
  "parseAmount v mx = (case v of
     Some (JStr s) \<Rightarrow> if \<not> decimal_text 18 s then None
       else let n = the (BigInt_of s) in if n \<le> mx then Some n else None
   | _ \<Rightarrow> None)"

definition parseLeg :: "json option \<Rightarrow> leg option" where
  "parseLeg v = (case v of
     Some (JObj kvs) \<Rightarrow>
       if \<not> exact kvs [''chain'', ''amount''] [] then None
       else (case Option.bind (str_at kvs ''chain'') chain_of of None \<Rightarrow> None | Some c \<Rightarrow>
         (case parseAmount (map_of kvs ''amount'') (MAX_MONEY c) of None \<Rightarrow> None
          | Some a \<Rightarrow> Some \<lparr>leg_chain = c, leg_amount = a\<rparr>))
   | _ \<Rightarrow> None)"

definition isVout :: "int \<Rightarrow> bool" where
  "isVout v \<longleftrightarrow> v \<ge> 0 \<and> v \<le> 0xffffffff"

text \<open>A member that must be a string passing a test.\<close>

definition checked_str :: "(string \<times> json) list \<Rightarrow> string \<Rightarrow> (string \<Rightarrow> bool) \<Rightarrow> string option" where
  "checked_str kvs k ok = (case str_at kvs k of Some s \<Rightarrow> if ok s then Some s else None | None \<Rightarrow> None)"

section \<open>The parser\<close>

definition parsePost :: "(string \<times> json) list \<Rightarrow> op option" where
  "parsePost p =
     (if \<not> exact p [''kind'', ''give'', ''want'', ''minFill'', ''expiresIn''] [] then None
      else case (parseLeg (map_of p ''give''), parseLeg (map_of p ''want'')) of
        (Some give, Some want) \<Rightarrow>
          if leg_chain give = leg_chain want then None
          else (case parseAmount (map_of p ''minFill'') (leg_amount give) of None \<Rightarrow> None
            | Some minFill \<Rightarrow> (case int_at p ''expiresIn'' of None \<Rightarrow> None
              | Some ttl \<Rightarrow> if ttl < 1 \<or> ttl > MAX_OFFER_TTL then None
                  else Some (OfferPost give want minFill ttl)))
      | _ \<Rightarrow> None)"

definition parseCancel :: "(string \<times> json) list \<Rightarrow> op option" where
  "parseCancel p = (if \<not> exact p [''kind'', ''offerId''] [] then None
     else map_option OfferCancel (checked_str p ''offerId'' isHex64))"

definition parseTake :: "(int \<Rightarrow> bool) \<Rightarrow> (string \<times> json) list \<Rightarrow> op option" where
  "parseTake lift_x p =
     (if \<not> exact p [''kind'', ''offerId'', ''fill'', ''hash'', ''takerKey''] [] then None
      else case (checked_str p ''offerId'' isHex64, checked_str p ''hash'' isHex64,
                 checked_str p ''takerKey'' (isXOnlyKey lift_x)) of
        (Some oid, Some h, Some key) \<Rightarrow>
          (case parseAmount (map_of p ''fill'') (MAX_MONEY Litecoin) of None \<Rightarrow> None
           | Some fill \<Rightarrow> Some (OfferTake oid fill h key))
      | _ \<Rightarrow> None)"

definition parseProof :: "(int \<Rightarrow> bool) \<Rightarrow> (string \<times> json) list \<Rightarrow> op option" where
  "parseProof lift_x p =
     (if \<not> exact p [''kind'', ''matchId'', ''proof''] [''makerKey''] then None
      else case (checked_str p ''matchId'' isHex64, map_of p ''proof'') of
        (Some mid, Some x) \<Rightarrow>
          if fundsProofShapeError x \<noteq> None then None
          else if map_has p ''makerKey'' \<and> checked_str p ''makerKey'' (isXOnlyKey lift_x) = None then None
          else Some (SwapProof mid (str_at p ''makerKey'') (the (as_proof x)))
      | _ \<Rightarrow> None)"

definition parseLocked :: "(string \<times> json) list \<Rightarrow> op option" where
  "parseLocked p =
     (if \<not> exact p [''kind'', ''matchId'', ''txid'', ''vout''] [] then None
      else case (checked_str p ''matchId'' isHex64, checked_str p ''txid'' isHex64, int_at p ''vout'') of
        (Some mid, Some txid, Some vout) \<Rightarrow> if isVout vout then Some (SwapLocked mid txid vout) else None
      | _ \<Rightarrow> None)"

definition parseAbort :: "(string \<times> json) list \<Rightarrow> op option" where
  "parseAbort p = (if \<not> exact p [''kind'', ''matchId''] [] then None
     else map_option SwapAbort (checked_str p ''matchId'' isHex64))"

definition parseOp :: "(int \<Rightarrow> bool) \<Rightarrow> json \<Rightarrow> op option" where
  "parseOp lift_x payload = (case payload of
     JObj p \<Rightarrow> (case str_at p ''kind'' of None \<Rightarrow> None | Some k \<Rightarrow>
       if k = ''offer.post'' then parsePost p
       else if k = ''offer.cancel'' then parseCancel p
       else if k = ''offer.take'' then parseTake lift_x p
       else if k = ''swap.proof'' then parseProof lift_x p
       else if k = ''swap.locked'' then parseLocked p
       else if k = ''swap.abort'' then parseAbort p
       else None)
   | _ \<Rightarrow> None)"

section \<open>The payload of an operation\<close>

definition leg_json :: "leg \<Rightarrow> json" where
  "leg_json l = JObj [(''chain'', JStr (chain_text (leg_chain l))), (''amount'', JStr (show_int (leg_amount l)))]"

fun opPayload :: "op \<Rightarrow> json" where
  "opPayload (OfferPost give want minFill ttl) = JObj [(''kind'', JStr ''offer.post''), (''give'', leg_json give),
     (''want'', leg_json want), (''minFill'', JStr (show_int minFill)), (''expiresIn'', JInt ttl)]"
| "opPayload (OfferTake oid fill h key) = JObj [(''kind'', JStr ''offer.take''), (''offerId'', JStr oid),
     (''fill'', JStr (show_int fill)), (''hash'', JStr h), (''takerKey'', JStr key)]"
| "opPayload (SwapProof mid mk p) = (case mk of
     None \<Rightarrow> JObj [(''kind'', JStr ''swap.proof''), (''matchId'', JStr mid), (''proof'', proof_json p)]
   | Some k \<Rightarrow> JObj [(''kind'', JStr ''swap.proof''), (''matchId'', JStr mid), (''makerKey'', JStr k), (''proof'', proof_json p)])"
| "opPayload (OfferCancel oid) = JObj [(''kind'', JStr ''offer.cancel''), (''offerId'', JStr oid)]"
| "opPayload (SwapLocked mid txid vout) = JObj [(''kind'', JStr ''swap.locked''), (''matchId'', JStr mid),
     (''txid'', JStr txid), (''vout'', JInt vout)]"
| "opPayload (SwapAbort mid) = JObj [(''kind'', JStr ''swap.abort''), (''matchId'', JStr mid)]"

section \<open>Well-formed operations\<close>

definition amount_ok :: "int \<Rightarrow> bool" where
  "amount_ok n \<longleftrightarrow> 0 < n \<and> n < 10 ^ 19"

definition leg_ok :: "leg \<Rightarrow> bool" where
  "leg_ok l \<longleftrightarrow> 0 < leg_amount l \<and> leg_amount l \<le> MAX_MONEY (leg_chain l)"

fun op_ok :: "(int \<Rightarrow> bool) \<Rightarrow> op \<Rightarrow> bool" where
  "op_ok lift_x (OfferPost give want minFill ttl) \<longleftrightarrow> leg_ok give \<and> leg_ok want \<and> leg_chain give \<noteq> leg_chain want
     \<and> 0 < minFill \<and> minFill \<le> leg_amount give \<and> 1 \<le> ttl \<and> ttl \<le> MAX_OFFER_TTL"
| "op_ok lift_x (OfferCancel oid) \<longleftrightarrow> isHex64 oid"
| "op_ok lift_x (OfferTake oid fill h key) \<longleftrightarrow> isHex64 oid \<and> isHex64 h \<and> isXOnlyKey lift_x key
     \<and> 0 < fill \<and> fill \<le> MAX_MONEY Litecoin"
| "op_ok lift_x (SwapProof mid mk p) \<longleftrightarrow> isHex64 mid \<and> proof_ok p \<and> (\<forall>k \<in> set_option mk. isXOnlyKey lift_x k)"
| "op_ok lift_x (SwapLocked mid txid vout) \<longleftrightarrow> isHex64 mid \<and> isHex64 txid \<and> isVout vout"
| "op_ok lift_x (SwapAbort mid) \<longleftrightarrow> isHex64 mid"

lemma exact_keys:
  assumes "exact kvs req []" "distinct (keys kvs)" "distinct req"
  shows "mset (keys kvs) = mset req"
proof -
  have "set (keys kvs) = set req"
    using assms(1) by (auto simp: exact_def list_all_iff map_has_def dest: map_of_SomeD)
      (metis fst_conv image_eqI map_of_SomeD)
  then show ?thesis using set_eq_iff_mset_eq_distinct[OF assms(2,3)] by blast
qed

lemma checked_str_Some [simp]: "checked_str kvs k ok = Some s \<longleftrightarrow> map_of kvs k = Some (JStr s) \<and> ok s"
  by (cases "str_at kvs k") (auto simp: checked_str_def simp flip: str_at_Some)

lemma parseAmount_Some:
  "parseAmount v mx = Some n \<longleftrightarrow> (\<exists>s. v = Some (JStr s) \<and> decimal_text 18 s \<and> n = the (BigInt_of s) \<and> n \<le> mx)"
  by (auto simp: parseAmount_def Let_def split: option.splits json.splits if_splits)


lemma length_show_nat: "n < 10 ^ Suc k \<Longrightarrow> length (show_nat n) \<le> Suc k"
proof (induction k arbitrary: n)
  case 0
  then show ?case by (simp add: show_nat.simps)
next
  case (Suc k)
  then have "n div 10 < 10 ^ Suc k" by (simp add: less_mult_imp_div_less mult.commute)
  from Suc.IH[OF this] show ?case by (subst show_nat.simps) simp
qed

lemma decimal_text_show_int:
  assumes "0 < n" "n < 10 ^ Suc m"
  shows "decimal_text m (show_int n)"
proof -
  have n: "show_int n = show_nat (nat n)" using assms(1) by (simp add: show_int_nonneg)
  have "nat n < 10 ^ Suc m" using assms by (simp add: nat_less_iff)
  then have "length (show_nat (nat n)) \<le> Suc m" by (rule length_show_nat)
  with assms(1) show ?thesis by (simp add: n decimal_text_def show_nat_hd0)
qed

lemma decimal_text_value:
  assumes "decimal_text m s"
  shows "0 < the (BigInt_of s) \<and> show_int (the (BigInt_of s)) = s"
proof -
  have c: "canon_digits s" using assms by (rule decimal_text_canon)
  have "0 < digits_val s" using assms by (auto simp: decimal_text_def intro!: digits_val_pos)
  with BigInt_of_digits[OF c] show_nat_digits_val[OF c] show ?thesis by (simp add: show_int_nonneg)
qed

text \<open>An accepted amount is positive, within its bound, and its text is the one \<open>toString\<close> gives back.\<close>

lemma parseAmount_sound:
  "parseAmount v mx = Some n \<Longrightarrow> v = Some (JStr (show_int n)) \<and> 0 < n \<and> n \<le> mx"
  by (auto simp: parseAmount_Some dest: decimal_text_value)

lemma parseAmount_complete:
  "0 < n \<Longrightarrow> n \<le> mx \<Longrightarrow> n < 10 ^ 19 \<Longrightarrow> parseAmount (Some (JStr (show_int n))) mx = Some n"
  using decimal_text_show_int[of n 18] by (auto simp: parseAmount_Some)

lemma MAX_MONEY_19: "MAX_MONEY c < 10 ^ 19"
  by (cases c) simp_all

lemma parseLeg_sound:
  assumes "parseLeg v = Some l" "\<And>x. v = Some x \<Longrightarrow> wf_json x"
  shows "\<exists>x. v = Some x \<and> leg_ok l \<and> sortValue x = sortValue (leg_json l)"
proof -
  obtain kvs c a ct where v: "v = Some (JObj kvs)" and ex: "exact kvs [''chain'', ''amount''] []"
    and ct: "map_of kvs ''chain'' = Some (JStr ct)" "chain_of ct = Some c"
    and a: "parseAmount (map_of kvs ''amount'') (MAX_MONEY c) = Some a"
    and l: "l = \<lparr>leg_chain = c, leg_amount = a\<rparr>"
    using assms(1) by (auto simp: parseLeg_def bind_eq_Some_conv split: option.splits json.splits if_splits)
  from parseAmount_sound[OF a] have a': "map_of kvs ''amount'' = Some (JStr (show_int a))" "0 < a" "a \<le> MAX_MONEY c"
    by simp_all
  have wf: "wf_json (JObj kvs)" using assms(2) v by blast
  then have "mset (keys kvs) = mset [''chain'', ''amount'']" by (intro exact_keys[OF ex]) auto
  then have "sortValue (JObj kvs) = sortValue (leg_json l)"
    unfolding leg_json_def
    by (intro obj_canon_eqI wf) (use l ct a' in \<open>auto dest: chain_of_SomeD\<close>)
  with v l a' show ?thesis by (auto simp: leg_ok_def)
qed

lemma parseLeg_complete: "leg_ok l \<Longrightarrow> parseLeg (Some (leg_json l)) = Some l"
  using parseAmount_complete[of "leg_amount l" "MAX_MONEY (leg_chain l)"] MAX_MONEY_19[of "leg_chain l"]
  by (simp add: leg_ok_def parseLeg_def leg_json_def exact_def map_has_def str_at_def)


section \<open>What the parser accepts\<close>

text \<open>An exact object is canonically the object of its required members.\<close>

lemma exact_canon:
  assumes "exact kvs req []" "wf_json (JObj kvs)" "wf_json (JObj lvs)" "keys lvs = req"
    and "\<And>k v. (k, v) \<in> set lvs \<Longrightarrow> \<exists>v'. map_of kvs k = Some v' \<and> sortValue v' = sortValue v"
  shows "sortValue (JObj kvs) = sortValue (JObj lvs)"
proof (rule obj_canon_eqI[OF assms(2,3) _ assms(5)])
  have "distinct (keys kvs)" "distinct req" using assms(2,3,4) by auto
  from exact_keys[OF assms(1) this] show "mset (keys kvs) = mset (keys lvs)" by (simp only: assms(4))
qed

lemma wf_member: "wf_json (JObj kvs) \<Longrightarrow> map_of kvs k = Some v \<Longrightarrow> wf_json v"
  by (auto dest: map_of_SomeD)

lemma wf_leg_json [simp]: "wf_json (leg_json l)"
  by (simp add: leg_json_def)

lemma parsePost_sound:
  assumes "parsePost p = Some x" "map_of p ''kind'' = Some (JStr ''offer.post'')" "wf_json (JObj p)"
  shows "op_ok lift_x x \<and> sortValue (JObj p) = sortValue (opPayload x)"
proof -
  obtain g w m t where ex: "exact p [''kind'', ''give'', ''want'', ''minFill'', ''expiresIn''] []"
    and g: "parseLeg (map_of p ''give'') = Some g" and w: "parseLeg (map_of p ''want'') = Some w"
    and ne: "leg_chain g \<noteq> leg_chain w" and m: "parseAmount (map_of p ''minFill'') (leg_amount g) = Some m"
    and t: "map_of p ''expiresIn'' = Some (JInt t)" "1 \<le> t" "t \<le> MAX_OFFER_TTL"
    and x: "x = OfferPost g w m t"
    using assms(1) by (auto simp: parsePost_def split: option.splits if_splits simp flip: int_at_Some)
  obtain gj wj where gj: "map_of p ''give'' = Some gj" "leg_ok g" "sortValue gj = sortValue (leg_json g)"
    and wj: "map_of p ''want'' = Some wj" "leg_ok w" "sortValue wj = sortValue (leg_json w)"
    using parseLeg_sound[OF g] parseLeg_sound[OF w] wf_member[OF assms(3)] by blast
  note mj = parseAmount_sound[OF m]
  have "sortValue (JObj p) = sortValue (opPayload x)"
    unfolding x opPayload.simps
    by (rule exact_canon[OF ex assms(3)]) (use assms(2) gj wj mj t in auto)
  with x gj wj mj t ne show ?thesis by simp
qed

lemma parseTake_sound:
  assumes "parseTake lift_x p = Some x" "map_of p ''kind'' = Some (JStr ''offer.take'')" "wf_json (JObj p)"
  shows "op_ok lift_x x \<and> sortValue (JObj p) = sortValue (opPayload x)"
proof -
  obtain oid h key f where ex: "exact p [''kind'', ''offerId'', ''fill'', ''hash'', ''takerKey''] []"
    and m: "checked_str p ''offerId'' isHex64 = Some oid" "checked_str p ''hash'' isHex64 = Some h"
      "checked_str p ''takerKey'' (isXOnlyKey lift_x) = Some key"
    and f: "parseAmount (map_of p ''fill'') (MAX_MONEY Litecoin) = Some f" and x: "x = OfferTake oid f h key"
    using assms(1) by (auto simp: parseTake_def simp del: checked_str_Some split: option.splits if_splits)
  note mj = parseAmount_sound[OF f]
  have "sortValue (JObj p) = sortValue (opPayload x)"
    unfolding x opPayload.simps
    by (rule exact_canon[OF ex assms(3)]) (use assms(2) m mj in auto)
  with x m mj show ?thesis by simp
qed

lemma parseProof_sound:
  assumes "parseProof lift_x p = Some x" "map_of p ''kind'' = Some (JStr ''swap.proof'')" "wf_json (JObj p)"
  shows "op_ok lift_x x \<and> sortValue (JObj p) = sortValue (opPayload x)"
proof -
  obtain mid pj where ex: "exact p [''kind'', ''matchId'', ''proof''] [''makerKey'']"
    and m: "checked_str p ''matchId'' isHex64 = Some mid" and pj: "map_of p ''proof'' = Some pj"
    and ok: "fundsProofShapeError pj = None"
    and key: "map_has p ''makerKey'' \<Longrightarrow> checked_str p ''makerKey'' (isXOnlyKey lift_x) \<noteq> None"
    and x: "x = SwapProof mid (str_at p ''makerKey'') (the (as_proof pj))"
    using assms(1) by (auto simp: parseProof_def simp del: checked_str_Some split: option.splits if_splits)
  obtain q where q: "as_proof pj = Some q" "proof_ok q" "sortValue pj = sortValue (proof_json q)"
    using fundsProofShape_sound[OF wf_member[OF assms(3) pj] ok] by blast
  have wfq: "wf_json (proof_json q)" by (auto simp: proof_json_def utxo_json_def)
  show ?thesis
  proof (cases "map_has p ''makerKey''")
    case False
    then have "map_of p ''makerKey'' = None" by (simp add: map_has_def)
    then have n: "str_at p ''makerKey'' = None" by (simp add: str_at_def)
    have "''makerKey'' \<notin> set (keys p)" using False by (simp add: map_has_def map_of_None_keys)
    then have "k \<in> set [''kind'', ''matchId'', ''proof'']" if "k \<in> set (keys p)" for k
    proof -
      have "k \<in> set [''kind'', ''matchId'', ''proof''] \<or> k \<in> set [''makerKey'']"
        using ex that unfolding exact_def list_all_iff by blast
      moreover have "k \<noteq> ''makerKey''" using that \<open>''makerKey'' \<notin> set (keys p)\<close> by blast
      ultimately show ?thesis by simp
    qed
    then have "exact p [''kind'', ''matchId'', ''proof''] []"
      using ex unfolding exact_def list_all_iff by blast
    then have "sortValue (JObj p) = sortValue (opPayload x)"
      unfolding x n opPayload.simps option.case
      by (rule exact_canon[OF _ assms(3)]) (use assms(2) m pj q wfq in auto)
    with x n m q show ?thesis by simp
  next
    case True
    with key obtain k where k: "checked_str p ''makerKey'' (isXOnlyKey lift_x) = Some k" by blast
    then have sk: "str_at p ''makerKey'' = Some k" by simp
    have "exact p [''kind'', ''matchId'', ''makerKey'', ''proof''] []"
      using ex True by (auto simp: exact_def list_all_iff)
    then have "sortValue (JObj p) = sortValue (opPayload x)"
      unfolding x sk opPayload.simps option.case
      by (rule exact_canon[OF _ assms(3)]) (use assms(2) m pj q wfq k in auto)
    with x sk k m q show ?thesis by simp
  qed
qed

lemma parseLocked_sound:
  assumes "parseLocked p = Some x" "map_of p ''kind'' = Some (JStr ''swap.locked'')" "wf_json (JObj p)"
  shows "op_ok lift_x x \<and> sortValue (JObj p) = sortValue (opPayload x)"
proof -
  obtain mid txid v where ex: "exact p [''kind'', ''matchId'', ''txid'', ''vout''] []"
    and m: "checked_str p ''matchId'' isHex64 = Some mid" "checked_str p ''txid'' isHex64 = Some txid"
      "int_at p ''vout'' = Some v" "isVout v" and x: "x = SwapLocked mid txid v"
    using assms(1) by (auto simp: parseLocked_def simp del: checked_str_Some int_at_Some split: option.splits if_splits)
  have "sortValue (JObj p) = sortValue (opPayload x)"
    unfolding x opPayload.simps
    by (rule exact_canon[OF ex assms(3)]) (use assms(2) m in auto)
  with x m show ?thesis by simp
qed

lemma parseCancel_sound:
  assumes "parseCancel p = Some x" "map_of p ''kind'' = Some (JStr ''offer.cancel'')" "wf_json (JObj p)"
  shows "op_ok lift_x x \<and> sortValue (JObj p) = sortValue (opPayload x)"
proof -
  obtain oid where ex: "exact p [''kind'', ''offerId''] []"
    and m: "checked_str p ''offerId'' isHex64 = Some oid" and x: "x = OfferCancel oid"
    using assms(1) by (auto simp: parseCancel_def simp del: checked_str_Some split: if_splits)
  have "sortValue (JObj p) = sortValue (opPayload x)"
    unfolding x opPayload.simps by (rule exact_canon[OF ex assms(3)]) (use assms(2) m in auto)
  with x m show ?thesis by simp
qed

lemma parseAbort_sound:
  assumes "parseAbort p = Some x" "map_of p ''kind'' = Some (JStr ''swap.abort'')" "wf_json (JObj p)"
  shows "op_ok lift_x x \<and> sortValue (JObj p) = sortValue (opPayload x)"
proof -
  obtain mid where ex: "exact p [''kind'', ''matchId''] []"
    and m: "checked_str p ''matchId'' isHex64 = Some mid" and x: "x = SwapAbort mid"
    using assms(1) by (auto simp: parseAbort_def simp del: checked_str_Some split: if_splits)
  have "sortValue (JObj p) = sortValue (opPayload x)"
    unfolding x opPayload.simps by (rule exact_canon[OF ex assms(3)]) (use assms(2) m in auto)
  with x m show ?thesis by simp
qed

lemmas parse_sound = parsePost_sound parseCancel_sound parseTake_sound parseProof_sound parseLocked_sound parseAbort_sound

lemma parseOp_sound:
  assumes "wf_json x" "parseOp lift_x x = Some q"
  shows "op_ok lift_x q \<and> sortValue x = sortValue (opPayload q)"
proof -
  obtain p k where x: "x = JObj p" and k: "map_of p ''kind'' = Some (JStr k)"
    using assms(2) by (cases x) (auto simp: parseOp_def split: option.splits simp flip: str_at_Some)
  have sk: "str_at p ''kind'' = Some k" using k by simp
  have wf: "wf_json (JObj p)" using assms(1) x by simp
  consider "k = ''offer.post''" "parsePost p = Some q" | "k = ''offer.cancel''" "parseCancel p = Some q"
    | "k = ''offer.take''" "parseTake lift_x p = Some q" | "k = ''swap.proof''" "parseProof lift_x p = Some q"
    | "k = ''swap.locked''" "parseLocked p = Some q" | "k = ''swap.abort''" "parseAbort p = Some q"
    using assms(2) unfolding x parseOp_def by (simp only: json.case sk option.case split: if_splits) blast+
  then show ?thesis
    unfolding x
    by cases (use k wf parse_sound in blast)+
qed


lemma parseOp_complete:
  assumes "op_ok lift_x q"
  shows "parseOp lift_x (opPayload q) = Some q"
proof (cases q)
  case (OfferPost g w m t)
  have "leg_amount g < 10 ^ 19" using assms MAX_MONEY_19[of "leg_chain g"] OfferPost by (simp add: leg_ok_def)
  then have "parseAmount (Some (JStr (show_int m))) (leg_amount g) = Some m"
    using assms OfferPost by (intro parseAmount_complete) auto
  with assms OfferPost show ?thesis
    by (simp add: parseOp_def parsePost_def exact_def map_has_def str_at_def int_at_def parseLeg_complete)
next
  case (OfferTake oid f h key)
  then have "parseAmount (Some (JStr (show_int f))) (MAX_MONEY Litecoin) = Some f"
    using assms MAX_MONEY_19[of Litecoin] by (intro parseAmount_complete) auto
  with assms OfferTake show ?thesis
    by (simp add: parseOp_def parseTake_def exact_def map_has_def str_at_def checked_str_def)
next
  case (SwapProof mid mk p)
  with assms fundsProofShape_complete[of p] show ?thesis
    by (cases mk) (simp_all add: parseOp_def parseProof_def exact_def map_has_def str_at_def checked_str_def)
qed (use assms in \<open>simp_all add: parseOp_def parseCancel_def parseAbort_def parseLocked_def
      exact_def map_has_def str_at_def int_at_def checked_str_def\<close>)


section \<open>The signed bytes determine the operation\<close>

lemma utxo_json_inj: "sortValue (utxo_json u) = sortValue (utxo_json v) \<Longrightarrow> u = v"
proof -
  assume "sortValue (utxo_json u) = sortValue (utxo_json v)"
  from sortValue_JObj_D[OF this[unfolded utxo_json_def]] show ?thesis by simp
qed

lemma leg_json_inj: "sortValue (leg_json l) = sortValue (leg_json m) \<Longrightarrow> l = m"
proof -
  assume "sortValue (leg_json l) = sortValue (leg_json m)"
  from sortValue_JObj_D[OF this[unfolded leg_json_def]]
  show ?thesis by (simp add: chain_text_inj show_int_inj)
qed


lemma proof_json_inj: "sortValue (proof_json p) = sortValue (proof_json q) \<Longrightarrow> p = q"
proof -
  assume eq: "sortValue (proof_json p) = sortValue (proof_json q)"
  have wf: "wf_json (utxo_json u)" for u by (simp add: utxo_json_def)
  from sortValue_JObj_D[OF eq[unfolded proof_json_def]]
  have m: "chain_text (p_chain p) = chain_text (p_chain q)" "net_text (p_net p) = net_text (p_net q)"
    "p_pubkey p = p_pubkey q" "p_sig p = p_sig q"
    "map (\<lambda>u. sortValue (utxo_json u)) (p_utxos p) = map (\<lambda>u. sortValue (utxo_json u)) (p_utxos q)"
    by (simp_all add: wf o_def)
  have "inj (\<lambda>u. sortValue (utxo_json u))" by (rule injI) (rule utxo_json_inj)
  with m(5) have "p_utxos p = p_utxos q" by (simp add: inj_map_eq_map)
  with m show ?thesis by (simp add: chain_text_inj net_text_inj)
qed

fun op_kind :: "op \<Rightarrow> string" where
  "op_kind (OfferPost _ _ _ _) = ''offer.post''"
| "op_kind (OfferCancel _) = ''offer.cancel''"
| "op_kind (OfferTake _ _ _ _) = ''offer.take''"
| "op_kind (SwapProof _ _ _) = ''swap.proof''"
| "op_kind (SwapLocked _ _ _) = ''swap.locked''"
| "op_kind (SwapAbort _) = ''swap.abort''"

definition op_members :: "op \<Rightarrow> (string \<times> json) list" where
  "op_members q = (case opPayload q of JObj kvs \<Rightarrow> kvs | _ \<Rightarrow> [])"

lemma wf_proof_members: "wf_json (proof_json p)"
  by (auto simp: proof_json_def utxo_json_def)

lemma opPayload_members: "opPayload q = JObj (op_members q)"
  by (cases q) (simp_all add: op_members_def split: option.split)

lemma wf_opPayload [simp]: "wf_json (opPayload q)"
  by (cases q) (simp_all add: wf_proof_members split: option.split)

lemma op_members_kind: "map_of (op_members q) ''kind'' = Some (JStr (op_kind q))"
  by (cases q) (simp_all add: op_members_def split: option.split)

lemma op_members_eq:
  assumes "sortValue (opPayload q) = sortValue (opPayload r)" "k \<noteq> ''__proto__''"
  shows "map_option sortValue (map_of (op_members q) k) = map_option sortValue (map_of (op_members r) k)"
  using sortValue_member[of "op_members q" "op_members r"] assms wf_opPayload[of q] wf_opPayload[of r]
  unfolding opPayload_members by blast

lemma opPayload_inj:
  assumes eq: "sortValue (opPayload q) = sortValue (opPayload r)"
  shows "q = r"
proof -
  note m = op_members_eq[OF eq]
  have k: "op_kind q = op_kind r" using m[of "''kind''"] by (simp add: op_members_kind)
  show ?thesis
  proof (cases q)
    case (OfferPost g w mf t)
    with k obtain g' w' mf' t' where "r = OfferPost g' w' mf' t'" by (cases r) auto
    with OfferPost m[of "''give''"] m[of "''want''"] m[of "''minFill''"] m[of "''expiresIn''"] show ?thesis
      by (simp add: op_members_def show_int_inj leg_json_inj)
  next
    case (OfferCancel oid)
    with k obtain oid' where "r = OfferCancel oid'" by (cases r) auto
    with OfferCancel m[of "''offerId''"] show ?thesis by (simp add: op_members_def)
  next
    case (OfferTake oid f h key)
    with k obtain oid' f' h' key' where "r = OfferTake oid' f' h' key'" by (cases r) auto
    with OfferTake m[of "''offerId''"] m[of "''fill''"] m[of "''hash''"] m[of "''takerKey''"] show ?thesis
      by (simp add: op_members_def show_int_inj)
  next
    case (SwapProof mid mk p)
    with k obtain mid' mk' p' where r: "r = SwapProof mid' mk' p'" by (cases r) auto
    have "mid = mid' \<and> sortValue (proof_json p) = sortValue (proof_json p')"
      using SwapProof r m[of "''matchId''"] m[of "''proof''"] by (simp add: op_members_def split: option.splits)
    moreover have "mk = mk'"
      using SwapProof r m[of "''makerKey''"] by (simp add: op_members_def split: option.splits)
    ultimately show ?thesis using SwapProof r proof_json_inj by blast
  next
    case (SwapLocked mid t v)
    with k obtain mid' t' v' where "r = SwapLocked mid' t' v'" by (cases r) auto
    with SwapLocked m[of "''matchId''"] m[of "''txid''"] m[of "''vout''"] show ?thesis by (simp add: op_members_def)
  next
    case (SwapAbort mid)
    with k obtain mid' where "r = SwapAbort mid'" by (cases r) auto
    with SwapAbort m[of "''matchId''"] show ?thesis by (simp add: op_members_def)
  qed
qed

section \<open>Properties\<close>

definition ex_id :: string where "ex_id = replicate 64 CHR ''a''"

definition ex_abort :: json where
  "ex_abort = JObj [(''kind'', JStr ''swap.abort''), (''matchId'', JStr ex_id)]"

definition ex_abort_proto :: json where
  "ex_abort_proto = JObj [(''kind'', JStr ''swap.abort''), (''matchId'', JStr ex_id), (''__proto__'', JNull)]"

lemma wf_ex_abort: "wf_json ex_abort"
  by (simp add: ex_abort_def)

lemma ex_abort_parses: "parseOp lift_x ex_abort = Some (SwapAbort ex_id)"
proof -
  have "op_ok lift_x (SwapAbort ex_id)"
    by (simp add: isHex64_def hex_text_def ex_id_def list_all_iff is_hex_lower_def is_digit_def)
  from parseOp_complete[OF this] show ?thesis by (simp add: ex_abort_def)
qed

text \<open>An accepted payload is a well-formed operation (amounts positive and bounded, ids and keys
  well shaped, two different chains) and says nothing else: its canonical bytes are those of the
  operation's own payload, which parses back to the same operation.\<close>

theorem parseOp_exact:
  assumes "wf_json x" and "parseOp lift_x x = Some q"
  shows "op_ok lift_x q \<and> canonicalize x = canonicalize (opPayload q) \<and> parseOp lift_x (opPayload q) = Some q"
  using parseOp_sound[OF assms] parseOp_complete by (auto simp: canonicalize_def)

theorem parseOp_exact_witness: "canonicalize ex_abort = canonicalize (opPayload (SwapAbort ex_id))"
  using parseOp_exact[OF wf_ex_abort ex_abort_parses] by blast

text \<open>Round trip: exactly the well-formed operations parse back from their own payload.\<close>

theorem parseOp_opPayload: "parseOp lift_x (opPayload q) = Some q \<longleftrightarrow> op_ok lift_x q"
  using parseOp_complete parseOp_sound[OF wf_opPayload] by blast



text \<open>The bytes do not determine whether a write parses. A member named \<open>__proto__\<close> (an own
  property when it comes from \<open>JSON.parse\<close>) is dropped by \<open>sortValue\<close>, so it is not signed, while
  \<open>exact\<close> rejects it: a relay can add it to a valid write without breaking id or signature, and the
  copy is ignored by the fold.\<close>

theorem canonical_ignores_proto:
  "canonicalize ex_abort_proto = canonicalize ex_abort
   \<and> parseOp lift_x ex_abort = Some (SwapAbort ex_id) \<and> parseOp lift_x ex_abort_proto = None"
proof (intro conjI)
  have "wf_json ex_abort" "wf_json ex_abort_proto" by (simp_all add: ex_abort_def ex_abort_proto_def)
  then show "canonicalize ex_abort_proto = canonicalize ex_abort"
    unfolding canonicalize_def ex_abort_def ex_abort_proto_def
    by (intro arg_cong[of _ _ show_json]) (auto simp: sortValue_JObj_eq simp del: sortValue.simps)
  show "parseOp lift_x ex_abort = Some (SwapAbort ex_id)" by (rule ex_abort_parses)
  show "parseOp lift_x ex_abort_proto = None"
    by (simp add: parseOp_def ex_abort_proto_def str_at_def parseAbort_def exact_def map_has_def)
qed

end
