(* ===== verification/State.thy ===== *)
theory State
  imports Ops
begin

text \<open>
  \<open>src/market/state.ts\<close>: the order board an anchor commits to, its canonical JSON, the root and the
  loader of snapshots. A \<open>View\<close> is two insertion-ordered maps; its canonical form has id-sorted arrays.

  \<open>deserializeView\<close> copies most fields of its untrusted argument without looking at their type, so
  on ill-typed input the code may return an object outside the type \<open>View\<close>. The model answers
  \<open>Untyped\<close> there and makes no claim; \<open>Rejected\<close> stands for the throw and \<open>Loaded\<close> for a view.
\<close>

section \<open>The view\<close>

record offer =
  o_id :: string
  o_maker :: string
  o_give :: leg
  o_want :: leg
  o_minFill :: int
  o_remaining :: int
  o_postedAt :: int
  o_expiresAt :: int

datatype match_status = AwaitingProofs | Escrow | Cancelled
datatype cancel_reason = NoProof | Abort

record lock_hint =
  lk_txid :: string
  lk_vout :: int
  lk_at :: int

record "match" =
  m_id :: string
  m_offerId :: string
  m_maker :: string
  m_taker :: string
  m_takeSeq :: int
  m_makerChain :: chain
  m_makerAmount :: int
  m_makerRefundBlocks :: int
  m_takerChain :: chain
  m_takerAmount :: int
  m_takerRefundBlocks :: int
  m_hash :: string
  m_takerKey :: string
  m_makerKey :: "string option"
  m_status :: match_status
  m_takenAt :: int
  m_proofDeadline :: int
  m_pruneAt :: int
  m_makerProof :: "funds_proof option"
  m_takerProof :: "funds_proof option"
  m_makerLock :: "lock_hint option"
  m_takerLock :: "lock_hint option"
  m_cancelled :: "(int \<times> cancel_reason) option"

record view =
  offers :: "(string, offer) jsmap"
  matches :: "(string, match) jsmap"

definition emptyView :: view where
  "emptyView = \<lparr>offers = [], matches = []\<rparr>"

section \<open>The canonical form\<close>

primrec status_text :: "match_status \<Rightarrow> string" where
  "status_text AwaitingProofs = ''awaitingProofs''"
| "status_text Escrow = ''escrow''"
| "status_text Cancelled = ''cancelled''"

primrec reason_text :: "cancel_reason \<Rightarrow> string" where
  "reason_text NoProof = ''noProof''"
| "reason_text Abort = ''abort''"

definition or_null :: "('a \<Rightarrow> json) \<Rightarrow> 'a option \<Rightarrow> json" where
  "or_null f x = (case x of None \<Rightarrow> JNull | Some y \<Rightarrow> f y)"

definition json_id :: "json \<Rightarrow> string" where
  "json_id j = (case j of JObj kvs \<Rightarrow> (case str_at kvs ''id'' of Some s \<Rightarrow> s | None \<Rightarrow> []) | _ \<Rightarrow> [])"

definition byId :: "json \<Rightarrow> json \<Rightarrow> int" where
  "byId a b = (if json_id a < json_id b then - 1 else if json_id a > json_id b then 1 else 0)"

definition canonLeg :: "leg \<Rightarrow> json" where
  "canonLeg l = JObj [(''chain'', JStr (chain_text (leg_chain l))), (''amount'', JStr (show_int (leg_amount l)))]"

definition canonOffer :: "offer \<Rightarrow> json" where
  "canonOffer x = JObj [(''id'', JStr (o_id x)), (''maker'', JStr (o_maker x)), (''give'', canonLeg (o_give x)),
     (''want'', canonLeg (o_want x)), (''minFill'', JStr (show_int (o_minFill x))),
     (''remaining'', JStr (show_int (o_remaining x))), (''postedAt'', JInt (o_postedAt x)),
     (''expiresAt'', JInt (o_expiresAt x))]"

definition copyProof :: "funds_proof option \<Rightarrow> json" where
  "copyProof p = or_null proof_json p"

definition copyLock :: "lock_hint option \<Rightarrow> json" where
  "copyLock l = or_null (\<lambda>l. JObj [(''txid'', JStr (lk_txid l)), (''vout'', JInt (lk_vout l)), (''at'', JInt (lk_at l))]) l"

definition copyCancelled :: "(int \<times> cancel_reason) option \<Rightarrow> json" where
  "copyCancelled c = or_null (\<lambda>(at, r). JObj [(''at'', JInt at), (''reason'', JStr (reason_text r))]) c"

definition matchBody :: "match \<Rightarrow> (string \<times> json) list" where
  "matchBody m = [
     (''id'', JStr (m_id m)), (''offerId'', JStr (m_offerId m)), (''maker'', JStr (m_maker m)), (''taker'', JStr (m_taker m)),
     (''takeSeq'', JInt (m_takeSeq m)), (''makerChain'', JStr (chain_text (m_makerChain m))),
     (''makerRefundBlocks'', JInt (m_makerRefundBlocks m)), (''takerChain'', JStr (chain_text (m_takerChain m))),
     (''takerRefundBlocks'', JInt (m_takerRefundBlocks m)), (''hash'', JStr (m_hash m)), (''takerKey'', JStr (m_takerKey m)),
     (''makerKey'', or_null JStr (m_makerKey m)), (''status'', JStr (status_text (m_status m))),
     (''takenAt'', JInt (m_takenAt m)), (''proofDeadline'', JInt (m_proofDeadline m)), (''pruneAt'', JInt (m_pruneAt m)),
     (''makerProof'', copyProof (m_makerProof m)), (''takerProof'', copyProof (m_takerProof m)),
     (''makerLock'', copyLock (m_makerLock m)), (''takerLock'', copyLock (m_takerLock m)),
     (''cancelled'', copyCancelled (m_cancelled m))]"

definition canonMatch :: "match \<Rightarrow> json" where
  "canonMatch m = JObj (matchBody m @
     [(''makerAmount'', JStr (show_int (m_makerAmount m))), (''takerAmount'', JStr (show_int (m_takerAmount m)))])"

definition serializeView :: "view \<Rightarrow> json" where
  "serializeView v = JObj [
     (''offers'', JArr (sort_by byId (map canonOffer (vals (offers v))))),
     (''matches'', JArr (sort_by byId (map canonMatch (vals (matches v)))))]"

definition viewRoot :: "(bytes \<Rightarrow> bytes) \<Rightarrow> view \<Rightarrow> string" where
  "viewRoot H v = sha256Hex H (canonicalize (serializeView v))"

section \<open>Loading a snapshot\<close>

datatype load_error = Throws | Untyped_field

definition typed :: "'a option \<Rightarrow> load_error + 'a" where
  "typed x = (case x of Some y \<Rightarrow> Inr y | None \<Rightarrow> Inl Untyped_field)"

definition sbind :: "'e + 'a \<Rightarrow> ('a \<Rightarrow> 'e + 'b) \<Rightarrow> 'e + 'b" where
  "sbind x f = (case x of Inl e \<Rightarrow> Inl e | Inr a \<Rightarrow> f a)"

text \<open>\<open>BigInt(x)\<close> of a member: a text that is no integer throws; a non-string either throws or turns
  into a text that differs from the member, so that the final comparison throws.\<close>

definition rd_big :: "(string \<times> json) list \<Rightarrow> string \<Rightarrow> load_error + int" where
  "rd_big kvs k = (case Option.bind (str_at kvs k) BigInt_of of Some n \<Rightarrow> Inr n | None \<Rightarrow> Inl Throws)"

definition rd_chain :: "(string \<times> json) list \<Rightarrow> string \<Rightarrow> load_error + chain" where
  "rd_chain kvs k = typed (Option.bind (str_at kvs k) chain_of)"

definition rd_leg :: "(string \<times> json) list \<Rightarrow> string \<Rightarrow> load_error + leg" where
  "rd_leg kvs k = (case map_of kvs k of
     Some (JObj l) \<Rightarrow> sbind (rd_chain l ''chain'') (\<lambda>c. sbind (rd_big l ''amount'') (\<lambda>a.
       Inr \<lparr>leg_chain = c, leg_amount = a\<rparr>))
   | _ \<Rightarrow> Inl Throws)"

definition rd_offer :: "json \<Rightarrow> load_error + offer" where
  "rd_offer j = (case j of JObj kvs \<Rightarrow>
       sbind (typed (str_at kvs ''id'')) (\<lambda>i. sbind (typed (str_at kvs ''maker'')) (\<lambda>mk.
       sbind (rd_leg kvs ''give'') (\<lambda>g. sbind (rd_leg kvs ''want'') (\<lambda>w.
       sbind (rd_big kvs ''minFill'') (\<lambda>mf. sbind (rd_big kvs ''remaining'') (\<lambda>r.
       sbind (typed (int_at kvs ''postedAt'')) (\<lambda>p. sbind (typed (int_at kvs ''expiresAt'')) (\<lambda>e.
         Inr \<lparr>o_id = i, o_maker = mk, o_give = g, o_want = w, o_minFill = mf, o_remaining = r,
              o_postedAt = p, o_expiresAt = e\<rparr>))))))))
   | _ \<Rightarrow> Inl Throws)"

definition null_or :: "(json \<Rightarrow> 'a option) \<Rightarrow> (string \<times> json) list \<Rightarrow> string \<Rightarrow> load_error + 'a option" where
  "null_or f kvs k = (case map_of kvs k of
     Some JNull \<Rightarrow> Inr None
   | Some j \<Rightarrow> typed (map_option Some (f j))
   | None \<Rightarrow> Inl Untyped_field)"

definition json_str :: "json \<Rightarrow> string option" where
  "json_str j = (case j of JStr s \<Rightarrow> Some s | _ \<Rightarrow> None)"

fun read_utxo :: "json \<Rightarrow> proof_utxo option" where
  "read_utxo (JObj kvs) = (case (str_at kvs ''txid'', int_at kvs ''vout'', str_at kvs ''value'') of
     (Some t, Some v, Some a) \<Rightarrow> Some \<lparr>u_txid = t, u_vout = v, u_value = a\<rparr> | _ \<Rightarrow> None)"
| "read_utxo _ = None"

definition read_all :: "('a \<Rightarrow> 'b option) \<Rightarrow> 'a list \<Rightarrow> 'b list option" where
  "read_all f xs = (if list_all (\<lambda>x. f x \<noteq> None) xs then Some (map (the \<circ> f) xs) else None)"

fun read_proof :: "json \<Rightarrow> funds_proof option" where
  "read_proof (JObj p) = (case (Option.bind (str_at p ''chain'') chain_of, Option.bind (str_at p ''net'') net_of,
       str_at p ''pubkey'', Option.bind (arr_at p ''utxos'') (read_all read_utxo), str_at p ''sig'') of
     (Some c, Some n, Some pk, Some us, Some sg) \<Rightarrow>
       Some \<lparr>p_chain = c, p_net = n, p_pubkey = pk, p_utxos = us, p_sig = sg\<rparr> | _ \<Rightarrow> None)"
| "read_proof _ = None"

fun read_lock :: "json \<Rightarrow> lock_hint option" where
  "read_lock (JObj l) = (case (str_at l ''txid'', int_at l ''vout'', int_at l ''at'') of
     (Some t, Some v, Some a) \<Rightarrow> Some \<lparr>lk_txid = t, lk_vout = v, lk_at = a\<rparr> | _ \<Rightarrow> None)"
| "read_lock _ = None"

definition reason_of :: "string \<Rightarrow> cancel_reason option" where
  "reason_of s = (if s = ''noProof'' then Some NoProof else if s = ''abort'' then Some Abort else None)"

definition status_of :: "string \<Rightarrow> match_status option" where
  "status_of s = (if s = ''awaitingProofs'' then Some AwaitingProofs else if s = ''escrow'' then Some Escrow
     else if s = ''cancelled'' then Some Cancelled else None)"

fun read_cancelled :: "json \<Rightarrow> (int \<times> cancel_reason) option" where
  "read_cancelled (JObj c) = (case (int_at c ''at'', Option.bind (str_at c ''reason'') reason_of) of
     (Some a, Some r) \<Rightarrow> Some (a, r) | _ \<Rightarrow> None)"
| "read_cancelled _ = None"

definition rd_match :: "json \<Rightarrow> load_error + match" where
  "rd_match j = (case j of JObj k \<Rightarrow>
       sbind (typed (str_at k ''id'')) (\<lambda>i. sbind (typed (str_at k ''offerId'')) (\<lambda>oi.
       sbind (typed (str_at k ''maker'')) (\<lambda>mk. sbind (typed (str_at k ''taker'')) (\<lambda>tk.
       sbind (typed (int_at k ''takeSeq'')) (\<lambda>sq. sbind (rd_chain k ''makerChain'') (\<lambda>mc.
       sbind (typed (int_at k ''makerRefundBlocks'')) (\<lambda>mr. sbind (rd_chain k ''takerChain'') (\<lambda>tc.
       sbind (typed (int_at k ''takerRefundBlocks'')) (\<lambda>tr. sbind (typed (str_at k ''hash'')) (\<lambda>h.
       sbind (typed (str_at k ''takerKey'')) (\<lambda>tkey. sbind (null_or json_str k ''makerKey'') (\<lambda>mkey.
       sbind (typed (Option.bind (str_at k ''status'') status_of)) (\<lambda>st. sbind (typed (int_at k ''takenAt'')) (\<lambda>ta.
       sbind (typed (int_at k ''proofDeadline'')) (\<lambda>pd. sbind (typed (int_at k ''pruneAt'')) (\<lambda>pa.
       sbind (null_or read_proof k ''makerProof'') (\<lambda>mp. sbind (null_or read_proof k ''takerProof'') (\<lambda>tp.
       sbind (null_or read_lock k ''makerLock'') (\<lambda>ml. sbind (null_or read_lock k ''takerLock'') (\<lambda>tl.
       sbind (null_or read_cancelled k ''cancelled'') (\<lambda>ca.
       sbind (rd_big k ''makerAmount'') (\<lambda>ma. sbind (rd_big k ''takerAmount'') (\<lambda>tam.
         Inr \<lparr>m_id = i, m_offerId = oi, m_maker = mk, m_taker = tk, m_takeSeq = sq, m_makerChain = mc,
              m_makerAmount = ma, m_makerRefundBlocks = mr, m_takerChain = tc, m_takerAmount = tam,
              m_takerRefundBlocks = tr, m_hash = h, m_takerKey = tkey, m_makerKey = mkey, m_status = st,
              m_takenAt = ta, m_proofDeadline = pd, m_pruneAt = pa, m_makerProof = mp, m_takerProof = tp,
              m_makerLock = ml, m_takerLock = tl, m_cancelled = ca\<rparr>)))))))))))))))))))))))
   | _ \<Rightarrow> Inl Throws)"

fun load_all :: "(json \<Rightarrow> load_error + 'a) \<Rightarrow> ('a \<Rightarrow> string) \<Rightarrow> json list \<Rightarrow> (string, 'a) jsmap \<Rightarrow> load_error + (string, 'a) jsmap" where
  "load_all rd key [] m = Inr m"
| "load_all rd key (j # js) m = sbind (rd j) (\<lambda>x. load_all rd key js (map_set (key x) x m))"

datatype load_result = Rejected | Untyped | Loaded view

definition deserializeView :: "json \<Rightarrow> load_result" where
  "deserializeView s = (case s of JObj kvs \<Rightarrow>
     (case (arr_at kvs ''offers'', arr_at kvs ''matches'') of
       (Some os, Some ms) \<Rightarrow>
         (case sbind (load_all rd_offer o_id os []) (\<lambda>ov. sbind (load_all rd_match m_id ms []) (\<lambda>mv.
                 Inr \<lparr>offers = ov, matches = mv\<rparr>)) of
            Inl Throws \<Rightarrow> Rejected
          | Inl Untyped_field \<Rightarrow> Untyped
          | Inr v \<Rightarrow> if length kvs \<noteq> 2 \<or> canonicalize (serializeView v) \<noteq> canonicalize s then Rejected else Loaded v)
     | _ \<Rightarrow> Rejected)
   | _ \<Rightarrow> Rejected)"

text \<open>A deep copy, entry by entry.\<close>

definition cloneView :: "view \<Rightarrow> view" where
  "cloneView v = \<lparr>offers = fold (\<lambda>(i, x) m. map_set i x m) (offers v) [],
     matches = fold (\<lambda>(i, x) m. map_set i x m) (matches v) []\<rparr>"


section \<open>The canonical form determines its entry\<close>

lemma canonLeg_leg_json: "canonLeg l = leg_json l"
  by (simp add: canonLeg_def leg_json_def)

lemma json_id_canonOffer [simp]: "json_id (canonOffer x) = o_id x"
  by (simp add: json_id_def canonOffer_def str_at_def)

lemma json_id_canonMatch [simp]: "json_id (canonMatch m) = m_id m"
  by (simp add: json_id_def canonMatch_def matchBody_def str_at_def)

lemma wf_canonOffer [simp]: "wf_json (canonOffer x)"
  by (simp add: canonOffer_def canonLeg_def)

lemma wf_copies [simp]: "wf_json (copyProof p)" "wf_json (copyLock l)" "wf_json (copyCancelled c)" "wf_json (or_null JStr x)"
  by (simp_all add: copyProof_def copyLock_def copyCancelled_def or_null_def wf_proof_members split: option.split prod.split)

lemma wf_canonMatch [simp]: "wf_json (canonMatch m)"
  by (simp add: canonMatch_def matchBody_def)

lemma canonOffer_inj: "sortValue (canonOffer x) = sortValue (canonOffer y) \<Longrightarrow> x = y"
proof -
  assume eq: "sortValue (canonOffer x) = sortValue (canonOffer y)"
  from sortValue_JObj_D[OF eq[unfolded canonOffer_def]]
  have "o_id x = o_id y \<and> o_maker x = o_maker y \<and> sortValue (canonLeg (o_give x)) = sortValue (canonLeg (o_give y))
     \<and> sortValue (canonLeg (o_want x)) = sortValue (canonLeg (o_want y)) \<and> o_minFill x = o_minFill y
     \<and> o_remaining x = o_remaining y \<and> o_postedAt x = o_postedAt y \<and> o_expiresAt x = o_expiresAt y"
    by (simp add: show_int_inj canonLeg_leg_json)
  then show ?thesis by (simp add: canonLeg_leg_json leg_json_inj)
qed

lemma or_null_inj:
  assumes "sortValue (or_null f a) = sortValue (or_null f b)" "\<And>x. sortValue (f x) \<noteq> JNull"
    and "\<And>x y. sortValue (f x) = sortValue (f y) \<Longrightarrow> x = y"
  shows "a = b"
  using assms by (cases a; cases b) (auto simp: or_null_def split: option.splits, metis)

lemma copyProof_inj: "sortValue (copyProof a) = sortValue (copyProof b) \<Longrightarrow> a = b"
  unfolding copyProof_def by (erule or_null_inj) (auto simp: proof_json_inj proof_json_def)

lemma copyLock_inj: "sortValue (copyLock a) = sortValue (copyLock b) \<Longrightarrow> a = b"
  unfolding copyLock_def
proof (erule or_null_inj)
  fix l l' :: lock_hint assume eq: "sortValue (JObj [(''txid'', JStr (lk_txid l)), (''vout'', JInt (lk_vout l)), (''at'', JInt (lk_at l))])
    = sortValue (JObj [(''txid'', JStr (lk_txid l')), (''vout'', JInt (lk_vout l')), (''at'', JInt (lk_at l'))])"
  from sortValue_JObj_D[OF eq] show "l = l'" by simp
qed simp

lemma copyCancelled_inj: "sortValue (copyCancelled a) = sortValue (copyCancelled b) \<Longrightarrow> a = b"
  unfolding copyCancelled_def
proof (erule or_null_inj)
  fix c c' :: "int \<times> cancel_reason"
  assume eq: "sortValue (case c of (at, r) \<Rightarrow> JObj [(''at'', JInt at), (''reason'', JStr (reason_text r))])
    = sortValue (case c' of (at, r) \<Rightarrow> JObj [(''at'', JInt at), (''reason'', JStr (reason_text r))])"
  have "reason_text r = reason_text r' \<Longrightarrow> r = r'" for r r' by (cases r; cases r') auto
  with sortValue_JObj_D[OF eq[unfolded split_beta]] show "c = c'" by (cases c; cases c') simp
qed (simp split: prod.split)

lemma json_str_inj: "sortValue (or_null JStr a) = sortValue (or_null JStr b) \<Longrightarrow> a = b"
  by (erule or_null_inj) auto

lemma status_text_inj: "status_text a = status_text b \<longleftrightarrow> a = b"
  by (cases a; cases b) auto

lemma canonMatch_inj: "sortValue (canonMatch x) = sortValue (canonMatch y) \<Longrightarrow> x = y"
proof -
  assume eq: "sortValue (canonMatch x) = sortValue (canonMatch y)"
  have m: "map_option sortValue (map_of (matchBody x @ [(''makerAmount'', JStr (show_int (m_makerAmount x))), (''takerAmount'', JStr (show_int (m_takerAmount x)))]) k)
     = map_option sortValue (map_of (matchBody y @ [(''makerAmount'', JStr (show_int (m_makerAmount y))), (''takerAmount'', JStr (show_int (m_takerAmount y)))]) k)"
    if "k \<noteq> ''__proto__''" for k
    using sortValue_member[OF eq[unfolded canonMatch_def] _ _ that] wf_canonMatch[of x] wf_canonMatch[of y]
    unfolding canonMatch_def by blast
  note m' = m[unfolded matchBody_def append_Cons append_Nil]
  have "m_id x = m_id y" "m_offerId x = m_offerId y" "m_maker x = m_maker y" "m_taker x = m_taker y"
    using m'[of "''id''"] m'[of "''offerId''"] m'[of "''maker''"] m'[of "''taker''"] by simp_all
  moreover have "m_takeSeq x = m_takeSeq y" "m_makerChain x = m_makerChain y" "m_makerRefundBlocks x = m_makerRefundBlocks y"
      "m_takerChain x = m_takerChain y" "m_takerRefundBlocks x = m_takerRefundBlocks y"
    using m'[of "''takeSeq''"] m'[of "''makerChain''"] m'[of "''makerRefundBlocks''"] m'[of "''takerChain''"]
      m'[of "''takerRefundBlocks''"] by (simp_all add: chain_text_inj)
  moreover have "m_hash x = m_hash y" "m_takerKey x = m_takerKey y" "m_makerKey x = m_makerKey y" "m_status x = m_status y"
    using m'[of "''hash''"] m'[of "''takerKey''"] m'[of "''makerKey''"] m'[of "''status''"]
    by (simp_all add: json_str_inj status_text_inj)
  moreover have "m_takenAt x = m_takenAt y" "m_proofDeadline x = m_proofDeadline y" "m_pruneAt x = m_pruneAt y"
    using m'[of "''takenAt''"] m'[of "''proofDeadline''"] m'[of "''pruneAt''"] by simp_all
  moreover have "m_makerProof x = m_makerProof y" "m_takerProof x = m_takerProof y" "m_makerLock x = m_makerLock y"
      "m_takerLock x = m_takerLock y" "m_cancelled x = m_cancelled y"
    using m'[of "''makerProof''"] m'[of "''takerProof''"] m'[of "''makerLock''"] m'[of "''takerLock''"] m'[of "''cancelled''"]
    by (simp_all add: copyProof_inj copyLock_inj copyCancelled_inj)
  moreover have "m_makerAmount x = m_makerAmount y" "m_takerAmount x = m_takerAmount y"
    using m'[of "''makerAmount''"] m'[of "''takerAmount''"] by (simp_all add: show_int_inj)
  ultimately show ?thesis by simp
qed


section \<open>Loading what was serialized\<close>

definition view_wf :: "view \<Rightarrow> bool" where
  "view_wf v \<longleftrightarrow> distinct (keys (offers v)) \<and> (\<forall>(k, x) \<in> set (offers v). k = o_id x)
     \<and> distinct (keys (matches v)) \<and> (\<forall>(k, m) \<in> set (matches v). k = m_id m)"

lemma sbind_Inr [simp]: "sbind (Inr a) f = f a" and sbind_Inl [simp]: "sbind (Inl e) f = Inl e"
  by (simp_all add: sbind_def)

lemma sbind_eq_Inr: "sbind x f = Inr b \<longleftrightarrow> (\<exists>a. x = Inr a \<and> f a = Inr b)"
  by (cases x) auto

lemma typed_Some [simp]: "typed (Some x) = Inr x"
  by (simp add: typed_def)

lemma rd_leg_canon: "map_of kvs k = Some (canonLeg l) \<Longrightarrow> rd_leg kvs k = Inr l"
  by (simp add: rd_leg_def canonLeg_def rd_chain_def rd_big_def str_at_def)

lemma rd_offer_canon [simp]: "rd_offer (canonOffer x) = Inr x"
proof -
  have "rd_leg [(''id'', JStr (o_id x)), (''maker'', JStr (o_maker x)), (''give'', canonLeg (o_give x)),
     (''want'', canonLeg (o_want x)), (''minFill'', JStr (show_int (o_minFill x))),
     (''remaining'', JStr (show_int (o_remaining x))), (''postedAt'', JInt (o_postedAt x)),
     (''expiresAt'', JInt (o_expiresAt x))] k = Inr (if k = ''give'' then o_give x else o_want x)"
    if "k \<in> {''give'', ''want''}" for k
    using that by (auto intro: rd_leg_canon)
  then show ?thesis
    by (simp add: rd_offer_def canonOffer_def str_at_def int_at_def rd_big_def)
qed

lemma read_all_canon: "(\<And>x. x \<in> set xs \<Longrightarrow> f (g x) = Some x) \<Longrightarrow> read_all f (map g xs) = Some xs"
  by (auto simp: read_all_def list_all_iff o_def intro!: map_idI)

lemma read_utxo_canon [simp]: "read_utxo (utxo_json u) = Some u"
  by (simp add: utxo_json_def str_at_def int_at_def)

lemma read_proof_canon [simp]: "read_proof (proof_json p) = Some p"
  by (simp add: proof_json_def str_at_def arr_at_def read_all_canon)

lemma null_or_canon:
  assumes "map_of kvs k = Some (or_null g x)" "\<And>y. f (g y) = Some y" "\<And>y. g y \<noteq> JNull"
  shows "null_or f kvs k = Inr x"
proof (cases x)
  case (Some y)
  have "null_or f kvs k = typed (map_option Some (f (g y)))"
    using assms(1) assms(3)[of y] Some by (cases "g y") (auto simp: null_or_def or_null_def)
  then show ?thesis using Some by (simp add: assms(2))
qed (use assms in \<open>simp add: null_or_def or_null_def\<close>)

lemma null_or_proof: "map_of kvs k = Some (copyProof x) \<Longrightarrow> null_or read_proof kvs k = Inr x"
  unfolding copyProof_def
proof (erule null_or_canon)
  show "proof_json p \<noteq> JNull" for p :: funds_proof by (simp add: proof_json_def)
qed simp

lemma null_or_lock: "map_of kvs k = Some (copyLock x) \<Longrightarrow> null_or read_lock kvs k = Inr x"
  unfolding copyLock_def by (erule null_or_canon) (simp_all add: str_at_def int_at_def)

lemma reason_of_text [simp]: "reason_of (reason_text r) = Some r"
  by (cases r) (simp_all add: reason_of_def)

lemma status_of_text [simp]: "status_of (status_text r) = Some r"
  by (cases r) (simp_all add: status_of_def)

lemma null_or_cancelled: "map_of kvs k = Some (copyCancelled x) \<Longrightarrow> null_or read_cancelled kvs k = Inr x"
  unfolding copyCancelled_def
  by (erule null_or_canon) (auto simp: str_at_def int_at_def split: prod.split)

lemma null_or_str: "map_of kvs k = Some (or_null JStr x) \<Longrightarrow> null_or json_str kvs k = Inr x"
  by (erule null_or_canon) (simp_all add: json_str_def)

lemma rd_match_canon [simp]: "rd_match (canonMatch m) = Inr m"
  by (simp add: rd_match_def canonMatch_def matchBody_def str_at_def int_at_def rd_chain_def rd_big_def
    null_or_proof null_or_lock null_or_cancelled null_or_str)

lemma load_all_canon:
  assumes "\<And>x. rd (canon x) = Inr x"
  shows "load_all rd key (map canon xs) m = Inr (fold (\<lambda>x. map_set (key x) x) xs m)"
  by (induction xs arbitrary: m) (simp_all add: assms)

lemma fold_set_fresh:
  "distinct (map key xs) \<Longrightarrow> set (map key xs) \<inter> set (keys m) = {} \<Longrightarrow>
   fold (\<lambda>x. map_set (key x) x) xs m = m @ map (\<lambda>x. (key x, x)) xs"
proof (induction xs arbitrary: m)
  case (Cons x xs)
  then have "map_set (key x) x m = m @ [(key x, x)]" by (intro keys_set_new) auto
  with Cons show ?case by auto
qed simp


text \<open>\<open>byId\<close> orders by id, strictly so on entries with different ids.\<close>

interpretation id_order: comparator byId UNIV
  by unfold_locales (auto simp: byId_def split: if_splits)

definition by_offer :: "offer \<Rightarrow> offer \<Rightarrow> int" where
  "by_offer a b = byId (canonOffer a) (canonOffer b)"

definition by_match :: "match \<Rightarrow> match \<Rightarrow> int" where
  "by_match a b = byId (canonMatch a) (canonMatch b)"

text \<open>On the entries a view stores under their own id, the canonical order is strict: it lists them in one way.\<close>

definition own_offers :: "view \<Rightarrow> offer set" where
  "own_offers v = {x. map_of (offers v) (o_id x) = Some x}"

definition own_matches :: "view \<Rightarrow> match set" where
  "own_matches v = {x. map_of (matches v) (m_id x) = Some x}"

lemma own_id: "x \<in> own_offers v \<Longrightarrow> y \<in> own_offers v \<Longrightarrow> o_id x = o_id y \<Longrightarrow> x = y"
  by (simp add: own_offers_def)

lemma own_match_id: "x \<in> own_matches v \<Longrightarrow> y \<in> own_matches v \<Longrightarrow> m_id x = m_id y \<Longrightarrow> x = y"
  by (simp add: own_matches_def)

interpretation offer_order: strict_comparator by_offer "own_offers v" for v
  by unfold_locales (auto simp: by_offer_def byId_def split: if_splits intro: own_id)

interpretation match_order: strict_comparator by_match "own_matches v" for v
  by unfold_locales (auto simp: by_match_def byId_def split: if_splits intro: own_match_id)

text \<open>The view with its entries in id order: what the canonical form lists.\<close>

definition sorted_view :: "view \<Rightarrow> view" where
  "sorted_view v = \<lparr>offers = map (\<lambda>x. (o_id x, x)) (sort_by by_offer (vals (offers v))),
     matches = map (\<lambda>x. (m_id x, x)) (sort_by by_match (vals (matches v)))\<rparr>"

lemma serializeView_sorted:
  "serializeView v = JObj [(''offers'', JArr (map canonOffer (vals (offers (sorted_view v))))),
     (''matches'', JArr (map canonMatch (vals (matches (sorted_view v)))))]"
  by (simp add: serializeView_def sorted_view_def sort_by_map o_def by_offer_def[abs_def] by_match_def[abs_def])

lemma wf_serializeView [simp]: "wf_json (serializeView v)"
  by (auto simp: serializeView_sorted)

lemma keyed_vals:
  "\<forall>(k, x) \<in> set m. k = key x \<Longrightarrow> map (\<lambda>x. (key x, x)) (vals m) = m"
  by (induction m) auto

lemma mset_sorted_entries:
  assumes "\<forall>(k, x) \<in> set m. k = key x"
  shows "mset (map (\<lambda>x. (key x, x)) (sort_by c (vals m))) = mset m"
proof -
  have "mset (map (\<lambda>x. (key x, x)) (sort_by c (vals m))) = mset (map (\<lambda>x. (key x, x)) (vals m))"
    by (simp only: mset_map mset_sort_by)
  then show ?thesis by (simp only: keyed_vals[OF assms])
qed

lemma fold_set_vals:
  assumes "\<forall>(k, x) \<in> set m. k = key x" "distinct (keys m)"
  shows "fold (\<lambda>x. map_set (key x) x) (vals m) [] = m"
proof -
  have e: "map key (vals m) = keys m" using assms(1) by (induction m) auto
  have "distinct (map key (vals m))" unfolding e by (rule assms(2))
  from fold_set_fresh[OF this, of "[]"] show ?thesis
    unfolding keyed_vals[OF assms(1)] by simp
qed

lemma sorted_view_wf:
  assumes "view_wf v"
  shows "view_wf (sorted_view v) \<and> mset (offers (sorted_view v)) = mset (offers v)
    \<and> mset (matches (sorted_view v)) = mset (matches v)"
proof -
  have m: "mset (offers (sorted_view v)) = mset (offers v)" "mset (matches (sorted_view v)) = mset (matches v)"
    using assms by (simp_all add: view_wf_def sorted_view_def mset_sorted_entries del: mset_map)
  have "distinct (keys (offers (sorted_view v)))" "distinct (keys (matches (sorted_view v)))"
    using assms m by (metis mset_map mset_eq_imp_distinct_iff view_wf_def)+
  moreover have "\<forall>(k, x) \<in> set (offers (sorted_view v)). k = o_id x" "\<forall>(k, x) \<in> set (matches (sorted_view v)). k = m_id x"
    by (auto simp: sorted_view_def)
  ultimately show ?thesis using m by (simp add: view_wf_def)
qed

lemma map_of_mset_eq: "distinct (keys m) \<Longrightarrow> mset m = mset n \<Longrightarrow> map_of m = map_of n"
  by (metis map_of_inject_set mset_eq_imp_distinct_iff mset_map set_mset_mset)

lemma sorted_view_maps:
  assumes "view_wf v"
  shows "map_of (offers (sorted_view v)) = map_of (offers v)" "map_of (matches (sorted_view v)) = map_of (matches v)"
  using sorted_view_wf[OF assms] assms map_of_mset_eq by (metis view_wf_def)+

lemma sorted_view_perm:
  assumes "view_wf v" "view_wf w" "mset (offers v) = mset (offers w)" "mset (matches v) = mset (matches w)"
  shows "sorted_view v = sorted_view w"
proof -
  have vals: "mset (vals (offers v)) = mset (vals (offers w))" "mset (vals (matches v)) = mset (vals (matches w))"
    using assms(3,4) by simp_all
  have "set (vals (offers v)) \<subseteq> own_offers v" "set (vals (matches v)) \<subseteq> own_matches v"
    using assms(1) by (auto simp: view_wf_def own_offers_def own_matches_def)
  then have "sort_by by_offer (vals (offers v)) = sort_by by_offer (vals (offers w))"
    "sort_by by_match (vals (matches v)) = sort_by by_match (vals (matches w))"
    using vals offer_order.sort_by_perm match_order.sort_by_perm by blast+
  then show ?thesis by (simp add: sorted_view_def)
qed

lemma same_maps_mset:
  assumes "view_wf v" "view_wf w" "map_of (offers v) = map_of (offers w)" "map_of (matches v) = map_of (matches w)"
  shows "mset (offers v) = mset (offers w) \<and> mset (matches v) = mset (matches w)"
  using assms by (auto simp: view_wf_def intro: map_of_distinct_eq_perm)

lemma sorted_idem: "view_wf v \<Longrightarrow> sorted_view (sorted_view v) = sorted_view v"
  using sorted_view_wf[of v] by (intro sorted_view_perm) auto

lemma serialize_sorted_view: "view_wf v \<Longrightarrow> serializeView (sorted_view v) = serializeView v"
  by (simp add: serializeView_sorted[of "sorted_view v"] sorted_idem serializeView_sorted[of v])

lemma view_eta: "\<lparr>offers = offers v, matches = matches v\<rparr> = (v :: view)"
  by simp

lemma deserialize_serialize:
  assumes "view_wf v"
  shows "deserializeView (serializeView v) = Loaded (sorted_view v)"
proof -
  note wf = sorted_view_wf[OF assms]
  have l: "load_all rd_offer o_id (map canonOffer (vals (offers (sorted_view v)))) [] = Inr (offers (sorted_view v))"
    "load_all rd_match m_id (map canonMatch (vals (matches (sorted_view v)))) [] = Inr (matches (sorted_view v))"
    using wf by (simp_all add: load_all_canon fold_set_vals view_wf_def del: map_map)
  have s: "serializeView (sorted_view v) = JObj [(''offers'', JArr (map canonOffer (vals (offers (sorted_view v))))),
     (''matches'', JArr (map canonMatch (vals (matches (sorted_view v)))))]"
    using serialize_sorted_view[OF assms] by (simp only: serializeView_sorted[of v])
  show ?thesis
    unfolding serializeView_sorted[of v]
    by (simp add: deserializeView_def arr_at_def l s view_eta del: map_map)
qed


section \<open>What a loaded snapshot satisfies\<close>

lemma keyed_set:
  assumes "distinct (keys m) \<and> (\<forall>(k, x) \<in> set m. k = key x)"
  shows "distinct (keys (map_set (key y) y m)) \<and> (\<forall>(k, x) \<in> set (map_set (key y) y m). k = key x)"
proof (rule conjI)
  show d: "distinct (keys (map_set (key y) y m))" using assms by (simp add: alist.invar_set)
  show "\<forall>(k, x) \<in> set (map_set (key y) y m). k = key x"
  proof (rule ballI, rule case_prodI2, goal_cases)
    case (1 p k x)
    with d have "map_of (map_set (key y) y m) k = Some x" by (simp only: map_of_mem)
    then show ?case using assms by (auto simp: map_of_set split: if_splits dest: map_of_SomeD)
  qed
qed

lemma load_all_keyed:
  "load_all rd key js m = Inr n \<Longrightarrow> distinct (keys m) \<and> (\<forall>(k, x) \<in> set m. k = key x) \<Longrightarrow>
   distinct (keys n) \<and> (\<forall>(k, x) \<in> set n. k = key x)"
proof (induction rd key js m rule: load_all.induct)
  case (2 rd key j js m)
  then obtain x where "rd j = Inr x" "load_all rd key js (map_set (key x) x m) = Inr n" by (auto simp: sbind_eq_Inr)
  with 2 keyed_set show ?case by metis
qed simp

lemma deserialize_sound:
  assumes "deserializeView s = Loaded v"
  shows "view_wf v \<and> canonicalize (serializeView v) = canonicalize s"
proof -
  obtain kvs os ms where s: "s = JObj kvs"
    and l: "load_all rd_offer o_id os [] = Inr (offers v)" "load_all rd_match m_id ms [] = Inr (matches v)"
    and c: "canonicalize (serializeView v) = canonicalize s"
    using assms by (cases s) (auto simp: deserializeView_def sbind_eq_Inr simp del: arr_at_Some
      split: option.splits sum.splits load_error.splits if_splits)
  show ?thesis using load_all_keyed[OF l(1)] load_all_keyed[OF l(2)] c by (simp add: view_wf_def)
qed

section \<open>The root commits to the board\<close>

definition view_maps :: "view \<Rightarrow> (string \<rightharpoonup> offer) \<times> (string \<rightharpoonup> match)" where
  "view_maps v = (map_of (offers v), map_of (matches v))"

lemma map_inj_eq: "(\<And>x y. f x = f y \<Longrightarrow> x = y) \<Longrightarrow> map f xs = map f ys \<Longrightarrow> xs = ys"
  by (simp add: inj_def inj_map_eq_map)

lemma keyed_vals_eq:
  "\<forall>(k, x) \<in> set m. k = key x \<Longrightarrow> \<forall>(k, x) \<in> set n. k = key x \<Longrightarrow> vals m = vals n \<Longrightarrow> m = n"
  using keyed_vals[of m key] keyed_vals[of n key] by presburger

lemma serializeView_inj:
  assumes "view_wf v" "view_wf w" "canonicalize (serializeView v) = canonicalize (serializeView w)"
  shows "view_maps v = view_maps w"
proof -
  have eq: "sortValue (serializeView v) = sortValue (serializeView w)"
    using assms(3) canonicalize_eq_iff[OF wf_serializeView wf_serializeView] by blast
  have m: "map_option sortValue (map_of [(''offers'', JArr (map canonOffer (vals (offers (sorted_view v))))),
     (''matches'', JArr (map canonMatch (vals (matches (sorted_view v)))))] k)
   = map_option sortValue (map_of [(''offers'', JArr (map canonOffer (vals (offers (sorted_view w))))),
     (''matches'', JArr (map canonMatch (vals (matches (sorted_view w)))))] k)" if "k \<noteq> ''__proto__''" for k
    by (rule sortValue_member[OF eq[unfolded serializeView_sorted] _ _ that])
      (use wf_serializeView[of v] wf_serializeView[of w] in \<open>simp_all only: serializeView_sorted\<close>)
  have a: "map (\<lambda>x. sortValue (canonOffer x)) (vals (offers (sorted_view v))) = map (\<lambda>x. sortValue (canonOffer x)) (vals (offers (sorted_view w)))"
    using m[of "''offers''"] by (simp add: o_def)
  have b: "map (\<lambda>x. sortValue (canonMatch x)) (vals (matches (sorted_view v))) = map (\<lambda>x. sortValue (canonMatch x)) (vals (matches (sorted_view w)))"
    using m[of "''matches''"] by (simp add: o_def)
  have "offers (sorted_view v) = offers (sorted_view w)"
    by (rule keyed_vals_eq[where key=o_id, OF _ _ map_inj_eq[where f="\<lambda>x. sortValue (canonOffer x)", OF canonOffer_inj a]])
      (use sorted_view_wf[OF assms(1)] sorted_view_wf[OF assms(2)] in \<open>unfold view_wf_def, blast+\<close>)
  moreover have "matches (sorted_view v) = matches (sorted_view w)"
    by (rule keyed_vals_eq[where key=m_id, OF _ _ map_inj_eq[where f="\<lambda>x. sortValue (canonMatch x)", OF canonMatch_inj b]])
      (use sorted_view_wf[OF assms(1)] sorted_view_wf[OF assms(2)] in \<open>unfold view_wf_def, blast+\<close>)
  ultimately show ?thesis using sorted_view_maps[OF assms(1)] sorted_view_maps[OF assms(2)] by (simp add: view_maps_def)
qed

interpretation view_commit: commitment "\<lambda>v. canonicalize (serializeView v)" view_maps view_wf
  by unfold_locales (rule serializeView_inj)

lemma viewRoot_same:
  assumes "view_wf v" "view_wf w" "view_maps v = view_maps w"
  shows "serializeView v = serializeView w"
  using same_maps_mset[OF assms(1,2)] sorted_view_perm[OF assms(1,2)] assms(3)
  by (simp add: serializeView_sorted view_maps_def)

lemma cloneView_id: "view_wf v \<Longrightarrow> cloneView v = v"
proof -
  assume "view_wf v"
  have *: "fold (\<lambda>(i, x) m. map_set i x m) m n = n @ m" if "distinct (keys (n @ m))" for m n :: "(string, 'x) jsmap"
    using that
  proof (induction m arbitrary: n)
    case (Cons p m)
    obtain k x where p: "p = (k, x)" by (cases p)
    with Cons.prems have "map_set k x n = n @ [p]" by (simp add: keys_set_new)
    with Cons p show ?case by simp
  qed simp
  show ?thesis using \<open>view_wf v\<close> *[of "[]" "offers v"] *[of "[]" "matches v"] by (simp add: cloneView_def view_wf_def)
qed


section \<open>Properties\<close>

definition ex_offer :: "string \<Rightarrow> offer" where
  "ex_offer i = \<lparr>o_id = i, o_maker = ''aa'', o_give = \<lparr>leg_chain = Bitcoin, leg_amount = 100000\<rparr>,
     o_want = \<lparr>leg_chain = Litecoin, leg_amount = 5000000\<rparr>, o_minFill = 1000, o_remaining = 100000,
     o_postedAt = 7, o_expiresAt = 107\<rparr>"

definition ex_view :: "string list \<Rightarrow> view" where
  "ex_view ids = \<lparr>offers = map (\<lambda>i. (i, ex_offer i)) ids, matches = []\<rparr>"

lemma ex_view_wf: "distinct ids \<Longrightarrow> view_wf (ex_view ids)"
  by (auto simp: view_wf_def ex_view_def ex_offer_def o_def)

text \<open>C4: a snapshot loads back: the loader accepts every canonical form and rebuilds a board with the
  same offers and matches, whose canonical form is the one it read.\<close>

theorem deserialize_serialize_view:
  assumes "view_wf v"
  shows "\<exists>w. deserializeView (serializeView v) = Loaded w \<and> view_maps w = view_maps v
    \<and> view_wf w \<and> serializeView w = serializeView v"
  using deserialize_serialize[OF assms] sorted_view_maps[OF assms] sorted_view_wf[OF assms] serialize_sorted_view[OF assms]
  by (auto simp: view_maps_def)

theorem deserialize_serialize_view_witness:
  "\<exists>w. deserializeView (serializeView (ex_view [''b'', ''a''])) = Loaded w \<and> view_maps w = view_maps (ex_view [''b'', ''a''])"
  using deserialize_serialize_view[OF ex_view_wf[of "[''b'', ''a'']"]] by auto

text \<open>A peer cannot smuggle anything past the loader: a loaded board is keyed by its entries' ids
  without duplicates, and has exactly the canonical bytes, hence the root, of what was received.\<close>

theorem deserializeView_exact:
  assumes "deserializeView s = Loaded v"
  shows "view_wf v \<and> canonicalize (serializeView v) = canonicalize s \<and> viewRoot H v = sha256Hex H (canonicalize s)"
  using deserialize_sound[OF assms] by (simp add: viewRoot_def)

theorem deserializeView_exact_witness: "view_wf (sorted_view (ex_view [''b'', ''a'']))"
  using deserializeView_exact[OF deserialize_serialize[OF ex_view_wf[of "[''b'', ''a'']"]]] by simp

text \<open>The root does not depend on insertion order, and it commits to the board: boards with the
  same entries have the same root, and boards with the same root have the same entries, or their
  canonical forms are an explicit SHA-256 collision.\<close>

theorem viewRoot_commits:
  assumes "view_wf v" "view_wf w"
  shows "(view_maps v = view_maps w \<longrightarrow> viewRoot H v = viewRoot H w)
    \<and> (viewRoot H v = viewRoot H w \<longrightarrow> view_maps v = view_maps w
        \<or> collision H (canonicalize (serializeView v)) (canonicalize (serializeView w)))"
  using viewRoot_same[OF assms] view_commit.binding[OF assms] by (auto simp: viewRoot_def)

theorem viewRoot_commits_witness:
  "viewRoot (\<lambda>b. b) (ex_view [''a'', ''b'']) = viewRoot (\<lambda>b. b) (ex_view [''b'', ''a''])"
proof -
  have "view_maps (ex_view [''a'', ''b'']) = view_maps (ex_view [''b'', ''a''])"
    by (auto simp: view_maps_def ex_view_def)
  then show ?thesis
    using viewRoot_commits[OF ex_view_wf[of "[''a'', ''b'']"] ex_view_wf[of "[''b'', ''a'']"]] by auto
qed

end
