(* ===== verification/Fold.thy ===== *)
theory Fold
  imports State "HOL-Library.Signed_Division"
begin

text \<open>
  \<open>src/market/fold.ts\<close>, constants and transitions: \<open>advance\<close> moves the board to a height (proof
  deadlines, expiry, pruning), \<open>applyOp\<close> applies one operation or says why not. The entries of the two
  maps are mutated in place by the code; here each step returns the new board.

  Lemmas: closed forms of \<open>advance\<close>, its path independence, the invariants of matches and of offer
  capacity, and the behaviour of \<open>applyOp\<close> branch by branch.
\<close>

section \<open>Constants\<close>

definition ANCHOR_SECONDS :: int where "ANCHOR_SECONDS = 60"
definition PROOF_WINDOW :: int where "PROOF_WINDOW = 10"
definition TAKER_LOCK_WINDOW :: int where "TAKER_LOCK_WINDOW = 30"
definition PRUNE_MARGIN :: int where "PRUNE_MARGIN = 720"

text \<open>The two refund windows the module uses are constants below the BIP68 maximum, so the throw of
  \<open>minRefundBlocks\<close> is not reached (\<open>defaultRefundBlocks_values\<close>).\<close>

definition refundBlocks :: "chain \<Rightarrow> role \<Rightarrow> int" where
  "refundBlocks c r = (case defaultRefundBlocks c r of Inr n \<Rightarrow> n | Inl _ \<Rightarrow> 0)"

definition refundAnchors :: "chain \<Rightarrow> role \<Rightarrow> int" where
  "refundAnchors c r = ceil_div (refundBlocks c r * blockSeconds (NETWORKS c Mainnet)) ANCHOR_SECONDS"

definition matchLifetime :: "chain \<Rightarrow> int" where
  "matchLifetime takerChain = PROOF_WINDOW + TAKER_LOCK_WINDOW + refundAnchors takerChain Initiator + PRUNE_MARGIN"

text \<open>\<open>BigInt\<close> division truncates.\<close>

definition proRata :: "leg \<Rightarrow> leg \<Rightarrow> int \<Rightarrow> int" where
  "proRata give want fill = (fill * leg_amount want) sdiv leg_amount give"

section \<open>The clock\<close>

definition restoreCapacity :: "match \<Rightarrow> (string, offer) jsmap \<Rightarrow> (string, offer) jsmap" where
  "restoreCapacity m os = (case map_of os (m_offerId m) of
     None \<Rightarrow> os
   | Some x \<Rightarrow> map_set (m_offerId m) (x\<lparr>o_remaining := o_remaining x + m_makerAmount m\<rparr>) os)"

definition timed_out :: "int \<Rightarrow> match \<Rightarrow> bool" where
  "timed_out h m \<longleftrightarrow> m_status m = AwaitingProofs \<and> m_proofDeadline m < h"

definition expire_match :: "match \<Rightarrow> match" where
  "expire_match m = m\<lparr>m_status := Cancelled, m_cancelled := Some (m_proofDeadline m + 1, NoProof)\<rparr>"

text \<open>The loop over \<open>view.matches\<close>: the entries still to visit and the offers; the entries kept.\<close>

fun advance_matches ::
  "int \<Rightarrow> (string, match) jsmap \<Rightarrow> (string, offer) jsmap \<Rightarrow> (string, match) jsmap \<times> (string, offer) jsmap" where
  "advance_matches h [] os = ([], os)"
| "advance_matches h ((i, m) # ms) os =
     (let (m', os') = (if timed_out h m then (expire_match m, restoreCapacity m os) else (m, os));
          (ms', os'') = advance_matches h ms os'
      in (if m_pruneAt m' \<le> h then ms' else (i, m') # ms', os''))"

definition advance :: "view \<Rightarrow> int \<Rightarrow> view" where
  "advance v h = (let (ms, os) = advance_matches h (matches v) (offers v)
     in \<lparr>offers = filter (\<lambda>(_, x). \<not> o_expiresAt x \<le> h) os, matches = ms\<rparr>)"

section \<open>Operations\<close>

record write_ref =
  wr_id :: string
  wr_writer :: string
  wr_seq :: int

datatype reject =
    LegBelowDust | MinFillDust | DuplicateOffer
  | NoSuchOffer | OnlyMakerCancels
  | OwnOffer | FillBelowMinimum | FillExceedsRemaining | FillDust | DuplicateMatch | HashUsed
  | NoSuchMatch | NotAwaitingProofs | MakerProofPosted | MakerKeyMissing | MakerKeyIsTakerKey | WrongProofChain
  | TakerProofPosted | TakerCarriesMakerKey | NotAParty
  | NotInEscrow | MakerLockRecorded | TakerLockRecorded
  | OnlyMakerAborts | AlreadyCancelled | MakerLocked

definition applyPost :: "view \<Rightarrow> write_ref \<Rightarrow> leg \<Rightarrow> leg \<Rightarrow> int \<Rightarrow> int \<Rightarrow> int \<Rightarrow> view \<times> reject option" where
  "applyPost v w give want minFill expiresIn h =
     (if leg_amount give < DUST (leg_chain give) \<or> leg_amount want < DUST (leg_chain want) then (v, Some LegBelowDust)
      else if minFill < DUST (leg_chain give) \<or> proRata give want minFill < DUST (leg_chain want) then (v, Some MinFillDust)
      else if map_has (offers v) (wr_id w) then (v, Some DuplicateOffer)
      else (v\<lparr>offers := map_set (wr_id w)
             \<lparr>o_id = wr_id w, o_maker = wr_writer w, o_give = give, o_want = want, o_minFill = minFill,
              o_remaining = leg_amount give, o_postedAt = h, o_expiresAt = h + expiresIn\<rparr> (offers v)\<rparr>, None))"

definition applyCancel :: "view \<Rightarrow> write_ref \<Rightarrow> string \<Rightarrow> view \<times> reject option" where
  "applyCancel v w offerId = (case map_of (offers v) offerId of
     None \<Rightarrow> (v, Some NoSuchOffer)
   | Some x \<Rightarrow> if o_maker x \<noteq> wr_writer w then (v, Some OnlyMakerCancels)
       else (v\<lparr>offers := map_del offerId (offers v)\<rparr>, None))"

definition new_match :: "offer \<Rightarrow> write_ref \<Rightarrow> int \<Rightarrow> int \<Rightarrow> string \<Rightarrow> string \<Rightarrow> int \<Rightarrow> match" where
  "new_match x w fill takerAmount hash takerKey h = \<lparr>
     m_id = wr_id w, m_offerId = o_id x, m_maker = o_maker x, m_taker = wr_writer w, m_takeSeq = wr_seq w,
     m_makerChain = leg_chain (o_give x), m_makerAmount = fill,
     m_makerRefundBlocks = refundBlocks (leg_chain (o_give x)) Counterparty,
     m_takerChain = leg_chain (o_want x), m_takerAmount = takerAmount,
     m_takerRefundBlocks = refundBlocks (leg_chain (o_want x)) Initiator,
     m_hash = hash, m_takerKey = takerKey, m_makerKey = None, m_status = AwaitingProofs,
     m_takenAt = h, m_proofDeadline = h + PROOF_WINDOW, m_pruneAt = h + matchLifetime (leg_chain (o_want x)),
     m_makerProof = None, m_takerProof = None, m_makerLock = None, m_takerLock = None, m_cancelled = None\<rparr>"

definition applyTake :: "view \<Rightarrow> write_ref \<Rightarrow> string \<Rightarrow> int \<Rightarrow> string \<Rightarrow> string \<Rightarrow> int \<Rightarrow> view \<times> reject option" where
  "applyTake v w offerId fill hash takerKey h = (case map_of (offers v) offerId of
     None \<Rightarrow> (v, Some NoSuchOffer)
   | Some x \<Rightarrow>
       if o_maker x = wr_writer w then (v, Some OwnOffer)
       else if fill < o_minFill x then (v, Some FillBelowMinimum)
       else if fill > o_remaining x then (v, Some FillExceedsRemaining)
       else let takerAmount = proRata (o_give x) (o_want x) fill in
         if fill < DUST (leg_chain (o_give x)) \<or> takerAmount < DUST (leg_chain (o_want x)) then (v, Some FillDust)
         else if map_has (matches v) (wr_id w) then (v, Some DuplicateMatch)
         else if list_ex (\<lambda>m. m_hash m = hash) (vals (matches v)) then (v, Some HashUsed)
         else (\<lparr>offers = map_set offerId (x\<lparr>o_remaining := o_remaining x - fill\<rparr>) (offers v),
                matches = map_set (wr_id w) (new_match x w fill takerAmount hash takerKey h) (matches v)\<rparr>, None))"

definition set_match :: "view \<Rightarrow> string \<Rightarrow> match \<Rightarrow> view" where
  "set_match v i m = v\<lparr>matches := map_set i m (matches v)\<rparr>"

definition escrow_if_both :: "match \<Rightarrow> match" where
  "escrow_if_both m = (if m_makerProof m \<noteq> None \<and> m_takerProof m \<noteq> None then m\<lparr>m_status := Escrow\<rparr> else m)"

definition applyProof :: "view \<Rightarrow> write_ref \<Rightarrow> string \<Rightarrow> string option \<Rightarrow> funds_proof \<Rightarrow> int \<Rightarrow> view \<times> reject option" where
  "applyProof v w matchId makerKey p h = (case map_of (matches v) matchId of
     None \<Rightarrow> (v, Some NoSuchMatch)
   | Some m \<Rightarrow>
       if m_status m \<noteq> AwaitingProofs \<or> h > m_proofDeadline m then (v, Some NotAwaitingProofs)
       else if wr_writer w = m_maker m then
         if m_makerProof m \<noteq> None then (v, Some MakerProofPosted)
         else if makerKey = None then (v, Some MakerKeyMissing)
         else if makerKey = Some (m_takerKey m) then (v, Some MakerKeyIsTakerKey)
         else if p_chain p \<noteq> m_makerChain m then (v, Some WrongProofChain)
         else (set_match v matchId (escrow_if_both (m\<lparr>m_makerProof := Some p, m_makerKey := makerKey\<rparr>)), None)
       else if wr_writer w = m_taker m then
         if m_takerProof m \<noteq> None then (v, Some TakerProofPosted)
         else if makerKey \<noteq> None then (v, Some TakerCarriesMakerKey)
         else if p_chain p \<noteq> m_takerChain m then (v, Some WrongProofChain)
         else (set_match v matchId (escrow_if_both (m\<lparr>m_takerProof := Some p\<rparr>)), None)
       else (v, Some NotAParty))"

definition applyLocked :: "view \<Rightarrow> write_ref \<Rightarrow> string \<Rightarrow> string \<Rightarrow> int \<Rightarrow> int \<Rightarrow> view \<times> reject option" where
  "applyLocked v w matchId txid vout h = (case map_of (matches v) matchId of
     None \<Rightarrow> (v, Some NoSuchMatch)
   | Some m \<Rightarrow>
       if m_status m \<noteq> Escrow then (v, Some NotInEscrow)
       else let hint = \<lparr>lk_txid = txid, lk_vout = vout, lk_at = h\<rparr> in
         if wr_writer w = m_maker m then
           if m_makerLock m \<noteq> None then (v, Some MakerLockRecorded)
           else (set_match v matchId (m\<lparr>m_makerLock := Some hint\<rparr>), None)
         else if wr_writer w = m_taker m then
           if m_takerLock m \<noteq> None then (v, Some TakerLockRecorded)
           else (set_match v matchId (m\<lparr>m_takerLock := Some hint\<rparr>), None)
         else (v, Some NotAParty))"

definition applyAbort :: "view \<Rightarrow> write_ref \<Rightarrow> string \<Rightarrow> int \<Rightarrow> view \<times> reject option" where
  "applyAbort v w matchId h = (case map_of (matches v) matchId of
     None \<Rightarrow> (v, Some NoSuchMatch)
   | Some m \<Rightarrow>
       if wr_writer w \<noteq> m_maker m then (v, Some OnlyMakerAborts)
       else if m_status m = Cancelled then (v, Some AlreadyCancelled)
       else if m_makerLock m \<noteq> None then (v, Some MakerLocked)
       else (\<lparr>offers = restoreCapacity m (offers v),
              matches = map_set matchId (m\<lparr>m_status := Cancelled, m_cancelled := Some (h, Abort)\<rparr>) (matches v)\<rparr>, None))"

fun applyOp :: "view \<Rightarrow> write_ref \<Rightarrow> op \<Rightarrow> int \<Rightarrow> view \<times> reject option" where
  "applyOp v w (OfferPost give want minFill expiresIn) h = applyPost v w give want minFill expiresIn h"
| "applyOp v w (OfferCancel offerId) h = applyCancel v w offerId"
| "applyOp v w (OfferTake offerId fill hash takerKey) h = applyTake v w offerId fill hash takerKey h"
| "applyOp v w (SwapProof matchId makerKey p) h = applyProof v w matchId makerKey p h"
| "applyOp v w (SwapLocked matchId txid vout) h = applyLocked v w matchId txid vout h"
| "applyOp v w (SwapAbort matchId) h = applyAbort v w matchId h"

section \<open>Closed form of the clock\<close>

lemma matchLifetime_values: "matchLifetime Bitcoin = 2200" "matchLifetime Litecoin = 2200"
  by (simp_all add: matchLifetime_def refundAnchors_def refundBlocks_def ceil_div_def PROOF_WINDOW_def
    TAKER_LOCK_WINDOW_def PRUNE_MARGIN_def ANCHOR_SECONDS_def BTC_NW_def LTC_NW_def)

lemma proofs_before_prune: "PROOF_WINDOW < matchLifetime c"
  by (cases c) (simp_all add: matchLifetime_values PROOF_WINDOW_def)

definition expire_if :: "int \<Rightarrow> match \<Rightarrow> match" where
  "expire_if h m = (if timed_out h m then expire_match m else m)"

text \<open>What the offer \<open>k\<close> gets back at height \<open>h\<close>.\<close>

definition returned :: "int \<Rightarrow> (string, match) jsmap \<Rightarrow> string \<Rightarrow> int" where
  "returned h ms k = (\<Sum>(_, m) \<leftarrow> ms. if timed_out h m \<and> m_offerId m = k then m_makerAmount m else 0)"

definition credit :: "(string \<Rightarrow> int) \<Rightarrow> (string, offer) jsmap \<Rightarrow> (string, offer) jsmap" where
  "credit f os = map (\<lambda>(k, x). (k, x\<lparr>o_remaining := o_remaining x + f k\<rparr>)) os"

lemma credit_zero [simp]: "credit (\<lambda>_. 0) os = os"
  by (simp add: credit_def)

lemma credit_credit: "credit f (credit g os) = credit (\<lambda>k. g k + f k) os"
  by (auto simp: credit_def add.assoc)

lemma keys_credit [simp]: "keys (credit f os) = keys os"
  by (auto simp: credit_def)

lemma restoreCapacity_credit:
  assumes "distinct (keys os)"
  shows "restoreCapacity m os = credit (\<lambda>k. if m_offerId m = k then m_makerAmount m else 0) os"
proof (cases "map_of os (m_offerId m)")
  case None
  then have "m_offerId m \<notin> set (keys os)" by (simp add: map_of_None_keys)
  then have "credit (\<lambda>k. if m_offerId m = k then m_makerAmount m else 0) os = os"
    by (force simp: credit_def intro!: map_idI)
  with None show ?thesis by (simp add: restoreCapacity_def)
next
  case (Some x)
  have "m_offerId m \<in> set (keys os)" using Some by (rule map_of_key)
  from set_old_map[OF assms this]
  have "restoreCapacity m os = map (\<lambda>(k, x'). if k = m_offerId m then (k, x\<lparr>o_remaining := o_remaining x + m_makerAmount m\<rparr>) else (k, x')) os"
    by (simp add: restoreCapacity_def Some)
  also have "\<dots> = credit (\<lambda>k. if m_offerId m = k then m_makerAmount m else 0) os"
    unfolding credit_def
  proof (rule map_cong[OF refl], clarify)
    fix k x' assume "(k, x') \<in> set os"
    then have "map_of os k = Some x'" using assms by (simp add: map_of_mem)
    with Some show "(if k = m_offerId m then (k, x\<lparr>o_remaining := o_remaining x + m_makerAmount m\<rparr>) else (k, x')) =
      (k, x'\<lparr>o_remaining := o_remaining x' + (if m_offerId m = k then m_makerAmount m else 0)\<rparr>)" by auto
  qed
  finally show ?thesis .
qed

lemma expire_if_times [simp]:
  "m_pruneAt (expire_if h m) = m_pruneAt m" "m_offerId (expire_if h m) = m_offerId m"
  "m_makerAmount (expire_if h m) = m_makerAmount m" "m_proofDeadline (expire_if h m) = m_proofDeadline m"
  "m_id (expire_if h m) = m_id m" "m_hash (expire_if h m) = m_hash m"
  by (simp_all add: expire_if_def expire_match_def)

lemma advance_matches_eq:
  "distinct (keys os) \<Longrightarrow> advance_matches h ms os =
     (filter (\<lambda>(_, m). h < m_pruneAt m) (map (\<lambda>(i, m). (i, expire_if h m)) ms), credit (returned h ms) os)"
proof (induction h ms os rule: advance_matches.induct)
  case (1 h os)
  then show ?case by (simp add: returned_def)
next
  case (2 h i m ms os)
  show ?case
  proof (cases "timed_out h m")
    case True
    have "credit (returned h ms) (restoreCapacity m os) = credit (returned h ((i, m) # ms)) os"
      using True 2(2) by (auto simp: restoreCapacity_credit credit_credit returned_def intro!: arg_cong2[of _ _ _ _ credit])
    moreover have "distinct (keys (restoreCapacity m os))" using 2(2) by (simp add: restoreCapacity_credit)
    ultimately show ?thesis using 2(1)[OF refl, of "expire_match m" "restoreCapacity m os"] True
      by (simp add: Let_def expire_if_def expire_match_def not_le)
  next
    case False
    then have "returned h ((i, m) # ms) = returned h ms" by (auto simp: returned_def)
    with False 2(1)[OF refl, of m os] 2(2) show ?thesis by (simp add: Let_def expire_if_def not_le)
  qed
qed

lemma advance_eq:
  "distinct (keys (offers v)) \<Longrightarrow> advance v h =
     \<lparr>offers = filter (\<lambda>(_, x). h < o_expiresAt x) (credit (returned h (matches v)) (offers v)),
      matches = filter (\<lambda>(_, m). h < m_pruneAt m) (map (\<lambda>(i, m). (i, expire_if h m)) (matches v))\<rparr>"
  by (simp add: advance_def advance_matches_eq not_le)


section \<open>Path independence\<close>

definition clock_wf :: "view \<Rightarrow> bool" where
  "clock_wf v \<longleftrightarrow> distinct (keys (offers v)) \<and> distinct (keys (matches v))
     \<and> (\<forall>(_, m) \<in> set (matches v). m_status m = AwaitingProofs \<longrightarrow> m_proofDeadline m < m_pruneAt m)"

lemma expire_if_twice: "a \<le> b \<Longrightarrow> expire_if b (expire_if a m) = expire_if b m"
  by (auto simp: expire_if_def expire_match_def timed_out_def)

lemma timed_out_expire_if: "timed_out b (expire_if a m) \<longleftrightarrow> timed_out b m \<and> \<not> timed_out a m"
  by (auto simp: expire_if_def expire_match_def timed_out_def)

lemma credit_filter:
  "credit f (filter (\<lambda>(_, x). h < o_expiresAt x) os) = filter (\<lambda>(_, x). h < o_expiresAt x) (credit f os)"
  by (induction os) (auto simp: credit_def)

lemma filter_filter_expiry:
  "a \<le> (b :: int) \<Longrightarrow> filter (\<lambda>(_, x). b < f x) (filter (\<lambda>(_, x). a < f x) xs) = filter (\<lambda>(_, x). b < f x) xs"
  by (induction xs) auto

lemma returned_split:
  assumes "a \<le> b" "\<forall>(_, m) \<in> set ms. m_status m = AwaitingProofs \<longrightarrow> m_proofDeadline m < m_pruneAt m"
  shows "returned a ms k + returned b (filter (\<lambda>(_, m). a < m_pruneAt m) (map (\<lambda>(i, m). (i, expire_if a m)) ms)) k
    = returned b ms k"
  using assms(2)
proof (induction ms)
  case (Cons p ms)
  obtain i m where p: "p = (i, m)" by (cases p)
  have "timed_out b m \<and> \<not> timed_out a m \<Longrightarrow> a < m_pruneAt m"
    using Cons.prems p assms(1) by (auto simp: timed_out_def)
  moreover have "timed_out a m \<Longrightarrow> timed_out b m" using assms(1) by (auto simp: timed_out_def)
  moreover have "timed_out b m \<Longrightarrow> \<not> timed_out a m \<Longrightarrow> timed_out b (expire_if a m)" by (simp add: timed_out_expire_if)
  ultimately show ?case using Cons p by (auto simp: returned_def timed_out_expire_if)
qed (simp add: returned_def)

lemma filter_map_expire:
  assumes "a \<le> b"
  shows "filter (\<lambda>(_, m). b < m_pruneAt m) (map (\<lambda>(i, m). (i, expire_if b m))
      (filter (\<lambda>(_, m). a < m_pruneAt m) (map (\<lambda>(i, m). (i, expire_if a m)) ms)))
    = filter (\<lambda>(_, m). b < m_pruneAt m) (map (\<lambda>(i, m). (i, expire_if b m)) ms)"
  using assms by (induction ms) (auto simp: expire_if_twice)

lemma keys_advance_subset:
  assumes "distinct (keys (offers v))"
  shows "set (keys (offers (advance v h))) \<subseteq> set (keys (offers v))"
    "set (keys (matches (advance v h))) \<subseteq> set (keys (matches v))"
proof -
  have "set (keys (filter P (credit f os))) \<subseteq> set (keys os)" for P f os
    by (metis filter_is_subset image_mono keys_credit list.set_map)
  then show "set (keys (offers (advance v h))) \<subseteq> set (keys (offers v))" by (simp add: advance_eq[OF assms])
  show "set (keys (matches (advance v h))) \<subseteq> set (keys (matches v))"
    by (force simp: advance_eq[OF assms])
qed

lemma keys_map_snd [simp]: "keys (map (\<lambda>(i, m). (i, f m)) ms) = keys ms"
  by auto

lemma advance_clock_wf:
  assumes "clock_wf v" shows "clock_wf (advance v h)"
proof -
  have d: "distinct (keys (offers v))" "distinct (keys (matches v))" using assms by (simp_all add: clock_wf_def)
  have "distinct (keys (filter P (credit f (offers v))))" for P f
    by (rule distinct_keys_filter) (simp only: keys_credit d)
  moreover have "distinct (keys (filter P (map (\<lambda>(i, m). (i, expire_if h m)) (matches v))))" for P
    by (rule distinct_keys_filter) (simp only: keys_map_snd d)
  ultimately show ?thesis
    using assms unfolding clock_wf_def advance_eq[OF d(1)]
    by (auto simp: expire_if_def expire_match_def split: if_splits)
qed

lemma advance_compose:
  assumes "clock_wf v" "a \<le> b"
  shows "advance (advance v a) b = advance v b"
proof -
  have d: "distinct (keys (offers v))" using assms(1) by (simp add: clock_wf_def)
  have d': "distinct (keys (offers (advance v a)))" using advance_clock_wf[OF assms(1)] by (simp add: clock_wf_def)
  have r: "(\<lambda>k. returned a (matches v) k + returned b (matches (advance v a)) k) = returned b (matches v)"
    using returned_split[OF assms(2)] assms(1) by (auto simp: advance_eq[OF d] clock_wf_def)
  show ?thesis
    unfolding advance_eq[OF d'] advance_eq[OF d, of b]
    using r by (simp add: advance_eq[OF d, of a] credit_filter filter_filter_expiry filter_map_expire credit_credit assms(2) del: filter_filter)
qed


section \<open>Invariants of the board\<close>

definition offer_ok :: "offer \<Rightarrow> bool" where
  "offer_ok x \<longleftrightarrow> DUST (leg_chain (o_give x)) \<le> leg_amount (o_give x)
     \<and> DUST (leg_chain (o_want x)) \<le> leg_amount (o_want x) \<and> leg_chain (o_give x) \<noteq> leg_chain (o_want x)
     \<and> DUST (leg_chain (o_give x)) \<le> o_minFill x \<and> o_minFill x \<le> leg_amount (o_give x)
     \<and> o_postedAt x < o_expiresAt x \<and> o_expiresAt x \<le> o_postedAt x + MAX_OFFER_TTL"

text \<open>The life of a match: waiting for proofs, then in escrow with both proofs and the maker's key, or
  cancelled; a maker that has locked can no longer be in a cancelled match.\<close>

definition match_ok :: "match \<Rightarrow> bool" where
  "match_ok m \<longleftrightarrow> DUST (m_makerChain m) \<le> m_makerAmount m \<and> DUST (m_takerChain m) \<le> m_takerAmount m
     \<and> m_maker m \<noteq> m_taker m \<and> m_makerChain m \<noteq> m_takerChain m
     \<and> m_proofDeadline m = m_takenAt m + PROOF_WINDOW \<and> m_pruneAt m = m_takenAt m + matchLifetime (m_takerChain m)
     \<and> (m_makerKey m = None \<longleftrightarrow> m_makerProof m = None) \<and> m_makerKey m \<noteq> Some (m_takerKey m)
     \<and> (\<forall>p \<in> set_option (m_makerProof m). p_chain p = m_makerChain m)
     \<and> (\<forall>p \<in> set_option (m_takerProof m). p_chain p = m_takerChain m)
     \<and> (m_status m = Cancelled \<longleftrightarrow> m_cancelled m \<noteq> None)
     \<and> (m_status m = AwaitingProofs \<longrightarrow> (m_makerProof m = None \<or> m_takerProof m = None) \<and> m_makerLock m = None \<and> m_takerLock m = None)
     \<and> (m_status m = Escrow \<longrightarrow> m_makerProof m \<noteq> None \<and> m_takerProof m \<noteq> None)
     \<and> (m_status m = Cancelled \<longrightarrow> m_makerLock m = None)"

text \<open>Give-units of offer \<open>k\<close> reserved by matches that are not cancelled.\<close>

definition reserved :: "(string, match) jsmap \<Rightarrow> string \<Rightarrow> int" where
  "reserved ms k = (\<Sum>(_, m) \<leftarrow> ms. if m_offerId m = k \<and> m_status m \<noteq> Cancelled then m_makerAmount m else 0)"

definition capacity_ok :: "view \<Rightarrow> bool" where
  "capacity_ok v \<longleftrightarrow> (\<forall>k x. map_of (offers v) k = Some x \<longrightarrow>
     0 \<le> o_remaining x \<and> o_remaining x + reserved (matches v) k \<le> leg_amount (o_give x))"

definition hashes_ok :: "view \<Rightarrow> bool" where
  "hashes_ok v \<longleftrightarrow> (\<forall>i j m n. map_of (matches v) i = Some m \<longrightarrow> map_of (matches v) j = Some n \<longrightarrow>
     m_hash m = m_hash n \<longrightarrow> i = j)"

definition entries_ok :: "view \<Rightarrow> bool" where
  "entries_ok v \<longleftrightarrow> (\<forall>k x. map_of (offers v) k = Some x \<longrightarrow> o_id x = k \<and> offer_ok x)
     \<and> (\<forall>k m. map_of (matches v) k = Some m \<longrightarrow> m_id m = k \<and> match_ok m)"

definition board_ok :: "view \<Rightarrow> bool" where
  "board_ok v \<longleftrightarrow> distinct (keys (offers v)) \<and> distinct (keys (matches v)) \<and> entries_ok v \<and> hashes_ok v \<and> capacity_ok v"

text \<open>The write ids a board speaks of.\<close>

definition board_ids :: "view \<Rightarrow> string set" where
  "board_ids v = set (keys (offers v)) \<union> set (keys (matches v)) \<union> m_offerId ` set (vals (matches v))"

lemma board_ok_D:
  assumes "board_ok v"
  shows "distinct (keys (offers v))" "distinct (keys (matches v))"
    "map_of (offers v) k = Some x \<Longrightarrow> o_id x = k \<and> offer_ok x"
    "map_of (matches v) k = Some m \<Longrightarrow> m_id m = k \<and> match_ok m"
    "map_of (offers v) k = Some x \<Longrightarrow> 0 \<le> o_remaining x \<and> o_remaining x + reserved (matches v) k \<le> leg_amount (o_give x)"
  using assms by (simp_all add: board_ok_def entries_ok_def capacity_ok_def)

lemma board_ok_mem: "board_ok v \<Longrightarrow> (k, m) \<in> set (matches v) \<Longrightarrow> match_ok m"
  using board_ok_D(2,4) by (metis map_of_mem)

lemma board_view_wf: "board_ok v \<Longrightarrow> view_wf v"
  by (auto simp: view_wf_def board_ok_D(1,2) dest!: map_of_is_SomeI[rotated] dest: board_ok_D(3,4))

lemma match_ok_deadline: "match_ok m \<Longrightarrow> m_proofDeadline m < m_pruneAt m"
  using proofs_before_prune by (simp add: match_ok_def)

lemma board_clock_wf: "board_ok v \<Longrightarrow> clock_wf v"
  using board_ok_D(1,2) board_ok_mem match_ok_deadline by (fastforce simp: clock_wf_def)

lemma match_ok_amount: "match_ok m \<Longrightarrow> 0 < m_makerAmount m"
  using DUST_pos[of "m_makerChain m"] by (simp add: match_ok_def)

lemma expire_match_ok: "match_ok m \<Longrightarrow> match_ok (expire_if h m)"
  by (auto simp: match_ok_def expire_if_def expire_match_def timed_out_def)

lemma reserved_nonneg: "\<forall>(_, m) \<in> set ms. match_ok m \<Longrightarrow> 0 \<le> reserved ms k"
  by (induction ms) (auto simp: reserved_def dest: match_ok_amount)

text \<open>Advancing gives back to an offer no more than it releases.\<close>

lemma reserved_advance:
  "\<forall>(_, m) \<in> set ms. match_ok m \<Longrightarrow>
   returned h ms k + reserved (filter (\<lambda>(_, m). h < m_pruneAt m) (map (\<lambda>(i, m). (i, expire_if h m)) ms)) k \<le> reserved ms k"
proof (induction ms)
  case (Cons p ms)
  obtain i m where p: "p = (i, m)" by (cases p)
  then have "0 < m_makerAmount m" using Cons.prems match_ok_amount by auto
  with Cons p show ?case
    by (auto simp: reserved_def returned_def expire_if_def expire_match_def timed_out_def)
qed (simp add: reserved_def returned_def)

lemma map_of_credit: "map_of (credit f os) k = map_option (\<lambda>x. x\<lparr>o_remaining := o_remaining x + f k\<rparr>) (map_of os k)"
  by (simp add: credit_def map_of_map_vals)

lemma advance_offers:
  assumes "distinct (keys (offers v))"
  shows "map_of (offers (advance v h)) k = (case map_of (offers v) k of None \<Rightarrow> None
     | Some x \<Rightarrow> if h < o_expiresAt x then Some (x\<lparr>o_remaining := o_remaining x + returned h (matches v) k\<rparr>) else None)"
proof -
  have "distinct (keys (credit (returned h (matches v)) (offers v)))" using assms by simp
  from map_of_filter_vals[OF this, of "\<lambda>_ x. h < o_expiresAt x"]
  show ?thesis by (simp add: advance_eq[OF assms] map_of_credit split: option.split)
qed

lemma advance_matches_at:
  assumes "distinct (keys (offers v))" "distinct (keys (matches v))"
  shows "map_of (matches (advance v h)) k = (case map_of (matches v) k of None \<Rightarrow> None
     | Some m \<Rightarrow> if h < m_pruneAt m then Some (expire_if h m) else None)"
proof -
  have "distinct (keys (map (\<lambda>(i, m). (i, expire_if h m)) (matches v)))" by (simp only: keys_map_snd assms(2))
  from map_of_filter_vals[OF this, of "\<lambda>_ m. h < m_pruneAt m"] map_of_map_vals[of "\<lambda>_. expire_if h" "matches v" k]
  show ?thesis by (simp add: advance_eq[OF assms(1)] split: option.split)
qed

lemma advance_board_ok:
  assumes "board_ok v"
  shows "board_ok (advance v h)"
proof -
  note d = board_ok_D(1,2)[OF assms]
  have "distinct (keys (offers (advance v h)))" "distinct (keys (matches (advance v h)))"
    using advance_clock_wf[OF board_clock_wf[OF assms]] by (simp_all add: clock_wf_def)
  moreover have "entries_ok (advance v h)"
    using board_ok_D(3,4)[OF assms]
    by (auto simp: entries_ok_def advance_offers[OF d(1)] advance_matches_at[OF d] offer_ok_def expire_match_ok
      split: option.splits if_splits)
  moreover have "hashes_ok (advance v h)"
    using assms by (auto simp: board_ok_def hashes_ok_def advance_matches_at[OF d] split: option.splits if_splits)
  moreover have "capacity_ok (advance v h)"
    unfolding capacity_ok_def
  proof (intro allI impI)
    fix k x' assume "map_of (offers (advance v h)) k = Some x'"
    then obtain x where x: "map_of (offers v) k = Some x"
      and x': "x' = x\<lparr>o_remaining := o_remaining x + returned h (matches v) k\<rparr>"
      by (auto simp: advance_offers[OF d(1)] split: option.splits if_splits)
    have ok: "\<forall>(_, m) \<in> set (matches v). match_ok m" using board_ok_mem[OF assms] by auto
    have "0 \<le> returned h (matches v) k"
      using ok by (fastforce simp: returned_def intro!: sum_list_nonneg dest: match_ok_amount)
    with reserved_advance[OF ok, of h k] board_ok_D(5)[OF assms x] x'
    show "0 \<le> o_remaining x' \<and> o_remaining x' + reserved (matches (advance v h)) k \<le> leg_amount (o_give x')"
      by (simp add: advance_eq[OF d(1)])
  qed
  ultimately show ?thesis by (simp add: board_ok_def)
qed


section \<open>Every operation preserves the invariants\<close>

definition claim_of :: "string \<Rightarrow> match \<Rightarrow> int" where
  "claim_of k m = (if m_offerId m = k \<and> m_status m \<noteq> Cancelled then m_makerAmount m else 0)"

lemma reserved_claims: "reserved ms k = (\<Sum>(_, m) \<leftarrow> ms. claim_of k m)"
  by (simp add: reserved_def claim_of_def)

lemma reserved_set_old:
  "distinct (keys ms) \<Longrightarrow> map_of ms i = Some m \<Longrightarrow> reserved (map_set i m' ms) k = reserved ms k - claim_of k m + claim_of k m'"
  unfolding reserved_claims by (rule sum_list_set_old[where f="\<lambda>_. claim_of k"])

lemma reserved_set_new:
  "map_of ms i = None \<Longrightarrow> reserved (map_set i m' ms) k = reserved ms k + claim_of k m'"
  unfolding reserved_claims by (rule sum_list_set_new[where f="\<lambda>_. claim_of k"])

lemma board_okI:
  assumes "distinct (keys (offers v))" "distinct (keys (matches v))"
    and "\<And>k x. map_of (offers v) k = Some x \<Longrightarrow> o_id x = k \<and> offer_ok x"
    and "\<And>k m. map_of (matches v) k = Some m \<Longrightarrow> m_id m = k \<and> match_ok m"
    and "\<And>i j m n. map_of (matches v) i = Some m \<Longrightarrow> map_of (matches v) j = Some n \<Longrightarrow> m_hash m = m_hash n \<Longrightarrow> i = j"
    and "\<And>k x. map_of (offers v) k = Some x \<Longrightarrow> 0 \<le> o_remaining x \<and> o_remaining x + reserved (matches v) k \<le> leg_amount (o_give x)"
  shows "board_ok v"
  using assms by (auto simp: board_ok_def entries_ok_def hashes_ok_def capacity_ok_def)

lemma board_ok_hash:
  "board_ok v \<Longrightarrow> map_of (matches v) i = Some m \<Longrightarrow> map_of (matches v) j = Some n \<Longrightarrow> m_hash m = m_hash n \<Longrightarrow> i = j"
  unfolding board_ok_def hashes_ok_def by blast

text \<open>Replacing a match by one with the same identity that reserves the same amount.\<close>

lemma set_match_ok:
  assumes v: "board_ok v" "map_of (matches v) i = Some m"
    and m': "m_id m' = m_id m" "m_hash m' = m_hash m" "\<And>k. claim_of k m' = claim_of k m" "match_ok m'"
  shows "board_ok (set_match v i m')"
proof (rule board_okI)
  note d = board_ok_D(1,2)[OF v(1)]
  show "distinct (keys (offers (set_match v i m')))" "distinct (keys (matches (set_match v i m')))"
    using d by (simp_all add: set_match_def alist.invar_set)
  show "o_id x = k \<and> offer_ok x" if "map_of (offers (set_match v i m')) k = Some x" for k x
    using that board_ok_D(3)[OF v(1)] by (simp add: set_match_def)
  show "m_id n = k \<and> match_ok n" if "map_of (matches (set_match v i m')) k = Some n" for k n
    using that board_ok_D(4)[OF v(1)] v(2) m' by (auto simp: set_match_def map_of_set split: if_splits)
  show "a = b" if "map_of (matches (set_match v i m')) a = Some n" "map_of (matches (set_match v i m')) b = Some n'"
    "m_hash n = m_hash n'" for a b n n'
    using that board_ok_hash[OF v(1)] v(2) m'(2) by (auto simp: set_match_def map_of_set split: if_splits)
  show "0 \<le> o_remaining x \<and> o_remaining x + reserved (matches (set_match v i m')) k \<le> leg_amount (o_give x)"
    if "map_of (offers (set_match v i m')) k = Some x" for k x
    using that board_ok_D(5)[OF v(1)] m'(3) d v(2) by (simp add: set_match_def reserved_set_old)
qed

lemma applyProof_ok:
  assumes "board_ok v" "proof_ok p"
  shows "board_ok (fst (applyProof v w i mk p h))"
proof (cases "map_of (matches v) i")
  case (Some m)
  have m: "match_ok m" using board_ok_D(4)[OF assms(1) Some] by simp
  have maker: "board_ok (set_match v i (escrow_if_both (m\<lparr>m_makerProof := Some p, m_makerKey := mk\<rparr>)))"
    if "m_status m = AwaitingProofs" "mk \<noteq> None" "mk \<noteq> Some (m_takerKey m)" "p_chain p = m_makerChain m"
    by (rule set_match_ok[OF assms(1) Some])
      (use that m in \<open>auto simp: escrow_if_both_def claim_of_def match_ok_def\<close>)
  have taker: "board_ok (set_match v i (escrow_if_both (m\<lparr>m_takerProof := Some p\<rparr>)))"
    if "m_status m = AwaitingProofs" "p_chain p = m_takerChain m"
    by (rule set_match_ok[OF assms(1) Some])
      (use that m in \<open>auto simp: escrow_if_both_def claim_of_def match_ok_def\<close>)
  show ?thesis using Some assms(1) maker taker by (simp add: applyProof_def)
qed (use assms(1) in \<open>simp add: applyProof_def\<close>)

lemma applyLocked_ok:
  assumes "board_ok v"
  shows "board_ok (fst (applyLocked v w i t n h))"
proof (cases "map_of (matches v) i")
  case (Some m)
  have m: "match_ok m" using board_ok_D(4)[OF assms(1) Some] by simp
  have "board_ok (set_match v i (m\<lparr>m_makerLock := Some l\<rparr>))" "board_ok (set_match v i (m\<lparr>m_takerLock := Some l\<rparr>))"
    if "m_status m = Escrow" for l
    using that m by (auto intro!: set_match_ok[OF assms(1) Some] simp: claim_of_def match_ok_def)
  then show ?thesis using Some assms(1) by (simp add: applyLocked_def Let_def)
qed (use assms(1) in \<open>simp add: applyLocked_def\<close>)

lemma restore_at:
  "distinct (keys os) \<Longrightarrow> map_of (restoreCapacity m os) k =
     map_option (\<lambda>x. x\<lparr>o_remaining := o_remaining x + (if m_offerId m = k then m_makerAmount m else 0)\<rparr>) (map_of os k)"
  by (simp add: restoreCapacity_credit map_of_credit)

lemma applyAbort_ok:
  assumes "board_ok v"
  shows "board_ok (fst (applyAbort v w i h))"
proof (cases "map_of (matches v) i")
  case (Some m)
  note d = board_ok_D(1,2)[OF assms]
  have m: "match_ok m" "m_id m = i" using board_ok_D(4)[OF assms Some] by auto
  let ?m = "m\<lparr>m_status := Cancelled, m_cancelled := Some (h, Abort)\<rparr>"
  let ?v = "\<lparr>offers = restoreCapacity m (offers v), matches = map_set i ?m (matches v)\<rparr>"
  have "board_ok ?v" if st: "m_status m \<noteq> Cancelled" "m_makerLock m = None"
  proof (rule board_okI)
    show "distinct (keys (offers ?v))" "distinct (keys (matches ?v))"
      using d by (simp_all add: restoreCapacity_credit alist.invar_set)
    show "o_id x = k \<and> offer_ok x" if "map_of (offers ?v) k = Some x" for k x
      using that board_ok_D(3)[OF assms] d by (auto simp: restore_at offer_ok_def)
    show "m_id n = k \<and> match_ok n" if "map_of (matches ?v) k = Some n" for k n
    proof -
      have "match_ok ?m" using m(1) st by (simp add: match_ok_def)
      then show ?thesis using that board_ok_D(4)[OF assms] m(2) by (auto simp: map_of_set split: if_splits)
    qed
    show "a = b" if "map_of (matches ?v) a = Some n" "map_of (matches ?v) b = Some n'" "m_hash n = m_hash n'" for a b n n'
      using that board_ok_hash[OF assms] Some by (auto simp: map_of_set split: if_splits)
    show "0 \<le> o_remaining x \<and> o_remaining x + reserved (matches ?v) k \<le> leg_amount (o_give x)"
      if kx: "map_of (offers ?v) k = Some x" for k x
    proof -
      obtain y where y: "map_of (offers v) k = Some y"
        and x: "x = y\<lparr>o_remaining := o_remaining y + (if m_offerId m = k then m_makerAmount m else 0)\<rparr>"
        using kx d by (auto simp: restore_at simp del: map_of_eq_Some_iff)
      have "claim_of k m = (if m_offerId m = k then m_makerAmount m else 0)" "claim_of k ?m = 0"
        using st by (simp_all add: claim_of_def)
      with board_ok_D(5)[OF assms y] match_ok_amount[OF m(1)] x reserved_set_old[OF d(2) Some, of ?m k]
      show ?thesis by simp
    qed
  qed
  then show ?thesis using Some assms by (simp add: applyAbort_def)
qed (use assms in \<open>simp add: applyAbort_def\<close>)

lemma applyCancel_ok:
  assumes "board_ok v"
  shows "board_ok (fst (applyCancel v w i))"
proof -
  let ?v = "v\<lparr>offers := map_del i (offers v)\<rparr>"
  have "board_ok ?v"
    by (rule board_okI)
      (use board_ok_D[OF assms] board_ok_hash[OF assms] in \<open>auto simp: map_of_delete distinct_delete split: if_splits\<close>)
  then show ?thesis using assms by (simp add: applyCancel_def split: option.split)
qed


lemma reserved_fresh: "k \<notin> m_offerId ` set (vals ms) \<Longrightarrow> reserved ms k = 0"
  by (induction ms) (auto simp: reserved_def)

lemma applyPost_ok:
  assumes "board_ok v" "op_ok lift_x (OfferPost give want minFill ttl)" "wr_id w \<notin> board_ids v"
  shows "board_ok (fst (applyPost v w give want minFill ttl h))"
proof -
  let ?x = "\<lparr>o_id = wr_id w, o_maker = wr_writer w, o_give = give, o_want = want, o_minFill = minFill,
     o_remaining = leg_amount give, o_postedAt = h, o_expiresAt = h + ttl\<rparr>"
  let ?v = "v\<lparr>offers := map_set (wr_id w) ?x (offers v)\<rparr>"
  have "board_ok ?v" if "\<not> (leg_amount give < DUST (leg_chain give) \<or> leg_amount want < DUST (leg_chain want))"
    "\<not> (minFill < DUST (leg_chain give) \<or> proRata give want minFill < DUST (leg_chain want))"
  proof (rule board_okI)
    show "distinct (keys (offers ?v))" "distinct (keys (matches ?v))"
      using board_ok_D(1,2)[OF assms(1)] by (simp_all add: alist.invar_set)
    have "offer_ok ?x" using that assms(2) by (simp add: offer_ok_def)
    then show "o_id x = k \<and> offer_ok x" if "map_of (offers ?v) k = Some x" for k x
      using that board_ok_D(3)[OF assms(1)] by (auto simp: map_of_set split: if_splits)
    have "reserved (matches v) (wr_id w) = 0" using assms(3) by (intro reserved_fresh) (auto simp: board_ids_def)
    moreover have "0 < leg_amount give" using assms(2) by (simp add: leg_ok_def)
    ultimately show "0 \<le> o_remaining x \<and> o_remaining x + reserved (matches ?v) k \<le> leg_amount (o_give x)"
      if "map_of (offers ?v) k = Some x" for k x
      using that board_ok_D(5)[OF assms(1)] by (auto simp: map_of_set split: if_splits)
  qed (use board_ok_D(4)[OF assms(1)] board_ok_hash[OF assms(1)] in auto)
  then show ?thesis using assms(1) by (simp add: applyPost_def)
qed

lemma new_match_ok:
  assumes "offer_ok x" "o_maker x \<noteq> wr_writer w" "DUST (leg_chain (o_give x)) \<le> fill" "DUST (leg_chain (o_want x)) \<le> ta"
  shows "match_ok (new_match x w fill ta hash key h)"
  using assms by (simp add: match_ok_def new_match_def offer_ok_def)

lemma applyTake_ok:
  assumes "board_ok v"
  shows "board_ok (fst (applyTake v w oid fill hash key h))"
proof (cases "map_of (offers v) oid")
  case (Some x)
  note d = board_ok_D(1,2)[OF assms]
  define ta where "ta = proRata (o_give x) (o_want x) fill"
  let ?m = "new_match x w fill ta hash key h"
  let ?v = "\<lparr>offers = map_set oid (x\<lparr>o_remaining := o_remaining x - fill\<rparr>) (offers v),
     matches = map_set (wr_id w) ?m (matches v)\<rparr>"
  have "board_ok ?v" if g: "o_maker x \<noteq> wr_writer w" "fill \<le> o_remaining x"
    "DUST (leg_chain (o_give x)) \<le> fill" "DUST (leg_chain (o_want x)) \<le> ta"
    "map_of (matches v) (wr_id w) = None" "\<forall>m \<in> set (vals (matches v)). m_hash m \<noteq> hash"
  proof (rule board_okI)
    show "distinct (keys (offers ?v))" "distinct (keys (matches ?v))" using d by (simp_all add: alist.invar_set)
    have x: "o_id x = oid" "offer_ok x" using board_ok_D(3)[OF assms Some] by auto
    show "o_id y = k \<and> offer_ok y" if "map_of (offers ?v) k = Some y" for k y
      using that board_ok_D(3)[OF assms] x by (auto simp: map_of_set offer_ok_def split: if_splits)
    have "match_ok ?m" using new_match_ok x g by blast
    moreover have "m_id ?m = wr_id w" by (simp add: new_match_def)
    ultimately show "m_id n = k \<and> match_ok n" if "map_of (matches ?v) k = Some n" for k n
      using that board_ok_D(4)[OF assms] by (auto simp: map_of_set split: if_splits)
    have "m_hash n \<noteq> hash" if "map_of (matches v) a = Some n" for a n
      using g(6) map_of_SomeD[OF that] by force
    moreover have "m_hash ?m = hash" by (simp add: new_match_def)
    ultimately show "a = b" if "map_of (matches ?v) a = Some n" "map_of (matches ?v) b = Some n'" "m_hash n = m_hash n'" for a b n n'
      using that board_ok_hash[OF assms] by (auto simp: map_of_set split: if_splits)
    have "claim_of k ?m = (if k = oid then fill else 0)" for k
      using x by (auto simp: claim_of_def new_match_def)
    then show "0 \<le> o_remaining y \<and> o_remaining y + reserved (matches ?v) k \<le> leg_amount (o_give y)"
      if "map_of (offers ?v) k = Some y" for k y
      using that board_ok_D(5)[OF assms] Some g by (auto simp: map_of_set reserved_set_new split: if_splits)
  qed
  then show ?thesis
    using Some assms by (auto simp: applyTake_def Let_def ta_def map_has_def list_ex_iff)
qed (use assms in \<open>simp add: applyTake_def\<close>)

lemma applyOp_board_ok:
  assumes "board_ok v" "op_ok lift_x q" "wr_id w \<notin> board_ids v"
  shows "board_ok (fst (applyOp v w q h))"
  using assms applyPost_ok applyCancel_ok applyTake_ok applyProof_ok applyLocked_ok applyAbort_ok
  by (cases q) auto

lemma board_ids_iff:
  assumes "distinct (keys (matches v))"
  shows "k \<in> board_ids v \<longleftrightarrow> map_of (offers v) k \<noteq> None \<or> map_of (matches v) k \<noteq> None
    \<or> (\<exists>i m. map_of (matches v) i = Some m \<and> m_offerId m = k)"
proof -
  have "k \<in> m_offerId ` set (vals (matches v)) \<longleftrightarrow> (\<exists>i m. (i, m) \<in> set (matches v) \<and> m_offerId m = k)" by force
  also have "\<dots> \<longleftrightarrow> (\<exists>i m. map_of (matches v) i = Some m \<and> m_offerId m = k)" using assms by (simp add: map_of_mem)
  finally show ?thesis unfolding board_ids_def map_of_None_keys by blast
qed

lemma board_ids_advance:
  assumes "board_ok v"
  shows "board_ids (advance v h) \<subseteq> board_ids v"
proof
  note d = board_ok_D(1,2)[OF assms] and d' = board_ok_D(1,2)[OF advance_board_ok[OF assms]]
  fix k assume "k \<in> board_ids (advance v h)"
  then show "k \<in> board_ids v"
    unfolding board_ids_iff[OF d(2)] board_ids_iff[OF d'(2)] advance_offers[OF d(1)] advance_matches_at[OF d]
    by (auto split: option.splits if_splits)
qed

lemma applyOp_at:
  assumes "board_ok v" "map_of (matches (fst (applyOp v w q h))) i = Some m"
  shows "(\<exists>m0. map_of (matches v) i = Some m0 \<and> m_offerId m0 = m_offerId m)
    \<or> i = wr_id w \<and> map_of (offers v) (m_offerId m) \<noteq> None"
  using assms board_ok_D(3)[OF assms(1)]
  by (cases q) (auto simp: applyPost_def applyCancel_def applyTake_def applyProof_def applyLocked_def applyAbort_def
    Let_def set_match_def escrow_if_both_def new_match_def map_of_set simp del: map_of_eq_Some_iff
    split: option.splits if_splits)

lemma applyOp_offer_keys:
  assumes "board_ok v" "map_of (offers (fst (applyOp v w q h))) k \<noteq> None"
  shows "k = wr_id w \<or> map_of (offers v) k \<noteq> None"
  using assms board_ok_D(1)[OF assms(1)]
  by (cases q) (auto simp: applyPost_def applyCancel_def applyTake_def applyProof_def applyLocked_def applyAbort_def
    Let_def set_match_def restore_at map_of_set map_of_delete simp del: map_of_eq_Some_iff
    split: option.splits if_splits)

lemma board_ids_applyOp:
  assumes "board_ok v" "distinct (keys (matches (fst (applyOp v w q h))))"
  shows "board_ids (fst (applyOp v w q h)) \<subseteq> insert (wr_id w) (board_ids v)"
proof
  let ?v = "fst (applyOp v w q h)"
  note iff = board_ids_iff[OF board_ok_D(2)[OF assms(1)]]
  fix k assume "k \<in> board_ids ?v"
  then consider "map_of (offers ?v) k \<noteq> None" | m where "map_of (matches ?v) k = Some m"
    | i m where "map_of (matches ?v) i = Some m" "m_offerId m = k"
    unfolding board_ids_iff[OF assms(2)] by blast
  then show "k \<in> insert (wr_id w) (board_ids v)"
  proof cases
    case 1
    from applyOp_offer_keys[OF assms(1) this] show ?thesis unfolding insert_iff iff by blast
  next
    case 2
    from applyOp_at[OF assms(1) this] show ?thesis unfolding insert_iff iff by blast
  next
    case 3
    from applyOp_at[OF assms(1) this(1)] this(2) show ?thesis unfolding insert_iff iff by blast
  qed
qed


section \<open>The life of a match as a state machine\<close>

inductive match_step :: "match \<Rightarrow> match \<Rightarrow> bool" where
  timeout: "m_status m = AwaitingProofs \<Longrightarrow> match_step m (expire_match m)"
| maker_proof: "m_status m = AwaitingProofs \<Longrightarrow> m_makerProof m = None \<Longrightarrow> mk \<noteq> m_takerKey m \<Longrightarrow>
    p_chain p = m_makerChain m \<Longrightarrow>
    match_step m (escrow_if_both (m\<lparr>m_makerProof := Some p, m_makerKey := Some mk\<rparr>))"
| taker_proof: "m_status m = AwaitingProofs \<Longrightarrow> m_takerProof m = None \<Longrightarrow> p_chain p = m_takerChain m \<Longrightarrow>
    match_step m (escrow_if_both (m\<lparr>m_takerProof := Some p\<rparr>))"
| maker_lock: "m_status m = Escrow \<Longrightarrow> m_makerLock m = None \<Longrightarrow> match_step m (m\<lparr>m_makerLock := Some l\<rparr>)"
| taker_lock: "m_status m = Escrow \<Longrightarrow> m_takerLock m = None \<Longrightarrow> match_step m (m\<lparr>m_takerLock := Some l\<rparr>)"
| abort: "m_status m \<noteq> Cancelled \<Longrightarrow> m_makerLock m = None \<Longrightarrow>
    match_step m (m\<lparr>m_status := Cancelled, m_cancelled := Some (h, Abort)\<rparr>)"

lemma advance_step:
  assumes "board_ok v" "map_of (matches v) i = Some m" "map_of (matches (advance v h)) i = Some m'"
  shows "match_step\<^sup>*\<^sup>* m m'"
  using assms(2,3) timeout[of m]
  by (auto simp: advance_matches_at[OF board_ok_D(1,2)[OF assms(1)]] expire_if_def timed_out_def split: if_splits)

lemma applyOp_step:
  assumes "map_of (matches v) i = Some m"
  shows "\<exists>m'. map_of (matches (fst (applyOp v w q h))) i = Some m' \<and> match_step\<^sup>*\<^sup>* m m'"
proof -
  have r: "match_step\<^sup>*\<^sup>* m m" by simp
  have upd: "\<exists>m'. map_of (matches (set_match v j n)) i = Some m' \<and> match_step\<^sup>*\<^sup>* m m'"
    if "map_of (matches v) j = Some m0" "match_step m0 n" for j m0 n
    using that assms by (auto simp: set_match_def map_of_set simp del: map_of_eq_Some_iff)
  show ?thesis
  proof (cases q)
    case (OfferTake oid f hs key)
    with assms r show ?thesis
      by (auto simp: applyTake_def Let_def map_has_def map_of_set split: option.splits)
  next
    case (SwapProof j mk p)
    show ?thesis
    proof (cases "map_of (matches v) j")
      case (Some m0)
      have "match_step m0 (escrow_if_both (m0\<lparr>m_makerProof := Some p, m_makerKey := mk\<rparr>))"
        if "m_status m0 = AwaitingProofs" "m_makerProof m0 = None" "mk \<noteq> None" "mk \<noteq> Some (m_takerKey m0)" "p_chain p = m_makerChain m0"
        using that maker_proof by fastforce
      with SwapProof Some assms r upd[OF Some] taker_proof[of m0 p] show ?thesis
        by (auto simp: applyProof_def)
    qed (use SwapProof assms in \<open>simp add: applyProof_def\<close>)
  next
    case (SwapLocked j t n)
    then show ?thesis using assms r upd maker_lock taker_lock
      by (auto simp: applyLocked_def Let_def split: option.split)
  next
    case (SwapAbort j)
    show ?thesis
    proof (cases "map_of (matches v) j")
      case (Some m0)
      with SwapAbort assms r abort[of m0 h] show ?thesis
        by (auto simp: applyAbort_def map_of_set)
    qed (use SwapAbort assms in \<open>simp add: applyAbort_def\<close>)
  qed (use assms r in \<open>simp_all add: applyPost_def applyCancel_def split: option.split\<close>)
qed

definition same_terms :: "match \<Rightarrow> match \<Rightarrow> bool" where
  "same_terms m n \<longleftrightarrow> m_id n = m_id m \<and> m_offerId n = m_offerId m \<and> m_maker n = m_maker m \<and> m_taker n = m_taker m
     \<and> m_makerChain n = m_makerChain m \<and> m_makerAmount n = m_makerAmount m \<and> m_makerRefundBlocks n = m_makerRefundBlocks m
     \<and> m_takerChain n = m_takerChain m \<and> m_takerAmount n = m_takerAmount m \<and> m_takerRefundBlocks n = m_takerRefundBlocks m
     \<and> m_hash n = m_hash m \<and> m_takerKey n = m_takerKey m \<and> m_takeSeq n = m_takeSeq m \<and> m_takenAt n = m_takenAt m
     \<and> m_proofDeadline n = m_proofDeadline m \<and> m_pruneAt n = m_pruneAt m"

definition kept_by :: "'a option \<Rightarrow> 'a option \<Rightarrow> bool" where
  "kept_by a b \<longleftrightarrow> (\<forall>x. a = Some x \<longrightarrow> b = Some x)"

text \<open>What no sequence of steps changes: the swap terms; a posted proof, key or lock; a cancelled
  match; and a match the maker has locked into is not cancelled any more.\<close>

definition evolves :: "match \<Rightarrow> match \<Rightarrow> bool" where
  "evolves m n \<longleftrightarrow> same_terms m n \<and> kept_by (m_makerProof m) (m_makerProof n) \<and> kept_by (m_takerProof m) (m_takerProof n)
     \<and> kept_by (m_makerLock m) (m_makerLock n) \<and> kept_by (m_takerLock m) (m_takerLock n) \<and> kept_by (m_makerKey m) (m_makerKey n)
     \<and> (m_status m = Cancelled \<longrightarrow> n = m)
     \<and> (m_status m = Escrow \<longrightarrow> m_status n \<noteq> AwaitingProofs)
     \<and> (m_status m = Escrow \<and> m_makerLock m \<noteq> None \<longrightarrow> m_status n = Escrow)"

lemma evolves_refl: "evolves m m"
  by (simp add: evolves_def same_terms_def kept_by_def)

lemma evolves_trans: "evolves a b \<Longrightarrow> evolves b c \<Longrightarrow> evolves a c"
  unfolding evolves_def same_terms_def kept_by_def
  by (cases "m_status a"; cases "m_status b"; cases "m_makerLock a") auto

lemma match_step_evolves: "match_step m n \<Longrightarrow> m_makerProof m = None \<longleftrightarrow> m_makerKey m = None \<Longrightarrow> evolves m n"
  by (induction rule: match_step.induct)
    (auto simp: evolves_def same_terms_def kept_by_def expire_match_def escrow_if_both_def)

lemma match_step_key: "match_step m n \<Longrightarrow> m_makerProof m = None \<longleftrightarrow> m_makerKey m = None \<Longrightarrow> m_makerProof n = None \<longleftrightarrow> m_makerKey n = None"
  by (induction rule: match_step.induct) (auto simp: expire_match_def escrow_if_both_def)

lemma match_steps_evolves:
  "match_step\<^sup>*\<^sup>* m n \<Longrightarrow> m_makerProof m = None \<longleftrightarrow> m_makerKey m = None \<Longrightarrow>
   evolves m n \<and> (m_makerProof n = None \<longleftrightarrow> m_makerKey n = None)"
proof (induction rule: rtranclp_induct)
  case base
  then show ?case using evolves_refl by blast
next
  case (step y z)
  then have y: "evolves m y" "m_makerProof y = None \<longleftrightarrow> m_makerKey y = None" by blast+
  show ?case
    using evolves_trans[OF y(1) match_step_evolves[OF step(2) y(2)]] match_step_key[OF step(2) y(2)] by (rule conjI)
qed

lemma evolved_or_pruned:
  assumes "board_ok v" "map_of (matches v) i = Some m"
  shows "(\<exists>n. map_of (matches (fst (applyOp v w q h))) i = Some n \<and> evolves m n)
    \<and> (m_pruneAt m \<le> h \<and> map_of (matches (advance v h)) i = None
        \<or> (\<exists>n. map_of (matches (advance v h)) i = Some n \<and> evolves m n))"
proof -
  have k: "m_makerProof m = None \<longleftrightarrow> m_makerKey m = None"
    using board_ok_D(4)[OF assms] by (auto simp: match_ok_def)
  have ev: "match_step\<^sup>*\<^sup>* m n \<Longrightarrow> evolves m n" for n using match_steps_evolves[OF _ k] by blast
  have "\<exists>n. map_of (matches (fst (applyOp v w q h))) i = Some n \<and> evolves m n"
    using applyOp_step[OF assms(2)] ev by blast
  moreover have "map_of (matches (advance v h)) i = (if h < m_pruneAt m then Some (expire_if h m) else None)"
    using advance_matches_at[OF board_ok_D(1,2)[OF assms(1)]] assms(2) by simp
  ultimately show ?thesis using advance_step[OF assms] ev by (auto split: if_splits)
qed

lemma apply_reject:
  "snd (applyPost v w g wt mf ttl h) = None \<or> fst (applyPost v w g wt mf ttl h) = v"
  "snd (applyCancel v w i) = None \<or> fst (applyCancel v w i) = v"
  "snd (applyTake v w i f hs key h) = None \<or> fst (applyTake v w i f hs key h) = v"
  "snd (applyProof v w i mk p h) = None \<or> fst (applyProof v w i mk p h) = v"
  "snd (applyLocked v w i t n h) = None \<or> fst (applyLocked v w i t n h) = v"
  "snd (applyAbort v w i h) = None \<or> fst (applyAbort v w i h) = v"
  by (simp_all add: applyPost_def applyCancel_def applyTake_def applyProof_def applyLocked_def applyAbort_def Let_def
    split: option.split)

lemma applyOp_reject: "snd (applyOp v w q h) = Some r \<Longrightarrow> fst (applyOp v w q h) = v"
  using apply_reject by (cases q) (metis applyOp.simps option.distinct(1))+

section \<open>The price of a fill\<close>

lemma proRata_div: "0 < leg_amount give \<Longrightarrow> 0 \<le> fill * leg_amount want \<Longrightarrow> proRata give want fill = (fill * leg_amount want) div leg_amount give"
  by (auto simp: proRata_def signed_divide_int_def sgn_if)

lemma proRata_bounds:
  assumes "0 < leg_amount give" "0 \<le> leg_amount want" "0 \<le> fill"
  shows "proRata give want fill * leg_amount give \<le> fill * leg_amount want
    \<and> fill * leg_amount want < (proRata give want fill + 1) * leg_amount give"
proof -
  define q m where "q = fill * leg_amount want div leg_amount give" and "m = fill * leg_amount want mod leg_amount give"
  have "q * leg_amount give + m = fill * leg_amount want" unfolding q_def m_def by (rule div_mult_mod_eq)
  moreover have "0 \<le> m" "m < leg_amount give" using assms(1) by (simp_all add: m_def)
  moreover have "proRata give want fill = q" using assms by (simp add: proRata_div q_def)
  ultimately show ?thesis by (simp add: algebra_simps)
qed

lemma proRata_split:
  assumes "0 < leg_amount give" "0 \<le> leg_amount want" "0 \<le> a" "0 \<le> b"
  shows "proRata give want a + proRata give want b \<le> proRata give want (a + b)"
proof -
  have "(proRata give want a + proRata give want b) * leg_amount give \<le> (a + b) * leg_amount want"
    using proRata_bounds[OF assms(1,2,3)] proRata_bounds[OF assms(1,2,4)] by (simp add: algebra_simps)
  also have "\<dots> < (proRata give want (a + b) + 1) * leg_amount give"
    using proRata_bounds[OF assms(1,2), of "a + b"] assms by simp
  finally show ?thesis using assms(1) by (simp add: mult_less_cancel_right)
qed


section \<open>Properties\<close>

text \<open>An offer of 100000 sats for 5000000 litoshis, taken for 40000 at height 5.\<close>

definition ex_match :: match where
  "ex_match = new_match (ex_offer ''o'') \<lparr>wr_id = ''t'', wr_writer = ''bb'', wr_seq = 3\<rparr> 40000 2000000 ''hh'' ''kk'' 5"

definition ex_board :: view where
  "ex_board = \<lparr>offers = [(''o'', (ex_offer ''o'')\<lparr>o_remaining := 60000\<rparr>)], matches = [(''t'', ex_match)]\<rparr>"

lemma ex_match_ok: "match_ok ex_match"
proof -
  have "offer_ok (ex_offer ''o'')" by (simp add: offer_ok_def ex_offer_def DUST_values MAX_OFFER_TTL_def)
  from new_match_ok[OF this] show ?thesis unfolding ex_match_def by (simp add: ex_offer_def DUST_values)
qed

lemma ex_match_fields [simp]:
  "m_id ex_match = ''t''" "m_offerId ex_match = ''o''" "m_makerAmount ex_match = 40000" "m_status ex_match = AwaitingProofs"
  "m_proofDeadline ex_match = 15" "m_pruneAt ex_match = 2205"
  by (simp_all add: ex_match_def new_match_def ex_offer_def PROOF_WINDOW_def matchLifetime_values)

lemma ex_board_fields [simp]:
  "offers ex_board = [(''o'', (ex_offer ''o'')\<lparr>o_remaining := 60000\<rparr>)]" "matches ex_board = [(''t'', ex_match)]"
  by (simp_all add: ex_board_def)

lemma ex_board_ok: "board_ok ex_board"
proof (rule board_okI)
  show "m_id m = k \<and> match_ok m" if "map_of (matches ex_board) k = Some m" for k m
    using that ex_match_ok by (auto split: if_splits)
  show "o_id y = k \<and> offer_ok y" if "map_of (offers ex_board) k = Some y" for k y
    using that by (auto simp: offer_ok_def ex_offer_def DUST_values MAX_OFFER_TTL_def split: if_splits)
  show "0 \<le> o_remaining y \<and> o_remaining y + reserved (matches ex_board) k \<le> leg_amount (o_give y)"
    if "map_of (offers ex_board) k = Some y" for k y
    using that by (auto simp: ex_offer_def reserved_def split: if_splits)
qed (auto split: if_splits)

text \<open>C5: the clock is path independent: advancing to \<open>a\<close> and then to \<open>b\<close> is advancing to \<open>b\<close>, entry by
  entry and in the same map order, on every board whose keys are distinct and whose waiting matches are
  not pruned before their proof deadline.\<close>

theorem advance_path_independent:
  assumes "clock_wf v" "a \<le> b"
  shows "advance (advance v a) b = advance v b \<and> clock_wf (advance v a)"
  using advance_compose[OF assms] advance_clock_wf[OF assms(1)] by simp

theorem advance_path_independent_witness: "advance (advance ex_board 9) 30 = advance ex_board 30"
  using advance_path_independent[OF board_clock_wf[OF ex_board_ok], of 9 30] by simp

text \<open>What the clock does: an offer is dropped at its expiry and otherwise only gains the fills of the
  matches that time out; a match is dropped at its prune height and cancelled, stamped with its own
  deadline, when the proofs are late.\<close>

theorem advance_effect:
  assumes "distinct (keys (offers v))" "distinct (keys (matches v))"
  shows "map_of (offers (advance v h)) k = (case map_of (offers v) k of None \<Rightarrow> None
      | Some x \<Rightarrow> if h < o_expiresAt x then Some (x\<lparr>o_remaining := o_remaining x
          + (\<Sum>(_, m) \<leftarrow> matches v. if m_status m = AwaitingProofs \<and> m_proofDeadline m < h \<and> m_offerId m = k
               then m_makerAmount m else 0)\<rparr>) else None)
    \<and> map_of (matches (advance v h)) k = (case map_of (matches v) k of None \<Rightarrow> None
      | Some m \<Rightarrow> if h < m_pruneAt m
          then Some (if m_status m = AwaitingProofs \<and> m_proofDeadline m < h
                     then m\<lparr>m_status := Cancelled, m_cancelled := Some (m_proofDeadline m + 1, NoProof)\<rparr> else m)
          else None)"
  unfolding advance_offers[OF assms(1)] advance_matches_at[OF assms]
  by (auto simp: returned_def timed_out_def expire_if_def expire_match_def split: option.split)

theorem advance_effect_witness: "map_of (matches (advance ex_board 16)) ''t''
  = Some (ex_match\<lparr>m_status := Cancelled, m_cancelled := Some (16, NoProof)\<rparr>)"
  using advance_effect[OF board_ok_D(1,2)[OF ex_board_ok], of 16 "''t''"] by simp

text \<open>C6: no operation and no passage of time breaks the board: entries stay keyed by their id and well
  formed, hashes stay unique, and no offer is oversold (what remains plus what live matches reserve
  never exceeds what it gives). The operation's id must be fresh, as a write's hash is.\<close>

theorem board_preserved:
  assumes "board_ok v" "op_ok lift_x q" "wr_id w \<notin> board_ids v"
  shows "board_ok (fst (applyOp (advance v h) w q h))
    \<and> board_ids (fst (applyOp (advance v h) w q h)) \<subseteq> insert (wr_id w) (board_ids v)"
proof -
  note adv = advance_board_ok[OF assms(1), of h] and ids = board_ids_advance[OF assms(1), of h]
  from ids assms(3) have "wr_id w \<notin> board_ids (advance v h)" by blast
  from applyOp_board_ok[OF adv assms(2) this] have ok: "board_ok (fst (applyOp (advance v h) w q h))" .
  from board_ids_applyOp[OF adv board_ok_D(2)[OF this]] ids ok show ?thesis by blast
qed

theorem board_preserved_witness:
  "board_ok (fst (applyOp (advance ex_board 7) \<lparr>wr_id = ''w'', wr_writer = ''aa'', wr_seq = 9\<rparr> (SwapAbort ex_id) 7))"
proof -
  have "op_ok (\<lambda>_. True) (SwapAbort ex_id)"
    by (simp add: isHex64_def hex_text_def ex_id_def list_all_iff is_hex_lower_def is_digit_def)
  moreover have "wr_id \<lparr>wr_id = ''w'', wr_writer = ''aa'', wr_seq = 9\<rparr> \<notin> board_ids ex_board"
    by (simp add: board_ids_def)
  ultimately show ?thesis using board_preserved[OF ex_board_ok] by blast
qed

text \<open>C7: a match only evolves: whatever is applied, its swap terms never change, a posted proof, key
  or lock stays as posted, a cancelled match stays exactly as it is, escrow is never left for waiting,
  and once the maker has locked in escrow the match stays there until it is pruned.\<close>

theorem match_evolves:
  assumes "board_ok v" "map_of (matches v) i = Some m"
  shows "(\<exists>n. map_of (matches (fst (applyOp v w q h))) i = Some n \<and> evolves m n)
    \<and> (m_pruneAt m \<le> h \<and> map_of (matches (advance v h)) i = None
        \<or> (\<exists>n. map_of (matches (advance v h)) i = Some n \<and> evolves m n))"
  using assms by (rule evolved_or_pruned)

theorem match_evolves_witness:
  "\<exists>n. map_of (matches (advance ex_board 100)) ''t'' = Some n \<and> evolves ex_match n"
  using match_evolves[OF ex_board_ok, of "''t''" ex_match _ _ 100] by simp

text \<open>A take succeeds exactly when its guards hold, and then it moves \<open>fill\<close> units from the offer to a
  new match with the price rounded down.\<close>

theorem applyTake_iff:
  "applyTake v w oid fill hash key h = (v', None) \<longleftrightarrow>
    (\<exists>x. map_of (offers v) oid = Some x \<and> o_maker x \<noteq> wr_writer w \<and> o_minFill x \<le> fill \<and> fill \<le> o_remaining x
      \<and> DUST (leg_chain (o_give x)) \<le> fill \<and> DUST (leg_chain (o_want x)) \<le> proRata (o_give x) (o_want x) fill
      \<and> wr_id w \<notin> set (keys (matches v)) \<and> hash \<notin> m_hash ` set (vals (matches v))
      \<and> v' = \<lparr>offers = map_set oid (x\<lparr>o_remaining := o_remaining x - fill\<rparr>) (offers v),
               matches = map_set (wr_id w) (new_match x w fill (proRata (o_give x) (o_want x) fill) hash key h) (matches v)\<rparr>)"
proof (cases "map_of (offers v) oid")
  case (Some x)
  have "map_has (matches v) (wr_id w) \<longleftrightarrow> wr_id w \<in> set (keys (matches v))"
    unfolding map_has_def map_of_None_keys by blast
  moreover have "list_ex (\<lambda>m. m_hash m = hash) (vals (matches v)) \<longleftrightarrow> hash \<in> m_hash ` set (vals (matches v))"
    by (auto simp: list_ex_iff)
  ultimately show ?thesis
    using Some by (simp add: applyTake_def Let_def not_less del: set_map list.set_map) (safe; simp add: not_le)
qed (simp add: applyTake_def)

text \<open>A rejected operation changes nothing.\<close>

theorem rejected_unchanged:
  assumes "snd (applyOp v w q h) = Some r"
  shows "fst (applyOp v w q h) = v"
  using assms by (rule applyOp_reject)

theorem rejected_unchanged_witness:
  "fst (applyOp ex_board \<lparr>wr_id = ''w'', wr_writer = ''zz'', wr_seq = 1\<rparr> (OfferCancel ''o'') 5) = ex_board"
proof (rule rejected_unchanged)
  show "snd (applyOp ex_board \<lparr>wr_id = ''w'', wr_writer = ''zz'', wr_seq = 1\<rparr> (OfferCancel ''o'') 5) = Some OnlyMakerCancels"
    by (simp add: applyCancel_def ex_offer_def)
qed

text \<open>Rounding never costs the taker more than the offer's price, and splitting a fill never makes it
  dearer in sum: each fill pays the floor of its exact price.\<close>

theorem proRata_fair:
  assumes "0 < leg_amount give" "0 \<le> leg_amount want" "0 \<le> a" "0 \<le> b"
  shows "proRata give want a * leg_amount give \<le> a * leg_amount want
    \<and> a * leg_amount want < (proRata give want a + 1) * leg_amount give
    \<and> proRata give want a + proRata give want b \<le> proRata give want (a + b)
    \<and> proRata give want (leg_amount give) = leg_amount want"
  using proRata_bounds[OF assms(1-3)] proRata_split[OF assms] assms by (simp add: proRata_div)

theorem proRata_fair_witness: "proRata \<lparr>leg_chain = Bitcoin, leg_amount = 7\<rparr> \<lparr>leg_chain = Litecoin, leg_amount = 10\<rparr> 7 = 10"
  using proRata_fair[of "\<lparr>leg_chain = Bitcoin, leg_amount = 7\<rparr>" "\<lparr>leg_chain = Litecoin, leg_amount = 10\<rparr>" 3 4] by simp

end
