(* ===== verification/Iters.thy ===== *)
theory Iters
  imports Canonical "HOL-Library.Signed_Division"
begin

text \<open>
  \<open>src/chain/iters.ts\<close> (quality of a space proof to iterations of the delay function) and
  \<open>src/pot/vdf.ts\<close>, \<open>src/pot/hash-vdf.ts\<close> (the delay function's interface, stated as the locale
  \<open>vdf\<close>, and its hash-chain implementation, which interprets it).
\<close>

section \<open>Iterations\<close>

record consensus_params =
  difficulty :: int
  dcf :: int
  floorIters :: int

definition TWO_256 :: int where "TWO_256 = 2 ^ 256"

text \<open>\<open>None\<close> when \<open>BigInt("0x" + qualityHex)\<close> throws. The difficulty is an argument: callers that pass
  none in the code pass \<open>difficulty p\<close> here.\<close>

definition requiredIters :: "string \<Rightarrow> 'a consensus_params_scheme \<Rightarrow> int \<Rightarrow> int \<Rightarrow> int option" where
  "requiredIters qualityHex p spaceWeight diff = (case BigInt_of (''0x'' @ qualityHex) of
     None \<Rightarrow> None
   | Some q \<Rightarrow>
       let denom = TWO_256 * (if spaceWeight > 0 then spaceWeight else 1);
           iters = (diff * dcf p * q) sdiv denom
       in Some (if iters < floorIters p then floorIters p else iters))"

definition expectedPlotSize :: "int \<Rightarrow> int" where
  "expectedPlotSize k = (2 * k + 1) * 2 ^ nat (max 0 (k - 1))"

definition vdfChallenge :: "(bytes \<Rightarrow> bytes) \<Rightarrow> bytes \<Rightarrow> string \<Rightarrow> bytes" where
  "vdfChallenge H baseChallenge spaceValueHex = H (concatBytes [baseChallenge, fromHex spaceValueHex])"

definition writeWeight :: "'a consensus_params_scheme \<Rightarrow> int" where
  "writeWeight p = difficulty p"

text \<open>\<open>Number(n)\<close> of a \<open>BigInt\<close>: the nearest double, ties to even; exact up to \<open>2 ^ 53\<close>.\<close>

definition Number_of :: "int \<Rightarrow> int" where
  "Number_of n = (if \<bar>n\<bar> \<le> 2 ^ 53 then n
     else let u = 2 ^ (length (takeWhile (\<lambda>e. 2 ^ e \<le> \<bar>n\<bar>) [0..<1024]) - 53);
              q = \<bar>n\<bar> div u; r = \<bar>n\<bar> mod u
          in sgn n * (if 2 * r < u \<or> 2 * r = u \<and> even q then q * u else (q + 1) * u))"

lemma Number_of_small [simp]: "0 \<le> n \<Longrightarrow> n \<le> 2 ^ 53 \<Longrightarrow> Number_of n = n"
  by (simp add: Number_of_def)

section \<open>Value of a hexadecimal text\<close>

lemma hexval_foldl:
  "foldl (\<lambda>a c. 16 * a + base_digit c) n (toHex bs) = n * 256 ^ length bs + foldl (\<lambda>a b. 256 * a + unat b) 0 bs"
proof (induction bs arbitrary: n)
  case (Cons b bs)
  have b: "base_digit (hex_digit (unat b div 16)) = unat b div 16" "base_digit (hex_digit (unat b mod 16)) = unat b mod 16"
    by (simp_all add: base_digit_hex_digit byte_div16)
  have "16 * (16 * m + unat b div 16) + unat b mod 16 = 256 * m + unat b" for m
    by (simp add: distrib_left div_mult_mod_eq mult.commute)
  then have step: "foldl (\<lambda>a c. 16 * a + base_digit c) n (toHex (b # bs)) =
      (256 * n + unat b) * 256 ^ length bs + foldl (\<lambda>a b. 256 * a + unat b) 0 bs" for n
    using Cons.IH by (simp add: b)
  have fold: "foldl (\<lambda>a b. 256 * a + unat b) m cs = m * 256 ^ length cs + foldl (\<lambda>a b. 256 * a + unat b) 0 cs"
    for m and cs :: "8 word list"
  proof (induction cs arbitrary: m)
    case (Cons c cs)
    show ?case using Cons.IH[of "256 * m + unat c"] Cons.IH[of "unat c"] by (simp add: algebra_simps)
  qed simp
  show ?case unfolding step using fold[of "unat b" bs] by (simp add: algebra_simps)
qed simp

definition bytes_val :: "bytes \<Rightarrow> nat" where
  "bytes_val bs = foldl (\<lambda>a b. 256 * a + unat b) 0 bs"

lemma bytes_val_bound: "bytes_val bs < 256 ^ length bs"
proof (induction bs rule: rev_induct)
  case (snoc b bs)
  have "unat b < 256" using unsigned_less[of b] by simp
  with snoc show ?case by (simp add: bytes_val_def)
qed (simp add: bytes_val_def)

lemma BigInt_of_hex:
  assumes "bs \<noteq> []"
  shows "BigInt_of (''0x'' @ toHex bs) = Some (int (bytes_val bs))"
proof -
  have h: "toHex bs \<noteq> []" using assms by (cases bs) auto
  have low: "list_all is_hex_lower (toHex bs)" by (rule toHex_lower)
  have sp: "\<not> is_space c" if "c \<in> set (''0x'' @ toHex bs)" for c
  proof -
    have "is_hex_lower c \<or> c = CHR ''x''" using that low by (auto simp: list_all_iff is_hex_lower_def is_digit_def)
    then show ?thesis by (auto simp: is_hex_lower_def is_digit_def is_space_def)
  qed
  have b16: "list_all (\<lambda>c. base_digit c < 16) (toHex bs)"
    using low by (auto simp: list_all_iff dest: hex_digit_base)
  have "parse_base 16 (toHex bs) = Some (bytes_val bs)"
    using h b16 hexval_foldl[of 0 bs] by (simp add: parse_base_def bytes_val_def)
  moreover have "trim (''0x'' @ toHex bs) = ''0x'' @ toHex bs" by (rule trim_id) (rule sp)
  ultimately show ?thesis by (simp add: BigInt_of_def Let_def)
qed

lemma requiredIters_hex:
  assumes "bs \<noteq> []"
  shows "requiredIters (toHex bs) p w diff = (let denom = TWO_256 * (if w > 0 then w else 1);
     iters = (diff * dcf p * int (bytes_val bs)) sdiv denom in Some (if iters < floorIters p then floorIters p else iters))"
  unfolding requiredIters_def BigInt_of_hex[OF assms] option.case ..

lemma sdiv_pos: "0 \<le> a \<Longrightarrow> 0 < b \<Longrightarrow> a sdiv b = a div (b :: int)"
  by (auto simp: signed_divide_int_def sgn_if)

lemma TWO_256_pos: "0 < TWO_256"
  by (simp add: TWO_256_def)

lemma requiredIters_pos:
  assumes "bs \<noteq> []" "0 \<le> diff" "0 \<le> dcf p"
  shows "requiredIters (toHex bs) p w diff
    = Some (max (floorIters p) ((diff * dcf p * int (bytes_val bs)) div (TWO_256 * (if w > 0 then w else 1))))"
  using assms TWO_256_pos by (auto simp: requiredIters_hex Let_def sdiv_pos max_def)

text \<open>A smaller quality never needs more iterations.\<close>

lemma requiredIters_mono:
  assumes "a \<noteq> []" "b \<noteq> []" "bytes_val a \<le> bytes_val b" "0 \<le> diff" "0 \<le> dcf p"
    and "requiredIters (toHex a) p w diff = Some m" "requiredIters (toHex b) p w diff = Some n"
  shows "m \<le> n"
proof -
  have "diff * dcf p * int (bytes_val a) \<le> diff * dcf p * int (bytes_val b)"
    using assms(3-5) by (intro mult_left_mono) auto
  then have le: "(diff * dcf p * int (bytes_val a)) div d \<le> (diff * dcf p * int (bytes_val b)) div d" if "0 < d" for d
    using that by (rule zdiv_mono1)
  have "0 < TWO_256 * (if w > 0 then w else 1)" using TWO_256_pos by simp
  from le[OF this] assms(6,7) show ?thesis
    unfolding requiredIters_pos[OF assms(1,4,5)] requiredIters_pos[OF assms(2,4,5)] option.inject by linarith
qed

lemma cmpBytes_val:
  "length a = length b \<Longrightarrow> cmpBytes a b \<le> 0 \<longleftrightarrow> bytes_val a \<le> bytes_val b"
proof (induction a b rule: list_induct2')
  case (4 x xs y ys)
  have cons: "bytes_val (z # zs) = unat z * 256 ^ length zs + bytes_val zs" for z zs
  proof -
    have "foldl (\<lambda>a b. 256 * a + unat b) m cs = m * 256 ^ length cs + foldl (\<lambda>a b. 256 * a + unat b) 0 cs"
      for m and cs :: "8 word list"
    proof (induction cs arbitrary: m)
      case (Cons c cs)
      show ?case using Cons.IH[of "256 * m + unat c"] Cons.IH[of "unat c"] by (simp add: algebra_simps)
    qed simp
    from this[of "unat z" zs] show ?thesis by (simp add: bytes_val_def)
  qed
  have len: "length xs = length ys" using 4 by simp
  have less: "unat u * 256 ^ length ys + bytes_val us < unat v * 256 ^ length ys + bytes_val vs"
    if "unat u < unat v" "length us = length ys" for u v :: "8 word" and us vs
  proof -
    have "bytes_val us < 256 ^ length ys" using bytes_val_bound[of us] that(2) by simp
    moreover have "(unat u + 1) * 256 ^ length ys \<le> unat v * 256 ^ length ys" using that(1) by (intro mult_right_mono) auto
    ultimately show ?thesis by simp
  qed
  show ?case
  proof (cases "x = y")
    case True
    with 4 len show ?thesis by (simp add: cons)
  next
    case False
    then consider (lt) "unat x < unat y" | (gt) "unat y < unat x" by (metis nat_neq_iff word_unat_eq_iff)
    moreover have c: "cmpBytes (x # xs) (y # ys) = int (unat x) - int (unat y)"
      unfolding cmpBytes.simps(1) by (rule if_P) (rule False)
    ultimately show ?thesis
    proof cases
      case lt
      then show ?thesis using less[OF lt len, of ys] unfolding c cons len by linarith
    next
      case gt
      then show ?thesis using less[OF gt refl, of xs] unfolding c cons len by linarith
    qed
  qed
qed (auto simp: bytes_val_def)

section \<open>The delay function\<close>

record time_proof =
  t_iters :: int
  t_output :: string
  t_proof :: string

text \<open>The interface \<open>Vdf\<close>: what the components rely on is that an evaluation verifies and states the
  iterations it was asked for. \<open>None\<close> is a throw.\<close>

locale vdf =
  fixes eval :: "bytes \<Rightarrow> int \<Rightarrow> time_proof option" and verify :: "bytes \<Rightarrow> time_proof \<Rightarrow> bool"
  assumes eval_total: "1 \<le> n \<Longrightarrow> \<exists>t. eval c n = Some t"
    and eval_iters: "eval c n = Some t \<Longrightarrow> t_iters t = n"
    and eval_verify: "eval c n = Some t \<Longrightarrow> verify c t"
begin

lemma cooldown_served:
  assumes "1 \<le> n"
  shows "\<exists>t. eval c n = Some t \<and> t_iters t = n \<and> verify c t"
  using assms eval_total eval_iters eval_verify by metis

end

text \<open>The loop \<open>for (i = 1; i < iters; i++) cur = sha256(cur)\<close>.\<close>

primrec hash_steps :: "(bytes \<Rightarrow> bytes) \<Rightarrow> nat \<Rightarrow> bytes \<Rightarrow> bytes" where
  "hash_steps H 0 cur = cur"
| "hash_steps H (Suc n) cur = hash_steps H n (H cur)"

definition hash_eval :: "(bytes \<Rightarrow> bytes) \<Rightarrow> bytes \<Rightarrow> int \<Rightarrow> time_proof option" where
  "hash_eval H challenge iters = (if iters < 1 then None
     else Some \<lparr>t_iters = iters, t_output = toHex (hash_steps H (nat (iters - 1)) (H challenge)), t_proof = []\<rparr>)"

definition hash_verify :: "(bytes \<Rightarrow> bytes) \<Rightarrow> bytes \<Rightarrow> time_proof \<Rightarrow> bool" where
  "hash_verify H challenge p \<longleftrightarrow> \<not> t_iters p < 1
     \<and> toHex (hash_steps H (nat (t_iters p - 1)) (H challenge)) = t_output p"

interpretation hash_vdf: vdf "hash_eval H" "hash_verify H" for H
  by unfold_locales (auto simp: hash_eval_def hash_verify_def split: if_splits)

lemma hash_steps_iterate: "hash_steps H n c = (H ^^ n) c"
  by (induction n arbitrary: c) (simp_all add: funpow_swap1)

lemma hash_verify_iff:
  "hash_verify H c t \<longleftrightarrow> 1 \<le> t_iters t \<and> t_output t = toHex ((H ^^ nat (t_iters t)) c)"
proof -
  have "(H ^^ nat (t_iters t - 1)) (H c) = (H ^^ nat (t_iters t)) c" if "1 \<le> t_iters t"
  proof -
    have "nat (t_iters t) = Suc (nat (t_iters t - 1))" using that by simp
    then show ?thesis by (simp add: funpow_swap1)
  qed
  then show ?thesis by (auto simp: hash_verify_def hash_steps_iterate)
qed

text \<open>The reference delay function verifies exactly the proofs whose output is the stated number
  of hash iterations of the challenge, so the cooldown cannot be claimed without its value.\<close>

theorem hash_vdf_exact:
  "hash_verify H c t \<longleftrightarrow> 1 \<le> t_iters t \<and> t_output t = toHex ((H ^^ nat (t_iters t)) c)"
  by (rule hash_verify_iff)

end
