(* ===== verification/Space.thy ===== *)
theory Space
  imports Iters Json
begin

text \<open>
  \<open>src/pos/space.ts\<close> (the Merkle plot that stands in for a proof of space) and
  \<open>src/consensus/space.ts\<close> (the backend interface of the anchor layer). \<open>H\<close> is SHA-256.

  JavaScript's \<open>&\<close>, \<open>^\<close> and \<open>>>\<close> act on 32-bit two's complement values: \<open>toInt32\<close> writes the
  wrap-around out. In \<open>merklePath\<close> the index is below \<open>2 ^ 24\<close> (the constructor's bound on \<open>k\<close>), where
  the operators are those of natural numbers.
\<close>

section \<open>Merkle trees\<close>

fun merkle_next :: "(bytes \<Rightarrow> bytes) \<Rightarrow> bytes list \<Rightarrow> bytes list" where
  "merkle_next H [] = []"
| "merkle_next H [l] = [H (concatBytes [l, l])]"
| "merkle_next H (l # r # xs) = H (concatBytes [l, r]) # merkle_next H xs"

lemma length_merkle_next: "length (merkle_next H xs) = (length xs + 1) div 2"
  by (induction H xs rule: merkle_next.induct) auto

function buildMerkle :: "(bytes \<Rightarrow> bytes) \<Rightarrow> bytes list \<Rightarrow> bytes list list" where
  "buildMerkle H cur = (if length cur > 1 then cur # buildMerkle H (merkle_next H cur) else [cur])"
  by auto
termination
  by (relation "measure (\<lambda>(H, cur). length cur)") (auto simp: length_merkle_next)

declare buildMerkle.simps [simp del]

definition merkleRoot :: "bytes list list \<Rightarrow> bytes" where
  "merkleRoot layers = hd (last layers)"

text \<open>The sibling index \<open>idx ^ 1\<close>.\<close>

definition sibling :: "nat \<Rightarrow> nat" where
  "sibling idx = (if even idx then idx + 1 else idx - 1)"

fun merklePath :: "bytes list list \<Rightarrow> nat \<Rightarrow> string list" where
  "merklePath (layer # next # rest) idx =
     toHex (if sibling idx < length layer then layer ! sibling idx else layer ! idx)
       # merklePath (next # rest) (idx div 2)"
| "merklePath _ idx = []"

definition toInt32 :: "int \<Rightarrow> int" where
  "toInt32 n = (n + 2 ^ 31) mod 2 ^ 32 - 2 ^ 31"

fun merkle_climb :: "(bytes \<Rightarrow> bytes) \<Rightarrow> bytes \<Rightarrow> int \<Rightarrow> string list \<Rightarrow> bytes" where
  "merkle_climb H h idx [] = h"
| "merkle_climb H h idx (sibHex # path) = (let sib = fromHex sibHex in
     merkle_climb H (if toInt32 idx mod 2 = 1 then H (concatBytes [sib, h]) else H (concatBytes [h, sib]))
       (toInt32 idx div 2) path)"

definition verifyMerkle :: "(bytes \<Rightarrow> bytes) \<Rightarrow> bytes \<Rightarrow> int \<Rightarrow> string list \<Rightarrow> string \<Rightarrow> bool" where
  "verifyMerkle H leaf index path rootHex \<longleftrightarrow> toHex (merkle_climb H leaf index path) = rootHex"

section \<open>Plots\<close>

record plot_commitment =
  pc_root :: string
  pc_k :: int

record space_proof =
  s_index :: int
  s_value :: string
  s_path :: "string list"
  s_quality :: string

record plot =
  pl_k :: nat
  pl_seed :: bytes
  pl_leaves :: "bytes list"
  pl_layers :: "bytes list list"

definition plot_leaf :: "(bytes \<Rightarrow> bytes) \<Rightarrow> bytes \<Rightarrow> int \<Rightarrow> bytes" where
  "plot_leaf H seed i = H (concatBytes [seed, u32be i])"

text \<open>The constructor: \<open>None\<close> when it throws.\<close>

definition newPlot :: "(bytes \<Rightarrow> bytes) \<Rightarrow> bytes \<Rightarrow> int \<Rightarrow> plot option" where
  "newPlot H seed k = (if k < 1 \<or> k > 24 then None
     else let leaves = map (\<lambda>i. plot_leaf H seed (int i)) [0..<2 ^ nat k]
       in Some \<lparr>pl_k = nat k, pl_seed = seed, pl_leaves = leaves, pl_layers = buildMerkle H leaves\<rparr>)"

definition plot_commit :: "plot \<Rightarrow> plot_commitment" where
  "plot_commit p = \<lparr>pc_root = toHex (merkleRoot (pl_layers p)), pc_k = int (pl_k p)\<rparr>"

definition leaf_quality :: "(bytes \<Rightarrow> bytes) \<Rightarrow> bytes \<Rightarrow> bytes \<Rightarrow> bytes" where
  "leaf_quality H leaf challenge = H (concatBytes [leaf, challenge])"

text \<open>The scan for the best leaf: the leaves still to see, the next index, the best so far.\<close>

fun best_leaf :: "(bytes \<Rightarrow> bytes) \<Rightarrow> bytes \<Rightarrow> bytes list \<Rightarrow> nat \<Rightarrow> nat \<times> bytes \<Rightarrow> nat \<times> bytes" where
  "best_leaf H challenge [] i best = best"
| "best_leaf H challenge (l # ls) i best = (let q = leaf_quality H l challenge in
     best_leaf H challenge ls (Suc i) (if cmpBytes q (snd best) < 0 then (i, q) else best))"

definition provePlot :: "(bytes \<Rightarrow> bytes) \<Rightarrow> plot \<Rightarrow> bytes \<Rightarrow> space_proof" where
  "provePlot H p challenge =
     (let (bestIdx, bestQuality) = best_leaf H challenge (tl (pl_leaves p)) 1 (0, leaf_quality H (hd (pl_leaves p)) challenge)
      in \<lparr>s_index = int bestIdx, s_value = toHex (pl_leaves p ! bestIdx),
          s_path = merklePath (pl_layers p) bestIdx, s_quality = toHex bestQuality\<rparr>)"

text \<open>\<open>index < 2 ** k\<close>; for a negative exponent the power lies strictly between 0 and 1.\<close>

definition index_in_plot :: "int \<Rightarrow> int \<Rightarrow> bool" where
  "index_in_plot index k \<longleftrightarrow> \<not> index < 0 \<and> (if k < 0 then index < 1 else index < 2 ^ nat k)"

definition verifySpaceProof :: "(bytes \<Rightarrow> bytes) \<Rightarrow> string \<Rightarrow> plot_commitment \<Rightarrow> bytes \<Rightarrow> space_proof \<Rightarrow> bool" where
  "verifySpaceProof H writerPubHex cm challenge proof =
     (if \<not> index_in_plot (s_index proof) (pc_k cm) then False
      else let leaf = plot_leaf H (fromHex writerPubHex) (s_index proof) in
        if toHex leaf \<noteq> s_value proof then False
        else if \<not> verifyMerkle H leaf (s_index proof) (s_path proof) (pc_root cm) then False
        else toHex (leaf_quality H leaf challenge) = s_quality proof)"

definition recoverSpaceQuality ::
  "(bytes \<Rightarrow> bytes) \<Rightarrow> string \<Rightarrow> plot_commitment \<Rightarrow> bytes \<Rightarrow> int \<Rightarrow> string \<Rightarrow> string list \<Rightarrow> string option" where
  "recoverSpaceQuality H writerPubHex cm challenge index value path =
     (if \<not> index_in_plot index (pc_k cm) then None
      else let leaf = plot_leaf H (fromHex writerPubHex) index in
        if toHex leaf \<noteq> value then None
        else if \<not> verifyMerkle H leaf index path (pc_root cm) then None
        else Some (toHex (leaf_quality H leaf challenge)))"

section \<open>Backends of the anchor layer\<close>

record space_commitment =
  sc_kind :: string
  sc_id :: string
  sc_k :: int

record mined_proof =
  mp_proof :: json
  mp_quality :: string

definition standin_commitment :: "plot \<Rightarrow> space_commitment" where
  "standin_commitment p = \<lparr>sc_kind = ''standin'', sc_id = pc_root (plot_commit p), sc_k = pc_k (plot_commit p)\<rparr>"

definition standin_prove :: "(bytes \<Rightarrow> bytes) \<Rightarrow> plot \<Rightarrow> bytes \<Rightarrow> mined_proof option" where
  "standin_prove H p challenge = (let sp = provePlot H p challenge in
     Some \<lparr>mp_proof = JObj [(''index'', JInt (s_index sp)), (''value'', JStr (s_value sp)),
             (''path'', JArr (map JStr (s_path sp)))], mp_quality = s_quality sp\<rparr>)"

definition strings_of :: "json list \<Rightarrow> string list option" where
  "strings_of js = (if list_all (\<lambda>j. case j of JStr _ \<Rightarrow> True | _ \<Rightarrow> False) js
     then Some (map (\<lambda>j. case j of JStr s \<Rightarrow> s | _ \<Rightarrow> []) js) else None)"

text \<open>The payload's \<open>path\<close> is only tested to be an array: when an entry is no string,
  \<open>Buffer.from(entry, "hex")\<close> throws or reads the entry in its own way, and the answer is the
  parameter \<open>untyped\<close>.\<close>

definition standin_verify ::
  "(json \<Rightarrow> string option) \<Rightarrow> (bytes \<Rightarrow> bytes) \<Rightarrow> space_commitment \<Rightarrow> string \<Rightarrow> bytes \<Rightarrow> json \<Rightarrow> string option" where
  "standin_verify untyped H cm producer challenge proof =
     (if sc_kind cm \<noteq> ''standin'' then None
      else case proof of JObj p \<Rightarrow>
          (case (int_at p ''index'', str_at p ''value'', arr_at p ''path'') of
             (Some index, Some value, Some path) \<Rightarrow>
               (case strings_of path of None \<Rightarrow> untyped proof
                | Some ps \<Rightarrow> recoverSpaceQuality H producer \<lparr>pc_root = sc_id cm, pc_k = sc_k cm\<rparr> challenge index value ps)
           | _ \<Rightarrow> None)
        | _ \<Rightarrow> None)"

section \<open>Completeness of Merkle paths\<close>

lemma merkle_next_nth:
  "i < length xs \<Longrightarrow> merkle_next H xs ! (i div 2) =
     (let sib = (if sibling i < length xs then xs ! sibling i else xs ! i)
      in if odd i then H (concatBytes [sib, xs ! i]) else H (concatBytes [xs ! i, sib]))"
proof (induction H xs arbitrary: i rule: merkle_next.induct)
  case (2 H l)
  then show ?case by (simp add: sibling_def)
next
  case (3 H l r xs)
  show ?case
  proof (cases "i < 2")
    case True
    then have "i = 0 \<or> i = 1" by auto
    then show ?thesis by (auto simp: sibling_def)
  next
    case False
    then obtain j where j: "i = Suc (Suc j)" by (metis add_2_eq_Suc' le_Suc_ex not_less add.commute)
    with 3 have "j < length xs" by simp
    from 3(1)[OF this] show ?thesis by (auto simp: j sibling_def Let_def nth_Cons' split: nat.splits)
  qed
qed simp

lemma toInt32_small [simp]: "0 \<le> n \<Longrightarrow> n < 2 ^ 31 \<Longrightarrow> toInt32 n = n"
  by (simp add: toInt32_def)

lemma buildMerkle_neq [simp]: "buildMerkle H xs \<noteq> []"
  by (subst buildMerkle.simps) simp

lemma buildMerkle_step: "1 < length xs \<Longrightarrow> buildMerkle H xs = xs # buildMerkle H (merkle_next H xs)"
  by (subst buildMerkle.simps) simp

lemma buildMerkle_single: "length xs \<le> 1 \<Longrightarrow> buildMerkle H xs = [xs]"
  by (subst buildMerkle.simps) simp

lemma merkle_climb_root:
  "i < length xs \<Longrightarrow> i < 2 ^ 31 \<Longrightarrow>
   merkle_climb H (xs ! i) (int i) (merklePath (buildMerkle H xs) i) = merkleRoot (buildMerkle H xs)"
proof (induction "length xs" arbitrary: xs i rule: less_induct)
  case less
  show ?case
  proof (cases "length xs \<le> 1")
    case True
    then have "i = 0" "xs \<noteq> []" using less.prems(1) by auto
    with True show ?thesis by (cases xs) (auto simp: buildMerkle_single merkleRoot_def)
  next
    case False
    let ?ys = "merkle_next H xs"
    have len: "length ?ys < length xs" "i div 2 < length ?ys" using False less.prems(1) by (auto simp: length_merkle_next)
    have b: "buildMerkle H xs = xs # buildMerkle H ?ys" using False by (simp add: buildMerkle_step)
    obtain n rest where nr: "buildMerkle H ?ys = n # rest" by (cases "buildMerkle H ?ys") auto
    let ?sib = "if sibling i < length xs then xs ! sibling i else xs ! i"
    have path: "merklePath (buildMerkle H xs) i = toHex ?sib # merklePath (buildMerkle H ?ys) (i div 2)"
      by (simp add: b nr)
    have i: "toInt32 (int i) = int i" using less.prems(2) by simp
    have parity: "int i mod 2 = 1 \<longleftrightarrow> odd i" by presburger
    have "merkle_climb H (xs ! i) (int i) (merklePath (buildMerkle H xs) i)
        = merkle_climb H (?ys ! (i div 2)) (int (i div 2)) (merklePath (buildMerkle H ?ys) (i div 2))"
      unfolding path using merkle_next_nth[OF less.prems(1), of H]
      by (simp add: i parity Let_def zdiv_int del: of_nat_div)
    also have "\<dots> = merkleRoot (buildMerkle H ?ys)"
      by (rule less.hyps[OF len]) (use less.prems(2) in linarith)
    also have "\<dots> = merkleRoot (buildMerkle H xs)" by (simp add: b merkleRoot_def)
    finally show ?thesis .
  qed
qed

section \<open>The best leaf\<close>

lemma best_leaf_spec:
  assumes "b < i" "b < length ls" "i \<le> length ls" "q = leaf_quality H (ls ! b) c"
    and "\<forall>j < i. cmpBytes q (leaf_quality H (ls ! j) c) \<le> 0"
  shows "\<exists>r. best_leaf H c (drop i ls) i (b, q) = (r, leaf_quality H (ls ! r) c) \<and> r < length ls
    \<and> (\<forall>j < length ls. cmpBytes (leaf_quality H (ls ! r) c) (leaf_quality H (ls ! j) c) \<le> 0)"
  using assms
proof (induction "drop i ls" arbitrary: i b q)
  case Nil
  then show ?case by auto
next
  case (Cons l ls')
  then have i: "i < length ls" by (metis drop_eq_Nil2 list.distinct(1) not_less)
  have d: "drop i ls = ls ! i # drop (Suc i) ls" using i by (simp add: Cons_nth_drop_Suc)
  then have tail: "ls' = drop (Suc i) ls" using Cons.hyps(2) by simp
  let ?q = "leaf_quality H (ls ! i) c"
  show ?case
  proof (cases "cmpBytes ?q q < 0")
    case True
    have "cmpBytes ?q (leaf_quality H (ls ! j) c) \<le> 0" if "j < Suc i" for j
      using that Cons.prems(5) True cmpBytes_trans[of ?q q "leaf_quality H (ls ! j) c"]
      by (cases "j = i") auto
    then show ?thesis using Cons.hyps(1)[OF tail, of i ?q] i True by (simp add: d Let_def)
  next
    case False
    then have "cmpBytes q ?q \<le> 0" using cmpBytes_antisym[of q ?q] by simp
    then have "\<forall>j < Suc i. cmpBytes q (leaf_quality H (ls ! j) c) \<le> 0"
      using Cons.prems(5) by (auto simp: less_Suc_eq)
    then show ?thesis using Cons.hyps(1)[OF tail, of b q] Cons.prems i False by (simp add: d Let_def)
  qed
qed


section \<open>A path binds its leaf\<close>

text \<open>The byte strings hashed by a climb and by a tree: where a collision would be found.\<close>

fun climb_inputs :: "(bytes \<Rightarrow> bytes) \<Rightarrow> bytes \<Rightarrow> int \<Rightarrow> string list \<Rightarrow> bytes list" where
  "climb_inputs H h idx [] = []"
| "climb_inputs H h idx (s # path) = (let x = (if toInt32 idx mod 2 = 1 then fromHex s @ h else h @ fromHex s)
     in x # climb_inputs H (H x) (toInt32 idx div 2) path)"

fun level_inputs :: "bytes list \<Rightarrow> bytes list" where
  "level_inputs [] = []"
| "level_inputs [l] = [l @ l]"
| "level_inputs (l # r # xs) = (l @ r) # level_inputs xs"

definition tree_inputs :: "(bytes \<Rightarrow> bytes) \<Rightarrow> bytes list \<Rightarrow> bytes list" where
  "tree_inputs H xs = concat (map level_inputs (butlast (buildMerkle H xs)))"

definition found_collision :: "(bytes \<Rightarrow> bytes) \<Rightarrow> bytes list \<Rightarrow> bytes list \<Rightarrow> bool" where
  "found_collision H as bs \<longleftrightarrow> (\<exists>a \<in> set as. \<exists>b \<in> set bs. a \<noteq> b \<and> H a = H b)"

lemma merkle_next_inputs: "merkle_next H xs = map H (level_inputs xs)"
  by (induction xs rule: level_inputs.induct) (auto simp: concatBytes_def)

lemma length_level_inputs: "length (level_inputs xs) = (length xs + 1) div 2"
  by (induction xs rule: level_inputs.induct) auto

lemma level_inputs_nth:
  "i < length xs \<Longrightarrow> \<exists>sib. level_inputs xs ! (i div 2) = (if odd i then sib @ xs ! i else xs ! i @ sib)
     \<and> (odd i \<longrightarrow> sib \<in> set xs)"
proof (induction xs arbitrary: i rule: level_inputs.induct)
  case (3 l r xs)
  show ?case
  proof (cases "i < 2")
    case True
    then have "i = 0 \<or> i = 1" by auto
    then show ?thesis by auto
  next
    case False
    then obtain j where j: "i = Suc (Suc j)" by (metis add_2_eq_Suc' le_Suc_ex not_less add.commute)
    with 3 have "j < length xs" by simp
    from 3(1)[OF this] show ?thesis by (auto simp: j)
  qed
qed auto

lemma tree_inputs_step: "1 < length xs \<Longrightarrow> tree_inputs H xs = level_inputs xs @ tree_inputs H (merkle_next H xs)"
  by (simp add: tree_inputs_def buildMerkle_step)

lemma append_mid_eq: "length b = length d \<Longrightarrow> a @ b = c @ d \<Longrightarrow> b = d"
  by simp

lemma climb_binds:
  assumes H: "\<And>b. length (H b) = 32"
  shows "i < length xs \<Longrightarrow> i < 2 ^ 31 \<Longrightarrow> \<forall>x \<in> set xs. length x = 32 \<Longrightarrow> length h = 32 \<Longrightarrow>
    length path + 1 = length (buildMerkle H xs) \<Longrightarrow>
    merkle_climb H h (int i) path = merkleRoot (buildMerkle H xs) \<Longrightarrow>
    h = xs ! i \<or> found_collision H (climb_inputs H h (int i) path) (tree_inputs H xs)"
proof (induction "length xs" arbitrary: xs i h path rule: less_induct)
  case less
  show ?case
  proof (cases "length xs \<le> 1")
    case True
    then have "i = 0" "xs \<noteq> []" "path = []" using less.prems(1,5) by (auto simp: buildMerkle_single)
    with True less.prems(6) show ?thesis by (cases xs) (auto simp: buildMerkle_single merkleRoot_def)
  next
    case False
    let ?ys = "merkle_next H xs"
    have len: "length ?ys < length xs" "i div 2 < length ?ys" using False less.prems(1) by (auto simp: length_merkle_next)
    have b: "buildMerkle H xs = xs # buildMerkle H ?ys" using False by (simp add: buildMerkle_step)
    then obtain s path' where path: "path = s # path'" "length path' + 1 = length (buildMerkle H ?ys)"
      using less.prems(5) by (cases path) (auto simp: Suc_le_eq)
    define x where "x = (if odd i then fromHex s @ h else h @ fromHex s)"
    have par: "toInt32 (int i) mod 2 = 1 \<longleftrightarrow> odd i" "toInt32 (int i) div 2 = int (i div 2)"
      using less.prems(2) by (simp_all add: zdiv_int) presburger
    have climb: "merkle_climb H (H x) (int (i div 2)) path' = merkleRoot (buildMerkle H ?ys)"
      using less.prems(6) by (simp add: path par x_def b merkleRoot_def concatBytes_def Let_def if_distrib cong: if_cong)
    have ys: "\<forall>y \<in> set ?ys. length y = 32" by (simp add: merkle_next_inputs H)
    have inputs: "climb_inputs H h (int i) path = x # climb_inputs H (H x) (int (i div 2)) path'"
      by (simp add: path par x_def Let_def cong: if_cong)
    have i2: "i div 2 < 2 ^ 31" using less.prems(2) by linarith
    from less.hyps[OF len i2 ys H path(2) climb]
    consider "H x = ?ys ! (i div 2)" | "found_collision H (climb_inputs H (H x) (int (i div 2)) path') (tree_inputs H ?ys)"
      by blast
    then show ?thesis
    proof cases
      case 1
      have il: "i div 2 < length (level_inputs xs)" using len(2) by (simp add: length_level_inputs length_merkle_next)
      define y where "y = level_inputs xs ! (i div 2)"
      have hy: "H x = H y" using 1 il by (simp add: merkle_next_inputs y_def)
      obtain sib where y: "y = (if odd i then sib @ xs ! i else xs ! i @ sib)"
        using level_inputs_nth[OF less.prems(1)] unfolding y_def by blast
      have l: "length h = length (xs ! i)" using less.prems(1,3,4) by simp
      have "x = y \<Longrightarrow> h = xs ! i"
        using l by (auto simp: x_def y split: if_splits)
      moreover have "x \<noteq> y \<Longrightarrow> found_collision H (climb_inputs H h (int i) path) (tree_inputs H xs)"
        using hy il False by (auto simp: inputs found_collision_def tree_inputs_step y_def)
      ultimately show ?thesis by blast
    next
      case 2
      then show ?thesis using False by (auto simp: inputs found_collision_def tree_inputs_step)
    qed
  qed
qed


section \<open>Plots prove, and only for their own key\<close>

lemma newPlot_D:
  assumes "newPlot H seed k = Some p"
  shows "1 \<le> k" "k \<le> 24" "pl_seed p = seed" "pl_k p = nat k" "length (pl_leaves p) = 2 ^ nat k"
    "pl_layers p = buildMerkle H (pl_leaves p)" "\<And>i. i < 2 ^ nat k \<Longrightarrow> pl_leaves p ! i = plot_leaf H seed (int i)"
  using assms by (auto simp: newPlot_def Let_def split: if_splits)

lemma plot_size: "newPlot H seed k = Some p \<Longrightarrow> (2 :: nat) ^ nat k \<le> 16777216"
proof -
  assume "newPlot H seed k = Some p"
  then have "nat k \<le> 24" using newPlot_D(1,2) by fastforce
  then have "(2 :: nat) ^ nat k \<le> 2 ^ 24" by (rule power_increasing) simp
  then show ?thesis by simp
qed

lemma plot_index: "newPlot H seed k = Some p \<Longrightarrow> i < 2 ^ nat k \<Longrightarrow> (i :: nat) < 2 ^ 31"
  using plot_size[of H seed k p] by simp

lemma length_merklePath: "length (merklePath ls i) = length ls - 1"
  by (induction ls i rule: merklePath.induct) auto

lemma pc_eta: "\<lparr>pc_root = pc_root cm, pc_k = pc_k cm\<rparr> = (cm :: plot_commitment)"
  by simp

lemma depth_buildMerkle: "length xs = 2 ^ k \<Longrightarrow> length (buildMerkle H xs) = k + 1"
proof (induction k arbitrary: xs)
  case 0
  then show ?case by (simp add: buildMerkle_single)
next
  case (Suc k)
  then have "length (merkle_next H xs) = 2 ^ k" by (simp add: length_merkle_next)
  moreover have "1 < length xs" using one_less_power[of "2 :: nat" "Suc k"] by (simp add: Suc.prems)
  ultimately show ?case using Suc.IH by (simp add: buildMerkle_step)
qed

lemma provePlot_spec:
  assumes "newPlot H seed k = Some p"
  shows "\<exists>r. provePlot H p c = \<lparr>s_index = int r, s_value = toHex (pl_leaves p ! r),
       s_path = merklePath (pl_layers p) r, s_quality = toHex (leaf_quality H (pl_leaves p ! r) c)\<rparr>
    \<and> r < 2 ^ nat k
    \<and> (\<forall>j < 2 ^ nat k. cmpBytes (leaf_quality H (pl_leaves p ! r) c) (leaf_quality H (pl_leaves p ! j) c) \<le> 0)"
proof -
  note d = newPlot_D[OF assms]
  have ne: "0 < length (pl_leaves p)" using d(5) by simp
  then have "hd (pl_leaves p) = pl_leaves p ! 0" "tl (pl_leaves p) = drop 1 (pl_leaves p)"
    by (simp_all add: hd_conv_nth drop_Suc)
  with best_leaf_spec[of 0 1 "pl_leaves p" "leaf_quality H (pl_leaves p ! 0) c" H c] ne
  show ?thesis by (auto simp: provePlot_def d(5)[symmetric] Suc_le_eq)
qed

lemma provePlot_verifies:
  assumes "newPlot H seed k = Some p"
  shows "verifySpaceProof H (toHex seed) (plot_commit p) c (provePlot H p c)"
    "recoverSpaceQuality H (toHex seed) (plot_commit p) c (s_index (provePlot H p c)) (s_value (provePlot H p c))
       (s_path (provePlot H p c)) = Some (s_quality (provePlot H p c))"
proof -
  note d = newPlot_D[OF assms]
  obtain r where r: "provePlot H p c = \<lparr>s_index = int r, s_value = toHex (pl_leaves p ! r),
       s_path = merklePath (pl_layers p) r, s_quality = toHex (leaf_quality H (pl_leaves p ! r) c)\<rparr>" "r < 2 ^ nat k"
    using provePlot_spec[OF assms] by blast
  have leaf: "plot_leaf H seed (int r) = pl_leaves p ! r" using d(7)[OF r(2)] by simp
  have small: "r < 2 ^ 31" using plot_index[OF assms r(2)] .
  have "int r < 2 ^ nat k" using r(2) by (metis of_nat_less_iff of_nat_numeral of_nat_power)
  then have idx: "index_in_plot (int r) (pc_k (plot_commit p))" using d(1,4) by (simp add: index_in_plot_def plot_commit_def)
  have "verifyMerkle H (pl_leaves p ! r) (int r) (merklePath (pl_layers p) r) (pc_root (plot_commit p))"
    using merkle_climb_root[of r "pl_leaves p" H] r(2) small d(5,6)
    by (simp add: verifyMerkle_def plot_commit_def)
  with idx leaf show "verifySpaceProof H (toHex seed) (plot_commit p) c (provePlot H p c)"
    "recoverSpaceQuality H (toHex seed) (plot_commit p) c (s_index (provePlot H p c)) (s_value (provePlot H p c))
       (s_path (provePlot H p c)) = Some (s_quality (provePlot H p c))"
    by (simp_all add: verifySpaceProof_def recoverSpaceQuality_def r(1) Let_def)
qed

text \<open>The two verifiers agree: the anchor layer's recomputes the quality the write layer checks.\<close>

lemma verifySpaceProof_recover:
  "verifySpaceProof H w cm c pr \<longleftrightarrow> recoverSpaceQuality H w cm c (s_index pr) (s_value pr) (s_path pr) = Some (s_quality pr)"
  by (simp add: verifySpaceProof_def recoverSpaceQuality_def Let_def)

lemma verifySpaceProof_D:
  assumes "verifySpaceProof H w cm c pr"
  shows "index_in_plot (s_index pr) (pc_k cm)" "s_value pr = toHex (plot_leaf H (fromHex w) (s_index pr))"
    "toHex (merkle_climb H (plot_leaf H (fromHex w) (s_index pr)) (s_index pr) (s_path pr)) = pc_root cm"
    "s_quality pr = toHex (leaf_quality H (plot_leaf H (fromHex w) (s_index pr)) c)"
  using assms by (auto simp: verifySpaceProof_def verifyMerkle_def Let_def split: if_splits)

text \<open>What the anchor layer relies on: a proof that a prover finds is accepted by the verifier, with the
  quality it was mined with.\<close>

locale space_backend =
  fixes ok :: "'p \<Rightarrow> bool" and commit :: "'p \<Rightarrow> space_commitment" and owner :: "'p \<Rightarrow> string"
    and prove :: "'p \<Rightarrow> bytes \<Rightarrow> mined_proof option"
    and verify :: "space_commitment \<Rightarrow> string \<Rightarrow> bytes \<Rightarrow> json \<Rightarrow> string option"
  assumes prove_verify: "ok p \<Longrightarrow> prove p c = Some mp \<Longrightarrow> verify (commit p) (owner p) c (mp_proof mp) = Some (mp_quality mp)"
begin

lemma quality_unique:
  "ok p \<Longrightarrow> prove p c = Some mp \<Longrightarrow> verify (commit p) (owner p) c (mp_proof mp) = Some q \<Longrightarrow> q = mp_quality mp"
  using prove_verify by fastforce

end

definition made_plot :: "(bytes \<Rightarrow> bytes) \<Rightarrow> plot \<Rightarrow> bool" where
  "made_plot H p \<longleftrightarrow> newPlot H (pl_seed p) (int (pl_k p)) = Some p"

lemma strings_of_JStr [simp]: "strings_of (map JStr ps) = Some ps"
  by (auto simp: strings_of_def list_all_iff intro!: map_idI)

lemma standin_prove_verify:
  assumes "made_plot H p" "standin_prove H p c = Some mp"
  shows "standin_verify u H (standin_commitment p) (toHex (pl_seed p)) c (mp_proof mp) = Some (mp_quality mp)"
proof -
  let ?sp = "provePlot H p c"
  have "recoverSpaceQuality H (toHex (pl_seed p)) (plot_commit p) c (s_index ?sp) (s_value ?sp) (s_path ?sp) = Some (s_quality ?sp)"
    using assms(1) provePlot_verifies(2) by (simp add: made_plot_def)
  then show ?thesis using assms(2)
    by (auto simp: standin_prove_def Let_def standin_verify_def standin_commitment_def int_at_def str_at_def arr_at_def pc_eta)
qed

interpretation standin: space_backend "made_plot H" standin_commitment "\<lambda>p. toHex (pl_seed p)" "standin_prove H" "standin_verify u H"
  for H u
  by unfold_locales (rule standin_prove_verify)

section \<open>Properties\<close>

definition ex_hash :: "bytes \<Rightarrow> bytes" where
  "ex_hash b = take 32 (rev b @ replicate 32 7)"

lemma length_ex_hash [simp]: "length (ex_hash b) = 32"
  by (simp add: ex_hash_def)

definition ex_plot :: plot where
  "ex_plot = the (newPlot ex_hash (replicate 32 5) 2)"

lemma ex_plot_new: "newPlot ex_hash (replicate 32 5) 2 = Some ex_plot"
  by (simp add: ex_plot_def newPlot_def Let_def)

text \<open>A plot answers every challenge: the proof it finds verifies under its owner's key, and its leaf
  is the best one, so that no other leaf of the plot would need a shorter cooldown.\<close>

theorem plot_answers:
  assumes "newPlot H seed k = Some p" "\<And>b. length (H b) = 32" "0 \<le> diff" "0 \<le> dcf params"
  shows "verifySpaceProof H (toHex seed) (plot_commit p) c (provePlot H p c)
    \<and> (\<forall>j < 2 ^ nat k. \<exists>m n. requiredIters (s_quality (provePlot H p c)) params w diff = Some m
        \<and> requiredIters (toHex (leaf_quality H (plot_leaf H seed (int j)) c)) params w diff = Some n \<and> m \<le> n)"
proof -
  obtain r where r: "s_quality (provePlot H p c) = toHex (leaf_quality H (pl_leaves p ! r) c)"
    "\<forall>j < 2 ^ nat k. cmpBytes (leaf_quality H (pl_leaves p ! r) c) (leaf_quality H (pl_leaves p ! j) c) \<le> 0"
  proof -
    from provePlot_spec[OF assms(1), of c] obtain r where "s_quality (provePlot H p c) = toHex (leaf_quality H (pl_leaves p ! r) c)"
      "\<forall>j < 2 ^ nat k. cmpBytes (leaf_quality H (pl_leaves p ! r) c) (leaf_quality H (pl_leaves p ! j) c) \<le> 0" by force
    then show ?thesis by (rule that)
  qed
  have len: "length (leaf_quality H l c) = 32" for l by (simp add: leaf_quality_def assms(2))
  then have ne: "leaf_quality H l c \<noteq> []" for l by (metis list.size(3) zero_neq_numeral)
  have "\<exists>m n. requiredIters (s_quality (provePlot H p c)) params w diff = Some m
        \<and> requiredIters (toHex (leaf_quality H (plot_leaf H seed (int j)) c)) params w diff = Some n \<and> m \<le> n"
    if j: "j < 2 ^ nat k" for j
  proof -
    have "bytes_val (leaf_quality H (pl_leaves p ! r) c) \<le> bytes_val (leaf_quality H (pl_leaves p ! j) c)"
      using r(2) j cmpBytes_val len by metis
    from requiredIters_mono[OF ne ne this assms(3,4)] show ?thesis
      unfolding r(1) newPlot_D(7)[OF assms(1) j] requiredIters_pos[OF ne assms(3,4)] by blast
  qed
  with provePlot_verifies(1)[OF assms(1)] show ?thesis by blast
qed

theorem plot_answers_witness:
  "verifySpaceProof ex_hash (toHex (replicate 32 5)) (plot_commit ex_plot) [1, 2] (provePlot ex_hash ex_plot [1, 2])"
  using plot_answers[OF ex_plot_new length_ex_hash,
    where params="\<lparr>difficulty = 1, dcf = 1, floorIters = 1\<rparr>" and diff=1 and c="[1, 2]"] by simp

text \<open>A plot serves one identity only: a proof of full depth against the root of a plot is a proof by
  the key the plot was made for, or the hashing of the proof and of the plot shows a collision.\<close>

theorem plot_bound_to_identity:
  assumes plot: "newPlot H seed k = Some p" and H: "\<And>b. length (H b) = 32"
    and v: "verifySpaceProof H writer (plot_commit p) c pr" and depth: "length (s_path pr) = nat k"
    and key: "length (fromHex writer) = length seed"
  shows "fromHex writer = seed
    \<or> found_collision H
        ((fromHex writer @ u32be (s_index pr)) # climb_inputs H (plot_leaf H (fromHex writer) (s_index pr)) (s_index pr) (s_path pr))
        ((seed @ u32be (s_index pr)) # tree_inputs H (pl_leaves p))"
proof -
  note d = newPlot_D[OF plot] and vd = verifySpaceProof_D[OF v]
  define i where "i = nat (s_index pr)"
  have "0 \<le> s_index pr" "s_index pr < 2 ^ nat k"
    using vd(1) d(1,4) by (auto simp: index_in_plot_def plot_commit_def)
  then have i: "s_index pr = int i" "i < 2 ^ nat k" by (simp_all add: i_def nat_less_iff)
  have small: "i < 2 ^ 31" using plot_index[OF plot i(2)] .
  have leaves: "\<forall>x \<in> set (pl_leaves p). length x = 32"
    using d(5,7) H by (auto simp: in_set_conv_nth plot_leaf_def)
  let ?h = "plot_leaf H (fromHex writer) (int i)"
  have "merkle_climb H ?h (int i) (s_path pr) = merkleRoot (buildMerkle H (pl_leaves p))"
    using vd(3) d(6) by (simp add: i plot_commit_def toHex_inj)
  moreover have "length (s_path pr) + 1 = length (buildMerkle H (pl_leaves p))"
    using depth d(5) by (simp add: depth_buildMerkle)
  moreover have "i < length (pl_leaves p)" "length ?h = 32" using i(2) d(5) H by (simp_all add: plot_leaf_def)
  ultimately consider "?h = pl_leaves p ! i"
    | "found_collision H (climb_inputs H ?h (int i) (s_path pr)) (tree_inputs H (pl_leaves p))"
    using climb_binds[where H=H, OF H _ small leaves] by blast
  then show ?thesis
  proof cases
    case 1
    then have eq: "H (fromHex writer @ u32be (int i)) = H (seed @ u32be (int i))"
      using d(7)[OF i(2)] by (simp add: plot_leaf_def concatBytes_def)
    then show ?thesis using key i(1) by (auto simp: found_collision_def)
  next
    case 2
    then show ?thesis unfolding i(1) found_collision_def by auto
  qed
qed

theorem plot_bound_to_identity_witness: "\<exists>pr :: space_proof. length (s_path pr) = 2 \<and> (fromHex (toHex (replicate 32 (5 :: 8 word))) = replicate 32 5
    \<or> found_collision ex_hash ((replicate 32 5 @ u32be (s_index pr)) # climb_inputs ex_hash (plot_leaf ex_hash (replicate 32 5) (s_index pr))
          (s_index pr) (s_path pr)) ((replicate 32 5 @ u32be (s_index pr)) # tree_inputs ex_hash (pl_leaves ex_plot)))"
proof -
  let ?pr = "provePlot ex_hash ex_plot []"
  have "length (pl_layers ex_plot) = 3"
    using newPlot_D(5,6)[OF ex_plot_new] by (simp add: depth_buildMerkle[where k=2])
  then have len: "length (s_path ?pr) = nat 2"
    using provePlot_spec[OF ex_plot_new, of "[]"] by (auto simp: length_merklePath)
  have key: "length (fromHex (toHex (replicate 32 (5 :: 8 word)))) = length (replicate 32 (5 :: 8 word))" by simp
  have len2: "length (s_path ?pr) = 2" using len by simp
  from plot_bound_to_identity[OF ex_plot_new length_ex_hash provePlot_verifies(1)[OF ex_plot_new] len key]
  have "replicate 32 5 = replicate 32 (5 :: 8 word) \<or>
      found_collision ex_hash ((replicate 32 5 @ u32be (s_index ?pr)) # climb_inputs ex_hash (plot_leaf ex_hash (replicate 32 5) (s_index ?pr))
        (s_index ?pr) (s_path ?pr)) ((replicate 32 5 @ u32be (s_index ?pr)) # tree_inputs ex_hash (pl_leaves ex_plot))"
    unfolding fromHex_toHex .
  with len2 show ?thesis unfolding fromHex_toHex by blast
qed

end
