(* ===== verification/Writer.thy ===== *)
theory Writer
  imports Space
begin

text \<open>
  \<open>src/chain/writer.ts\<close>: a write gated by space, time and a signature; its verification and production;
  and one writer's chain of writes. Ed25519 (\<open>src/det/ed25519.ts\<close> over \<open>node:crypto\<close>) is a pair of
  parameters, the delay function two fields of the parameters record.

  The fields of a write have the types its interface declares. In particular \<open>time.iters\<close> is an
  integer: for a fractional number \<open>BigInt\<close> throws in \<open>verifyWrite\<close>, which is outside the model.
\<close>

section \<open>Writes\<close>

record trunk =
  tr_writer :: string
  tr_seq :: int
  tr_prev :: "string option"
  tr_stateRoot :: string

record "write" =
  w_writer :: string
  w_seq :: int
  w_prev :: "string option"
  w_stateRoot :: string
  w_plot :: plot_commitment
  w_difficulty :: string
  w_ts :: int
  w_payload :: json
  w_space :: space_proof
  w_time :: time_proof
  w_id :: string
  w_sig :: string

record chain_params = consensus_params +
  vdf_eval :: "bytes \<Rightarrow> int \<Rightarrow> time_proof option"
  vdf_verify :: "bytes \<Rightarrow> time_proof \<Rightarrow> bool"

definition trunkOf :: "write \<Rightarrow> trunk" where
  "trunkOf w = \<lparr>tr_writer = w_writer w, tr_seq = w_seq w, tr_prev = w_prev w, tr_stateRoot = w_stateRoot w\<rparr>"

definition str_or_null :: "string option \<Rightarrow> json" where
  "str_or_null s = (case s of None \<Rightarrow> JNull | Some t \<Rightarrow> JStr t)"

definition trunk_json :: "trunk \<Rightarrow> json" where
  "trunk_json t = JObj [(''writer'', JStr (tr_writer t)), (''seq'', JInt (tr_seq t)),
     (''prev'', str_or_null (tr_prev t)), (''stateRoot'', JStr (tr_stateRoot t))]"

definition challengeOf :: "(bytes \<Rightarrow> bytes) \<Rightarrow> trunk \<Rightarrow> bytes" where
  "challengeOf H t = H (canonicalBytes (trunk_json t))"

definition plot_json :: "plot_commitment \<Rightarrow> json" where
  "plot_json c = JObj [(''root'', JStr (pc_root c)), (''k'', JInt (pc_k c))]"

definition space_json :: "space_proof \<Rightarrow> json" where
  "space_json s = JObj [(''index'', JInt (s_index s)), (''value'', JStr (s_value s)),
     (''path'', JArr (map JStr (s_path s))), (''quality'', JStr (s_quality s))]"

definition time_json :: "time_proof \<Rightarrow> json" where
  "time_json t = JObj [(''iters'', JInt (t_iters t)), (''output'', JStr (t_output t)), (''proof'', JStr (t_proof t))]"

definition coreOf :: "write \<Rightarrow> json" where
  "coreOf w = JObj [(''writer'', JStr (w_writer w)), (''seq'', JInt (w_seq w)), (''prev'', str_or_null (w_prev w)),
     (''stateRoot'', JStr (w_stateRoot w)), (''plot'', plot_json (w_plot w)), (''difficulty'', JStr (w_difficulty w)),
     (''ts'', JInt (w_ts w)), (''payload'', w_payload w)]"

definition id_json :: "json \<Rightarrow> space_proof \<Rightarrow> time_proof \<Rightarrow> json" where
  "id_json core space time = JObj [(''core'', core), (''space'', space_json space), (''time'', time_json time)]"

definition idOf :: "(bytes \<Rightarrow> bytes) \<Rightarrow> json \<Rightarrow> space_proof \<Rightarrow> time_proof \<Rightarrow> string" where
  "idOf H core space time = sha256Hex H (canonicalize (id_json core space time))"

section \<open>Verification\<close>

datatype write_error = WrongDifficulty | BadSpaceProof | QualityThrows | InsufficientCooldown | BadTimeProof
  | IdMismatch | BadWriteSignature

text \<open>\<open>None\<close> is \<open>{ok: true}\<close>.\<close>

definition verifyWrite ::
  "(bytes \<Rightarrow> bytes) \<Rightarrow> (bytes \<Rightarrow> bytes \<Rightarrow> bytes \<Rightarrow> bool) \<Rightarrow> write \<Rightarrow> chain_params \<Rightarrow> bool \<Rightarrow> write_error option" where
  "verifyWrite H edverify w params skipTimeProof =
     (if w_difficulty w \<noteq> show_int (difficulty params) then Some WrongDifficulty
      else let challenge = challengeOf H (trunkOf w) in
        if \<not> verifySpaceProof H (w_writer w) (w_plot w) challenge (w_space w) then Some BadSpaceProof
        else (case requiredIters (s_quality (w_space w)) params 1 (difficulty params) of
            None \<Rightarrow> Some QualityThrows
          | Some needIters \<Rightarrow>
              if t_iters (w_time w) < needIters then Some InsufficientCooldown
              else if \<not> skipTimeProof \<and> \<not> vdf_verify params (vdfChallenge H challenge (s_value (w_space w))) (w_time w)
                then Some BadTimeProof
              else if idOf H (coreOf w) (w_space w) (w_time w) \<noteq> w_id w then Some IdMismatch
              else if \<not> edverify (fromHex (w_writer w)) (fromHex (w_id w)) (fromHex (w_sig w)) then Some BadWriteSignature
              else None))"

section \<open>Production\<close>

record keypair =
  publicKey :: bytes
  privateKey :: bytes

record writer =
  wr_keypair :: keypair
  wr_pubHex :: string
  wr_plot :: plot
  wr_params :: chain_params

definition newWriter :: "(bytes \<Rightarrow> bytes) \<Rightarrow> keypair \<Rightarrow> int \<Rightarrow> chain_params \<Rightarrow> writer option" where
  "newWriter H kp k params = map_option (\<lambda>p. \<lparr>wr_keypair = kp, wr_pubHex = toHex (publicKey kp), wr_plot = p, wr_params = params\<rparr>)
     (newPlot H (publicKey kp) k)"

text \<open>\<open>None\<close> when a call throws (the delay function on a count below 1).\<close>

definition writer_write ::
  "(bytes \<Rightarrow> bytes) \<Rightarrow> (bytes \<Rightarrow> bytes \<Rightarrow> bytes) \<Rightarrow> writer \<Rightarrow> string option \<Rightarrow> int \<Rightarrow> string \<Rightarrow> json \<Rightarrow> int \<Rightarrow> write option" where
  "writer_write H edsign wr prev seq stateRoot payload ts =
     (let params = wr_params wr;
          trunk = \<lparr>tr_writer = wr_pubHex wr, tr_seq = seq, tr_prev = prev, tr_stateRoot = stateRoot\<rparr>;
          challenge = challengeOf H trunk;
          space = provePlot H (wr_plot wr) challenge
      in case requiredIters (s_quality space) params 1 (difficulty params) of None \<Rightarrow> None
       | Some needIters \<Rightarrow>
         (case vdf_eval params (vdfChallenge H challenge (s_value space)) (Number_of needIters) of None \<Rightarrow> None
          | Some time \<Rightarrow>
              let w = \<lparr>w_writer = wr_pubHex wr, w_seq = seq, w_prev = prev, w_stateRoot = stateRoot,
                       w_plot = plot_commit (wr_plot wr), w_difficulty = show_int (difficulty params), w_ts = ts,
                       w_payload = payload, w_space = space, w_time = time, w_id = [], w_sig = []\<rparr>;
                  i = idOf H (coreOf w) space time
              in Some (w\<lparr>w_id := i, w_sig := toHex (edsign (privateKey (wr_keypair wr)) (fromHex i))\<rparr>)))"

section \<open>One writer's chain\<close>

record writer_chain =
  wc_writer :: string
  wc_plotRoot :: "string option"
  wc_params :: chain_params
  wc_writes :: "write list"
  wc_weight :: int
  wc_baseSeq :: int
  wc_baseHeadId :: "string option"
  wc_bySeq :: "(int, write) jsmap"

definition newChain :: "string \<Rightarrow> string option \<Rightarrow> chain_params \<Rightarrow> int \<Rightarrow> string option \<Rightarrow> writer_chain" where
  "newChain writer plotRoot params baseSeq baseHeadId = \<lparr>wc_writer = writer, wc_plotRoot = plotRoot, wc_params = params,
     wc_writes = [], wc_weight = baseSeq * writeWeight params, wc_baseSeq = baseSeq, wc_baseHeadId = baseHeadId, wc_bySeq = []\<rparr>"

definition resumeAt :: "string \<Rightarrow> chain_params \<Rightarrow> int \<Rightarrow> string \<Rightarrow> writer_chain" where
  "resumeAt writer params baseSeq baseHeadId = newChain writer None params baseSeq (Some baseHeadId)"

definition nextSeq :: "writer_chain \<Rightarrow> int" where
  "nextSeq c = wc_baseSeq c + int (length (wc_writes c))"

definition headId :: "writer_chain \<Rightarrow> string option" where
  "headId c = (if length (wc_writes c) > 0 then Some (w_id (last (wc_writes c))) else wc_baseHeadId c)"

datatype append_error = WrongWriter | WrongPlot | InvalidWrite write_error | Equivocation | NonSequential | BadPrev

datatype append_result = AppendOk | AppendFail append_error "(write \<times> write) option"

definition append_write ::
  "(bytes \<Rightarrow> bytes) \<Rightarrow> (bytes \<Rightarrow> bytes \<Rightarrow> bytes \<Rightarrow> bool) \<Rightarrow> writer_chain \<Rightarrow> write \<Rightarrow> bool \<Rightarrow> writer_chain \<times> append_result" where
  "append_write H edverify c w skipTimeProof =
     (if w_writer w \<noteq> wc_writer c then (c, AppendFail WrongWriter None)
      else if wc_plotRoot c \<noteq> None \<and> Some (pc_root (w_plot w)) \<noteq> wc_plotRoot c then (c, AppendFail WrongPlot None)
      else (case verifyWrite H edverify w (wc_params c) skipTimeProof of
          Some e \<Rightarrow> (c, AppendFail (InvalidWrite e) None)
        | None \<Rightarrow> (case map_of (wc_bySeq c) (w_seq w) of
            Some existing \<Rightarrow> if w_id existing = w_id w then (c, AppendOk)
              else (c, AppendFail Equivocation (Some (existing, w)))
          | None \<Rightarrow>
              if w_seq w \<noteq> nextSeq c then (c, AppendFail NonSequential None)
              else if w_prev w \<noteq> headId c then (c, AppendFail BadPrev None)
              else (c\<lparr>wc_plotRoot := (if wc_plotRoot c = None then Some (pc_root (w_plot w)) else wc_plotRoot c),
                     wc_writes := wc_writes c @ [w], wc_bySeq := map_set (w_seq w) w (wc_bySeq c),
                     wc_weight := wc_weight c + writeWeight (wc_params c)\<rparr>, AppendOk))))"

definition chain_at :: "writer_chain \<Rightarrow> int \<Rightarrow> write option" where
  "chain_at c seq = (if seq < wc_baseSeq c then None
     else let i = nat (seq - wc_baseSeq c) in if i < length (wc_writes c) then Some (wc_writes c ! i) else None)"


section \<open>The id commits to the write\<close>

definition write_json :: "write \<Rightarrow> json" where
  "write_json w = id_json (coreOf w) (w_space w) (w_time w)"

text \<open>What the id commits to: everything but the id and the signature, the payload up to its canonical
  form.\<close>

definition write_content :: "write \<Rightarrow> trunk \<times> plot_commitment \<times> string \<times> int \<times> json \<times> space_proof \<times> time_proof" where
  "write_content w = (trunkOf w, w_plot w, w_difficulty w, w_ts w, sortValue (w_payload w), w_space w, w_time w)"

lemma wf_str_or_null [simp]: "wf_json (str_or_null s)"
  by (simp add: str_or_null_def split: option.split)

lemma wf_part_json [simp]: "wf_json (plot_json c)" "wf_json (space_json sp)" "wf_json (time_json t)" "wf_json (trunk_json tr)"
  by (auto simp: plot_json_def space_json_def time_json_def trunk_json_def)

lemma wf_coreOf [simp]: "wf_json (w_payload w) \<Longrightarrow> wf_json (coreOf w)"
  by (simp add: coreOf_def)

lemma wf_write_json: "wf_json (w_payload w) \<Longrightarrow> wf_json (write_json w)"
  by (simp add: write_json_def id_json_def)

lemma str_or_null_inj: "sortValue (str_or_null a) = sortValue (str_or_null b) \<Longrightarrow> a = b"
  by (cases a; cases b) (auto simp: str_or_null_def)

lemma plot_json_inj: "sortValue (plot_json a) = sortValue (plot_json b) \<Longrightarrow> a = b"
proof -
  assume eq: "sortValue (plot_json a) = sortValue (plot_json b)"
  from sortValue_JObj_D[OF eq[unfolded plot_json_def]] show ?thesis by simp
qed

lemma JStr_list_inj: "map (sortValue \<circ> JStr) xs = map (sortValue \<circ> JStr) ys \<Longrightarrow> xs = ys"
  by (rule map_injective) (auto simp: inj_def)

lemma space_json_inj: "sortValue (space_json a) = sortValue (space_json b) \<Longrightarrow> a = b"
proof -
  assume eq: "sortValue (space_json a) = sortValue (space_json b)"
  note m = sortValue_member[OF eq[unfolded space_json_def] wf_part_json(2)[unfolded space_json_def] wf_part_json(2)[unfolded space_json_def]]
  have "s_path a = s_path b" by (rule JStr_list_inj) (use m[of "''path''"] in simp)
  with m[of "''index''"] m[of "''value''"] m[of "''quality''"] show ?thesis by simp
qed

lemma time_json_inj: "sortValue (time_json a) = sortValue (time_json b) \<Longrightarrow> a = b"
proof -
  assume eq: "sortValue (time_json a) = sortValue (time_json b)"
  from sortValue_JObj_D[OF eq[unfolded time_json_def]] show ?thesis by simp
qed

lemma write_json_content:
  assumes "wf_json (w_payload v)" "wf_json (w_payload w)" "canonicalize (write_json v) = canonicalize (write_json w)"
  shows "write_content v = write_content w"
proof -
  have eq: "sortValue (write_json v) = sortValue (write_json w)"
    using assms canonicalize_eq_iff wf_write_json by blast
  note m = sortValue_member[OF eq[unfolded write_json_def id_json_def]
    wf_write_json[OF assms(1), unfolded write_json_def id_json_def] wf_write_json[OF assms(2), unfolded write_json_def id_json_def]]
  have core: "sortValue (coreOf v) = sortValue (coreOf w)" using m[of "''core''"] by simp
  note c = sortValue_member[OF core[unfolded coreOf_def] wf_coreOf[OF assms(1), unfolded coreOf_def] wf_coreOf[OF assms(2), unfolded coreOf_def]]
  have "w_writer v = w_writer w" "w_seq v = w_seq w" "w_prev v = w_prev w" "w_stateRoot v = w_stateRoot w"
    using c[of "''writer''"] c[of "''seq''"] c[of "''prev''"] c[of "''stateRoot''"] by (simp_all add: str_or_null_inj)
  moreover have "w_plot v = w_plot w" "w_difficulty v = w_difficulty w" "w_ts v = w_ts w"
      "sortValue (w_payload v) = sortValue (w_payload w)"
    using c[of "''plot''"] c[of "''difficulty''"] c[of "''ts''"] c[of "''payload''"] by (simp_all add: plot_json_inj)
  moreover have "w_space v = w_space w" "w_time v = w_time w"
    using m[of "''space''"] m[of "''time''"] by (simp_all add: space_json_inj time_json_inj)
  ultimately show ?thesis by (simp add: write_content_def trunkOf_def)
qed

interpretation write_commit: commitment "\<lambda>w. canonicalize (write_json w)" write_content "\<lambda>w. wf_json (w_payload w)"
  by unfold_locales (rule write_json_content)

section \<open>What verification checks\<close>

lemma verifyWrite_ok:
  "verifyWrite H edv w params skip = None \<longleftrightarrow>
    w_difficulty w = show_int (difficulty params)
    \<and> verifySpaceProof H (w_writer w) (w_plot w) (challengeOf H (trunkOf w)) (w_space w)
    \<and> (\<exists>n. requiredIters (s_quality (w_space w)) params 1 (difficulty params) = Some n \<and> n \<le> t_iters (w_time w))
    \<and> (\<not> skip \<longrightarrow> vdf_verify params (vdfChallenge H (challengeOf H (trunkOf w)) (s_value (w_space w))) (w_time w))
    \<and> w_id w = sha256Hex H (canonicalize (write_json w))
    \<and> edv (fromHex (w_writer w)) (fromHex (w_id w)) (fromHex (w_sig w))"
  by (auto simp: verifyWrite_def Let_def idOf_def write_json_def not_less split: option.splits)

lemma writer_write_fields:
  assumes "writer_write H eds wr prev seq sr payload ts = Some w"
  shows "w_writer w = wr_pubHex wr" "w_seq w = seq" "w_prev w = prev" "w_stateRoot w = sr" "w_payload w = payload" "w_ts w = ts"
    "w_plot w = plot_commit (wr_plot wr)" "w_difficulty w = show_int (difficulty (wr_params wr))"
    "w_space w = provePlot H (wr_plot wr) (challengeOf H (trunkOf w))"
    "\<exists>n. requiredIters (s_quality (w_space w)) (wr_params wr) 1 (difficulty (wr_params wr)) = Some n
       \<and> vdf_eval (wr_params wr) (vdfChallenge H (challengeOf H (trunkOf w)) (s_value (w_space w))) (Number_of n) = Some (w_time w)"
    "w_id w = sha256Hex H (canonicalize (write_json w))"
    "w_sig w = toHex (eds (privateKey (wr_keypair wr)) (fromHex (w_id w)))"
  using assms
  by (auto simp: writer_write_def Let_def trunkOf_def idOf_def write_json_def coreOf_def split: option.splits)

text \<open>A 32-byte quality asks for at least the floor and, with moderate parameters, for a number of
  iterations a JavaScript number holds exactly.\<close>

lemma requiredIters_within:
  assumes "length q = 32" "0 \<le> diff" "0 \<le> dcf params" "floorIters params \<le> 2 ^ 53" "diff * dcf params \<le> 2 ^ 53"
  shows "\<exists>n. requiredIters (toHex q) params 1 diff = Some n \<and> floorIters params \<le> n \<and> n \<le> 2 ^ 53"
proof -
  have ne: "q \<noteq> []" using assms(1) by auto
  define n where "n = max (floorIters params) (diff * dcf params * int (bytes_val q) div TWO_256)"
  have r: "requiredIters (toHex q) params 1 diff = Some n"
    using requiredIters_pos[OF ne assms(2,3), of 1] by (simp add: n_def)
  have "int (bytes_val q) \<le> TWO_256"
  proof -
    have "bytes_val q < 256 ^ 32" using bytes_val_bound[of q] assms(1) by simp
    then have "int (bytes_val q) < 256 ^ 32" by (metis of_nat_less_iff of_nat_numeral of_nat_power)
    also have "(256 :: int) ^ 32 = TWO_256" by (simp add: TWO_256_def)
    finally show ?thesis by simp
  qed
  then have "diff * dcf params * int (bytes_val q) \<le> diff * dcf params * TWO_256"
    using assms by (intro mult_left_mono) auto
  then have "diff * dcf params * int (bytes_val q) div TWO_256 \<le> diff * dcf params * TWO_256 div TWO_256"
    using TWO_256_pos by (rule zdiv_mono1)
  also have "\<dots> = diff * dcf params" using TWO_256_pos by simp
  finally have "n \<le> 2 ^ 53" using assms(4,5) by (simp add: n_def)
  with r show ?thesis by (intro exI[of _ n]) (simp add: n_def)
qed

lemma writer_write_verifies:
  assumes new: "newWriter H kp k params = Some wr" and H: "\<And>b. length (H b) = 32"
    and vdf: "vdf (vdf_eval params) (vdf_verify params)"
    and ed: "\<And>m. edv (publicKey kp) m (eds (privateKey kp) m)"
    and par: "0 \<le> difficulty params" "0 \<le> dcf params" "1 \<le> floorIters params"
    and cap: "floorIters params \<le> 2 ^ 53" "difficulty params * dcf params \<le> 2 ^ 53"
  shows "\<exists>w. writer_write H eds wr prev seq sr payload ts = Some w \<and> verifyWrite H edv w params False = None"
proof -
  obtain p where p: "newPlot H (publicKey kp) k = Some p"
    and wr: "wr = \<lparr>wr_keypair = kp, wr_pubHex = toHex (publicKey kp), wr_plot = p, wr_params = params\<rparr>"
    using new by (auto simp: newWriter_def)
  define tr where "tr = \<lparr>tr_writer = toHex (publicKey kp), tr_seq = seq, tr_prev = prev, tr_stateRoot = sr\<rparr>"
  define sp where "sp = provePlot H p (challengeOf H tr)"
  obtain b where q: "s_quality sp = toHex (H b)"
    using provePlot_spec[OF p, of "challengeOf H tr"] by (auto simp: sp_def leaf_quality_def)
  obtain n where need: "requiredIters (s_quality sp) params 1 (difficulty params) = Some n" and n: "1 \<le> n" "n \<le> 2 ^ 53"
    using requiredIters_within[OF H par(1,2) cap, of b] q par(3) by auto
  have num: "Number_of n = n" using n by simp
  obtain t where t: "vdf_eval params (vdfChallenge H (challengeOf H tr) (s_value sp)) n = Some t" "t_iters t = n"
      "vdf_verify params (vdfChallenge H (challengeOf H tr) (s_value sp)) t"
    using vdf.cooldown_served[OF vdf n(1)] by metis
  obtain w where w: "writer_write H eds wr prev seq sr payload ts = Some w"
    by (simp add: writer_write_def wr Let_def need[unfolded sp_def tr_def] num t(1)[unfolded sp_def tr_def])
  note f = writer_write_fields[OF w]
  have tr': "trunkOf w = tr" using f(1-4) by (simp add: trunkOf_def tr_def wr)
  have sp': "w_space w = sp" using f(9) tr' by (simp add: sp_def wr)
  have time: "w_time w = t" using f(10) tr' sp' need num t(1) by (simp add: wr)
  have "verifyWrite H edv w params False = None"
    unfolding verifyWrite_ok
    using f(8,11,12) ed provePlot_verifies(1)[OF p] need t f(1,7)
    by (simp add: tr' sp' time wr sp_def)
  with w show ?thesis by blast
qed


section \<open>The chain invariant\<close>

definition link_ok :: "writer_chain \<Rightarrow> nat \<Rightarrow> bool" where
  "link_ok c i \<longleftrightarrow> (let w = wc_writes c ! i in w_writer w = wc_writer c \<and> w_seq w = wc_baseSeq c + int i
     \<and> w_prev w = (if i = 0 then wc_baseHeadId c else Some (w_id (wc_writes c ! (i - 1))))
     \<and> wc_plotRoot c = Some (pc_root (w_plot w)))"

definition chain_ok :: "(bytes \<Rightarrow> bytes) \<Rightarrow> (bytes \<Rightarrow> bytes \<Rightarrow> bytes \<Rightarrow> bool) \<Rightarrow> writer_chain \<Rightarrow> bool" where
  "chain_ok H edv c \<longleftrightarrow> (\<forall>i < length (wc_writes c). link_ok c i \<and> verifyWrite H edv (wc_writes c ! i) (wc_params c) True = None)
     \<and> (\<forall>s. map_of (wc_bySeq c) s = chain_at c s)
     \<and> wc_weight c = nextSeq c * writeWeight (wc_params c)"

lemma verifyWrite_skip: "verifyWrite H edv w params skip = None \<Longrightarrow> verifyWrite H edv w params True = None"
  unfolding verifyWrite_ok by blast

lemma newChain_ok: "chain_ok H edv (newChain writer root params base headid)"
  by (simp add: chain_ok_def newChain_def chain_at_def nextSeq_def)

lemma chain_at_Some:
  "chain_at c s = Some w \<longleftrightarrow> (\<exists>i < length (wc_writes c). s = wc_baseSeq c + int i \<and> w = wc_writes c ! i)"
proof
  assume "chain_at c s = Some w"
  then have "wc_baseSeq c \<le> s" "nat (s - wc_baseSeq c) < length (wc_writes c)" "w = wc_writes c ! nat (s - wc_baseSeq c)"
    by (auto simp: chain_at_def Let_def split: if_splits)
  then show "\<exists>i < length (wc_writes c). s = wc_baseSeq c + int i \<and> w = wc_writes c ! i"
    by (intro exI[of _ "nat (s - wc_baseSeq c)"]) simp
qed (auto simp: chain_at_def)

lemma chain_ok_at:
  "chain_ok H edv c \<Longrightarrow> chain_at c s = Some w \<Longrightarrow>
   w_seq w = s \<and> w_writer w = wc_writer c \<and> verifyWrite H edv w (wc_params c) True = None"
  by (auto simp: chain_at_Some chain_ok_def link_ok_def Let_def)

text \<open>An append that extends the chain adds the write and nothing else.\<close>

definition extended :: "writer_chain \<Rightarrow> write \<Rightarrow> writer_chain" where
  "extended c w = c\<lparr>wc_plotRoot := (if wc_plotRoot c = None then Some (pc_root (w_plot w)) else wc_plotRoot c),
     wc_writes := wc_writes c @ [w], wc_bySeq := map_set (w_seq w) w (wc_bySeq c),
     wc_weight := wc_weight c + writeWeight (wc_params c)\<rparr>"

lemma append_cases:
  "append_write H edv c w skip = (c', r) \<Longrightarrow>
   (c' = c \<and> r \<noteq> AppendOk)
   \<or> (c' = c \<and> r = AppendOk \<and> w_writer w = wc_writer c \<and> verifyWrite H edv w (wc_params c) skip = None
        \<and> (\<exists>e. map_of (wc_bySeq c) (w_seq w) = Some e \<and> w_id e = w_id w))
   \<or> (c' = extended c w \<and> r = AppendOk \<and> w_writer w = wc_writer c
        \<and> (wc_plotRoot c = None \<or> wc_plotRoot c = Some (pc_root (w_plot w)))
        \<and> verifyWrite H edv w (wc_params c) skip = None \<and> map_of (wc_bySeq c) (w_seq w) = None
        \<and> w_seq w = nextSeq c \<and> w_prev w = headId c)"
  by (auto simp: append_write_def extended_def split: option.splits if_splits)

lemma extended_ok:
  assumes c: "chain_ok H edv c" "w_writer w = wc_writer c" "wc_plotRoot c = None \<or> wc_plotRoot c = Some (pc_root (w_plot w))"
    and w: "verifyWrite H edv w (wc_params c) skip = None" "w_seq w = nextSeq c" "w_prev w = headId c"
  shows "chain_ok H edv (extended c w)"
proof -
  let ?c = "extended c w"
  have root: "wc_plotRoot ?c = Some (pc_root (w_plot w))" using c(3) by (auto simp: extended_def)
  have old: "wc_plotRoot c = Some (pc_root (w_plot w))" if "wc_writes c \<noteq> []"
    using c(1,3) that by (auto simp: chain_ok_def link_ok_def Let_def)
  have "link_ok ?c i \<and> verifyWrite H edv (wc_writes ?c ! i) (wc_params ?c) True = None" if i: "i < length (wc_writes ?c)" for i
  proof (cases "i < length (wc_writes c)")
    case True
    then have ne: "wc_writes c \<noteq> []" by auto
    have "link_ok c i" "verifyWrite H edv (wc_writes c ! i) (wc_params c) True = None" using c(1) True by (auto simp: chain_ok_def)
    then show ?thesis using True old[OF ne] by (auto simp: link_ok_def Let_def extended_def nth_append)
  next
    case False
    then have i: "i = length (wc_writes c)" using i by (simp add: extended_def)
    have "w_prev w = (if i = 0 then wc_baseHeadId c else Some (w_id ((wc_writes c @ [w]) ! (i - 1))))"
      using w(3) by (auto simp: headId_def i last_conv_nth nth_append)
    then show ?thesis
      using c(2) w(1,2) root verifyWrite_skip[OF w(1)] by (simp add: link_ok_def Let_def extended_def i nextSeq_def)
  qed
  moreover have "map_of (wc_bySeq ?c) s = chain_at ?c s" for s
  proof -
    have "map_of (wc_bySeq c) s = chain_at c s" using c(1) by (simp add: chain_ok_def)
    then show ?thesis using w(2)
      by (auto simp: extended_def map_of_set chain_at_def Let_def nth_append nextSeq_def simp del: map_of_eq_Some_iff)
  qed
  moreover have "wc_weight ?c = nextSeq ?c * writeWeight (wc_params ?c)"
    using c(1) by (simp add: chain_ok_def extended_def nextSeq_def algebra_simps)
  ultimately show ?thesis by (simp add: chain_ok_def)
qed

lemma append_ok:
  assumes "chain_ok H edv c" "append_write H edv c w skip = (c', r)"
  shows "chain_ok H edv c'"
  using append_cases[OF assms(2)] assms(1) extended_ok by metis


section \<open>Properties\<close>

definition ex_params :: chain_params where
  "ex_params = \<lparr>difficulty = 2, dcf = 3, floorIters = 1, vdf_eval = hash_eval ex_hash, vdf_verify = hash_verify ex_hash\<rparr>"

definition ex_keys :: keypair where
  "ex_keys = \<lparr>publicKey = replicate 32 5, privateKey = replicate 32 6\<rparr>"

definition ex_writer :: writer where
  "ex_writer = the (newWriter ex_hash ex_keys 2 ex_params)"

lemma ex_writer_new: "newWriter ex_hash ex_keys 2 ex_params = Some ex_writer"
  using ex_plot_new by (simp add: ex_writer_def newWriter_def ex_keys_def)

lemma ex_vdf: "vdf (vdf_eval ex_params) (vdf_verify ex_params)"
  using hash_vdf.vdf_axioms by (simp add: ex_params_def)

lemma ex_write:
  "\<exists>w. writer_write ex_hash (\<lambda>_ _. []) ex_writer None 0 ''aa'' JNull 5 = Some w
     \<and> verifyWrite ex_hash (\<lambda>_ _ _. True) w ex_params False = None"
  by (rule writer_write_verifies[OF ex_writer_new length_ex_hash ex_vdf]) (simp_all add: ex_params_def)

text \<open>C8: what a writer produces verifies, whatever it writes, whatever \<open>ts\<close> and whatever \<open>stateRoot\<close> it
  names, when the delay function keeps its contract and Ed25519 verifies what it signs.\<close>

theorem write_verifies:
  assumes "newWriter H kp k params = Some wr" "\<And>b. length (H b) = 32" "vdf (vdf_eval params) (vdf_verify params)"
    and "\<And>m. edv (publicKey kp) m (eds (privateKey kp) m)"
    and "0 \<le> difficulty params" "0 \<le> dcf params" "1 \<le> floorIters params"
    and "floorIters params \<le> 2 ^ 53" "difficulty params * dcf params \<le> 2 ^ 53"
  shows "\<exists>w. writer_write H eds wr prev seq sr payload ts = Some w \<and> verifyWrite H edv w params False = None"
  using assms by (rule writer_write_verifies)

theorem write_verifies_witness:
  "\<exists>w. writer_write ex_hash (\<lambda>_ _. []) ex_writer None 0 ''aa'' JNull 5 = Some w
     \<and> verifyWrite ex_hash (\<lambda>_ _ _. True) w ex_params False = None"
  by (rule write_verifies[OF ex_writer_new length_ex_hash ex_vdf]) (simp_all add: ex_params_def)

text \<open>What verification establishes: a leaf of the writer's own plot for the challenge of the trunk,
  a cooldown at least as long as its quality asks for, a delay proof over that challenge infused with
  that leaf, and a signature over the hash of everything else.\<close>

theorem verifyWrite_exact:
  "verifyWrite H edv w params False = None \<longleftrightarrow>
    w_difficulty w = show_int (difficulty params)
    \<and> verifySpaceProof H (w_writer w) (w_plot w) (challengeOf H (trunkOf w)) (w_space w)
    \<and> (\<exists>n. requiredIters (s_quality (w_space w)) params 1 (difficulty params) = Some n \<and> n \<le> t_iters (w_time w))
    \<and> vdf_verify params (vdfChallenge H (challengeOf H (trunkOf w)) (s_value (w_space w))) (w_time w)
    \<and> w_id w = sha256Hex H (canonicalize (write_json w))
    \<and> edv (fromHex (w_writer w)) (fromHex (w_id w)) (fromHex (w_sig w))"
  by (simp add: verifyWrite_ok)

text \<open>An id stands for one write: verified writes with the same id have the same trunk, plot,
  difficulty, time stamp, proofs and canonical payload, or their encodings are a SHA-256 collision.\<close>

theorem write_id_binding:
  assumes "wf_json (w_payload v)" "wf_json (w_payload w)"
    and "verifyWrite H edv v params s1 = None" "verifyWrite H edv w params s2 = None" "w_id v = w_id w"
  shows "write_content v = write_content w
    \<or> collision H (canonicalize (write_json v)) (canonicalize (write_json w))"
proof -
  have "sha256Hex H (canonicalize (write_json v)) = sha256Hex H (canonicalize (write_json w))"
    using assms(3-5) unfolding verifyWrite_ok by metis
  then show ?thesis using write_commit.binding[of v w] assms(1,2) by blast
qed

theorem write_id_binding_witness:
  "\<exists>w. verifyWrite ex_hash (\<lambda>_ _ _. True) w ex_params False = None
     \<and> (write_content w = write_content w \<or> collision ex_hash (canonicalize (write_json w)) (canonicalize (write_json w)))"
proof -
  obtain w where w: "writer_write ex_hash (\<lambda>_ _. []) ex_writer None 0 ''aa'' JNull 5 = Some w"
    "verifyWrite ex_hash (\<lambda>_ _ _. True) w ex_params False = None"
    using ex_write by blast
  have "wf_json (w_payload w)" using writer_write_fields(5)[OF w(1)] by simp
  from write_id_binding[OF this this w(2) w(2) refl] w(2) show ?thesis by blast
qed

text \<open>C9: appending keeps a chain well formed (consecutive sequence numbers, hash links from the base
  head, one plot, every write verified, weight counting the pruned prefix), and a fork is self-evident:
  what it reports are two different verified writes of the same writer at the same position.\<close>

theorem append_sound:
  assumes "chain_ok H edv c" "append_write H edv c w skip = (c', r)"
  shows "chain_ok H edv c'
    \<and> (c' = c \<or> c' = extended c w \<and> r = AppendOk \<and> w_seq w = nextSeq c \<and> w_prev w = headId c)
    \<and> (\<forall>e a b. r = AppendFail e (Some (a, b)) \<longrightarrow> b = w \<and> c' = c \<and> w_id a \<noteq> w_id w \<and> w_seq a = w_seq w
          \<and> w_writer a = w_writer w \<and> verifyWrite H edv a (wc_params c) True = None
          \<and> verifyWrite H edv w (wc_params c) True = None)"
proof -
  have "b = w \<and> c' = c \<and> w_id a \<noteq> w_id w \<and> w_seq a = w_seq w \<and> w_writer a = w_writer w
      \<and> verifyWrite H edv a (wc_params c) True = None \<and> verifyWrite H edv w (wc_params c) True = None"
    if r: "r = AppendFail e (Some (a, b))" for e a b
  proof -
    have *: "w_writer w = wc_writer c" "verifyWrite H edv w (wc_params c) skip = None" "map_of (wc_bySeq c) (w_seq w) = Some a"
      "w_id a \<noteq> w_id w" "b = w" "c' = c"
      using assms(2) r by (auto simp: append_write_def split: option.splits if_splits)
    then have "chain_at c (w_seq w) = Some a" using assms(1) by (simp add: chain_ok_def)
    from chain_ok_at[OF assms(1) this] * verifyWrite_skip show ?thesis by auto
  qed
  moreover have "c' = c \<or> c' = extended c w \<and> r = AppendOk \<and> w_seq w = nextSeq c \<and> w_prev w = headId c"
    using append_cases[OF assms(2)] by blast
  ultimately show ?thesis using append_ok[OF assms] by blast
qed

theorem append_sound_witness:
  "\<exists>w c'. append_write ex_hash (\<lambda>_ _ _. True) (newChain (w_writer w) None ex_params 0 None) w False = (c', AppendOk)
     \<and> chain_ok ex_hash (\<lambda>_ _ _. True) c'"
proof -
  obtain w where w: "writer_write ex_hash (\<lambda>_ _. []) ex_writer None 0 ''aa'' JNull 5 = Some w"
    "verifyWrite ex_hash (\<lambda>_ _ _. True) w ex_params False = None"
    using ex_write by blast
  obtain c' where c': "append_write ex_hash (\<lambda>_ _ _. True) (newChain (w_writer w) None ex_params 0 None) w False = (c', AppendOk)"
    using w(2) writer_write_fields(2,3)[OF w(1)] by (simp add: append_write_def newChain_def nextSeq_def headId_def)
  from append_sound[OF newChain_ok c'] c' show ?thesis by blast
qed

end
