(* ===== verification/Ledger.thy ===== *)
theory Ledger
  imports Writer
begin

text \<open>
  \<open>src/ledger/ledger.ts\<close>: every known writer's chain, the buffer of writes ahead of their tip, the heads
  and the root over them. A JavaScript object keyed by writer (\<open>Heads\<close>) is an association list, like a
  \<open>Map\<close>; writers are 64-digit hex texts, which are not array indices, so its keys stay in insertion order.
\<close>

section \<open>Heads\<close>

record head =
  h_id :: string
  h_seq :: int

type_synonym heads = "(string, head) jsmap"

definition head_entry :: "heads \<Rightarrow> string \<Rightarrow> json" where
  "head_entry hs w = (case map_of hs w of Some h \<Rightarrow> JArr [JStr w, JStr (h_id h), JInt (h_seq h)] | None \<Rightarrow> JNull)"

definition head_entries :: "heads \<Rightarrow> json" where
  "head_entries hs = JArr (map (head_entry hs) (sort (keys hs)))"

definition rootOfHeads :: "(bytes \<Rightarrow> bytes) \<Rightarrow> heads \<Rightarrow> string" where
  "rootOfHeads H hs = sha256Hex H (canonicalize (head_entries hs))"

section \<open>The ledger\<close>

definition PENDING_MAX_AGE :: int where "PENDING_MAX_AGE = 1024"

type_synonym pending = "(int, write \<times> int) jsmap"

record ledger =
  lg_params :: chain_params
  lg_chains :: "(string, writer_chain) jsmap"
  lg_pending :: "(string, pending) jsmap"
  lg_tick :: int

definition newLedger :: "chain_params \<Rightarrow> ledger" where
  "newLedger params = \<lparr>lg_params = params, lg_chains = [], lg_pending = [], lg_tick = 0\<rparr>"

datatype apply_error = AppendError append_error | AheadInvalid write_error

datatype apply_result =
    Applied "write list" bool
  | Refused apply_error "(write \<times> write) option"

text \<open>The loop that appends buffered writes now unblocked; every turn removes an entry of the buffer.\<close>

function drain ::
  "(bytes \<Rightarrow> bytes) \<Rightarrow> (bytes \<Rightarrow> bytes \<Rightarrow> bytes \<Rightarrow> bool) \<Rightarrow> bool \<Rightarrow> writer_chain \<Rightarrow> pending \<Rightarrow> int \<Rightarrow> write list
   \<Rightarrow> writer_chain \<times> pending \<times> apply_result" where
  "drain H edv skip chain pend s applied = (case map_of pend s of
     None \<Rightarrow> (chain, pend, Applied applied False)
   | Some (nxt, _) \<Rightarrow>
       let pend' = map_del s pend in
       (case append_write H edv chain nxt skip of
          (chain', AppendOk) \<Rightarrow> drain H edv skip chain' pend' (s + 1) (applied @ [nxt])
        | (chain', AppendFail e eq) \<Rightarrow> (chain', pend', Refused (AppendError e) eq)))"
  by pat_completeness auto
termination
proof (relation "measure (\<lambda>(H, edv, skip, chain, pend, s, applied). length pend)")
  fix pend :: pending and s p nxt n pend'
  assume "map_of pend s = Some p" and d: "pend' = map_del s pend"
  then have "length (filter (\<lambda>(k', _). k' \<noteq> s) pend) < length pend"
    by (intro length_filter_less) (auto dest!: map_of_SomeD)
  then have "length pend' < length pend" unfolding d map_del_filter .
  then show "((H, edv, skip, chain', pend', s + 1, applied @ [nxt]), H, edv, skip, chain, pend, s, applied)
     \<in> measure (\<lambda>(H, edv, skip, chain, pend, s, applied). length pend)" for H edv skip chain chain' applied by simp
qed simp

declare drain.simps [simp del]

definition set_pending :: "ledger \<Rightarrow> string \<Rightarrow> pending \<Rightarrow> ledger" where
  "set_pending l w p = l\<lparr>lg_pending := map_set w p (lg_pending l)\<rparr>"

definition set_chain :: "ledger \<Rightarrow> string \<Rightarrow> writer_chain \<Rightarrow> ledger" where
  "set_chain l w c = l\<lparr>lg_chains := map_set w c (lg_chains l)\<rparr>"

text \<open>The chain of a writer, created when it is new.\<close>

definition ensure_chain :: "ledger \<Rightarrow> write \<Rightarrow> ledger" where
  "ensure_chain l w = (case map_of (lg_chains l) (w_writer w) of
     Some _ \<Rightarrow> l
   | None \<Rightarrow> set_pending (set_chain l (w_writer w)
       (newChain (w_writer w) (Some (pc_root (w_plot w))) (lg_params l) 0 None)) (w_writer w) [])"

definition pending_of :: "ledger \<Rightarrow> string \<Rightarrow> pending" where
  "pending_of l w = (case map_of (lg_pending l) w of Some p \<Rightarrow> p | None \<Rightarrow> [])"

definition decay :: "int \<Rightarrow> pending \<Rightarrow> pending" where
  "decay tick pend = filter (\<lambda>(_, e). \<not> tick - snd e > PENDING_MAX_AGE) pend"

definition apply_write ::
  "(bytes \<Rightarrow> bytes) \<Rightarrow> (bytes \<Rightarrow> bytes \<Rightarrow> bytes \<Rightarrow> bool) \<Rightarrow> ledger \<Rightarrow> write \<Rightarrow> bool \<Rightarrow> ledger \<times> apply_result" where
  "apply_write H edv l0 w skip =
     (let l1 = ensure_chain (l0\<lparr>lg_tick := lg_tick l0 + 1\<rparr>) w;
          chain = the (map_of (lg_chains l1) (w_writer w));
          pend = decay (lg_tick l1) (pending_of l1 (w_writer w));
          l = set_pending l1 (w_writer w) pend
      in if w_seq w < wc_baseSeq chain then (l, Applied [] False)
         else (case (if w_seq w < nextSeq chain then chain_at chain (w_seq w) else map_option fst (map_of pend (w_seq w))) of
             Some existing \<Rightarrow> if w_id existing = w_id w then (l, Applied [] False)
               else (l, Refused (AppendError Equivocation) (Some (existing, w)))
           | None \<Rightarrow>
               if w_seq w > nextSeq chain then
                 (case verifyWrite H edv w (lg_params l) skip of
                    Some e \<Rightarrow> (l, Refused (AheadInvalid e) None)
                  | None \<Rightarrow> (set_pending l (w_writer w) (map_set (w_seq w) (w, lg_tick l) pend), Applied [] True))
               else (case append_write H edv chain w skip of
                   (chain', AppendFail e eq) \<Rightarrow> (set_chain l (w_writer w) chain', Refused (AppendError e) eq)
                 | (chain', AppendOk) \<Rightarrow>
                     (case drain H edv skip chain' pend (nextSeq chain') [w] of
                        (chain'', pend', r) \<Rightarrow> (set_pending (set_chain l (w_writer w) chain'') (w_writer w) pend', r)))))"

definition chain_head :: "writer_chain \<Rightarrow> head option" where
  "chain_head c = map_option (\<lambda>i. \<lparr>h_id = i,
     h_seq = (if length (wc_writes c) > 0 then w_seq (last (wc_writes c)) else wc_baseSeq c - 1)\<rparr>) (headId c)"

definition ledger_heads :: "ledger \<Rightarrow> heads" where
  "ledger_heads l = fold (\<lambda>(w, c) out. case chain_head c of None \<Rightarrow> out | Some h \<Rightarrow> map_set w h out) (lg_chains l) []"

definition ledger_stateRoot :: "(bytes \<Rightarrow> bytes) \<Rightarrow> ledger \<Rightarrow> string" where
  "ledger_stateRoot H l = rootOfHeads H (ledger_heads l)"

definition writesFrom :: "ledger \<Rightarrow> string \<Rightarrow> int \<Rightarrow> write list" where
  "writesFrom l writer fromSeq = (case map_of (lg_chains l) writer of None \<Rightarrow> []
     | Some c \<Rightarrow> drop (nat (max 0 (fromSeq - wc_baseSeq c))) (wc_writes c))"

definition idAt :: "ledger \<Rightarrow> string \<Rightarrow> int \<Rightarrow> string option" where
  "idAt l writer seq = (case map_of (lg_chains l) writer of None \<Rightarrow> None
     | Some c \<Rightarrow> if seq = wc_baseSeq c - 1 then wc_baseHeadId c else map_option w_id (chain_at c seq))"

definition seedCheckpoint :: "ledger \<Rightarrow> heads \<Rightarrow> ledger" where
  "seedCheckpoint l hs = fold (\<lambda>(w, h) l. set_pending (set_chain l w (resumeAt w (lg_params l) (h_seq h + 1) (h_id h))) w []) hs l"

definition relink :: "(bytes \<Rightarrow> bytes) \<Rightarrow> (bytes \<Rightarrow> bytes \<Rightarrow> bytes \<Rightarrow> bool) \<Rightarrow> write list \<Rightarrow> writer_chain \<Rightarrow> writer_chain" where
  "relink H edv ws c = fold (\<lambda>w c. fst (append_write H edv c w False)) ws c"

definition pruneBelow :: "(bytes \<Rightarrow> bytes) \<Rightarrow> (bytes \<Rightarrow> bytes \<Rightarrow> bytes \<Rightarrow> bool) \<Rightarrow> ledger \<Rightarrow> heads \<Rightarrow> ledger" where
  "pruneBelow H edv l hs = fold (\<lambda>(w, h) l. case map_of (lg_chains l) w of None \<Rightarrow> l
     | Some chain \<Rightarrow> if h_seq h < wc_baseSeq chain then l
         else let keep = filter (\<lambda>x. w_seq x > h_seq h) (wc_writes chain);
                  resumed = resumeAt w (lg_params l) (h_seq h + 1) (h_id h)
              in set_chain l w (relink H edv keep resumed)) hs l"

definition ledger_reset :: "ledger \<Rightarrow> ledger" where
  "ledger_reset l = l\<lparr>lg_chains := [], lg_pending := [], lg_tick := 0\<rparr>"

definition allWrites :: "ledger \<Rightarrow> write list" where
  "allWrites l = concat (map wc_writes (vals (lg_chains l)))"

definition totalWeight :: "ledger \<Rightarrow> int" where
  "totalWeight l = (\<Sum>c \<leftarrow> vals (lg_chains l). wc_weight c)"

definition ledger_summary :: "ledger \<Rightarrow> int \<times> int" where
  "ledger_summary l = (int (length (lg_chains l)), (\<Sum>c \<leftarrow> vals (lg_chains l). int (length (wc_writes c))))"


section \<open>The root commits to the heads\<close>

text \<open>Two heads objects are the same when they answer every lookup alike; the order their keys came in is
  forgotten by the sort.\<close>

lemma sort_keys_cong:
  assumes "distinct (keys a)" "distinct (keys b)" "map_of a = map_of b"
  shows "sort (keys a) = sort (keys b)"
proof -
  have "mset (keys a) = mset (keys b)"
    using map_of_distinct_eq_perm[OF assms] by (metis mset_map)
  then show ?thesis by (intro properties_for_sort) simp_all
qed

lemma head_entries_cong:
  assumes "distinct (keys a)" "distinct (keys b)" "map_of a = map_of b"
  shows "head_entries a = head_entries b"
proof -
  have "head_entry a = head_entry b" by (rule ext) (simp only: head_entry_def assms(3))
  with sort_keys_cong[OF assms] show ?thesis unfolding head_entries_def by (simp only:)
qed

lemma wf_head_entries [simp]: "wf_json (head_entries hs)"
  by (auto simp: head_entries_def head_entry_def split: option.splits)

lemma sortValue_head_entry:
  "sortValue (head_entry hs w) = head_entry hs w"
  by (simp add: head_entry_def split: option.splits)

lemma head_entry_Some:
  "w \<in> set (keys hs) \<Longrightarrow> \<exists>h. map_of hs w = Some h \<and> head_entry hs w = JArr [JStr w, JStr (h_id h), JInt (h_seq h)]"
  by (cases "map_of hs w") (auto simp: head_entry_def map_of_None_keys)

lemma head_entry_eqD:
  assumes "head_entry a w = head_entry b v" "w \<in> set (keys a)" "v \<in> set (keys b)"
  shows "w = v \<and> map_of a w = map_of b v"
  using head_entry_Some[OF assms(2)] head_entry_Some[OF assms(3)] assms(1)
  by (auto intro!: head.equality)

lemma list_head_entry_inj:
  "map (head_entry a) ws = map (head_entry b) vs \<Longrightarrow> set ws \<subseteq> set (keys a) \<Longrightarrow> set vs \<subseteq> set (keys b) \<Longrightarrow>
   ws = vs \<and> (\<forall>w \<in> set ws. map_of a w = map_of b w)"
proof (induction ws arbitrary: vs)
  case (Cons w ws)
  then obtain v vs' where vs: "vs = v # vs'" by (cases vs) auto
  have "w = v \<and> map_of a w = map_of b v"
    by (rule head_entry_eqD) (use Cons.prems vs in auto)
  moreover have "ws = vs' \<and> (\<forall>w \<in> set ws. map_of a w = map_of b w)"
    by (rule Cons.IH) (use Cons.prems vs in auto)
  ultimately show ?case using vs by auto
qed simp

lemma head_entries_inj:
  assumes "sortValue (head_entries a) = sortValue (head_entries b)"
  shows "map_of a = map_of b"
proof -
  have "map (head_entry a) (sort (keys a)) = map (head_entry b) (sort (keys b))"
    using assms by (simp add: head_entries_def sortValue_head_entry o_def)
  then have *: "sort (keys a) = sort (keys b)" "\<forall>w \<in> set (keys a). map_of a w = map_of b w"
    using list_head_entry_inj[of a "sort (keys a)" b "sort (keys b)"] by auto
  have "set (keys a) = set (keys b)" using *(1) by (metis set_sort)
  show ?thesis
  proof
    fix w
    show "map_of a w = map_of b w"
    proof (cases "w \<in> set (keys a)")
      case False
      then have "map_of a w = None" "map_of b w = None"
        using \<open>set (keys a) = set (keys b)\<close> by (simp_all only: map_of_None_keys not_False_eq_True)
      then show ?thesis by simp
    qed (use *(2) in blast)
  qed
qed

interpretation heads_commit: commitment "\<lambda>hs. canonicalize (head_entries hs)" map_of "\<lambda>hs. True"
  by unfold_locales (metis canonicalize_eq_iff head_entries_inj wf_head_entries)


section \<open>The ledger invariant\<close>

text \<open>A buffered write is verified and filed under its own sequence number.\<close>

definition pend_ok :: "(bytes \<Rightarrow> bytes) \<Rightarrow> (bytes \<Rightarrow> bytes \<Rightarrow> bytes \<Rightarrow> bool) \<Rightarrow> chain_params \<Rightarrow> string \<Rightarrow> pending \<Rightarrow> bool" where
  "pend_ok H edv params writer p \<longleftrightarrow> distinct (keys p)
     \<and> (\<forall>(s, x, t) \<in> set p. w_seq x = s \<and> w_writer x = writer \<and> verifyWrite H edv x params True = None)"

definition ledger_ok :: "(bytes \<Rightarrow> bytes) \<Rightarrow> (bytes \<Rightarrow> bytes \<Rightarrow> bytes \<Rightarrow> bool) \<Rightarrow> ledger \<Rightarrow> bool" where
  "ledger_ok H edv l \<longleftrightarrow> distinct (keys (lg_chains l)) \<and> distinct (keys (lg_pending l))
     \<and> (\<forall>w c. map_of (lg_chains l) w = Some c \<longrightarrow> wc_writer c = w \<and> wc_params c = lg_params l \<and> chain_ok H edv c)
     \<and> (\<forall>w p. map_of (lg_pending l) w = Some p \<longrightarrow> pend_ok H edv (lg_params l) w p)"

lemma newLedger_ok: "ledger_ok H edv (newLedger params)"
  by (simp add: ledger_ok_def newLedger_def)

lemma pend_ok_Nil [simp]: "pend_ok H edv params w []"
  by (simp add: pend_ok_def)

lemma pend_ok_del: "pend_ok H edv params w p \<Longrightarrow> pend_ok H edv params w (map_del s p)"
  unfolding pend_ok_def map_del_filter by (auto simp: distinct_keys_filter)

lemma pend_ok_decay: "pend_ok H edv params w p \<Longrightarrow> pend_ok H edv params w (decay t p)"
  unfolding pend_ok_def decay_def by (auto simp: distinct_keys_filter)

lemma pend_ok_set:
  assumes "pend_ok H edv params w p" "w_seq x = s" "w_writer x = w" "verifyWrite H edv x params True = None"
  shows "pend_ok H edv params w (map_set s (x, t) p)"
proof -
  have "set (map_set s (x, t) p) \<subseteq> insert (s, x, t) (set p)"
    by (induction p) auto
  then show ?thesis using assms by (fastforce simp: pend_ok_def distinct_update)
qed

lemma pend_ok_get:
  "pend_ok H edv params w p \<Longrightarrow> map_of p s = Some (x, t) \<Longrightarrow>
   w_seq x = s \<and> w_writer x = w \<and> verifyWrite H edv x params True = None"
  unfolding pend_ok_def by (fastforce dest!: map_of_SomeD)

lemma ledger_ok_set_chain:
  assumes "ledger_ok H edv l" "wc_writer c = w" "wc_params c = lg_params l" "chain_ok H edv c"
  shows "ledger_ok H edv (set_chain l w c)"
  using assms by (auto simp: ledger_ok_def set_chain_def map_of_set distinct_update)

lemma ledger_ok_set_pending:
  "ledger_ok H edv l \<Longrightarrow> pend_ok H edv (lg_params l) w p \<Longrightarrow> ledger_ok H edv (set_pending l w p)"
  by (auto simp: ledger_ok_def set_pending_def map_of_set distinct_update)

lemma lg_params_set [simp]: "lg_params (set_chain l w c) = lg_params l" "lg_params (set_pending l w p) = lg_params l"
  by (simp_all add: set_chain_def set_pending_def)

lemma append_keeps:
  "append_write H edv c w skip = (c', r) \<Longrightarrow>
   wc_writer c' = wc_writer c \<and> wc_params c' = wc_params c \<and> wc_baseSeq c' = wc_baseSeq c \<and> wc_baseHeadId c' = wc_baseHeadId c"
  by (auto simp: append_write_def split: option.splits if_splits)

text \<open>The drain appends a run of writes at the tip: it reports exactly the writes it appended, unless one of
  them is refused; then the chain has still grown by those before it.\<close>

lemma drain_spec:
  assumes "drain H edv skip c p s app = (c', p', r)" "chain_ok H edv c" "pend_ok H edv (wc_params c) (wc_writer c) p"
    "s = nextSeq c"
  shows "chain_ok H edv c' \<and> wc_writer c' = wc_writer c \<and> wc_params c' = wc_params c \<and> wc_baseSeq c' = wc_baseSeq c
    \<and> pend_ok H edv (wc_params c) (wc_writer c) p' \<and> set p' \<subseteq> set p
    \<and> (\<exists>ds. wc_writes c' = wc_writes c @ ds \<and> (r = Applied (app @ ds) False \<or> (\<exists>e eq. r = Refused (AppendError e) eq)))"
  using assms
proof (induction H edv skip c p s app rule: drain.induct)
  case (1 H edv skip c p s app)
  show ?case
  proof (cases "map_of p s")
    case None
    then have "(c', p', r) = (c, p, Applied app False)"
      using "1.prems"(1) by (simp add: drain.simps[of H edv skip c p s app])
    then show ?thesis using "1.prems"(2,3) by auto
  next
    case (Some e)
    obtain x t where e: "e = (x, t)" by (cases e)
    obtain c1 r1 where ap: "append_write H edv c x skip = (c1, r1)" by (cases "append_write H edv c x skip")
    have x: "w_seq x = s" "w_writer x = wc_writer c" using pend_ok_get[OF "1.prems"(3)] Some e by auto
    have del: "set (map_del s p) \<subseteq> set p" unfolding map_del_filter by auto
    have ok1: "chain_ok H edv c1" by (rule append_ok[OF "1.prems"(2) ap])
    note keep = append_keeps[OF ap]
    show ?thesis
    proof (cases r1)
      case AppendOk
      have "chain_at c s = None" by (simp add: chain_at_def Let_def "1.prems"(4) nextSeq_def)
      then have "map_of (wc_bySeq c) (w_seq x) = None" using "1.prems"(2) x by (simp add: chain_ok_def)
      then have c1: "c1 = extended c x" using append_cases[OF ap] AppendOk by auto
      have n1: "s + 1 = nextSeq c1" by (simp add: c1 extended_def nextSeq_def "1.prems"(4))
      have d: "drain H edv skip c1 (map_del s p) (s + 1) (app @ [x]) = (c', p', r)"
        using "1.prems"(1) Some e ap AppendOk by (simp add: drain.simps[of H edv skip c p s app] Let_def)
      have po: "pend_ok H edv (wc_params c1) (wc_writer c1) (map_del s p)"
        using pend_ok_del[OF "1.prems"(3)] keep by simp
      have *: "chain_ok H edv c' \<and> wc_writer c' = wc_writer c1 \<and> wc_params c' = wc_params c1 \<and> wc_baseSeq c' = wc_baseSeq c1
        \<and> pend_ok H edv (wc_params c1) (wc_writer c1) p' \<and> set p' \<subseteq> set (map_del s p)
        \<and> (\<exists>ds. wc_writes c' = wc_writes c1 @ ds \<and> (r = Applied ((app @ [x]) @ ds) False \<or> (\<exists>e eq. r = Refused (AppendError e) eq)))"
        by (rule "1.IH"[OF Some e[symmetric] refl ap[symmetric] AppendOk d ok1 po n1])
      then obtain ds where ds: "wc_writes c' = wc_writes c1 @ ds"
        "r = Applied ((app @ [x]) @ ds) False \<or> (\<exists>e eq. r = Refused (AppendError e) eq)" by blast
      have "wc_writes c' = wc_writes c @ (x # ds)" using ds(1) by (simp add: c1 extended_def)
      moreover have "r = Applied (app @ (x # ds)) False \<or> (\<exists>e eq. r = Refused (AppendError e) eq)" using ds(2) by simp
      ultimately show ?thesis using * keep del by (metis subset_trans)
    next
      case (AppendFail e1 eq1)
      have "c1 = c" using append_cases[OF ap] AppendFail by auto
      then have "(c', p', r) = (c, map_del s p, Refused (AppendError e1) eq1)"
        using "1.prems"(1) Some e ap AppendFail by (simp add: drain.simps[of H edv skip c p s app] Let_def)
      then show ?thesis using "1.prems"(2) pend_ok_del[OF "1.prems"(3)] del by auto
    qed
  qed
qed


lemma map_set_same: "map_of m k = Some v \<Longrightarrow> map_set k v m = m"
  by (induction m) (auto split: if_splits)

lemma ensure_ok: "ledger_ok H edv l \<Longrightarrow> ledger_ok H edv (ensure_chain l w)"
  unfolding ensure_chain_def
  using newChain_ok[of H edv "w_writer w" "Some (pc_root (w_plot w))" "lg_params l" 0 None]
  by (auto split: option.split intro!: ledger_ok_set_pending ledger_ok_set_chain simp: newChain_def)

lemma ensure_params [simp]: "lg_params (ensure_chain l w) = lg_params l"
  by (simp add: ensure_chain_def split: option.split)

lemma ensure_has: "\<exists>c. map_of (lg_chains (ensure_chain l w)) (w_writer w) = Some c"
  by (auto simp: ensure_chain_def set_chain_def set_pending_def map_of_set split: option.split)

lemma pending_of_ok: "ledger_ok H edv l \<Longrightarrow> pend_ok H edv (lg_params l) w (pending_of l w)"
  by (auto simp: pending_of_def ledger_ok_def split: option.split)

lemma ledger_ok_tick: "ledger_ok H edv l \<Longrightarrow> ledger_ok H edv (l\<lparr>lg_tick := t\<rparr>)"
  by (simp add: ledger_ok_def)

text \<open>One call of \<open>apply\<close>, with its local variables named: \<open>c\<close> the writer's chain, \<open>p\<close> its buffer after
  the decay, \<open>existing\<close> the write already held in the slot.\<close>

lemma apply_write_eq:
  assumes l1: "l1 = ensure_chain (l0\<lparr>lg_tick := lg_tick l0 + 1\<rparr>) w"
    and p: "p = decay (lg_tick l1) (pending_of l1 (w_writer w))" and l: "l = set_pending l1 (w_writer w) p"
    and c: "map_of (lg_chains l1) (w_writer w) = Some c"
    and ex: "existing = (if w_seq w < nextSeq c then chain_at c (w_seq w) else map_option fst (map_of p (w_seq w)))"
  shows "apply_write H edv l0 w skip = (if w_seq w < wc_baseSeq c then (l, Applied [] False)
         else (case existing of
             Some existing \<Rightarrow> if w_id existing = w_id w then (l, Applied [] False)
               else (l, Refused (AppendError Equivocation) (Some (existing, w)))
           | None \<Rightarrow>
               if w_seq w > nextSeq c then
                 (case verifyWrite H edv w (lg_params l) skip of
                    Some e \<Rightarrow> (l, Refused (AheadInvalid e) None)
                  | None \<Rightarrow> (set_pending l (w_writer w) (map_set (w_seq w) (w, lg_tick l) p), Applied [] True))
               else (case append_write H edv c w skip of
                   (chain', AppendFail e eq) \<Rightarrow> (set_chain l (w_writer w) chain', Refused (AppendError e) eq)
                 | (chain', AppendOk) \<Rightarrow>
                     (case drain H edv skip chain' p (nextSeq chain') [w] of
                        (chain'', pend', r) \<Rightarrow> (set_pending (set_chain l (w_writer w) chain'') (w_writer w) pend', r)))))"
proof -
  have "lg_tick l = lg_tick l1" by (simp add: l set_pending_def)
  then show ?thesis
    unfolding apply_write_def Let_def l1[symmetric] c option.sel p[symmetric] l[symmetric] ex by (simp only:)
qed

text \<open>What one call of \<open>apply\<close> starts from, and its outcomes; the proofs below go through this lemma.\<close>

lemma apply_cases:
  assumes l: "ledger_ok H edv l0" and ap: "apply_write H edv l0 w skip = (l', r)"
  obtains l c p where
    "l = set_pending (ensure_chain (l0\<lparr>lg_tick := lg_tick l0 + 1\<rparr>) w) (w_writer w) p"
    "ledger_ok H edv l" "lg_params l = lg_params l0"
    "map_of (lg_chains l) (w_writer w) = Some c" "wc_writer c = w_writer w" "wc_params c = lg_params l" "chain_ok H edv c"
    "pend_ok H edv (lg_params l) (w_writer w) p"
    "(l' = l \<and> (r = Applied [] False \<or> (\<exists>e eq. r = Refused e eq)))
     \<or> (l' = set_pending l (w_writer w) (map_set (w_seq w) (w, lg_tick l) p) \<and> r = Applied [] True
         \<and> verifyWrite H edv w (lg_params l) skip = None \<and> w_seq w > nextSeq c)
     \<or> (\<exists>c1 c2 p2. append_write H edv c w skip = (c1, AppendOk) \<and> w_seq w = nextSeq c \<and> c1 = extended c w
         \<and> drain H edv skip c1 p (nextSeq c1) [w] = (c2, p2, r)
         \<and> l' = set_pending (set_chain l (w_writer w) c2) (w_writer w) p2)"
proof -
  define l1 where "l1 = ensure_chain (l0\<lparr>lg_tick := lg_tick l0 + 1\<rparr>) w"
  define p where "p = decay (lg_tick l1) (pending_of l1 (w_writer w))"
  define l where "l = set_pending l1 (w_writer w) p"
  have l1: "ledger_ok H edv l1" unfolding l1_def by (intro ensure_ok ledger_ok_tick l)
  have p: "pend_ok H edv (lg_params l1) (w_writer w) p" unfolding p_def by (intro pend_ok_decay pending_of_ok l1)
  have lok: "ledger_ok H edv l" unfolding l_def by (rule ledger_ok_set_pending[OF l1 p])
  obtain c where c1: "map_of (lg_chains l1) (w_writer w) = Some c" using ensure_has unfolding l1_def by metis
  then have c: "map_of (lg_chains l) (w_writer w) = Some c" by (simp add: l_def set_pending_def)
  then have c2: "wc_writer c = w_writer w" "wc_params c = lg_params l" "chain_ok H edv c"
    using lok by (auto simp: ledger_ok_def)
  have par: "lg_params l = lg_params l1" "lg_params l = lg_params l0" by (simp_all add: l_def l1_def)
  define existing where "existing = (if w_seq w < nextSeq c then chain_at c (w_seq w) else map_option fst (map_of p (w_seq w)))"
  have eq: "apply_write H edv l0 w skip = (if w_seq w < wc_baseSeq c then (l, Applied [] False)
         else (case existing of
             Some existing \<Rightarrow> if w_id existing = w_id w then (l, Applied [] False)
               else (l, Refused (AppendError Equivocation) (Some (existing, w)))
           | None \<Rightarrow>
               if w_seq w > nextSeq c then
                 (case verifyWrite H edv w (lg_params l) skip of
                    Some e \<Rightarrow> (l, Refused (AheadInvalid e) None)
                  | None \<Rightarrow> (set_pending l (w_writer w) (map_set (w_seq w) (w, lg_tick l) p), Applied [] True))
               else (case append_write H edv c w skip of
                   (chain', AppendFail e eq) \<Rightarrow> (set_chain l (w_writer w) chain', Refused (AppendError e) eq)
                 | (chain', AppendOk) \<Rightarrow>
                     (case drain H edv skip chain' p (nextSeq chain') [w] of
                        (chain'', pend', r) \<Rightarrow> (set_pending (set_chain l (w_writer w) chain'') (w_writer w) pend', r)))))"
    by (rule apply_write_eq[OF l1_def p_def l_def c1 existing_def])
  have same: "set_chain l (w_writer w) c = l" using map_set_same[OF c] by (simp add: set_chain_def)
  obtain c1' r1 where a: "append_write H edv c w skip = (c1', r1)" by (cases "append_write H edv c w skip")
  note ac = append_cases[OF a]
  have "(l' = l \<and> (r = Applied [] False \<or> (\<exists>e eq. r = Refused e eq)))
     \<or> (l' = set_pending l (w_writer w) (map_set (w_seq w) (w, lg_tick l) p) \<and> r = Applied [] True
         \<and> verifyWrite H edv w (lg_params l) skip = None \<and> w_seq w > nextSeq c)
     \<or> (\<exists>c1 c2 p2. append_write H edv c w skip = (c1, AppendOk) \<and> w_seq w = nextSeq c \<and> c1 = extended c w
         \<and> drain H edv skip c1 p (nextSeq c1) [w] = (c2, p2, r)
         \<and> l' = set_pending (set_chain l (w_writer w) c2) (w_writer w) p2)"
  proof (cases "w_seq w < wc_baseSeq c \<or> existing \<noteq> None \<or> w_seq w > nextSeq c \<or> r1 \<noteq> AppendOk")
    case True
    then show ?thesis using ap[unfolded eq] same ac
      by (auto simp: a split: option.splits if_splits append_result.splits prod.splits)
  next
    case False
    have "w_seq w = nextSeq c"
    proof (rule ccontr)
      assume "w_seq w \<noteq> nextSeq c"
      with False have "w_seq w < nextSeq c" "wc_baseSeq c \<le> w_seq w" by auto
      then have "existing \<noteq> None" by (simp add: existing_def chain_at_def Let_def nextSeq_def)
      with False show False by blast
    qed
    moreover have "map_of (wc_bySeq c) (nextSeq c) = None"
      using c2(3) by (simp add: chain_ok_def chain_at_def Let_def nextSeq_def)
    ultimately have "c1' = extended c w" "r1 = AppendOk" using ac False by auto
    then show ?thesis using ap[unfolded eq] False \<open>w_seq w = nextSeq c\<close> by (auto simp: a split: prod.splits)
  qed
  from that[OF _ lok par(2) c c2 _ this] p par(1) show ?thesis by (simp add: l_def l1_def)
qed


lemma lg_tick_set [simp]: "lg_tick (set_chain l w c) = lg_tick l" "lg_tick (set_pending l w p) = lg_tick l"
  by (simp_all add: set_chain_def set_pending_def)

lemma lg_chains_set [simp]: "lg_chains (set_pending l w p) = lg_chains l" "lg_chains (set_chain l w c) = map_set w c (lg_chains l)"
  by (simp_all add: set_chain_def set_pending_def)

lemma lg_pending_set [simp]: "lg_pending (set_chain l w c) = lg_pending l" "lg_pending (set_pending l w p) = map_set w p (lg_pending l)"
  by (simp_all add: set_chain_def set_pending_def)

lemma pending_of_set [simp]: "pending_of (set_pending l w p) v = (if v = w then p else pending_of l v)"
  "pending_of (set_chain l w c) v = pending_of l v"
  by (simp_all add: pending_of_def map_of_set)

lemma ensure_frame:
  "v \<noteq> w_writer w \<Longrightarrow> map_of (lg_chains (ensure_chain l w)) v = map_of (lg_chains l) v"
  "v \<noteq> w_writer w \<Longrightarrow> pending_of (ensure_chain l w) v = pending_of l v"
  "lg_tick (ensure_chain l w) = lg_tick l"
  by (simp_all add: ensure_chain_def map_of_set split: option.split)

text \<open>A call touches the writer it is about, and the tick.\<close>

lemma apply_frame:
  assumes "ledger_ok H edv l0" "apply_write H edv l0 w skip = (l', r)"
  shows "lg_params l' = lg_params l0 \<and> lg_tick l' = lg_tick l0 + 1
    \<and> (\<forall>v. v \<noteq> w_writer w \<longrightarrow> map_of (lg_chains l') v = map_of (lg_chains l0) v \<and> pending_of l' v = pending_of l0 v)"
  by (rule apply_cases[OF assms])
    (auto simp: map_of_set ensure_frame pending_of_def[of "l0\<lparr>lg_tick := lg_tick l0 + 1\<rparr>"] pending_of_def[of l0])

lemma apply_keeps_ok:
  assumes "ledger_ok H edv l0" "apply_write H edv l0 w skip = (l', r)"
  shows "ledger_ok H edv l'"
proof (rule apply_cases[OF assms])
  fix l c p
  assume *: "ledger_ok H edv l" "map_of (lg_chains l) (w_writer w) = Some c" "wc_writer c = w_writer w"
    "wc_params c = lg_params l" "chain_ok H edv c" "pend_ok H edv (lg_params l) (w_writer w) p"
    and cs: "l' = l \<and> (r = Applied [] False \<or> (\<exists>e eq. r = Refused e eq))
     \<or> l' = set_pending l (w_writer w) (map_set (w_seq w) (w, lg_tick l) p) \<and> r = Applied [] True
         \<and> verifyWrite H edv w (lg_params l) skip = None \<and> w_seq w > nextSeq c
     \<or> (\<exists>c1 c2 p2. append_write H edv c w skip = (c1, AppendOk) \<and> w_seq w = nextSeq c \<and> c1 = extended c w
         \<and> drain H edv skip c1 p (nextSeq c1) [w] = (c2, p2, r)
         \<and> l' = set_pending (set_chain l (w_writer w) c2) (w_writer w) p2)"
  from cs consider (same) "l' = l" | (ahead) "l' = set_pending l (w_writer w) (map_set (w_seq w) (w, lg_tick l) p)"
      "verifyWrite H edv w (lg_params l) skip = None"
    | (app) c1 c2 p2 where "append_write H edv c w skip = (c1, AppendOk)" "c1 = extended c w"
      "drain H edv skip c1 p (nextSeq c1) [w] = (c2, p2, r)"
      "l' = set_pending (set_chain l (w_writer w) c2) (w_writer w) p2"
    by (elim disjE exE conjE) auto
  then show ?thesis
  proof cases
    case ahead
    then show ?thesis using * verifyWrite_skip by (auto intro!: ledger_ok_set_pending pend_ok_set)
  next
    case app
    have c1: "chain_ok H edv c1" by (rule append_ok[OF *(5) app(1)])
    have k: "wc_writer c1 = w_writer w" "wc_params c1 = lg_params l" using append_keeps[OF app(1)] * by auto
    have "pend_ok H edv (wc_params c1) (wc_writer c1) p" using * k by simp
    note d = drain_spec[OF app(3) c1 this refl]
    show ?thesis unfolding app(4)
      by (intro ledger_ok_set_pending ledger_ok_set_chain) (use d k * in auto)
  qed (use * in simp)
qed


section \<open>Gossip in any order converges\<close>

text \<open>A run of writes of one writer: all verified, numbered from 0, hash-linked, of one plot.\<close>

definition valid_run ::
  "(bytes \<Rightarrow> bytes) \<Rightarrow> (bytes \<Rightarrow> bytes \<Rightarrow> bytes \<Rightarrow> bool) \<Rightarrow> chain_params \<Rightarrow> string \<Rightarrow> write list \<Rightarrow> bool" where
  "valid_run H edv params W ws \<longleftrightarrow> (\<forall>i < length ws. verifyWrite H edv (ws ! i) params False = None
     \<and> w_writer (ws ! i) = W \<and> w_seq (ws ! i) = int i \<and> w_prev (ws ! i) = (if i = 0 then None else Some (w_id (ws ! (i - 1))))
     \<and> pc_root (w_plot (ws ! i)) = pc_root (w_plot (ws ! 0)))"

definition run_chain :: "chain_params \<Rightarrow> string \<Rightarrow> write list \<Rightarrow> nat \<Rightarrow> writer_chain \<Rightarrow> bool" where
  "run_chain params W ws n c \<longleftrightarrow> wc_writer c = W \<and> wc_params c = params \<and> wc_plotRoot c = Some (pc_root (w_plot (ws ! 0)))
     \<and> wc_writes c = take n ws \<and> wc_baseSeq c = 0 \<and> wc_baseHeadId c = None"

lemma run_chain_next: "run_chain params W ws n c \<Longrightarrow> n \<le> length ws \<Longrightarrow> nextSeq c = int n"
  by (simp add: run_chain_def nextSeq_def)

lemma run_append:
  assumes "valid_run H edv params W ws" "run_chain params W ws n c" "chain_ok H edv c" "n < length ws"
  shows "append_write H edv c (ws ! n) False = (extended c (ws ! n), AppendOk) \<and> run_chain params W ws (Suc n) (extended c (ws ! n))"
proof -
  have nx: "nextSeq c = int n" using run_chain_next[OF assms(2)] assms(4) by simp
  have "map_of (wc_bySeq c) (int n) = None"
    using assms(3) nx by (auto simp: chain_ok_def chain_at_def Let_def nextSeq_def)
  moreover have "last (take n ws) = ws ! (n - 1)" if "n \<noteq> 0"
  proof -
    have "take n ws \<noteq> []" using assms(4) that by auto
    then show ?thesis using assms(4) that by (simp add: last_conv_nth)
  qed
  then have "headId c = (if n = 0 then None else Some (w_id (ws ! (n - 1))))"
    using assms(2,4) by (auto simp: run_chain_def headId_def)
  ultimately show ?thesis
    using assms nx by (simp add: append_write_def extended_def valid_run_def run_chain_def take_Suc_conv_app_nth)
qed

lemma run_drain:
  assumes "valid_run H edv params W ws" "run_chain params W ws n c" "chain_ok H edv c" "n \<le> length ws"
    and "\<And>s x t. map_of p s = Some (x, t) \<Longrightarrow> \<exists>i < length ws. s = int i \<and> x = ws ! i"
  shows "\<exists>m c' p'. n \<le> m \<and> m \<le> length ws \<and> drain H edv False c p (int n) app = (c', p', Applied (app @ drop n (take m ws)) False)
    \<and> run_chain params W ws m c' \<and> (\<forall>s. map_of p' s = (if int n \<le> s \<and> s < int m then None else map_of p s))
    \<and> map_of p (int m) = None \<and> (\<forall>i. n \<le> i \<and> i < m \<longrightarrow> map_of p (int i) \<noteq> None)"
  using assms(2-5)
proof (induction "length ws - n" arbitrary: n c p app)
  case 0
  then have "map_of p (int n) = None"
  proof (cases "map_of p (int n)")
    case (Some e)
    obtain x t where "e = (x, t)" by (cases e)
    from 0(5)[OF Some[unfolded this]] 0(1,4) show ?thesis by auto
  qed simp
  then show ?case using 0 by (intro exI[of _ n] exI[of _ c] exI[of _ p]) (auto simp: drain.simps[of H edv False c p "int n" app])
next
  case (Suc k)
  show ?case
  proof (cases "map_of p (int n)")
    case None
    then show ?thesis using Suc.prems
      by (intro exI[of _ n] exI[of _ c] exI[of _ p]) (auto simp: drain.simps[of H edv False c p "int n" app])
  next
    case (Some e)
    have n: "n < length ws" using Suc.hyps(2) by simp
    obtain t where e: "e = (ws ! n, t)" using Suc.prems(4)[of "int n"] Some by (cases e) auto
    let ?c = "extended c (ws ! n)" let ?p = "map_del (int n) p"
    note a = run_append[OF assms(1) Suc.prems(1,2) n]
    have ok: "chain_ok H edv ?c" using append_ok[OF Suc.prems(2)] a by blast
    have step: "drain H edv False c p (int n) app = drain H edv False ?c ?p (int (Suc n)) (app @ [ws ! n])"
      using a by (simp add: drain.simps[of H edv False c p "int n" app] Some e Let_def add.commute)
    have "\<exists>m c' p'. Suc n \<le> m \<and> m \<le> length ws
      \<and> drain H edv False ?c ?p (int (Suc n)) (app @ [ws ! n]) = (c', p', Applied ((app @ [ws ! n]) @ drop (Suc n) (take m ws)) False)
      \<and> run_chain params W ws m c' \<and> (\<forall>s. map_of p' s = (if int (Suc n) \<le> s \<and> s < int m then None else map_of ?p s))
      \<and> map_of ?p (int m) = None \<and> (\<forall>i. Suc n \<le> i \<and> i < m \<longrightarrow> map_of ?p (int i) \<noteq> None)"
    proof (rule Suc.hyps(1))
      show "k = length ws - Suc n" using Suc.hyps(2) by simp
      show "run_chain params W ws (Suc n) ?c" using a by simp
      show "chain_ok H edv ?c" by (rule ok)
      show "Suc n \<le> length ws" using n by simp
      show "\<exists>i < length ws. s = int i \<and> x = ws ! i" if "map_of ?p s = Some (x, t)" for s x t
        using that Suc.prems(4)[of s x t] by (auto simp: map_of_delete split: if_splits)
    qed
    then obtain m c' p' where *: "Suc n \<le> m" "m \<le> length ws"
      "drain H edv False ?c ?p (int (Suc n)) (app @ [ws ! n]) = (c', p', Applied ((app @ [ws ! n]) @ drop (Suc n) (take m ws)) False)"
      "run_chain params W ws m c'" "\<forall>s. map_of p' s = (if int (Suc n) \<le> s \<and> s < int m then None else map_of ?p s)"
      "map_of ?p (int m) = None" "\<forall>i. Suc n \<le> i \<and> i < m \<longrightarrow> map_of ?p (int i) \<noteq> None" by blast
    have "drop n (take m ws) = ws ! n # drop (Suc n) (take m ws)"
      using n *(1) by (simp add: Cons_nth_drop_Suc[symmetric])
    then have "drain H edv False c p (int n) app = (c', p', Applied (app @ drop n (take m ws)) False)"
      using step *(3) by simp
    moreover have "map_of p' s = (if int n \<le> s \<and> s < int m then None else map_of p s)" for s
      using *(1,5) by (auto simp: map_of_delete)
    moreover have "map_of p (int m) = None" using *(1,6) by (simp add: map_of_delete)
    moreover have "map_of p (int i) \<noteq> None" if "n \<le> i" "i < m" for i
      using *(7) that Some by (cases "i = n") (auto simp: map_of_delete)
    ultimately show ?thesis using *(1,2,4) by (intro exI[of _ m] exI[of _ c'] exI[of _ p']) simp
  qed
qed


text \<open>The state after a set \<open>D\<close> of positions of the run has arrived: the tip is the first missing one, the
  later ones are buffered.\<close>

definition arrived ::
  "(bytes \<Rightarrow> bytes) \<Rightarrow> (bytes \<Rightarrow> bytes \<Rightarrow> bytes \<Rightarrow> bool) \<Rightarrow> ledger \<Rightarrow> string \<Rightarrow> write list \<Rightarrow> nat set \<Rightarrow> nat \<Rightarrow> bool" where
  "arrived H edv l W ws D n \<longleftrightarrow> ledger_ok H edv l \<and> n \<le> length ws \<and> {..<n} \<subseteq> D \<and> n \<notin> D \<and> 0 \<le> lg_tick l
     \<and> (case map_of (lg_chains l) W of None \<Rightarrow> D = {} | Some c \<Rightarrow> run_chain (lg_params l) W ws n c)
     \<and> (\<forall>s. map_option fst (map_of (pending_of l W) s) = (if s \<ge> int n \<and> nat s \<in> D then Some (ws ! nat s) else None))
     \<and> (\<forall>s x t. map_of (pending_of l W) s = Some (x, t) \<longrightarrow> 0 \<le> t)"

lemma decay_none:
  assumes "\<forall>s x t. map_of p s = Some (x, t) \<longrightarrow> 0 \<le> t" "distinct (keys p)" "k \<le> PENDING_MAX_AGE"
  shows "decay k p = p"
  unfolding decay_def
proof (rule filter_True, rule ballI, clarify)
  fix s x t
  assume "(s, x, t) \<in> set p" "k - snd (x, t) > PENDING_MAX_AGE"
  then show False using assms map_of_mem[OF assms(2), of s "(x, t)"] by fastforce
qed

lemma arrived_frame:
  assumes "arrived H edv l W ws D n" "apply_write H edv l w skip = (l', r)" "w_writer w \<noteq> W"
  shows "arrived H edv l' W ws D n"
proof -
  have l: "ledger_ok H edv l" using assms(1) by (simp add: arrived_def)
  note f = apply_frame[OF l assms(2)]
  have "map_of (lg_chains l') W = map_of (lg_chains l) W" "pending_of l' W = pending_of l W" using f assms(3) by auto
  then show ?thesis using assms(1) f apply_keeps_ok[OF l assms(2)]
    by (cases "map_of (lg_chains l) W") (auto simp: arrived_def)
qed

lemma arrived_step:
  assumes a: "arrived H edv l0 W ws D n" and v: "valid_run H edv (lg_params l0) W ws" and D: "D \<subseteq> {..<length ws}"
    and i: "i < length ws" and tick: "lg_tick l0 < PENDING_MAX_AGE" and ap: "apply_write H edv l0 (ws ! i) False = (l', r)"
  shows "\<exists>n'. arrived H edv l' W ws (insert i D) n'"
proof -
  let ?w = "ws ! i"
  have w: "w_writer ?w = W" "w_seq ?w = int i" "verifyWrite H edv ?w (lg_params l0) False = None"
    "pc_root (w_plot ?w) = pc_root (w_plot (ws ! 0))" using v i by (auto simp: valid_run_def)
  have lok: "ledger_ok H edv l0" and n: "n \<le> length ws" "{..<n} \<subseteq> D" "n \<notin> D" and t0: "0 \<le> lg_tick l0"
    and ch: "case map_of (lg_chains l0) W of None \<Rightarrow> D = {} | Some c \<Rightarrow> run_chain (lg_params l0) W ws n c"
    and pe: "\<And>s. map_option fst (map_of (pending_of l0 W) s) = (if s \<ge> int n \<and> nat s \<in> D then Some (ws ! nat s) else None)"
    and pt: "\<forall>s x t. map_of (pending_of l0 W) s = Some (x, t) \<longrightarrow> 0 \<le> t"
    using a unfolding arrived_def by blast+
  define l1 where "l1 = ensure_chain (l0\<lparr>lg_tick := lg_tick l0 + 1\<rparr>) ?w"
  have l1ok: "ledger_ok H edv l1" unfolding l1_def by (intro ensure_ok ledger_ok_tick lok)
  have par: "lg_params l1 = lg_params l0" by (simp add: l1_def)
  have p1: "map_option fst (map_of (pending_of l1 W) s) = (if s \<ge> int n \<and> nat s \<in> D then Some (ws ! nat s) else None)" for s
  proof (cases "map_of (lg_chains l0) W")
    case None
    then show ?thesis using ch by (simp add: l1_def ensure_chain_def w)
  qed (use pe[of s] in \<open>simp add: l1_def ensure_chain_def w pending_of_def\<close>)
  have pt1: "\<forall>s x t. map_of (pending_of l1 W) s = Some (x, t) \<longrightarrow> 0 \<le> t"
    using pt by (cases "map_of (lg_chains l0) W") (simp_all add: l1_def ensure_chain_def w pending_of_def map_of_set)
  define p where "p = pending_of l1 W"
  have dp: "distinct (keys p)" using pending_of_ok[OF l1ok] unfolding p_def pend_ok_def by blast
  have tk: "lg_tick l1 = lg_tick l0 + 1" by (simp add: l1_def ensure_frame)
  have "decay (lg_tick l1) p = p" by (rule decay_none) (use pt1 dp tick tk in \<open>auto simp: p_def\<close>)
  then have pd: "p = decay (lg_tick l1) (pending_of l1 (w_writer ?w))" by (simp add: p_def w)
  obtain c where c: "map_of (lg_chains l1) (w_writer ?w) = Some c" "run_chain (lg_params l0) W ws n c"
  proof (cases "map_of (lg_chains l0) W")
    case None
    with ch n have "n = 0" by auto
    with None show ?thesis
      by (intro that[of "newChain W (Some (pc_root (w_plot ?w))) (lg_params l0) 0 None"])
        (simp_all add: l1_def ensure_chain_def w run_chain_def newChain_def map_of_set)
  qed (use that ch in \<open>auto simp: l1_def ensure_chain_def w\<close>)
  define l where "l = set_pending l1 (w_writer ?w) p"
  have pok: "pend_ok H edv (lg_params l1) (w_writer ?w) p" unfolding p_def w(1) by (rule pending_of_ok[OF l1ok])
  have lok': "ledger_ok H edv l" unfolding l_def by (rule ledger_ok_set_pending[OF l1ok pok])
  have cok: "chain_ok H edv c" using l1ok c(1) by (auto simp: ledger_ok_def)
  have nx: "nextSeq c = int n" by (rule run_chain_next[OF c(2) n(1)])
  have base: "\<not> w_seq ?w < wc_baseSeq c" using c(2) w by (simp add: run_chain_def)
  have pm: "map_option fst (map_of p s) = (if s \<ge> int n \<and> nat s \<in> D then Some (ws ! nat s) else None)" for s
    using p1[of s] by (simp add: p_def)
  define ex where "ex = (if w_seq ?w < nextSeq c then chain_at c (w_seq ?w) else map_option fst (map_of p (w_seq ?w)))"
  have exv: "ex = (if i \<in> D then Some ?w else None)"
  proof (cases "i < n")
    case True
    then have "i \<in> D" using n by auto
    then show ?thesis using True c(2) n(1) by (simp add: ex_def nx w chain_at_def Let_def run_chain_def)
  qed (use pm in \<open>simp add: ex_def nx w\<close>)
  note eq = apply_write_eq[OF l1_def pd l_def c(1) ex_def, of H edv False]
  have arr_l: "arrived H edv l W ws D n"
    using lok' n pm t0 tk pt1 c by (auto simp: arrived_def l_def w par p_def set_chain_def)
  show ?thesis
  proof (cases "i \<in> D")
    case True
    then have "l' = l" using ap eq base exv by simp
    then show ?thesis using arr_l True by (auto simp: insert_absorb)
  next
    case iD: False
    then have "n \<le> i" using n(2) by (metis lessThan_iff not_le subsetD)
    show ?thesis
    proof (cases "n = i")
      case False
      then have "w_seq ?w > nextSeq c" using \<open>n \<le> i\<close> by (simp add: nx w)
      then have l': "l' = set_pending l W (map_set (int i) (?w, lg_tick l) p)"
        using ap[unfolded eq] base exv iD w par by (simp add: l_def)
      have "ledger_ok H edv l'" by (rule apply_keeps_ok[OF lok ap])
      moreover have "map_option fst (map_of (map_set (int i) (?w, lg_tick l) p) s)
          = (if s \<ge> int n \<and> nat s \<in> insert i D then Some (ws ! nat s) else None)" for s
        using pm[of s] \<open>n \<le> i\<close> by (cases "s = int i") (auto simp: map_of_set split: if_splits)
      moreover have "\<forall>s x t. map_of (map_set (int i) (?w, lg_tick l) p) s = Some (x, t) \<longrightarrow> 0 \<le> t"
        using pt1 t0 tk by (simp add: map_of_set l_def p_def)
      moreover have "map_of (lg_chains l') W = Some c" "lg_params l' = lg_params l0" "0 \<le> lg_tick l'"
        using c(1) w t0 tk by (simp_all add: l' l_def par)
      ultimately have "arrived H edv l' W ws (insert i D) n"
        using c(2) n False unfolding arrived_def by (auto simp: l')
      then show ?thesis by blast
    next
      case True
      have ns: "\<not> w_seq ?w > nextSeq c" by (simp add: nx w True)
      note ra = run_append[OF v c(2) cok i[folded True]]
      let ?c = "extended c ?w"
      have ok1: "chain_ok H edv ?c" using append_ok[OF cok] ra True by blast
      have pen: "\<exists>j < length ws. s = int j \<and> x = ws ! j" if "map_of p s = Some (x, t)" for s x t
        using pm[of s] that D by (auto split: if_splits intro!: exI[of _ "nat s"])
      have "\<exists>m c' p'. Suc n \<le> m \<and> m \<le> length ws
        \<and> drain H edv False ?c p (int (Suc n)) [?w] = (c', p', Applied ([?w] @ drop (Suc n) (take m ws)) False)
        \<and> run_chain (lg_params l0) W ws m c' \<and> (\<forall>s. map_of p' s = (if int (Suc n) \<le> s \<and> s < int m then None else map_of p s))
        \<and> map_of p (int m) = None \<and> (\<forall>j. Suc n \<le> j \<and> j < m \<longrightarrow> map_of p (int j) \<noteq> None)"
      proof (rule run_drain[OF v _ ok1])
        show "run_chain (lg_params l0) W ws (Suc n) ?c" using ra True by simp
        show "Suc n \<le> length ws" using i True by simp
      qed (rule pen)
      then obtain m c' p' where *: "Suc n \<le> m" "m \<le> length ws"
        "drain H edv False ?c p (int (Suc n)) [?w] = (c', p', Applied ([?w] @ drop (Suc n) (take m ws)) False)"
        "run_chain (lg_params l0) W ws m c'" "\<forall>s. map_of p' s = (if int (Suc n) \<le> s \<and> s < int m then None else map_of p s)"
        "map_of p (int m) = None" "\<forall>j. Suc n \<le> j \<and> j < m \<longrightarrow> map_of p (int j) \<noteq> None" by blast
      have nx1: "nextSeq ?c = int (Suc n)" using run_chain_next[OF ra[THEN conjunct2]] i True by simp
      have l': "l' = set_pending (set_chain l W c') W p'"
        using ap eq base exv iD ns ra *(3) nx1 True by (simp add: w)
      have "ledger_ok H edv l'" by (rule apply_keeps_ok[OF lok ap])
      moreover have "{..<m} \<subseteq> insert i D"
      proof
        fix j assume "j \<in> {..<m}"
        then consider "j < n" | "j = n" | "Suc n \<le> j" "j < m" by force
        then show "j \<in> insert i D"
        proof cases
          case 3
          then have "map_option fst (map_of p (int j)) \<noteq> None" using *(7) by auto
          then show ?thesis using pm[of "int j"] by (auto split: if_splits)
        qed (use n(2) True in auto)
      qed
      moreover have "m \<notin> insert i D"
        using pm[of "int m"] *(1,6) True by (auto split: if_splits)
      moreover have "map_option fst (map_of p' s) = (if s \<ge> int m \<and> nat s \<in> insert i D then Some (ws ! nat s) else None)" for s
        using *(1,5) pm[of s] n(3) True by (cases "s = int n") (auto split: if_splits)
      moreover have "\<forall>s x t. map_of p' s = Some (x, t) \<longrightarrow> 0 \<le> t" using *(5) pt1 by (simp add: p_def)
      ultimately have "arrived H edv l' W ws (insert i D) m"
        using *(2,4) t0 tk by (simp add: arrived_def l' map_of_set l_def par)
      then show ?thesis by blast
    qed
  qed
qed


text \<open>A list of writes handed to \<open>apply\<close> one by one, as \<open>src/sync/node.ts\<close> does with a message.\<close>

definition applyAll ::
  "(bytes \<Rightarrow> bytes) \<Rightarrow> (bytes \<Rightarrow> bytes \<Rightarrow> bytes \<Rightarrow> bool) \<Rightarrow> write list \<Rightarrow> ledger \<Rightarrow> ledger" where
  "applyAll H edv ws l = fold (\<lambda>w l. fst (apply_write H edv l w False)) ws l"

lemma applyAll_simps [simp]:
  "applyAll H edv [] l = l" "applyAll H edv (w # ws) l = applyAll H edv ws (fst (apply_write H edv l w False))"
  by (simp_all add: applyAll_def)

lemma arrived_all:
  assumes "arrived H edv l W ws D n" "valid_run H edv (lg_params l) W ws" "D \<subseteq> {..<length ws}"
    and "\<forall>d \<in> set ds. w_writer d = W \<longrightarrow> d \<in> set ws" "lg_tick l + int (length ds) \<le> PENDING_MAX_AGE"
  shows "\<exists>n'. arrived H edv (applyAll H edv ds l) W ws (D \<union> {i. i < length ws \<and> ws ! i \<in> set ds}) n'
    \<and> lg_params (applyAll H edv ds l) = lg_params l"
  using assms
proof (induction ds arbitrary: l D n)
  case (Cons d ds)
  obtain l' r where ap: "apply_write H edv l d False = (l', r)" by (cases "apply_write H edv l d False")
  have lok: "ledger_ok H edv l" using Cons.prems(1) by (simp add: arrived_def)
  note f = apply_frame[OF lok ap]
  have seqs: "ws ! i = ws ! j \<longrightarrow> i = j" if "i < length ws" "j < length ws" for i j
    using Cons.prems(2) that unfolding valid_run_def by (metis of_nat_eq_iff)
  define E where "E = {i. i < length ws \<and> ws ! i = d}"
  have "\<exists>n'. arrived H edv l' W ws (D \<union> E) n'"
  proof (cases "w_writer d = W")
    case True
    then obtain i where i: "i < length ws" "d = ws ! i" using Cons.prems(4) by (auto simp: in_set_conv_nth)
    then have "E = {i}" using seqs by (auto simp: E_def)
    moreover have "lg_tick l < PENDING_MAX_AGE" using Cons.prems(5) by simp
    ultimately show ?thesis
      using arrived_step[OF Cons.prems(1-3) i(1) _ ap[unfolded i(2)]] by simp
  next
    case False
    then have "E = {}" using Cons.prems(2) by (auto simp: E_def valid_run_def)
    then show ?thesis using arrived_frame[OF Cons.prems(1) ap False] by auto
  qed
  then obtain n' where a': "arrived H edv l' W ws (D \<union> E) n'" by blast
  have "\<exists>n''. arrived H edv (applyAll H edv ds l') W ws ((D \<union> E) \<union> {i. i < length ws \<and> ws ! i \<in> set ds}) n''
      \<and> lg_params (applyAll H edv ds l') = lg_params l'"
    by (rule Cons.IH[OF a']) (use Cons.prems f in \<open>auto simp: E_def\<close>)
  moreover have "(D \<union> E) \<union> {i. i < length ws \<and> ws ! i \<in> set ds} = D \<union> {i. i < length ws \<and> ws ! i \<in> set (d # ds)}"
    by (auto simp: E_def)
  ultimately show ?case using f by (simp add: ap)
qed auto

lemma arrived_complete:
  assumes "arrived H edv l W ws {..<length ws} n" "ws \<noteq> []"
  shows "\<exists>c. map_of (lg_chains l) W = Some c \<and> wc_writes c = ws \<and> pending_of l W = []"
proof -
  have n: "n = length ws" using assms(1) by (auto simp: arrived_def)
  obtain c where c: "map_of (lg_chains l) W = Some c" "run_chain (lg_params l) W ws n c"
    using assms by (cases "map_of (lg_chains l) W") (auto simp: arrived_def)
  have "map_option fst (map_of (pending_of l W) s) = None" for s
    using assms(1) by (auto simp: arrived_def n)
  then have "map_of (pending_of l W) s = None" for s by (metis option.map_disc_iff)
  then have "pending_of l W = []" by (metis map_of_None_keys list.set_intros(1) list.map(2) neq_Nil_conv)
  then show ?thesis using c n by (simp add: run_chain_def)
qed

section \<open>Pruning\<close>

text \<open>Writes that continue a chain: the next numbers, linked to its tip and to one another, of its plot.\<close>

definition continues ::
  "(bytes \<Rightarrow> bytes) \<Rightarrow> (bytes \<Rightarrow> bytes \<Rightarrow> bytes \<Rightarrow> bool) \<Rightarrow> writer_chain \<Rightarrow> write list \<Rightarrow> bool" where
  "continues H edv r ws \<longleftrightarrow> (\<forall>i < length ws. verifyWrite H edv (ws ! i) (wc_params r) False = None
     \<and> w_writer (ws ! i) = wc_writer r \<and> w_seq (ws ! i) = nextSeq r + int i
     \<and> w_prev (ws ! i) = (if i = 0 then headId r else Some (w_id (ws ! (i - 1))))
     \<and> pc_root (w_plot (ws ! i)) = pc_root (w_plot (ws ! 0)))
   \<and> (ws \<noteq> [] \<longrightarrow> wc_plotRoot r = None \<or> wc_plotRoot r = Some (pc_root (w_plot (ws ! 0))))"

lemma relink_continues:
  "chain_ok H edv r \<Longrightarrow> continues H edv r ws \<Longrightarrow>
   chain_ok H edv (relink H edv ws r) \<and> wc_writes (relink H edv ws r) = wc_writes r @ ws
   \<and> wc_baseSeq (relink H edv ws r) = wc_baseSeq r \<and> wc_baseHeadId (relink H edv ws r) = wc_baseHeadId r
   \<and> wc_writer (relink H edv ws r) = wc_writer r \<and> wc_params (relink H edv ws r) = wc_params r"
proof (induction ws arbitrary: r)
  case (Cons x ws)
  have x: "verifyWrite H edv x (wc_params r) False = None" "w_writer x = wc_writer r" "w_seq x = nextSeq r" "w_prev x = headId r"
    "wc_plotRoot r = None \<or> wc_plotRoot r = Some (pc_root (w_plot x))"
    using Cons.prems(2) by (auto simp: continues_def dest: spec[of _ 0])
  have "map_of (wc_bySeq r) (nextSeq r) = None"
    using Cons.prems(1) by (auto simp: chain_ok_def chain_at_def Let_def nextSeq_def)
  then have a: "append_write H edv r x False = (extended r x, AppendOk)"
    using x by (auto simp: append_write_def extended_def)
  have "continues H edv (extended r x) ws"
    unfolding continues_def
  proof (intro conjI allI impI)
    fix i assume i: "i < length ws"
    then have *: "verifyWrite H edv (ws ! i) (wc_params r) False = None \<and> w_writer (ws ! i) = wc_writer r
       \<and> w_seq (ws ! i) = nextSeq r + int (Suc i) \<and> w_prev (ws ! i) = Some (w_id ((x # ws) ! i)) \<and> pc_root (w_plot (ws ! i)) = pc_root (w_plot x)"
      using Cons.prems(2) by (auto simp: continues_def dest!: spec[of _ "Suc i"])
    have "pc_root (w_plot (ws ! 0)) = pc_root (w_plot x)"
      using Cons.prems(2) i by (auto simp: continues_def dest!: spec[of _ "Suc 0"])
    with * show "verifyWrite H edv (ws ! i) (wc_params (extended r x)) False = None"
      "w_writer (ws ! i) = wc_writer (extended r x)" "w_seq (ws ! i) = nextSeq (extended r x) + int i"
      "w_prev (ws ! i) = (if i = 0 then headId (extended r x) else Some (w_id (ws ! (i - 1))))"
      "pc_root (w_plot (ws ! i)) = pc_root (w_plot (ws ! 0))"
      by (auto simp: extended_def nextSeq_def headId_def nth_Cons')
  next
    assume "ws \<noteq> []"
    then have "pc_root (w_plot (ws ! 0)) = pc_root (w_plot x)"
      using Cons.prems(2) by (auto simp: continues_def dest!: spec[of _ "Suc 0"])
    with x(5) show "wc_plotRoot (extended r x) = None \<or> wc_plotRoot (extended r x) = Some (pc_root (w_plot (ws ! 0)))"
      by (auto simp: extended_def)
  qed
  from Cons.IH[OF append_ok[OF Cons.prems(1) a] this] show ?case
    by (simp add: relink_def a) (simp add: extended_def)
qed (simp add: relink_def)


lemma filter_above:
  "(\<And>i. i < length ws \<Longrightarrow> w_seq (ws ! i) = b + int i) \<Longrightarrow>
   filter (\<lambda>x. w_seq x > s) ws = drop (nat (s - b + 1)) ws"
proof (induction ws arbitrary: b)
  case (Cons x ws)
  have x: "w_seq x = b" using Cons.prems[of 0] by simp
  have "filter (\<lambda>x. w_seq x > s) ws = drop (nat (s - (b + 1) + 1)) ws"
    by (rule Cons.IH) (use Cons.prems[of "Suc i" for i] in auto)
  moreover have "nat (s - b + 1) = (if b > s then 0 else Suc (nat (s - (b + 1) + 1)))" by auto
  ultimately show ?case using x by auto
qed simp

text \<open>A chain resumed above one of its own writes and given back the later ones has the same tip.\<close>

lemma resume_chain:
  assumes c: "chain_ok H edv c" "\<forall>x \<in> set (wc_writes c). verifyWrite H edv x (wc_params c) False = None"
    and at: "chain_at c s = Some x"
  defines "c' \<equiv> relink H edv (filter (\<lambda>x. w_seq x > s) (wc_writes c)) (resumeAt (wc_writer c) (wc_params c) (s + 1) (w_id x))"
  shows "chain_ok H edv c' \<and> headId c' = headId c \<and> nextSeq c' = nextSeq c \<and> wc_writer c' = wc_writer c
    \<and> wc_params c' = wc_params c \<and> wc_baseSeq c' = s + 1 \<and> (\<forall>t > s. chain_at c' t = chain_at c t)"
proof -
  let ?ws = "wc_writes c" let ?r = "resumeAt (wc_writer c) (wc_params c) (s + 1) (w_id x)"
  obtain i where i: "i < length ?ws" "s = wc_baseSeq c + int i" "x = ?ws ! i" using at unfolding chain_at_Some by blast
  have link: "link_ok c j" if "j < length ?ws" for j using c(1) that by (simp add: chain_ok_def)
  have keep: "filter (\<lambda>x. w_seq x > s) ?ws = drop (Suc i) ?ws"
    using filter_above[of ?ws "wc_baseSeq c" s] link i(2) by (simp add: link_ok_def Let_def nat_add_distrib)
  have r: "chain_ok H edv ?r" unfolding resumeAt_def by (rule newChain_ok)
  have "continues H edv ?r (drop (Suc i) ?ws)"
    unfolding continues_def
  proof (intro conjI allI impI)
    fix j assume j: "j < length (drop (Suc i) ?ws)"
    then have ji: "Suc i + j < length ?ws" "Suc i < length ?ws" by auto
    note lj = link[OF ji(1), unfolded link_ok_def Let_def] and l0 = link[OF ji(2), unfolded link_ok_def Let_def]
    show "verifyWrite H edv (drop (Suc i) ?ws ! j) (wc_params ?r) False = None"
      using c(2) ji by (simp add: resumeAt_def newChain_def)
    show "w_writer (drop (Suc i) ?ws ! j) = wc_writer ?r" "w_seq (drop (Suc i) ?ws ! j) = nextSeq ?r + int j"
      "w_prev (drop (Suc i) ?ws ! j) = (if j = 0 then headId ?r else Some (w_id (drop (Suc i) ?ws ! (j - 1))))"
      "pc_root (w_plot (drop (Suc i) ?ws ! j)) = pc_root (w_plot (drop (Suc i) ?ws ! 0))"
      using lj l0 ji i by (auto simp: resumeAt_def newChain_def nextSeq_def headId_def)
  qed (simp add: resumeAt_def newChain_def)
  from relink_continues[OF r this]
  have c': "chain_ok H edv c'" "wc_writes c' = drop (Suc i) ?ws" "wc_baseSeq c' = s + 1" "wc_baseHeadId c' = Some (w_id x)"
    "wc_writer c' = wc_writer c" "wc_params c' = wc_params c"
    by (simp_all add: c'_def keep) (simp_all add: resumeAt_def newChain_def)
  have "headId c' = headId c"
  proof (cases "Suc i < length ?ws")
    case False
    then have "length ?ws - 1 = i" "?ws \<noteq> []" using i(1) by auto
    then have "last ?ws = x" "?ws \<noteq> []" using i(3) by (simp_all add: last_conv_nth)
    then show ?thesis using c' False by (simp add: headId_def)
  qed (use c' in \<open>auto simp: headId_def\<close>)
  moreover have "nextSeq c' = nextSeq c" using c' i by (simp add: nextSeq_def)
  moreover have "chain_at c' t = chain_at c t" if "t > s" for t
  proof -
    have *: "nat (t - wc_baseSeq c) = Suc i + nat (t - (s + 1))" using that i(2) by simp
    show ?thesis using that i(1,2) unfolding chain_at_def Let_def c'(2,3) * by auto
  qed
  ultimately show ?thesis using c' by blast
qed

lemma chain_head_ok:
  assumes "chain_ok H edv c"
  shows "chain_head c = map_option (\<lambda>i. \<lparr>h_id = i, h_seq = nextSeq c - 1\<rparr>) (headId c)"
proof -
  have "w_seq (last (wc_writes c)) = nextSeq c - 1" if "wc_writes c \<noteq> []"
  proof -
    have "link_ok c (length (wc_writes c) - 1)" using assms that by (simp add: chain_ok_def)
    then show ?thesis using that by (simp add: link_ok_def Let_def nextSeq_def last_conv_nth of_nat_diff Suc_leI)
  qed
  then show ?thesis by (cases "wc_writes c = []") (auto simp: chain_head_def nextSeq_def)
qed

definition head_list :: "ledger \<Rightarrow> (string \<times> head option) list" where
  "head_list l = map (\<lambda>(w, c). (w, chain_head c)) (lg_chains l)"

lemma ledger_heads_list:
  "ledger_heads l = fold (\<lambda>(w, h) out. case h of None \<Rightarrow> out | Some h \<Rightarrow> map_set w h out) (head_list l) []"
  unfolding ledger_heads_def head_list_def fold_map by (rule fold_cong) (auto simp: fun_eq_iff)

lemma head_list_set_chain:
  assumes "distinct (keys (lg_chains l))" "map_of (lg_chains l) w = Some c" "chain_head c' = chain_head c"
  shows "head_list (set_chain l w c') = head_list l"
proof -
  have "w \<in> set (keys (lg_chains l))" using assms(2) by (metis map_of_None_keys option.distinct(1))
  then have "map_set w c' (lg_chains l) = map (\<lambda>(k, v). if k = w then (k, c') else (k, v)) (lg_chains l)"
    by (rule set_old_map[OF assms(1)])
  moreover have "chain_head v = chain_head c'" if "(w, v) \<in> set (lg_chains l)" for v
    using that assms map_of_mem[OF assms(1), of w v] by simp
  ultimately show ?thesis by (auto simp: head_list_def)
qed


definition fully_verified :: "(bytes \<Rightarrow> bytes) \<Rightarrow> (bytes \<Rightarrow> bytes \<Rightarrow> bytes \<Rightarrow> bool) \<Rightarrow> ledger \<Rightarrow> bool" where
  "fully_verified H edv l \<longleftrightarrow> (\<forall>w c. map_of (lg_chains l) w = Some c \<longrightarrow>
     (\<forall>x \<in> set (wc_writes c). verifyWrite H edv x (wc_params c) False = None))"

text \<open>Heads a ledger can be pruned at: of writers it knows, below its floor or the ids it holds.\<close>

definition held :: "ledger \<Rightarrow> string \<Rightarrow> head \<Rightarrow> bool" where
  "held l w h \<longleftrightarrow> (case map_of (lg_chains l) w of None \<Rightarrow> True
     | Some c \<Rightarrow> h_seq h < wc_baseSeq c \<or> map_option w_id (chain_at c (h_seq h)) = Some (h_id h))"

definition prune_one ::
  "(bytes \<Rightarrow> bytes) \<Rightarrow> (bytes \<Rightarrow> bytes \<Rightarrow> bytes \<Rightarrow> bool) \<Rightarrow> string \<times> head \<Rightarrow> ledger \<Rightarrow> ledger" where
  "prune_one H edv = (\<lambda>(w, h) l. case map_of (lg_chains l) w of None \<Rightarrow> l
     | Some chain \<Rightarrow> if h_seq h < wc_baseSeq chain then l
         else let keep = filter (\<lambda>x. w_seq x > h_seq h) (wc_writes chain);
                  resumed = resumeAt w (lg_params l) (h_seq h + 1) (h_id h)
              in set_chain l w (relink H edv keep resumed))"

lemma pruneBelow_fold: "pruneBelow H edv l hs = fold (prune_one H edv) hs l"
  by (simp add: pruneBelow_def prune_one_def)

lemma prune_one_spec:
  assumes "ledger_ok H edv l" "fully_verified H edv l" "held l w h"
  defines "l' \<equiv> prune_one H edv (w, h) l"
  shows "ledger_ok H edv l' \<and> fully_verified H edv l' \<and> head_list l' = head_list l \<and> lg_params l' = lg_params l
    \<and> lg_pending l' = lg_pending l \<and> (\<forall>v. v \<noteq> w \<longrightarrow> map_of (lg_chains l') v = map_of (lg_chains l) v)
    \<and> (\<forall>c. map_of (lg_chains l) w = Some c \<longrightarrow> (\<exists>c'. map_of (lg_chains l') w = Some c'
        \<and> nextSeq c' = nextSeq c \<and> wc_baseSeq c' = max (wc_baseSeq c) (h_seq h + 1) \<and> (\<forall>t > h_seq h. chain_at c' t = chain_at c t)))"
proof (cases "map_of (lg_chains l) w")
  case (Some c)
  have c: "wc_writer c = w" "wc_params c = lg_params l" "chain_ok H edv c" "distinct (keys (lg_chains l))"
    using assms(1) Some by (auto simp: ledger_ok_def)
  show ?thesis
  proof (cases "h_seq h < wc_baseSeq c")
    case False
    then obtain x where x: "chain_at c (h_seq h) = Some x" "w_id x = h_id h" using assms(3) Some by (auto simp: held_def)
    define c' where "c' = relink H edv (filter (\<lambda>x. w_seq x > h_seq h) (wc_writes c)) (resumeAt w (lg_params l) (h_seq h + 1) (h_id h))"
    have full: "\<forall>x \<in> set (wc_writes c). verifyWrite H edv x (wc_params c) False = None"
      using assms(2) Some by (simp add: fully_verified_def)
    note rc = resume_chain[OF c(3) full x(1), unfolded c(1,2) x(2), folded c'_def]
    have l': "l' = set_chain l w c'" using Some False by (simp add: l'_def prune_one_def c'_def Let_def)
    have hd: "chain_head c' = chain_head c"
      using rc by (simp add: chain_head_ok[of H edv c'] chain_head_ok[OF c(3)])
    have "set (wc_writes c') \<subseteq> set (wc_writes c)"
    proof
      fix y assume "y \<in> set (wc_writes c')"
      then obtain j where "j < length (wc_writes c')" "y = wc_writes c' ! j" by (auto simp: in_set_conv_nth)
      then have "chain_at c' (wc_baseSeq c' + int j) = Some y" by (auto simp: chain_at_Some)
      then have "chain_at c (wc_baseSeq c' + int j) = Some y" using rc by simp
      then show "y \<in> set (wc_writes c)" by (auto simp: chain_at_Some)
    qed
    then have "fully_verified H edv l'"
      using assms(2) full rc c by (auto simp: fully_verified_def l' map_of_set)
    moreover have "ledger_ok H edv l'" unfolding l' by (rule ledger_ok_set_chain) (use assms(1) rc c in auto)
    moreover have "wc_baseSeq c' = max (wc_baseSeq c) (h_seq h + 1)" using rc False by simp
    ultimately show ?thesis
      using rc Some head_list_set_chain[OF c(4) Some hd] by (auto simp: l' map_of_set)
  qed (use assms Some in \<open>auto simp: l'_def prune_one_def\<close>)
qed (use assms in \<open>auto simp: l'_def prune_one_def\<close>)

lemma pruneBelow_spec:
  assumes "ledger_ok H edv l" "fully_verified H edv l" "\<forall>(w, h) \<in> set hs. held l w h" "distinct (keys hs)"
  shows "ledger_ok H edv (pruneBelow H edv l hs) \<and> head_list (pruneBelow H edv l hs) = head_list l
    \<and> (\<forall>w c t. map_of (lg_chains l) w = Some c \<and> (\<forall>h. map_of hs w = Some h \<longrightarrow> t > h_seq h) \<longrightarrow>
        (\<exists>c'. map_of (lg_chains (pruneBelow H edv l hs)) w = Some c' \<and> chain_at c' t = chain_at c t))"
  using assms unfolding pruneBelow_fold
proof (induction hs arbitrary: l)
  case (Cons p hs)
  obtain w h where p: "p = (w, h)" by (cases p)
  define l1 where "l1 = prune_one H edv (w, h) l"
  have "held l w h" using Cons.prems(3) p by auto
  note one = prune_one_spec[OF Cons.prems(1,2) this, folded l1_def]
  have new: "w \<notin> set (keys hs)" using Cons.prems(4) p by simp
  have "\<forall>(v, h) \<in> set hs. held l1 v h"
  proof clarify
    fix v h' assume m: "(v, h') \<in> set hs"
    then have "v \<noteq> w" using new by force
    then show "held l1 v h'" using m Cons.prems(3) one by (force simp: held_def)
  qed
  then have IH: "ledger_ok H edv (fold (prune_one H edv) hs l1) \<and> head_list (fold (prune_one H edv) hs l1) = head_list l1
    \<and> (\<forall>v c t. map_of (lg_chains l1) v = Some c \<and> (\<forall>h. map_of hs v = Some h \<longrightarrow> t > h_seq h) \<longrightarrow>
        (\<exists>c'. map_of (lg_chains (fold (prune_one H edv) hs l1)) v = Some c' \<and> chain_at c' t = chain_at c t))"
    by (intro Cons.IH) (use one Cons.prems(4) in auto)
  have "\<exists>c'. map_of (lg_chains (fold (prune_one H edv) hs l1)) v = Some c' \<and> chain_at c' t = chain_at c t"
    if v: "map_of (lg_chains l) v = Some c" "\<forall>h. map_of (p # hs) v = Some h \<longrightarrow> t > h_seq h" for v c t
  proof (cases "v = w")
    case True
    then obtain c1 where "map_of (lg_chains l1) v = Some c1" "chain_at c1 t = chain_at c t" using one v p by auto
    moreover have "map_of hs v = None" using new True by (simp only: map_of_None_keys not_False_eq_True)
    ultimately show ?thesis using IH by (metis option.distinct(1))
  next
    case False
    then have "map_of (lg_chains l1) v = Some c" "\<forall>h. map_of hs v = Some h \<longrightarrow> t > h_seq h" using one v p by auto
    then show ?thesis using IH by blast
  qed
  then show ?case using IH one by (simp add: p l1_def[symmetric])
qed auto

section \<open>Properties\<close>

lemma gossip_converges:
  assumes "valid_run H edv params W ws" "ws \<noteq> []" "set ws \<subseteq> set ds" "\<forall>d \<in> set ds. w_writer d = W \<longrightarrow> d \<in> set ws"
    and "int (length ds) \<le> PENDING_MAX_AGE"
  shows "\<exists>c. map_of (lg_chains (applyAll H edv ds (newLedger params))) W = Some c \<and> wc_writes c = ws
    \<and> pending_of (applyAll H edv ds (newLedger params)) W = []"
proof -
  have "arrived H edv (newLedger params) W ws {} 0"
    using newLedger_ok[of H edv params] by (simp add: arrived_def) (simp add: newLedger_def pending_of_def)
  then obtain n where "arrived H edv (applyAll H edv ds (newLedger params)) W ws ({} \<union> {i. i < length ws \<and> ws ! i \<in> set ds}) n"
    using arrived_all[of H edv "newLedger params" W ws "{}" 0 ds] assms by (auto simp: newLedger_def)
  moreover have "{} \<union> {i. i < length ws \<and> ws ! i \<in> set ds} = {..<length ws}" using assms(3) by auto
  ultimately show ?thesis using arrived_complete[OF _ assms(2)] by metis
qed

lemma ex_run: "\<exists>a b. valid_run ex_hash (\<lambda>_ _ _. True) ex_params (w_writer a) [a, b]"
proof -
  have ex: "\<exists>w. writer_write ex_hash (\<lambda>_ _. []) ex_writer prev seq ''aa'' JNull 5 = Some w
     \<and> verifyWrite ex_hash (\<lambda>_ _ _. True) w ex_params False = None" for prev seq
    by (rule writer_write_verifies[OF ex_writer_new length_ex_hash ex_vdf]) (simp_all add: ex_params_def)
  from ex[of None 0] obtain a where a: "writer_write ex_hash (\<lambda>_ _. []) ex_writer None 0 ''aa'' JNull 5 = Some a"
     "verifyWrite ex_hash (\<lambda>_ _ _. True) a ex_params False = None" by blast
  from ex[of "Some (w_id a)" 1] obtain b where b: "writer_write ex_hash (\<lambda>_ _. []) ex_writer (Some (w_id a)) 1 ''aa'' JNull 5 = Some b"
     "verifyWrite ex_hash (\<lambda>_ _ _. True) b ex_params False = None" by blast
  note fa = writer_write_fields[OF a(1)] and fb = writer_write_fields[OF b(1)]
  have "i = 0 \<or> i = 1" if "i < length [a, b]" for i using that by auto
  then have "valid_run ex_hash (\<lambda>_ _ _. True) ex_params (w_writer a) [a, b]"
    unfolding valid_run_def using a(2) b(2) fa(1-3,7) fb(1-3,7) by fastforce
  then show ?thesis by blast
qed

text \<open>The state root commits to the heads: two heads objects have the same root exactly when they hold
  the same heads, in whatever order the writers were inserted, or a SHA-256 collision is at hand.\<close>

theorem rootOfHeads_commits:
  assumes "distinct (keys a)" "distinct (keys b)"
  shows "(map_of a = map_of b \<longrightarrow> rootOfHeads H a = rootOfHeads H b)
    \<and> (rootOfHeads H a = rootOfHeads H b \<longrightarrow>
        map_of a = map_of b \<or> collision H (canonicalize (head_entries a)) (canonicalize (head_entries b)))"
  using head_entries_cong[OF assms] heads_commit.binding[where a = a and b = b and H = H] by (auto simp: rootOfHeads_def)

theorem rootOfHeads_commits_witness:
  "rootOfHeads ex_hash [(''a'', \<lparr>h_id = ''x'', h_seq = 0\<rparr>), (''b'', \<lparr>h_id = ''y'', h_seq = 3\<rparr>)]
   = rootOfHeads ex_hash [(''b'', \<lparr>h_id = ''y'', h_seq = 3\<rparr>), (''a'', \<lparr>h_id = ''x'', h_seq = 0\<rparr>)]"
  by (rule rootOfHeads_commits[THEN conjunct1, rule_format]) (auto simp: fun_eq_iff)

text \<open>C10: one delivery keeps the ledger well formed (every chain verified and linked, every buffered write
  verified and filed under its number), touches only the writer it is from, and extends that writer's
  chain by exactly the writes it reports as applied.\<close>

theorem apply_sound:
  assumes "ledger_ok H edv l" "apply_write H edv l w skip = (l', r)"
  shows "ledger_ok H edv l'
    \<and> (\<forall>v. v \<noteq> w_writer w \<longrightarrow> map_of (lg_chains l') v = map_of (lg_chains l) v \<and> pending_of l' v = pending_of l v)
    \<and> (\<forall>c ws buf. map_of (lg_chains l) (w_writer w) = Some c \<and> r = Applied ws buf \<longrightarrow>
        (\<exists>c'. map_of (lg_chains l') (w_writer w) = Some c' \<and> wc_writes c' = wc_writes c @ ws))"
proof -
  have "\<exists>c'. map_of (lg_chains l') (w_writer w) = Some c' \<and> wc_writes c' = wc_writes c @ ws"
    if c: "map_of (lg_chains l) (w_writer w) = Some c" and r: "r = Applied ws buf" for c ws buf
  proof (rule apply_cases[OF assms])
    fix la ca p
    assume *: "la = set_pending (ensure_chain (l\<lparr>lg_tick := lg_tick l + 1\<rparr>) w) (w_writer w) p"
      "map_of (lg_chains la) (w_writer w) = Some ca" "chain_ok H edv ca" "pend_ok H edv (lg_params la) (w_writer w) p"
      "wc_writer ca = w_writer w" "wc_params ca = lg_params la"
      and cs: "l' = la \<and> (r = Applied [] False \<or> (\<exists>e eq. r = Refused e eq))
     \<or> l' = set_pending la (w_writer w) (map_set (w_seq w) (w, lg_tick la) p) \<and> r = Applied [] True
         \<and> verifyWrite H edv w (lg_params la) skip = None \<and> w_seq w > nextSeq ca
     \<or> (\<exists>c1 c2 p2. append_write H edv ca w skip = (c1, AppendOk) \<and> w_seq w = nextSeq ca \<and> c1 = extended ca w
         \<and> drain H edv skip c1 p (nextSeq c1) [w] = (c2, p2, r)
         \<and> l' = set_pending (set_chain la (w_writer w) c2) (w_writer w) p2)"
    have ca: "ca = c" using *(1,2) c by (simp add: ensure_chain_def)
    have old: "map_of (lg_chains la) (w_writer w) = Some c" using *(2) ca by simp
    from cs show ?thesis
    proof (elim disjE conjE exE)
      fix c1 c2 p2
      assume ap: "append_write H edv ca w skip = (c1, AppendOk)" "c1 = extended ca w"
        and d: "drain H edv skip c1 p (nextSeq c1) [w] = (c2, p2, r)"
        and l': "l' = set_pending (set_chain la (w_writer w) c2) (w_writer w) p2"
      have "pend_ok H edv (wc_params c1) (wc_writer c1) p" using *(4-6) append_keeps[OF ap(1)] by simp
      from drain_spec[OF d append_ok[OF *(3) ap(1)] this refl] r
      have "wc_writes c2 = wc_writes c1 @ tl ws \<and> ws = w # tl ws" by auto
      then have "wc_writes c2 = wc_writes c @ ws" using ap(2) ca by (simp add: extended_def)
      then show ?thesis by (simp add: l' map_of_set)
    qed (use r old in \<open>auto simp: set_pending_def\<close>)
  qed
  with apply_frame[OF assms] apply_keeps_ok[OF assms] show ?thesis by blast
qed

theorem apply_sound_witness:
  "\<exists>a l'. apply_write ex_hash (\<lambda>_ _ _. True) (newLedger ex_params) a False = (l', Applied [a] False)
     \<and> ledger_ok ex_hash (\<lambda>_ _ _. True) l'"
proof -
  obtain a b where ab: "valid_run ex_hash (\<lambda>_ _ _. True) ex_params (w_writer a) [a, b]" using ex_run by blast
  then have a: "verifyWrite ex_hash (\<lambda>_ _ _. True) a ex_params False = None" "w_seq a = 0" "w_prev a = None"
    by (auto simp: valid_run_def dest: spec[of _ 0])
  obtain l' where l': "apply_write ex_hash (\<lambda>_ _ _. True) (newLedger ex_params) a False = (l', Applied [a] False)"
    using a by (simp add: apply_write_def Let_def ensure_chain_def newLedger_def map_of_set nextSeq_def newChain_def
        pending_of_def decay_def append_write_def headId_def drain.simps)
  from apply_sound[OF newLedger_ok l'] l' show ?thesis by blast
qed

text \<open>C11: gossip converges. Whatever order a writer's writes arrive in, repeated and interleaved with
  anything from other writers, valid or not, once all of them have arrived the ledger holds the whole
  chain and nothing of it is left in the buffer, if no buffered write had to wait past the decay age.\<close>

theorem ledger_converges:
  assumes "valid_run H edv params W ws" "ws \<noteq> []" "set ws \<subseteq> set ds" "\<forall>d \<in> set ds. w_writer d = W \<longrightarrow> d \<in> set ws"
    and "int (length ds) \<le> PENDING_MAX_AGE"
  shows "\<exists>c. map_of (lg_chains (applyAll H edv ds (newLedger params))) W = Some c \<and> wc_writes c = ws
    \<and> pending_of (applyAll H edv ds (newLedger params)) W = []"
  using assms by (rule gossip_converges)

theorem ledger_converges_witness:
  "\<exists>a b c. map_of (lg_chains (applyAll ex_hash (\<lambda>_ _ _. True) [b, a, b] (newLedger ex_params))) (w_writer a) = Some c
     \<and> wc_writes c = [a, b]"
proof -
  obtain a b where ab: "valid_run ex_hash (\<lambda>_ _ _. True) ex_params (w_writer a) [a, b]" using ex_run by blast
  from ledger_converges[OF this, of "[b, a, b]"] show ?thesis by (auto simp: PENDING_MAX_AGE_def)
qed

text \<open>C12: pruning below a finalized checkpoint is invisible: at heads the ledger holds, every writer keeps its
  head, so the state root is unchanged, and every write above the checkpoint is still there.\<close>

theorem pruneBelow_keeps_root:
  assumes "ledger_ok H edv l" "fully_verified H edv l" "\<forall>(w, h) \<in> set hs. held l w h" "distinct (keys hs)"
  shows "ledger_stateRoot H (pruneBelow H edv l hs) = ledger_stateRoot H l \<and> ledger_ok H edv (pruneBelow H edv l hs)
    \<and> (\<forall>w c t. map_of (lg_chains l) w = Some c \<and> (\<forall>h. map_of hs w = Some h \<longrightarrow> t > h_seq h) \<longrightarrow>
        (\<exists>c'. map_of (lg_chains (pruneBelow H edv l hs)) w = Some c' \<and> chain_at c' t = chain_at c t))"
  using pruneBelow_spec[OF assms] by (simp add: ledger_stateRoot_def ledger_heads_list)

theorem pruneBelow_keeps_root_witness:
  "\<exists>a l. allWrites l = [a] \<and> allWrites (pruneBelow ex_hash (\<lambda>_ _ _. True) l [(w_writer a, \<lparr>h_id = w_id a, h_seq = 0\<rparr>)]) = []
     \<and> ledger_stateRoot ex_hash (pruneBelow ex_hash (\<lambda>_ _ _. True) l [(w_writer a, \<lparr>h_id = w_id a, h_seq = 0\<rparr>)])
        = ledger_stateRoot ex_hash l"
proof -
  obtain a b where ab: "valid_run ex_hash (\<lambda>_ _ _. True) ex_params (w_writer a) [a, b]" using ex_run by blast
  then have a: "verifyWrite ex_hash (\<lambda>_ _ _. True) a ex_params False = None" "w_seq a = 0" "w_prev a = None"
    by (auto simp: valid_run_def dest: spec[of _ 0])
  define l where "l = fst (apply_write ex_hash (\<lambda>_ _ _. True) (newLedger ex_params) a False)"
  have chains: "lg_chains l = [(w_writer a, extended (newChain (w_writer a) (Some (pc_root (w_plot a))) ex_params 0 None) a)]"
    using a by (simp add: l_def apply_write_def Let_def ensure_chain_def newLedger_def map_of_set nextSeq_def newChain_def
        pending_of_def decay_def append_write_def headId_def drain.simps extended_def)
  have params: "lg_params l = ex_params"
    using apply_frame[OF newLedger_ok surjective_pairing] by (simp add: l_def newLedger_def)
  have "ledger_ok ex_hash (\<lambda>_ _ _. True) l"
    unfolding l_def by (rule apply_keeps_ok[OF newLedger_ok surjective_pairing])
  moreover have "fully_verified ex_hash (\<lambda>_ _ _. True) l"
    using a by (simp add: fully_verified_def chains extended_def newChain_def)
  moreover have "\<forall>(w, h) \<in> set [(w_writer a, \<lparr>h_id = w_id a, h_seq = 0\<rparr>)]. held l w h"
    by (simp add: held_def chains extended_def newChain_def chain_at_def)
  ultimately have "ledger_stateRoot ex_hash (pruneBelow ex_hash (\<lambda>_ _ _. True) l [(w_writer a, \<lparr>h_id = w_id a, h_seq = 0\<rparr>)])
      = ledger_stateRoot ex_hash l"
    by (intro pruneBelow_keeps_root[THEN conjunct1]) simp_all
  moreover have "allWrites l = [a]" by (simp add: allWrites_def chains extended_def newChain_def)
  moreover have "allWrites (pruneBelow ex_hash (\<lambda>_ _ _. True) l [(w_writer a, \<lparr>h_id = w_id a, h_seq = 0\<rparr>)]) = []"
    using a(2) by (simp add: pruneBelow_def chains extended_def newChain_def allWrites_def relink_def resumeAt_def set_chain_def params)
  ultimately show ?thesis by blast
qed

text \<open>The plot of a new writer is pinned before anything is verified: one invalid write in a writer's
  name, with another plot, makes the ledger refuse every genuine first write of that writer from then on.\<close>

theorem junk_write_pins_plot:
  assumes "verifyWrite H edv junk params False \<noteq> None" "w_writer junk = w_writer w" "0 \<le> w_seq junk"
    and "pc_root (w_plot junk) \<noteq> pc_root (w_plot w)" "verifyWrite H edv w params False = None" "w_seq w = 0"
  shows "snd (apply_write H edv (applyAll H edv [junk] (newLedger params)) w False) = Refused (AppendError WrongPlot) None"
proof -
  obtain e where e: "verifyWrite H edv junk params False = Some e" using assms(1) by blast
  let ?c = "newChain (w_writer w) (Some (pc_root (w_plot junk))) params 0 None"
  define l where "l = applyAll H edv [junk] (newLedger params)"
  have "lg_chains l = [(w_writer w, ?c)] \<and> lg_pending l = [(w_writer w, [])]"
    using assms(2,3) e
    by (cases "w_seq junk = 0") (simp_all add: l_def apply_write_def Let_def ensure_chain_def newLedger_def map_of_set nextSeq_def
        newChain_def pending_of_def decay_def append_write_def set_chain_def set_pending_def)
  moreover have "lg_params l = params"
    using apply_frame[OF newLedger_ok surjective_pairing] by (simp add: l_def newLedger_def)
  ultimately show ?thesis
    unfolding l_def[symmetric] using assms(4,6)
    by (auto simp add: apply_write_def Let_def ensure_chain_def map_of_set nextSeq_def
        newChain_def pending_of_def decay_def append_write_def)
qed

theorem junk_write_pins_plot_witness:
  "\<exists>w junk. verifyWrite ex_hash (\<lambda>_ _ _. True) w ex_params False = None
     \<and> snd (apply_write ex_hash (\<lambda>_ _ _. True) (applyAll ex_hash (\<lambda>_ _ _. True) [junk] (newLedger ex_params)) w False)
        = Refused (AppendError WrongPlot) None"
proof -
  obtain w where w: "verifyWrite ex_hash (\<lambda>_ _ _. True) w ex_params False = None" "w_seq w = 0"
    using ex_run by (fastforce simp: valid_run_def dest: spec[of _ 0])
  define junk where "junk = w\<lparr>w_plot := \<lparr>pc_root = CHR ''x'' # pc_root (w_plot w), pc_k = 2\<rparr>, w_difficulty := []\<rparr>"
  have "verifyWrite ex_hash (\<lambda>_ _ _. True) junk ex_params False \<noteq> None"
    using show_int_nonempty[of "difficulty ex_params", THEN not_sym] unfolding verifyWrite_ok junk_def by simp
  from junk_write_pins_plot[OF this _ _ _ w] w show ?thesis by (fastforce simp: junk_def)
qed

text \<open>A buffered write that turns out not to link makes \<open>apply\<close> report a failure although the write it
  was called with has been appended: the caller learns of nothing to announce or store.\<close>

theorem applied_but_refused:
  assumes "verifyWrite H edv w params False = None" "w_seq w = 0" "w_prev w = None"
    and "verifyWrite H edv x params False = None" "w_writer x = w_writer w" "w_seq x = 1" "w_prev x \<noteq> Some (w_id w)"
    and "pc_root (w_plot x) = pc_root (w_plot w)"
  shows "snd (apply_write H edv (applyAll H edv [x] (newLedger params)) w False) = Refused (AppendError BadPrev) None
    \<and> allWrites (applyAll H edv [x, w] (newLedger params)) = [w]"
proof -
  let ?c = "newChain (w_writer w) (Some (pc_root (w_plot w))) params 0 None"
  define l where "l = applyAll H edv [x] (newLedger params)"
  have l: "lg_chains l = [(w_writer w, ?c)]" "lg_pending l = [(w_writer w, [(1, x, 1)])]" "lg_tick l = 1"
    using assms(4-6,8)
    by (simp_all add: l_def apply_write_def Let_def ensure_chain_def newLedger_def map_of_set nextSeq_def
        newChain_def pending_of_def decay_def append_write_def set_chain_def set_pending_def)
  have params: "lg_params l = params"
    using apply_frame[OF newLedger_ok surjective_pairing] by (simp add: l_def newLedger_def)
  have app: "append_write H edv ?c w False = (extended ?c w, AppendOk)"
    using assms(1-3) by (simp add: append_write_def newChain_def extended_def nextSeq_def headId_def)
  have app2: "append_write H edv (extended ?c w) x False = (extended ?c w, AppendFail BadPrev None)"
    using assms by (simp add: append_write_def newChain_def extended_def nextSeq_def headId_def map_of_set)
  have d: "drain H edv False (extended ?c w) [(1, x, 1)] 1 [w] = (extended ?c w, [], Refused (AppendError BadPrev) None)"
    by (simp add: drain.simps[of H edv False _ "[(1, x, 1)]"] app2 Let_def)
  have "nextSeq ?c = 0" "nextSeq (extended ?c w) = 1" "wc_baseSeq ?c = 0" by (simp_all add: nextSeq_def newChain_def extended_def)
  then have "apply_write H edv l w False = (set_pending (set_chain (set_pending (l\<lparr>lg_tick := 2\<rparr>) (w_writer w) [(1, x, 1)]) (w_writer w)
      (extended ?c w)) (w_writer w) [], Refused (AppendError BadPrev) None)"
    using assms(2) by (simp add: apply_write_def Let_def ensure_chain_def l map_of_set pending_of_def decay_def
        PENDING_MAX_AGE_def app d params)
  then show ?thesis
    unfolding l_def[symmetric] applyAll_simps(2)[of H edv x "[w]"] using l(1)
    by (simp add: l_def[symmetric, unfolded applyAll_simps] allWrites_def) (simp add: extended_def newChain_def)
qed

theorem applied_but_refused_witness:
  "\<exists>w x. snd (apply_write ex_hash (\<lambda>_ _ _. True) (applyAll ex_hash (\<lambda>_ _ _. True) [x] (newLedger ex_params)) w False)
      = Refused (AppendError BadPrev) None \<and> allWrites (applyAll ex_hash (\<lambda>_ _ _. True) [x, w] (newLedger ex_params)) = [w]"
proof -
  have ex: "\<exists>w. writer_write ex_hash (\<lambda>_ _. []) ex_writer prev seq ''aa'' JNull 5 = Some w
     \<and> verifyWrite ex_hash (\<lambda>_ _ _. True) w ex_params False = None" for prev seq
    by (rule writer_write_verifies[OF ex_writer_new length_ex_hash ex_vdf]) (simp_all add: ex_params_def)
  from ex[of None 0] obtain w where w: "writer_write ex_hash (\<lambda>_ _. []) ex_writer None 0 ''aa'' JNull 5 = Some w"
     "verifyWrite ex_hash (\<lambda>_ _ _. True) w ex_params False = None" by blast
  from ex[of None 1] obtain x where x: "writer_write ex_hash (\<lambda>_ _. []) ex_writer None 1 ''aa'' JNull 5 = Some x"
     "verifyWrite ex_hash (\<lambda>_ _ _. True) x ex_params False = None" by blast
  note fw = writer_write_fields[OF w(1)] and fx = writer_write_fields[OF x(1)]
  show ?thesis
    by (rule exI, rule exI, rule applied_but_refused[of ex_hash "\<lambda>_ _ _. True" w ex_params x])
      (use w(2) x(2) fw(1-3,7) fx(1-3,7) in simp_all)
qed

end
