(* ===== verification/Anchor.thy ===== *)
theory Anchor
  imports Ledger
begin

text \<open>
  \<open>src/consensus/anchor.ts\<close> and \<open>src/consensus/genesis.ts\<close>: anchors, their production and verification,
  and the hardcoded genesis. The space backend is the pair of a prover and a verifier the code passes in;
  \<open>{ok: true}\<close> with a quality is \<open>Some quality\<close>. A backend's payload is a JSON value. The
  asynchronous \<open>verifyAsync\<close> of a delay function is documented to equal \<open>verify\<close> and is not told
  apart from it. Numbers of an anchor are the integers its interface means; keys of heads are public
  keys in hexadecimal.
\<close>

section \<open>Anchors\<close>

definition GENESIS_SEED :: string where "GENESIS_SEED = ''gavl-anchor-genesis-v1''"

definition GENESIS_GRIND :: nat where "GENESIS_GRIND = 256"

definition MAX_SIGNAGE :: nat where "MAX_SIGNAGE = 4096"

definition signageStepIters :: "'a consensus_params_scheme \<Rightarrow> int" where
  "signageStepIters params = (let f = (if floorIters params > 0 then floorIters params else 1) in Number_of f)"

record anchor_body =
  a_height :: int
  a_prev :: "string option"
  a_producer :: string
  a_nonce :: int
  a_step :: "time_proof list"
  a_difficulty :: string
  a_headsDelta :: heads
  a_stateRoot :: string
  a_appRoot :: string
  a_weight :: string
  a_space :: space_commitment
  a_proof :: json

record anchor = anchor_body +
  a_time :: time_proof
  a_id :: string
  a_sig :: string

record space_prover =
  sp_commitment :: space_commitment
  sp_prove :: "bytes \<Rightarrow> mined_proof option"

type_synonym space_verifier = "space_commitment \<Rightarrow> string \<Rightarrow> bytes \<Rightarrow> json \<Rightarrow> string option"

definition diffHeads :: "heads \<Rightarrow> heads \<Rightarrow> heads" where
  "diffHeads prev nxt = filter (\<lambda>(w, h). case map_of prev w of None \<Rightarrow> True
     | Some p \<Rightarrow> h_seq p \<noteq> h_seq h \<or> h_id p \<noteq> h_id h) nxt"

definition applyHeadsDelta :: "heads \<Rightarrow> heads \<Rightarrow> heads" where
  "applyHeadsDelta prev delta = fold (\<lambda>(w, h). map_set w h) delta prev"

definition anchorChallenge :: "(bytes \<Rightarrow> bytes) \<Rightarrow> anchor option \<Rightarrow> int \<Rightarrow> bytes" where
  "anchorChallenge H prev nonce = (case prev of
     None \<Rightarrow> H (concatBytes [utf8 GENESIS_SEED, u32be nonce])
   | Some p \<Rightarrow> H (concatBytes [fromHex (t_output (a_time p)), fromHex (a_id p)]))"

definition signageChallenge :: "(bytes \<Rightarrow> bytes) \<Rightarrow> bytes \<Rightarrow> string \<Rightarrow> int \<Rightarrow> bytes" where
  "signageChallenge H base vdfOut sp = (if sp = 0 then base else H (concatBytes [base, fromHex vdfOut, u32be sp]))"

definition spaceWeightFor :: "space_commitment \<Rightarrow> int" where
  "spaceWeightFor cm = (if sc_kind cm = ''chiapos'' then expectedPlotSize (sc_k cm) else 1)"

definition bodyOf :: "anchor \<Rightarrow> anchor_body" where
  "bodyOf a = \<lparr>a_height = a_height a, a_prev = a_prev a, a_producer = a_producer a, a_nonce = a_nonce a, a_step = a_step a,
     a_difficulty = a_difficulty a, a_headsDelta = a_headsDelta a, a_stateRoot = a_stateRoot a, a_appRoot = a_appRoot a,
     a_weight = a_weight a, a_space = a_space a, a_proof = a_proof a\<rparr>"

definition head_json :: "head \<Rightarrow> json" where
  "head_json h = JObj [(''id'', JStr (h_id h)), (''seq'', JInt (h_seq h))]"

definition heads_json :: "heads \<Rightarrow> json" where
  "heads_json hs = JObj (map (map_prod id head_json) hs)"

definition space_commitment_json :: "space_commitment \<Rightarrow> json" where
  "space_commitment_json c = JObj [(''kind'', JStr (sc_kind c)), (''id'', JStr (sc_id c)), (''k'', JInt (sc_k c))]"

definition body_json :: "anchor_body \<Rightarrow> json" where
  "body_json b = JObj [(''height'', JInt (a_height b)), (''prev'', str_or_null (a_prev b)), (''producer'', JStr (a_producer b)),
     (''nonce'', JInt (a_nonce b)), (''step'', JArr (map time_json (a_step b))), (''difficulty'', JStr (a_difficulty b)),
     (''headsDelta'', heads_json (a_headsDelta b)), (''stateRoot'', JStr (a_stateRoot b)), (''appRoot'', JStr (a_appRoot b)),
     (''weight'', JStr (a_weight b)), (''space'', space_commitment_json (a_space b)), (''proof'', a_proof b)]"

definition anchor_json :: "anchor_body \<Rightarrow> time_proof \<Rightarrow> json" where
  "anchor_json b t = JObj [(''body'', body_json b), (''time'', time_json t)]"

definition anchorIdOf :: "(bytes \<Rightarrow> bytes) \<Rightarrow> anchor_body \<Rightarrow> time_proof \<Rightarrow> string" where
  "anchorIdOf H b t = toHex (H (canonicalBytes (anchor_json b t)))"

definition seal :: "anchor_body \<Rightarrow> time_proof \<Rightarrow> string \<Rightarrow> string \<Rightarrow> anchor" where
  "seal b t i sig = anchor_body.extend b (anchor.fields t i sig)"

section \<open>Production\<close>

text \<open>The genesis loop: the nonce and the answer it stopped at.\<close>

fun grind_genesis :: "(bytes \<Rightarrow> bytes) \<Rightarrow> (bytes \<Rightarrow> mined_proof option) \<Rightarrow> nat \<Rightarrow> int \<Rightarrow> int \<times> mined_proof option" where
  "grind_genesis H prove left nonce = (case prove (anchorChallenge H None nonce) of
     Some m \<Rightarrow> (nonce, Some m)
   | None \<Rightarrow> (case left of 0 \<Rightarrow> (nonce, None) | Suc l \<Rightarrow> grind_genesis H prove l (nonce + 1)))"

text \<open>The signage loop: the steps served, the output reached and the answer; \<open>None\<close> when a step throws.\<close>

fun walk_signage ::
  "(bytes \<Rightarrow> bytes) \<Rightarrow> chain_params \<Rightarrow> (bytes \<Rightarrow> mined_proof option) \<Rightarrow> bytes \<Rightarrow> nat \<Rightarrow> time_proof list \<Rightarrow> string
   \<Rightarrow> (time_proof list \<times> string \<times> mined_proof option) option" where
  "walk_signage H params prove base left step out = (case prove (signageChallenge H base out (int (length step))) of
     Some m \<Rightarrow> Some (step, out, Some m)
   | None \<Rightarrow> (case left of 0 \<Rightarrow> Some (step, out, None)
     | Suc l \<Rightarrow> (case vdf_eval params (fromHex out) (signageStepIters params) of
         None \<Rightarrow> None
       | Some t \<Rightarrow> walk_signage H params prove base l (step @ [t]) (t_output t))))"

declare grind_genesis.simps [simp del] walk_signage.simps [simp del]

datatype mine_result = Mined anchor | NoProof | MineThrows

text \<open>What both branches of \<open>mineAnchor\<close> find: nonce, steps, challenge and answer.\<close>

definition find_proof ::
  "(bytes \<Rightarrow> bytes) \<Rightarrow> anchor option \<Rightarrow> space_prover \<Rightarrow> chain_params \<Rightarrow> (int \<times> time_proof list \<times> bytes \<times> mined_proof option) option" where
  "find_proof H prev prover params = (case prev of
     None \<Rightarrow> let (nonce, mined) = grind_genesis H (sp_prove prover) GENESIS_GRIND 0
       in Some (nonce, [], anchorChallenge H None nonce, mined)
   | Some _ \<Rightarrow> let base = anchorChallenge H prev 0
       in (case walk_signage H params (sp_prove prover) base MAX_SIGNAGE [] (toHex base) of
            None \<Rightarrow> None
          | Some (step, out, mined) \<Rightarrow> Some (0, step, signageChallenge H base out (int (length step)), mined)))"

text \<open>\<open>BigInt(prev.weight)\<close>, \<open>0n\<close> without a predecessor.\<close>

definition prev_weight :: "anchor option \<Rightarrow> int option" where
  "prev_weight prev = (case prev of None \<Rightarrow> Some 0 | Some p \<Rightarrow> BigInt_of (a_weight p))"

definition mineAnchor ::
  "(bytes \<Rightarrow> bytes) \<Rightarrow> (bytes \<Rightarrow> bytes \<Rightarrow> bytes) \<Rightarrow> anchor option \<Rightarrow> heads \<Rightarrow> keypair \<Rightarrow> space_prover \<Rightarrow> heads \<Rightarrow> chain_params
   \<Rightarrow> int \<Rightarrow> string \<Rightarrow> mine_result" where
  "mineAnchor H edsign prev prevHeads producer prover hs params diff appRoot = (
     let cm = sp_commitment prover; sw = spaceWeightFor cm
     in case find_proof H prev prover params of None \<Rightarrow> MineThrows
      | Some (_, _, _, None) \<Rightarrow> NoProof
      | Some (nonce, step, challenge, Some mined) \<Rightarrow>
         (case requiredIters (mp_quality mined) params sw diff of None \<Rightarrow> MineThrows
          | Some need \<Rightarrow>
         (case vdf_eval params (vdfChallenge H challenge (mp_quality mined)) (Number_of need) of None \<Rightarrow> MineThrows
          | Some time \<Rightarrow>
         (case prev_weight prev of None \<Rightarrow> MineThrows
          | Some pw \<Rightarrow>
             let body = \<lparr>a_height = (case prev of Some p \<Rightarrow> a_height p + 1 | None \<Rightarrow> 0), a_prev = map_option a_id prev,
                   a_producer = toHex (publicKey producer), a_nonce = nonce, a_step = step, a_difficulty = show_int diff,
                   a_headsDelta = diffHeads prevHeads hs, a_stateRoot = rootOfHeads H hs, a_appRoot = appRoot,
                   a_weight = show_int (pw + diff), a_space = cm, a_proof = mp_proof mined\<rparr>;
                 i = anchorIdOf H body time
             in Mined (seal body time i (toHex (edsign (privateKey producer) (fromHex i))))))))"

section \<open>Verification\<close>

datatype anchor_error = WrongAnchorDifficulty | BadHeight | BadPrevLink | BadCumulativeWeight | StateRootNotHeads
  | TooManySteps | GenesisWithSteps | NonceNotZero | BadStepSize nat | BadStepProof nat | BadAnchorSpace
  | AnchorCooldown | BadAnchorTime | AnchorIdMismatch | BadAnchorSignature | AnchorThrows

text \<open>The loop over the committed signage steps: the output they reach, or the first bad one.\<close>

fun check_steps :: "chain_params \<Rightarrow> int \<Rightarrow> nat \<Rightarrow> string \<Rightarrow> time_proof list \<Rightarrow> anchor_error + string" where
  "check_steps params si i out [] = Inr out"
| "check_steps params si i out (s # ss) =
     (if t_iters s \<noteq> si then Inl (BadStepSize i)
      else if \<not> vdf_verify params (fromHex out) s then Inl (BadStepProof i)
      else check_steps params si (Suc i) (t_output s) ss)"

definition challenge_of :: "(bytes \<Rightarrow> bytes) \<Rightarrow> chain_params \<Rightarrow> anchor option \<Rightarrow> anchor \<Rightarrow> anchor_error + bytes" where
  "challenge_of H params prev a = (case prev of
     None \<Rightarrow> if a_step a \<noteq> [] then Inl GenesisWithSteps else Inr (anchorChallenge H None (a_nonce a))
   | Some _ \<Rightarrow> if a_nonce a \<noteq> 0 then Inl NonceNotZero
       else let base = anchorChallenge H prev 0 in
         (case check_steps params (signageStepIters params) 0 (toHex base) (a_step a) of
            Inl e \<Rightarrow> Inl e
          | Inr out \<Rightarrow> Inr (signageChallenge H base out (int (length (a_step a))))))"

definition verifyAnchor ::
  "(bytes \<Rightarrow> bytes) \<Rightarrow> (bytes \<Rightarrow> bytes \<Rightarrow> bytes \<Rightarrow> bool) \<Rightarrow> anchor \<Rightarrow> anchor option \<Rightarrow> heads \<Rightarrow> chain_params \<Rightarrow> int
   \<Rightarrow> space_verifier \<Rightarrow> anchor_error + heads" where
  "verifyAnchor H edverify a prev prevHeads params expectedDifficulty verifier = (
     if a_difficulty a \<noteq> show_int expectedDifficulty then Inl WrongAnchorDifficulty
     else if a_height a \<noteq> (case prev of Some p \<Rightarrow> a_height p + 1 | None \<Rightarrow> 0) then Inl BadHeight
     else if a_prev a \<noteq> map_option a_id prev then Inl BadPrevLink
     else case prev_weight prev of None \<Rightarrow> Inl AnchorThrows
     | Some pw \<Rightarrow>
       if a_weight a \<noteq> show_int (pw + expectedDifficulty) then Inl BadCumulativeWeight
       else let hs = applyHeadsDelta prevHeads (a_headsDelta a) in
         if a_stateRoot a \<noteq> rootOfHeads H hs then Inl StateRootNotHeads
         else if length (a_step a) > MAX_SIGNAGE then Inl TooManySteps
         else (case challenge_of H params prev a of Inl e \<Rightarrow> Inl e
         | Inr challenge \<Rightarrow>
         (case verifier (a_space a) (a_producer a) challenge (a_proof a) of None \<Rightarrow> Inl BadAnchorSpace
         | Some quality \<Rightarrow>
           if quality = [] then Inl BadAnchorSpace
           else (case requiredIters quality params (spaceWeightFor (a_space a)) expectedDifficulty of None \<Rightarrow> Inl AnchorThrows
           | Some need \<Rightarrow>
             if t_iters (a_time a) < need then Inl AnchorCooldown
             else if \<not> vdf_verify params (vdfChallenge H challenge quality) (a_time a) then Inl BadAnchorTime
             else if anchorIdOf H (bodyOf a) (a_time a) \<noteq> a_id a then Inl AnchorIdMismatch
             else if \<not> edverify (fromHex (a_producer a)) (fromHex (a_id a)) (fromHex (a_sig a)) then Inl BadAnchorSignature
             else Inr hs))))"

section \<open>Genesis\<close>

definition GENESIS_PRODUCER :: string where "GENESIS_PRODUCER = replicate 64 (CHR ''0'')"

definition GENESIS_DOMAIN :: string where "GENESIS_DOMAIN = ''gavl-genesis-v1''"

definition genesisAnchor :: "(bytes \<Rightarrow> bytes) \<Rightarrow> string \<Rightarrow> int \<Rightarrow> string \<Rightarrow> anchor" where
  "genesisAnchor H network diff appRoot = (
     let seed = toHex (H (concatBytes [utf8 GENESIS_DOMAIN, utf8 network]));
         body = \<lparr>a_height = 0, a_prev = None, a_producer = GENESIS_PRODUCER, a_nonce = 0, a_step = [],
           a_difficulty = show_int diff, a_headsDelta = [], a_stateRoot = rootOfHeads H [], a_appRoot = appRoot,
           a_weight = show_int diff, a_space = \<lparr>sc_kind = ''genesis'', sc_id = seed, sc_k = 0\<rparr>, a_proof = JNull\<rparr>;
         time = \<lparr>t_iters = 0, t_output = seed, t_proof = []\<rparr>
     in seal body time (anchorIdOf H body time) [])"

section \<open>Heads deltas\<close>

lemma applyHeadsDelta_get:
  assumes "distinct (keys delta)"
  shows "map_of (applyHeadsDelta prev delta) w = (case map_of delta w of None \<Rightarrow> map_of prev w | Some h \<Rightarrow> Some h)"
proof -
  have "map_of (rev delta) = map_of delta"
    by (rule map_of_eqI) (use assms in \<open>auto simp: map_of_mem rev_map[symmetric] distinct_map\<close>)
  then show ?thesis unfolding applyHeadsDelta_def using alist.get_fold_set[of delta prev w] by simp
qed

lemma applyHeadsDelta_distinct: "distinct (keys prev) \<Longrightarrow> distinct (keys (applyHeadsDelta prev delta))"
  unfolding applyHeadsDelta_def using alist.invar_fold_set by fast

lemma diffHeads_get:
  assumes "distinct (keys nxt)"
  shows "map_of (diffHeads prev nxt) w = (if map_of nxt w = map_of prev w then None else map_of nxt w)"
proof (cases "map_of nxt w")
  case None
  then show ?thesis unfolding diffHeads_def map_of_filter_vals[OF assms] by simp
next
  case (Some h)
  then show ?thesis unfolding diffHeads_def map_of_filter_vals[OF assms]
    by (cases "map_of prev w") (auto simp: head.equality split: option.splits)
qed

lemma diffHeads_distinct: "distinct (keys nxt) \<Longrightarrow> distinct (keys (diffHeads prev nxt))"
  unfolding diffHeads_def by (rule distinct_keys_filter)

lemma apply_diff_heads:
  assumes "distinct (keys nxt)" "set (keys prev) \<subseteq> set (keys nxt)"
  shows "map_of (applyHeadsDelta prev (diffHeads prev nxt)) = map_of nxt"
proof
  fix w
  have "map_of nxt w = None \<Longrightarrow> map_of prev w = None" using assms(2) unfolding map_of_None_keys by blast
  then show "map_of (applyHeadsDelta prev (diffHeads prev nxt)) w = map_of nxt w"
    unfolding applyHeadsDelta_get[OF diffHeads_distinct[OF assms(1)]] diffHeads_get[OF assms(1)]
    by (auto split: option.split)
qed

section \<open>The loops\<close>

lemma seal_simps [simp]:
  "a_height (seal b t i s) = a_height b" "a_prev (seal b t i s) = a_prev b" "a_producer (seal b t i s) = a_producer b"
  "a_nonce (seal b t i s) = a_nonce b" "a_step (seal b t i s) = a_step b" "a_difficulty (seal b t i s) = a_difficulty b"
  "a_headsDelta (seal b t i s) = a_headsDelta b" "a_stateRoot (seal b t i s) = a_stateRoot b" "a_appRoot (seal b t i s) = a_appRoot b"
  "a_weight (seal b t i s) = a_weight b" "a_space (seal b t i s) = a_space b" "a_proof (seal b t i s) = a_proof b"
  "a_time (seal b t i s) = t" "a_id (seal b t i s) = i" "a_sig (seal b t i s) = s" "bodyOf (seal b t i s) = b"
  by (simp_all add: seal_def anchor_body.defs anchor.defs bodyOf_def)

lemma grind_genesis_found:
  "grind_genesis H prove left nonce = (n, Some m) \<Longrightarrow> prove (anchorChallenge H None n) = Some m"
  by (induction H prove left nonce rule: grind_genesis.induct)
    (auto simp: grind_genesis.simps split: option.splits nat.splits)

lemma check_steps_snoc:
  "check_steps params si i out ss = Inr out' \<Longrightarrow> t_iters t = si \<Longrightarrow> vdf_verify params (fromHex out') t \<Longrightarrow>
   check_steps params si i out (ss @ [t]) = Inr (t_output t)"
  by (induction params si i out ss rule: check_steps.induct) (auto split: if_splits)

text \<open>The walk serves a chain of steps the verifier accepts, and never more than it may.\<close>

lemma walk_signage_spec:
  assumes "walk_signage H params prove base left step out = Some (step', out', Some m)"
    and "vdf (vdf_eval params) (vdf_verify params)" "check_steps params (signageStepIters params) 0 o0 step = Inr out"
  shows "check_steps params (signageStepIters params) 0 o0 step' = Inr out' \<and> length step' \<le> length step + left
    \<and> prove (signageChallenge H base out' (int (length step'))) = Some m"
  using assms
proof (induction H params prove base left step out rule: walk_signage.induct)
  case (1 H params prove base left step out)
  show ?case
  proof (cases "prove (signageChallenge H base out (int (length step)))")
    case None
    then obtain l t where l: "left = Suc l" "vdf_eval params (fromHex out) (signageStepIters params) = Some t"
      and w: "walk_signage H params prove base l (step @ [t]) (t_output t) = Some (step', out', Some m)"
      using "1.prems"(1) by (subst (asm) walk_signage.simps) (auto split: nat.splits option.splits)
    have "check_steps params (signageStepIters params) 0 o0 (step @ [t]) = Inr (t_output t)"
      using check_steps_snoc[OF "1.prems"(3)] l(2) vdf.eval_iters[OF "1.prems"(2)] vdf.eval_verify[OF "1.prems"(2)] by blast
    from "1.IH"[OF None l w "1.prems"(2) this] show ?thesis using l(1) by simp
  next
    case (Some m')
    then show ?thesis using "1.prems" by (subst (asm) walk_signage.simps) auto
  qed
qed

text \<open>What the search hands to the rest of \<open>mineAnchor\<close> is what the verifier will reconstruct.\<close>

lemma find_proof_spec:
  assumes "find_proof H prev prover params = Some (nonce, step, challenge, Some m)"
    and "vdf (vdf_eval params) (vdf_verify params)"
    and a: "a_nonce a = nonce" "a_step a = step"
  shows "challenge_of H params prev a = Inr challenge \<and> length step \<le> MAX_SIGNAGE \<and> sp_prove prover challenge = Some m"
proof (cases prev)
  case None
  then show ?thesis using assms grind_genesis_found
    by (auto simp: find_proof_def challenge_of_def split: prod.splits)
next
  case (Some p)
  then obtain out where w: "walk_signage H params (sp_prove prover) (anchorChallenge H prev 0) MAX_SIGNAGE []
      (toHex (anchorChallenge H prev 0)) = Some (step, out, Some m)"
    and c: "challenge = signageChallenge H (anchorChallenge H prev 0) out (int (length step))" "nonce = 0"
    using assms(1) by (auto simp: find_proof_def Let_def split: option.splits)
  from walk_signage_spec[OF w assms(2), of "toHex (anchorChallenge H prev 0)"] show ?thesis
    using Some c a by (simp add: challenge_of_def Let_def)
qed

section \<open>What verification checks\<close>

lemma verifyAnchor_ok:
  "verifyAnchor H edv a prev prevHeads params diff verifier = Inr hs \<longleftrightarrow>
    a_difficulty a = show_int diff \<and> a_height a = (case prev of Some p \<Rightarrow> a_height p + 1 | None \<Rightarrow> 0)
    \<and> a_prev a = map_option a_id prev
    \<and> (\<exists>pw. prev_weight prev = Some pw \<and> a_weight a = show_int (pw + diff))
    \<and> hs = applyHeadsDelta prevHeads (a_headsDelta a) \<and> a_stateRoot a = rootOfHeads H hs \<and> length (a_step a) \<le> MAX_SIGNAGE
    \<and> (\<exists>c q n. challenge_of H params prev a = Inr c \<and> verifier (a_space a) (a_producer a) c (a_proof a) = Some q \<and> q \<noteq> []
        \<and> requiredIters q params (spaceWeightFor (a_space a)) diff = Some n \<and> n \<le> t_iters (a_time a)
        \<and> vdf_verify params (vdfChallenge H c q) (a_time a))
    \<and> a_id a = anchorIdOf H (bodyOf a) (a_time a) \<and> edv (fromHex (a_producer a)) (fromHex (a_id a)) (fromHex (a_sig a))"
proof (cases "prev_weight prev")
  case (Some pw)
  show ?thesis
  proof (cases "challenge_of H params prev a")
    case (Inr c)
    show ?thesis
    proof (cases "verifier (a_space a) (a_producer a) c (a_proof a)")
      case v: (Some q)
      show ?thesis
      proof (cases "requiredIters q params (spaceWeightFor (a_space a)) diff")
        case r: (Some n)
        show ?thesis using Some Inr v r by (auto simp: verifyAnchor_def Let_def not_less not_le)
      qed (use Some Inr v in \<open>simp add: verifyAnchor_def Let_def\<close>)
    qed (use Some Inr in \<open>simp add: verifyAnchor_def Let_def\<close>)
  qed (use Some in \<open>simp add: verifyAnchor_def Let_def\<close>)
qed (simp add: verifyAnchor_def)

section \<open>Mining and verifying\<close>

lemma requiredIters_floor: "requiredIters q params sw diff = Some n \<Longrightarrow> floorIters params \<le> n"
  by (auto simp: requiredIters_def Let_def split: option.splits if_splits)

lemma mineAnchor_verifies:
  assumes mine: "mineAnchor H eds prev prevHeads kp prover hs params diff appRoot = Mined a"
    and space: "\<And>c m. sp_prove prover c = Some m \<Longrightarrow> mp_quality m \<noteq> []
       \<and> verifier (sp_commitment prover) (toHex (publicKey kp)) c (mp_proof m) = Some (mp_quality m)"
    and cap: "\<And>c m n. sp_prove prover c = Some m \<Longrightarrow>
       requiredIters (mp_quality m) params (spaceWeightFor (sp_commitment prover)) diff = Some n \<Longrightarrow> n \<le> 2 ^ 53"
    and vdf: "vdf (vdf_eval params) (vdf_verify params)" and ed: "\<And>m. edv (publicKey kp) m (eds (privateKey kp) m)"
    and floor: "1 \<le> floorIters params"
    and hs: "distinct (keys prevHeads)" "distinct (keys hs)" "set (keys prevHeads) \<subseteq> set (keys hs)"
  shows "\<exists>hs'. verifyAnchor H edv a prev prevHeads params diff verifier = Inr hs' \<and> map_of hs' = map_of hs \<and> distinct (keys hs')"
proof -
  define cm where "cm = sp_commitment prover"
  obtain nonce step c m where f: "find_proof H prev prover params = Some (nonce, step, c, Some m)"
    using mine by (auto simp: mineAnchor_def Let_def split: option.splits)
  obtain need where need: "requiredIters (mp_quality m) params (spaceWeightFor cm) diff = Some need"
    using mine by (auto simp: mineAnchor_def Let_def f cm_def split: option.splits)
  obtain t where t: "vdf_eval params (vdfChallenge H c (mp_quality m)) (Number_of need) = Some t"
    using mine need by (auto simp: mineAnchor_def Let_def f cm_def split: option.splits)
  obtain pw where pw: "prev_weight prev = Some pw"
    using mine need t by (auto simp: mineAnchor_def Let_def f cm_def split: option.splits)
  define b where "b = \<lparr>a_height = (case prev of Some p \<Rightarrow> a_height p + 1 | None \<Rightarrow> 0), a_prev = map_option a_id prev,
                   a_producer = toHex (publicKey kp), a_nonce = nonce, a_step = step, a_difficulty = show_int diff,
                   a_headsDelta = diffHeads prevHeads hs, a_stateRoot = rootOfHeads H hs, a_appRoot = appRoot,
                   a_weight = show_int (pw + diff), a_space = cm, a_proof = mp_proof m\<rparr>"
  have a: "a = seal b t (anchorIdOf H b t) (toHex (eds (privateKey kp) (fromHex (anchorIdOf H b t))))"
    using mine need t pw by (simp add: mineAnchor_def Let_def f b_def cm_def)
  have bs: "a_nonce b = nonce" "a_step b = step" by (simp_all add: b_def)
  have "a_nonce a = nonce" "a_step a = step" by (simp_all add: a bs)
  note fp = find_proof_spec[OF f vdf this]
  note sp = space[OF fp[THEN conjunct2, THEN conjunct2]]
  have n: "1 \<le> need" "need \<le> 2 ^ 53"
    using requiredIters_floor[OF need] floor cap[OF fp[THEN conjunct2, THEN conjunct2] need[unfolded cm_def]] by auto
  then have num: "Number_of need = need" by simp
  have time: "t_iters t = need" "vdf_verify params (vdfChallenge H c (mp_quality m)) t"
    using t vdf.eval_iters[OF vdf] vdf.eval_verify[OF vdf] num by auto
  have map: "map_of (applyHeadsDelta prevHeads (diffHeads prevHeads hs)) = map_of hs"
    by (rule apply_diff_heads[OF hs(2,3)])
  moreover have d: "distinct (keys (applyHeadsDelta prevHeads (diffHeads prevHeads hs)))"
    by (rule applyHeadsDelta_distinct[OF hs(1)])
  ultimately have root: "rootOfHeads H (applyHeadsDelta prevHeads (diffHeads prevHeads hs)) = rootOfHeads H hs"
    using head_entries_cong[OF _ hs(2)] by (simp add: rootOfHeads_def)
  have "verifyAnchor H edv a prev prevHeads params diff verifier = Inr (applyHeadsDelta prevHeads (diffHeads prevHeads hs))"
    unfolding verifyAnchor_ok
  proof (intro conjI exI)
    show "challenge_of H params prev a = Inr c" using fp by simp
    show "verifier (a_space a) (a_producer a) c (a_proof a) = Some (mp_quality m)" using sp by (simp add: a) (simp add: b_def cm_def)
    show "requiredIters (mp_quality m) params (spaceWeightFor (a_space a)) diff = Some need"
      using need by (simp add: a) (simp add: b_def)
    show "vdf_verify params (vdfChallenge H c (mp_quality m)) (a_time a)" using time by (simp add: a)
    show "length (a_step a) \<le> MAX_SIGNAGE" using fp by (simp add: a bs)
    show "edv (fromHex (a_producer a)) (fromHex (a_id a)) (fromHex (a_sig a))" using ed by (simp add: a) (simp add: b_def)
  qed (use sp time pw root in \<open>simp_all add: a\<close>, simp_all add: b_def root[symmetric])
  with map d show ?thesis by blast
qed

text \<open>A prover that answers every challenge always produces an anchor.\<close>

lemma walk_signage_answers:
  assumes "\<And>c. prove c \<noteq> None"
  shows "\<exists>m. walk_signage H params prove base left step out = Some (step, out, Some m)"
proof -
  obtain m where "prove (signageChallenge H base out (int (length step))) = Some m" using assms by blast
  then show ?thesis by (simp add: walk_signage.simps[of H params prove base left step out])
qed

lemma grind_genesis_answers:
  assumes "\<And>c. prove c \<noteq> None"
  shows "\<exists>m. grind_genesis H prove left n = (n, Some m)"
proof -
  obtain m where "prove (anchorChallenge H None n) = Some m" using assms by blast
  then show ?thesis by (simp add: grind_genesis.simps[of H prove left n])
qed

lemma mineAnchor_answers:
  assumes "\<And>c. sp_prove prover c \<noteq> None"
    and "\<And>c m. sp_prove prover c = Some m \<Longrightarrow>
      \<exists>n. requiredIters (mp_quality m) params (spaceWeightFor (sp_commitment prover)) diff = Some n \<and> n \<le> 2 ^ 53"
    and "vdf (vdf_eval params) (vdf_verify params)" "1 \<le> floorIters params" "prev_weight prev \<noteq> None"
  shows "\<exists>a. mineAnchor H eds prev prevHeads kp prover hs params diff appRoot = Mined a"
proof -
  obtain nonce step c m where f: "find_proof H prev prover params = Some (nonce, step, c, Some m)"
  proof (cases prev)
    case None
    obtain m where "grind_genesis H (sp_prove prover) GENESIS_GRIND 0 = (0, Some m)"
      using grind_genesis_answers[where prove = "sp_prove prover", OF assms(1)] by blast
    then show ?thesis using None by (intro that) (simp add: find_proof_def)
  next
    case (Some p)
    obtain m where "walk_signage H params (sp_prove prover) (anchorChallenge H prev 0) MAX_SIGNAGE []
       (toHex (anchorChallenge H prev 0)) = Some ([], toHex (anchorChallenge H prev 0), Some m)"
      using walk_signage_answers[where prove = "sp_prove prover", OF assms(1)] by blast
    then show ?thesis using Some by (intro that) (simp add: find_proof_def Let_def)
  qed
  have m: "sp_prove prover c = Some m"
    using find_proof_spec[OF f assms(3), of "undefined\<lparr>a_nonce := nonce, a_step := step\<rparr>"] by simp
  obtain n where n: "requiredIters (mp_quality m) params (spaceWeightFor (sp_commitment prover)) diff = Some n" "n \<le> 2 ^ 53"
    using assms(2)[OF m] by blast
  have "1 \<le> n" using requiredIters_floor[OF n(1)] assms(4) by simp
  with n(2) have "Number_of n = n" by simp
  then obtain t where "vdf_eval params (vdfChallenge H c (mp_quality m)) (Number_of n) = Some t"
    using vdf.eval_total[OF assms(3) \<open>1 \<le> n\<close>] by metis
  then show ?thesis using f n assms(5) by (auto simp: mineAnchor_def Let_def)
qed

section \<open>The id commits to the anchor\<close>

definition anchor_content where
  "anchor_content b t = (a_height b, a_prev b, a_producer b, a_nonce b, a_step b, a_difficulty b, map_of (a_headsDelta b),
     a_stateRoot b, a_appRoot b, a_weight b, a_space b, sortValue (a_proof b), t)"

definition anchor_wf :: "anchor_body \<Rightarrow> bool" where
  "anchor_wf b \<longleftrightarrow> wf_json (a_proof b) \<and> distinct (keys (a_headsDelta b)) \<and> ''__proto__'' \<notin> set (keys (a_headsDelta b))"

lemma wf_heads_json [simp]: "distinct (keys hs) \<Longrightarrow> wf_json (heads_json hs)"
  by (auto simp: heads_json_def head_json_def map_prod_def case_prod_unfold o_def)

lemma wf_space_commitment_json [simp]: "wf_json (space_commitment_json c)"
  by (simp add: space_commitment_json_def)

lemma wf_body_json [simp]: "anchor_wf b \<Longrightarrow> wf_json (body_json b)"
  by (auto simp: body_json_def anchor_wf_def)

lemma wf_anchor_json: "anchor_wf b \<Longrightarrow> wf_json (anchor_json b t)"
  by (simp add: anchor_json_def)

lemma space_commitment_json_inj: "sortValue (space_commitment_json a) = sortValue (space_commitment_json b) \<Longrightarrow> a = b"
proof -
  assume eq: "sortValue (space_commitment_json a) = sortValue (space_commitment_json b)"
  from sortValue_JObj_D[OF eq[unfolded space_commitment_json_def]] show ?thesis by simp
qed

lemma head_json_inj: "sortValue (head_json a) = sortValue (head_json b) \<Longrightarrow> a = b"
proof -
  assume eq: "sortValue (head_json a) = sortValue (head_json b)"
  from sortValue_JObj_D[OF eq[unfolded head_json_def]] show ?thesis by simp
qed

lemma time_list_inj: "map (sortValue \<circ> time_json) xs = map (sortValue \<circ> time_json) ys \<Longrightarrow> xs = ys"
  by (rule map_injective) (auto simp: inj_def time_json_inj)

lemma heads_json_inj:
  assumes "sortValue (heads_json a) = sortValue (heads_json b)" "distinct (keys a)" "distinct (keys b)"
    and "''__proto__'' \<notin> set (keys a)" "''__proto__'' \<notin> set (keys b)"
  shows "map_of a = map_of b"
proof
  fix w :: string
  have get: "map_of (map (map_prod id head_json) hs) w = map_option head_json (map_of hs w)" for hs
    by (induction hs) auto
  show "map_of a w = map_of b w"
  proof (cases "w = ''__proto__''")
    case True
    then have "map_of a w = None" "map_of b w = None" using assms(4,5) by (simp_all only: map_of_None_keys not_False_eq_True)
    then show ?thesis by simp
  next
    case False
    have "map_option sortValue (map_of (map (map_prod id head_json) a) w) = map_option sortValue (map_of (map (map_prod id head_json) b) w)"
      by (rule sortValue_member) (use assms False wf_heads_json in \<open>auto simp: heads_json_def[symmetric]\<close>)
    then show ?thesis unfolding get by (cases "map_of a w"; cases "map_of b w") (auto dest: head_json_inj)
  qed
qed

lemma anchor_json_content:
  assumes "anchor_wf b" "anchor_wf b'" "canonicalize (anchor_json b t) = canonicalize (anchor_json b' t')"
  shows "anchor_content b t = anchor_content b' t'"
proof -
  have eq: "sortValue (anchor_json b t) = sortValue (anchor_json b' t')"
    using assms canonicalize_eq_iff wf_anchor_json by blast
  note m = sortValue_member[OF eq[unfolded anchor_json_def] wf_anchor_json[OF assms(1), unfolded anchor_json_def]
      wf_anchor_json[OF assms(2), unfolded anchor_json_def]]
  have body: "sortValue (body_json b) = sortValue (body_json b')" and "t = t'"
    using m[of "''body''"] m[of "''time''"] by (simp_all add: time_json_inj)
  note c = sortValue_member[OF body[unfolded body_json_def] wf_body_json[OF assms(1), unfolded body_json_def]
      wf_body_json[OF assms(2), unfolded body_json_def]]
  have "a_height b = a_height b'" "a_prev b = a_prev b'" "a_producer b = a_producer b'" "a_nonce b = a_nonce b'"
    using c[of "''height''"] c[of "''prev''"] c[of "''producer''"] c[of "''nonce''"] by (simp_all add: str_or_null_inj)
  moreover have "a_step b = a_step b'" by (rule time_list_inj) (use c[of "''step''"] in simp)
  moreover have "sortValue (heads_json (a_headsDelta b)) = sortValue (heads_json (a_headsDelta b'))"
    using c[of "''headsDelta''"] by simp
  then have "map_of (a_headsDelta b) = map_of (a_headsDelta b')"
    by (rule heads_json_inj) (use assms(1,2) in \<open>auto simp: anchor_wf_def\<close>)
  moreover have "a_difficulty b = a_difficulty b'" "a_stateRoot b = a_stateRoot b'" "a_appRoot b = a_appRoot b'" "a_weight b = a_weight b'"
    using c[of "''difficulty''"] c[of "''stateRoot''"] c[of "''appRoot''"] c[of "''weight''"] by simp_all
  moreover have "a_space b = a_space b'" "sortValue (a_proof b) = sortValue (a_proof b')"
    using c[of "''space''"] c[of "''proof''"] by (simp_all add: space_commitment_json_inj)
  ultimately show ?thesis using \<open>t = t'\<close> by (simp add: anchor_content_def)
qed

interpretation anchor_commit: commitment "\<lambda>(b, t). canonicalize (anchor_json b t)" "\<lambda>(b, t). anchor_content b t" "\<lambda>(b, t). anchor_wf b"
  by unfold_locales (auto intro: anchor_json_content)

lemma anchorIdOf_hex: "anchorIdOf H b t = sha256Hex H (canonicalize (anchor_json b t))"
  by (simp add: anchorIdOf_def sha256Hex_def canonicalBytes_def)

lemma anchor_id_content:
  assumes "anchor_wf b" "anchor_wf b'" "anchorIdOf H b t = anchorIdOf H b' t'"
  shows "anchor_content b t = anchor_content b' t' \<or> collision H (canonicalize (anchor_json b t)) (canonicalize (anchor_json b' t'))"
  using anchor_commit.binding[of "(b, t)" "(b', t')" H] assms by (simp add: anchorIdOf_hex)

section \<open>Properties\<close>

definition ex_prover :: space_prover where
  "ex_prover = \<lparr>sp_commitment = standin_commitment ex_plot, sp_prove = standin_prove ex_hash ex_plot\<rparr>"

definition ex_verifier :: space_verifier where
  "ex_verifier = standin_verify (\<lambda>_. None) ex_hash"

lemma ex_plot_made: "made_plot ex_hash ex_plot" "pl_seed ex_plot = replicate 32 5"
  using newPlot_D(1-4)[OF ex_plot_new] ex_plot_new by (auto simp: made_plot_def)

lemma ex_quality:
  assumes "sp_prove ex_prover c = Some m"
  shows "\<exists>q. mp_quality m = toHex q \<and> length q = 32"
proof -
  obtain r where "s_quality (provePlot ex_hash ex_plot c) = toHex (leaf_quality ex_hash (pl_leaves ex_plot ! r) c)"
    using provePlot_spec[OF ex_plot_new, of c] by auto
  then have "mp_quality m = toHex (leaf_quality ex_hash (pl_leaves ex_plot ! r) c)"
    using assms by (auto simp: ex_prover_def standin_prove_def Let_def)
  then show ?thesis unfolding leaf_quality_def using length_ex_hash by blast
qed

lemma ex_space:
  assumes "sp_prove ex_prover c = Some m"
  shows "mp_quality m \<noteq> [] \<and> ex_verifier (sp_commitment ex_prover) (toHex (publicKey ex_keys)) c (mp_proof m) = Some (mp_quality m)"
proof -
  obtain q where "mp_quality m = toHex q" "length q = 32" using ex_quality[OF assms] by blast
  then have "length (mp_quality m) = 64" by simp
  then have "mp_quality m \<noteq> []" by auto
  with standin_prove_verify[OF ex_plot_made(1), of c m "\<lambda>_. None"] assms show ?thesis
    by (simp add: ex_prover_def ex_verifier_def ex_keys_def ex_plot_made)
qed

lemma ex_cap:
  assumes "sp_prove ex_prover c = Some m"
  shows "\<exists>n. requiredIters (mp_quality m) ex_params (spaceWeightFor (sp_commitment ex_prover)) 2 = Some n \<and> n \<le> 2 ^ 53"
proof -
  obtain q where "mp_quality m = toHex q" "length q = 32" using ex_quality[OF assms] by blast
  then show ?thesis using requiredIters_within[of q 2 ex_params]
    by (auto simp: ex_params_def ex_prover_def standin_commitment_def spaceWeightFor_def)
qed

lemma ex_mine:
  "prev_weight prev \<noteq> None \<Longrightarrow> \<exists>a. mineAnchor ex_hash (\<lambda>_ _. []) prev [] ex_keys ex_prover [] ex_params 2 ar = Mined a"
  by (rule mineAnchor_answers[OF _ ex_cap ex_vdf]) (auto simp: ex_params_def ex_prover_def standin_prove_def Let_def)

text \<open>C13: an anchor that mining produces is accepted by verification against the same predecessor, heads and
  difficulty, and verification reconstructs exactly the heads it certifies from the delta; this is the
  case for any space backend whose verifier accepts what its prover finds, any delay function that keeps
  its contract, and as many signage steps as the prover needed.\<close>

theorem mined_anchor_verifies:
  assumes "mineAnchor H eds prev prevHeads kp prover hs params diff appRoot = Mined a"
    and "\<And>c m. sp_prove prover c = Some m \<Longrightarrow> mp_quality m \<noteq> []
       \<and> verifier (sp_commitment prover) (toHex (publicKey kp)) c (mp_proof m) = Some (mp_quality m)"
    and "\<And>c m n. sp_prove prover c = Some m \<Longrightarrow>
       requiredIters (mp_quality m) params (spaceWeightFor (sp_commitment prover)) diff = Some n \<Longrightarrow> n \<le> 2 ^ 53"
    and "vdf (vdf_eval params) (vdf_verify params)" "\<And>m. edv (publicKey kp) m (eds (privateKey kp) m)"
    and "1 \<le> floorIters params" "distinct (keys prevHeads)" "distinct (keys hs)" "set (keys prevHeads) \<subseteq> set (keys hs)"
  shows "\<exists>hs'. verifyAnchor H edv a prev prevHeads params diff verifier = Inr hs' \<and> map_of hs' = map_of hs"
proof -
  have "\<exists>hs'. verifyAnchor H edv a prev prevHeads params diff verifier = Inr hs' \<and> map_of hs' = map_of hs \<and> distinct (keys hs')"
    by (rule mineAnchor_verifies[OF assms(1)]) (fact assms)+
  then show ?thesis by blast
qed

theorem mined_anchor_verifies_witness:
  "\<exists>a b. mineAnchor ex_hash (\<lambda>_ _. []) None [] ex_keys ex_prover [] ex_params 2 ''r'' = Mined a
     \<and> mineAnchor ex_hash (\<lambda>_ _. []) (Some a) [] ex_keys ex_prover [] ex_params 2 ''s'' = Mined b
     \<and> (\<exists>hs. verifyAnchor ex_hash (\<lambda>_ _ _. True) b (Some a) [] ex_params 2 ex_verifier = Inr hs)"
proof -
  obtain a where a: "mineAnchor ex_hash (\<lambda>_ _. []) None [] ex_keys ex_prover [] ex_params 2 ''r'' = Mined a"
    using ex_mine[of None] by (auto simp: prev_weight_def)
  then have "a_weight a = show_int 2"
    by (auto simp: mineAnchor_def Let_def prev_weight_def split: option.splits prod.splits)
  then obtain b where b: "mineAnchor ex_hash (\<lambda>_ _. []) (Some a) [] ex_keys ex_prover [] ex_params 2 ''s'' = Mined b"
    using ex_mine[of "Some a"] by (auto simp: prev_weight_def)
  have cap: "n \<le> 2 ^ 53" if "sp_prove ex_prover c = Some m"
    "requiredIters (mp_quality m) ex_params (spaceWeightFor (sp_commitment ex_prover)) 2 = Some n" for c m n
    using ex_cap[OF that(1)] that(2) by auto
  have "\<exists>hs'. verifyAnchor ex_hash (\<lambda>_ _ _. True) b (Some a) [] ex_params 2 ex_verifier = Inr hs' \<and> map_of hs' = map_of []"
  proof (rule mined_anchor_verifies[OF b])
    show "1 \<le> floorIters ex_params" by (simp add: ex_params_def)
  qed (use ex_space cap ex_vdf in simp_all)
  with a b show ?thesis by blast
qed

text \<open>Exactly what an accepted anchor establishes: the schedule's difficulty, the next height and the
  link, the predecessor's weight plus that difficulty, the root of the reconstructed heads, a signage
  walk of verified steps, a space proof for the challenge it reaches, a cooldown that proof's quality asks
  for at this difficulty, the delay proof over both, the id and the producer's signature.\<close>

theorem verifyAnchor_exact:
  "verifyAnchor H edv a prev prevHeads params diff verifier = Inr hs \<longleftrightarrow>
    a_difficulty a = show_int diff \<and> a_height a = (case prev of Some p \<Rightarrow> a_height p + 1 | None \<Rightarrow> 0)
    \<and> a_prev a = map_option a_id prev
    \<and> (\<exists>pw. prev_weight prev = Some pw \<and> a_weight a = show_int (pw + diff))
    \<and> hs = applyHeadsDelta prevHeads (a_headsDelta a) \<and> a_stateRoot a = rootOfHeads H hs \<and> length (a_step a) \<le> MAX_SIGNAGE
    \<and> (\<exists>c q n. challenge_of H params prev a = Inr c \<and> verifier (a_space a) (a_producer a) c (a_proof a) = Some q \<and> q \<noteq> []
        \<and> requiredIters q params (spaceWeightFor (a_space a)) diff = Some n \<and> n \<le> t_iters (a_time a)
        \<and> vdf_verify params (vdfChallenge H c q) (a_time a))
    \<and> a_id a = anchorIdOf H (bodyOf a) (a_time a) \<and> edv (fromHex (a_producer a)) (fromHex (a_id a)) (fromHex (a_sig a))"
  by (rule verifyAnchor_ok)

text \<open>An anchor's id stands for one anchor: two accepted anchors with the same id agree on everything but
  their signatures (the heads delta as a map, the space payload up to canonical form), so a link by id
  fixes the whole ancestry, or a SHA-256 collision is at hand.\<close>

theorem anchor_id_binding:
  assumes "verifyAnchor H edv a p ph params d v = Inr hs" "verifyAnchor H edv a' p' ph' params d' v = Inr hs'" "a_id a = a_id a'"
    and "anchor_wf (bodyOf a)" "anchor_wf (bodyOf a')"
  shows "anchor_content (bodyOf a) (a_time a) = anchor_content (bodyOf a') (a_time a')
    \<or> collision H (canonicalize (anchor_json (bodyOf a) (a_time a))) (canonicalize (anchor_json (bodyOf a') (a_time a')))"
  by (rule anchor_id_content[OF assms(4,5)]) (use assms(1-3) in \<open>simp add: verifyAnchor_ok\<close>)

theorem anchor_id_binding_witness:
  "\<exists>a. (\<exists>hs. verifyAnchor ex_hash (\<lambda>_ _ _. True) a None [] ex_params 2 ex_verifier = Inr hs)
     \<and> (anchor_content (bodyOf a) (a_time a) = anchor_content (bodyOf a) (a_time a)
        \<or> collision ex_hash (canonicalize (anchor_json (bodyOf a) (a_time a))) (canonicalize (anchor_json (bodyOf a) (a_time a))))"
proof -
  obtain a where a: "mineAnchor ex_hash (\<lambda>_ _. []) None [] ex_keys ex_prover [] ex_params 2 ''r'' = Mined a"
    using ex_mine[of None] by (auto simp: prev_weight_def)
  have cap: "n \<le> 2 ^ 53" if "sp_prove ex_prover c = Some m"
    "requiredIters (mp_quality m) ex_params (spaceWeightFor (sp_commitment ex_prover)) 2 = Some n" for c m n
    using ex_cap[OF that(1)] that(2) by auto
  obtain hs where v: "verifyAnchor ex_hash (\<lambda>_ _ _. True) a None [] ex_params 2 ex_verifier = Inr hs"
  proof -
    have "\<exists>hs'. verifyAnchor ex_hash (\<lambda>_ _ _. True) a None [] ex_params 2 ex_verifier = Inr hs' \<and> map_of hs' = map_of []
      \<and> distinct (keys hs')"
    proof (rule mineAnchor_verifies[OF a])
      show "1 \<le> floorIters ex_params" by (simp add: ex_params_def)
    qed (use ex_space cap ex_vdf in simp_all)
    then show ?thesis using that by blast
  qed
  have "anchor_wf (bodyOf a)"
    using a by (auto simp: mineAnchor_def Let_def anchor_wf_def diffHeads_def find_proof_def ex_prover_def standin_prove_def
        split: option.splits prod.splits dest!: grind_genesis_found)
  from anchor_id_binding[OF v v refl this this] v show ?thesis by blast
qed

end
