(* ===== verification/Difficulty.thy ===== *)
theory Difficulty
  imports Anchor
begin

text \<open>
  \<open>src/consensus/difficulty.ts\<close>: the deterministic difficulty schedule. \<open>BigInt\<close> division truncates
  (\<open>sdiv\<close>); a division by zero throws, so the lemmas assume \<open>maxStep\<close> positive. Ancestors are
  found through a lookup by id, the argument \<open>get\<close>.
\<close>

definition clampStep :: "int \<Rightarrow> int \<Rightarrow> int \<Rightarrow> int" where
  "clampStep current nxt maxStep = (let lo = current sdiv maxStep; hi = current * maxStep in
     if nxt < lo then (if lo < 1 then 1 else lo)
     else if nxt > hi then hi
     else if nxt < 1 then 1 else nxt)"

definition retarget :: "int \<Rightarrow> anchor list \<Rightarrow> int \<Rightarrow> int option \<Rightarrow> int" where
  "retarget current window targetIters maxStep0 =
     (let maxStep = (case maxStep0 of None \<Rightarrow> 2 * 2 | Some m \<Rightarrow> m) in
      if window = [] then current
      else let totalIters = (\<Sum>a \<leftarrow> window. t_iters (a_time a));
               observed = totalIters sdiv int (length window)
           in if observed \<le> 0 then clampStep current (current * maxStep) maxStep
              else clampStep current ((current * targetIters) sdiv observed) maxStep)"

record retarget_schedule =
  rs_base :: int
  rs_targetIters :: int
  rs_epoch :: int
  rs_window :: nat
  rs_maxStep :: "int option"

text \<open>\<open>cur.prev ? get(cur.prev) : undefined\<close>: an empty text is no link either.\<close>

definition parent :: "(string \<Rightarrow> anchor option) \<Rightarrow> anchor \<Rightarrow> anchor option" where
  "parent get a = (case a_prev a of None \<Rightarrow> None | Some p \<Rightarrow> if p = [] then None else get p)"

fun ancestry_window :: "(string \<Rightarrow> anchor option) \<Rightarrow> nat \<Rightarrow> anchor option \<Rightarrow> anchor list" where
  "ancestry_window get (Suc n) (Some a) = a # ancestry_window get n (parent get a)"
| "ancestry_window get _ _ = []"

text \<open>\<open>None\<close> when \<open>BigInt(prev.difficulty)\<close> throws.\<close>

definition nextDifficulty :: "anchor option \<Rightarrow> (string \<Rightarrow> anchor option) \<Rightarrow> retarget_schedule \<Rightarrow> int option" where
  "nextDifficulty prev get sched = (case prev of None \<Rightarrow> Some (rs_base sched)
   | Some p \<Rightarrow> let height = a_height p + 1 in
     (case BigInt_of (a_difficulty p) of None \<Rightarrow> None
      | Some prevDiff \<Rightarrow> if height mod rs_epoch sched \<noteq> 0 then Some prevDiff
          else Some (retarget prevDiff (ancestry_window get (rs_window sched) (Some p)) (rs_targetIters sched) (rs_maxStep sched))))"

section \<open>The clamp\<close>

lemma div_le_self: "0 \<le> (a :: int) \<Longrightarrow> 1 \<le> b \<Longrightarrow> a div b \<le> a"
  using zdiv_mono2[of a 1 b] by simp

lemma clamp_aux:
  "lo \<le> (c :: int) \<Longrightarrow> c \<le> hi \<Longrightarrow> 1 \<le> c \<Longrightarrow>
   (if n < lo then if lo < 1 then 1 else lo else if n > hi then hi else if n < 1 then 1 else n) = max (max 1 lo) (min n hi)"
  "lo \<le> (c :: int) \<Longrightarrow> c \<le> hi \<Longrightarrow> 1 \<le> c \<Longrightarrow> max 1 lo \<le> max (max 1 lo) (min n hi) \<and> max (max 1 lo) (min n hi) \<le> hi"
  "lo \<le> (c :: int) \<Longrightarrow> c \<le> hi \<Longrightarrow> 1 \<le> c \<Longrightarrow> max (max 1 lo) (min hi hi) = hi"
  by auto

lemma clampStep_eq:
  assumes "1 \<le> current" "1 \<le> maxStep"
  shows "clampStep current n maxStep = max (max 1 (current div maxStep)) (min n (current * maxStep))"
proof -
  have s: "current sdiv maxStep = current div maxStep" using assms by (simp add: sdiv_pos)
  show ?thesis unfolding clampStep_def Let_def s
    by (rule clamp_aux(1)) (use assms in \<open>simp_all add: div_le_self mult_le_cancel_left1\<close>)
qed

lemma retarget_clamped:
  assumes "1 \<le> current" "\<And>m. ms = Some m \<Longrightarrow> 1 \<le> m"
  shows "let m = (case ms of None \<Rightarrow> 4 | Some m \<Rightarrow> m) in
    max 1 (current div m) \<le> retarget current w t ms \<and> retarget current w t ms \<le> current * m"
proof -
  define m where "m = (case ms of None \<Rightarrow> 4 | Some m \<Rightarrow> (m :: int))"
  have m: "1 \<le> m" using assms(2) by (simp add: m_def split: option.split)
  have le: "current div m \<le> current" "current \<le> current * m" using assms(1) m
    by (simp_all add: div_le_self mult_le_cancel_left1)
  have "max 1 (current div m) \<le> clampStep current n m \<and> clampStep current n m \<le> current * m" for n
    unfolding clampStep_eq[OF assms(1) m, of n] by (rule clamp_aux(2)[OF le assms(1)])
  moreover have "retarget current w t ms = current \<or> (\<exists>n. retarget current w t ms = clampStep current n m)"
  proof -
    have m4: "(case ms of None \<Rightarrow> 2 * 2 | Some m \<Rightarrow> (m :: int)) = m" by (simp add: m_def split: option.split)
    show ?thesis by (auto simp: retarget_def m4 Let_def)
  qed
  moreover have "max 1 (current div m) \<le> current" using le assms(1) by simp
  ultimately show ?thesis using le(2) unfolding m_def[symmetric] Let_def by metis
qed

text \<open>The schedule reads at most \<open>window\<close> anchors of the ancestry.\<close>

lemma ancestry_window_cong:
  "(\<And>a. a \<in> set (ancestry_window get n s) \<Longrightarrow> parent get a = parent get' a) \<Longrightarrow>
   ancestry_window get n s = ancestry_window get' n s"
proof (induction get n s rule: ancestry_window.induct)
  case (1 get n a)
  have "parent get a = parent get' a" using "1.prems" by simp
  moreover have "ancestry_window get n (parent get a) = ancestry_window get' n (parent get a)"
    by (rule "1.IH") (use "1.prems" in simp)
  ultimately show ?case by simp
qed simp_all

lemma length_ancestry_window: "length (ancestry_window get n s) \<le> n"
  by (induction get n s rule: ancestry_window.induct) auto

section \<open>Properties\<close>

text \<open>C14: retargeting is bounded and never stalls: from a positive difficulty the next one is positive, at
  most \<open>maxStep\<close> times and at least \<open>1/maxStep\<close> of it, whatever iterations the window claims; an exactly
  paced window keeps the difficulty, and a window that served fewer iterations never gets a lower one.\<close>

theorem retarget_bounds:
  assumes "1 \<le> current" "\<And>m. ms = Some m \<Longrightarrow> 1 \<le> m" "0 \<le> target"
  shows "(let m = (case ms of None \<Rightarrow> 4 | Some m \<Rightarrow> m) in
      max 1 (current div m) \<le> retarget current w target ms \<and> retarget current w target ms \<le> current * m)
    \<and> (w \<noteq> [] \<and> target \<ge> 1 \<and> (\<forall>a \<in> set w. t_iters (a_time a) = target) \<longrightarrow> retarget current w target ms = current)
    \<and> (length v = length w \<and> 0 \<le> (\<Sum>a \<leftarrow> v. t_iters (a_time a))
        \<and> (\<Sum>a \<leftarrow> v. t_iters (a_time a)) \<le> (\<Sum>a \<leftarrow> w. t_iters (a_time a)) \<longrightarrow>
       retarget current w target ms \<le> retarget current v target ms)"
proof -
  define m where "m = (case ms of None \<Rightarrow> 4 | Some m \<Rightarrow> (m :: int))"
  have m: "1 \<le> m" using assms(2) by (simp add: m_def split: option.split)
  have m4: "(case ms of None \<Rightarrow> 2 * 2 | Some m \<Rightarrow> (m :: int)) = m" by (simp add: m_def split: option.split)
  note clamp = clampStep_eq[OF assms(1) m]
  have le: "current div m \<le> current" "current \<le> current * m" using assms(1) m
    by (simp_all add: div_le_self mult_le_cancel_left1)
  have paced: "retarget current w target ms = current"
    if w: "w \<noteq> []" "target \<ge> 1" "\<forall>a \<in> set w. t_iters (a_time a) = target"
  proof -
    have "(\<Sum>a \<leftarrow> w. t_iters (a_time a)) = int (length w) * target"
      using w(3) by (induction w) (auto simp: algebra_simps)
    then have "(\<Sum>a \<leftarrow> w. t_iters (a_time a)) sdiv int (length w) = target"
      using w(1,2) by (simp add: sdiv_pos)
    then show ?thesis using w(1,2) assms(1) le by (simp add: retarget_def m4 Let_def clamp sdiv_pos)
  qed
  have mono: "retarget current w target ms \<le> retarget current v target ms"
    if v: "length v = length w" "0 \<le> (\<Sum>a \<leftarrow> v. t_iters (a_time a))"
      "(\<Sum>a \<leftarrow> v. t_iters (a_time a)) \<le> (\<Sum>a \<leftarrow> w. t_iters (a_time a))"
  proof (cases "w = []")
    case False
    then have ne: "v \<noteq> []" "0 < int (length w)" using v(1) by auto
    define ov where "ov = (\<Sum>a \<leftarrow> v. t_iters (a_time a)) div int (length w)"
    define ow where "ow = (\<Sum>a \<leftarrow> w. t_iters (a_time a)) div int (length w)"
    have obs: "ov \<le> ow" unfolding ov_def ow_def by (rule zdiv_mono1[OF v(3) ne(2)])
    have s: "(\<Sum>a \<leftarrow> v. t_iters (a_time a)) sdiv int (length v) = ov" "(\<Sum>a \<leftarrow> w. t_iters (a_time a)) sdiv int (length w) = ow"
      using v ne by (simp_all add: sdiv_pos ov_def ow_def)
    show ?thesis
    proof (cases "ov \<le> 0")
      case True
      then have "retarget current v target ms = current * m"
        using ne s clamp_aux(3)[OF le assms(1)] by (simp add: retarget_def m4 Let_def clamp)
      then show ?thesis using retarget_clamped[OF assms(1,2), where w = w and t = target] by (simp add: m_def Let_def)
    next
      case False
      then have "current * target div ow \<le> current * target div ov"
        using obs assms(1,3) by (intro zdiv_mono2) auto
      then show ?thesis using False obs ne s assms(1,3) \<open>w \<noteq> []\<close>
        by (simp add: retarget_def m4 Let_def clamp sdiv_pos max.coboundedI2 min.coboundedI1 max_def min_def)
    qed
  qed (use v(1) in \<open>simp add: retarget_def\<close>)
  from retarget_clamped[OF assms(1,2), where w = w and t = target] paced mono show ?thesis by blast
qed

theorem retarget_bounds_witness:
  "retarget 100 [genesisAnchor ex_hash ''n'' 2 ''r''\<lparr>a_time := \<lparr>t_iters = 7, t_output = [], t_proof = []\<rparr>\<rparr>] 7 None = 100"
  using retarget_bounds[of 100 None 7 "[genesisAnchor ex_hash ''n'' 2 ''r''\<lparr>a_time := \<lparr>t_iters = 7, t_output = [], t_proof = []\<rparr>\<rparr>]"]
  by simp

end
