(* ===== verification/Chain.thy ===== *)
theory Chain
  imports Difficulty
begin

text \<open>
  \<open>src/consensus/chain.ts\<close>: the anchor chain. The map of anchors is an association list by id; the
  application's state check is a function of that map, the anchor and its heads. An id is the
  hexadecimal text of a hash, never the empty text, so \<open>null\<close> is the only id that is not truthy.

  The loops that follow \<open>prev\<close> are \<open>ancestry_window\<close> with one turn per stored anchor and one more; a
  walk that visits strictly lower heights never needs more, which \<open>ancestry_enough\<close> shows.
\<close>

section \<open>State\<close>

definition DEFAULT_FINALITY_DEPTH :: nat where "DEFAULT_FINALITY_DEPTH = 2"

definition DEFAULT_SETTLEMENT_DEPTH :: nat where "DEFAULT_SETTLEMENT_DEPTH = 6"

definition FORK_WINDOW :: nat where "FORK_WINDOW = 64"

type_synonym anchor_map = "(string, anchor) jsmap"

record chain_options =
  co_schedule :: "retarget_schedule option"
  co_finalityDepth :: "nat option"
  co_settlementDepth :: "nat option"
  co_verifyState :: "(anchor_map \<Rightarrow> anchor \<Rightarrow> heads \<Rightarrow> bool) option"

record settled_conflict =
  cf_settled :: "string \<times> int"
  cf_rejected :: "string \<times> int \<times> string"

record anchor_chain =
  ac_params :: chain_params
  ac_verifier :: space_verifier
  ac_opts :: chain_options
  ac_conflict :: "settled_conflict option"
  ac_anchors :: anchor_map
  ac_tipId :: "string option"
  ac_tipHeads :: heads
  ac_finalCache :: "(string \<times> heads) option"
  ac_lockedId :: "string option"
  ac_settledId :: "string option"
  ac_floorId :: "string option"
  ac_floorHeads :: heads
  ac_genesisId :: "string option"

definition newAnchorChain :: "chain_params \<Rightarrow> space_verifier \<Rightarrow> chain_options \<Rightarrow> anchor_chain" where
  "newAnchorChain params verifier opts = \<lparr>ac_params = params, ac_verifier = verifier, ac_opts = opts, ac_conflict = None,
     ac_anchors = [], ac_tipId = None, ac_tipHeads = [], ac_finalCache = None, ac_lockedId = None, ac_settledId = None,
     ac_floorId = None, ac_floorHeads = [], ac_genesisId = None\<rparr>"

text \<open>\<open>None\<close> when a weight is no number and \<open>BigInt\<close> throws.\<close>

definition heavier :: "anchor \<Rightarrow> anchor \<Rightarrow> bool option" where
  "heavier a b = (case (BigInt_of (a_weight a), BigInt_of (a_weight b)) of
     (Some wa, Some wb) \<Rightarrow> Some (if wa \<noteq> wb then wa > wb else a_id a < a_id b)
   | _ \<Rightarrow> None)"

section \<open>Reading the chain\<close>

definition anchor_get :: "anchor_chain \<Rightarrow> string \<Rightarrow> anchor option" where
  "anchor_get c i = map_of (ac_anchors c) i"

definition ac_tip :: "anchor_chain \<Rightarrow> anchor option" where
  "ac_tip c = Option.bind (ac_tipId c) (anchor_get c)"

text \<open>The anchor and its held ancestors, newest first.\<close>

definition ancestry :: "anchor_chain \<Rightarrow> anchor \<Rightarrow> anchor list" where
  "ancestry c a = ancestry_window (anchor_get c) (Suc (length (ac_anchors c))) (Some a)"

definition chainTo :: "anchor_chain \<Rightarrow> anchor option \<Rightarrow> anchor list" where
  "chainTo c a = (case a of None \<Rightarrow> [] | Some a \<Rightarrow> rev (ancestry c a))"

definition descendsFrom :: "anchor_chain \<Rightarrow> anchor \<Rightarrow> string option \<Rightarrow> bool" where
  "descendsFrom c a i = (case i of None \<Rightarrow> True | Some i \<Rightarrow> list_ex (\<lambda>x. a_id x = i) (ancestry c a))"

fun step_back :: "(string \<Rightarrow> anchor option) \<Rightarrow> nat \<Rightarrow> anchor \<Rightarrow> anchor" where
  "step_back get 0 a = a"
| "step_back get (Suc k) a = (case parent get a of None \<Rightarrow> a | Some p \<Rightarrow> step_back get k p)"

definition finalized :: "anchor_chain \<Rightarrow> nat \<Rightarrow> anchor option" where
  "finalized c k = map_option (step_back (anchor_get c) k) (ac_tip c)"

definition ac_settled :: "anchor_chain \<Rightarrow> anchor option" where
  "ac_settled c = Option.bind (ac_settledId c) (anchor_get c)"

definition difficultyFor :: "anchor_chain \<Rightarrow> anchor option \<Rightarrow> int option" where
  "difficultyFor c prev = (case co_schedule (ac_opts c) of
     None \<Rightarrow> Some (difficulty (ac_params c))
   | Some s \<Rightarrow> nextDifficulty prev (anchor_get c) s)"

definition headsAt :: "anchor_chain \<Rightarrow> string \<Rightarrow> heads" where
  "headsAt c i = (if Some i = ac_tipId c then ac_tipHeads c
     else if Some i = ac_floorId c then ac_floorHeads c
     else (case anchor_get c i of None \<Rightarrow> []
       | Some a \<Rightarrow> let chain = chainTo c (Some a);
                      atFloor = ac_floorId c \<noteq> None \<and> length chain > 0 \<and> Some (a_id (hd chain)) = ac_floorId c
                  in fold (\<lambda>x hs. applyHeadsDelta hs (a_headsDelta x)) (if atFloor then tl chain else chain)
                       (if atFloor then ac_floorHeads c else [])))"

definition finalizedHeads :: "anchor_chain \<Rightarrow> nat \<Rightarrow> anchor_chain \<times> heads" where
  "finalizedHeads c k = (case finalized c k of None \<Rightarrow> (c, [])
     | Some f \<Rightarrow> (case ac_finalCache c of
         Some (i, hs) \<Rightarrow> if i = a_id f then (c, hs) else let hs = headsAt c (a_id f) in (c\<lparr>ac_finalCache := Some (a_id f, hs)\<rparr>, hs)
       | None \<Rightarrow> let hs = headsAt c (a_id f) in (c\<lparr>ac_finalCache := Some (a_id f, hs)\<rparr>, hs)))"

definition headsCovered :: "anchor_chain \<Rightarrow> heads \<Rightarrow> nat \<Rightarrow> anchor_chain \<times> bool" where
  "headsCovered c target k = (let (c', fin) = finalizedHeads c k in
     (c', list_all (\<lambda>(w, t). case map_of fin w of None \<Rightarrow> False | Some have \<Rightarrow> \<not> h_seq have < h_seq t) target))"

section \<open>Locks\<close>

definition lock_advance :: "anchor_chain \<Rightarrow> string option \<Rightarrow> nat option \<Rightarrow> string option" where
  "lock_advance c cur depth = (case depth of None \<Rightarrow> cur
     | Some d \<Rightarrow> (case finalized c d of None \<Rightarrow> cur
       | Some newly \<Rightarrow> (case Option.bind cur (anchor_get c) of
           None \<Rightarrow> Some (a_id newly)
         | Some prev \<Rightarrow> if a_height newly > a_height prev then Some (a_id newly) else cur)))"

definition updateLock :: "anchor_chain \<Rightarrow> anchor_chain" where
  "updateLock c = (let c' = c\<lparr>ac_lockedId := lock_advance c (ac_lockedId c) (co_finalityDepth (ac_opts c))\<rparr>
     in c'\<lparr>ac_settledId := lock_advance c' (ac_settledId c') (co_settlementDepth (ac_opts c'))\<rparr>)"

definition setTip :: "anchor_chain \<Rightarrow> anchor \<Rightarrow> heads \<Rightarrow> anchor_chain" where
  "setTip c a hs = updateLock (c\<lparr>ac_tipId := Some (a_id a), ac_tipHeads := hs\<rparr>)"

section \<open>Fork resolution\<close>

datatype verdict = Keep | SwitchTo string bool

text \<open>Anchors won per producer in the window, genesis left out, as the list of their producers.\<close>

definition reference_producers :: "anchor_chain \<Rightarrow> anchor \<Rightarrow> string list" where
  "reference_producers c fork = filter (\<lambda>p. p \<noteq> GENESIS_PRODUCER)
     (map a_producer (ancestry_window (anchor_get c) FORK_WINDOW (Some fork)))"

definition support :: "string list \<Rightarrow> string list \<Rightarrow> string list \<Rightarrow> nat" where
  "support ref mine other = (\<Sum>p \<leftarrow> remdups mine. if p \<in> set other then 0 else count_list ref p)"

definition resolveFork :: "anchor_chain \<Rightarrow> anchor \<Rightarrow> anchor option \<Rightarrow> verdict" where
  "resolveFork c a tip = (
     let ourline = (case tip of None \<Rightarrow> [] | Some t \<Rightarrow> ancestry c t);
         theirline = ancestry c a;
         shared = (\<lambda>x. a_id x \<in> set (map a_id ourline));
         theirs = takeWhile (\<lambda>x. \<not> shared x) theirline
     in case dropWhile (\<lambda>x. \<not> shared x) theirline of
          [] \<Rightarrow> Keep
        | fork # _ \<Rightarrow>
            let ours = takeWhile (\<lambda>x. a_id x \<noteq> a_id fork) ourline;
                ourProducers = map a_producer ours;
                theirProducers = map a_producer theirs;
                ref = reference_producers c fork
            in if 2 * support ref ourProducers theirProducers > length ref then Keep
               else if 2 * support ref theirProducers ourProducers > length ref then SwitchTo (a_id (last theirs)) True
               else SwitchTo (a_id fork) False)"

section \<open>Adding an anchor\<close>

datatype add_error = WrongGenesis | UnknownPrev | InvalidAnchor anchor_error | BadAppRoot | ConflictsFinalized | ConflictsSettled | AddThrows

datatype add_result = AddOk | AddFail add_error

text \<open>The choice of the tip once the anchor is verified and stored.\<close>

definition choose_tip :: "anchor_chain \<Rightarrow> anchor \<Rightarrow> heads \<Rightarrow> anchor_chain \<times> add_result" where
  "choose_tip c a hs = (
     let tip = ac_tip c
     in case (case tip of None \<Rightarrow> Some True | Some t \<Rightarrow> heavier a t) of None \<Rightarrow> (c, AddFail AddThrows)
      | Some wouldBeTip \<Rightarrow>
         if descendsFrom c a (ac_lockedId c) then (if wouldBeTip then setTip c a hs else c, AddOk)
         else case resolveFork c a tip of
             SwitchTo i final \<Rightarrow>
               if final \<or> wouldBeTip then
                 (if \<not> descendsFrom c a (ac_settledId c) then
                    (case ac_settled c of None \<Rightarrow> (c, AddFail AddThrows)
                     | Some s \<Rightarrow> (c\<lparr>ac_conflict := Some \<lparr>cf_settled = (a_id s, a_height s), cf_rejected = (a_id a, a_height a, a_weight a)\<rparr>\<rparr>,
                                 AddFail ConflictsSettled))
                  else (setTip (c\<lparr>ac_lockedId := Some i\<rparr>) a hs, AddOk))
               else (c, AddOk)
           | Keep \<Rightarrow> if wouldBeTip then (c, AddFail ConflictsFinalized) else (c, AddOk))"

definition add_anchor ::
  "(bytes \<Rightarrow> bytes) \<Rightarrow> (bytes \<Rightarrow> bytes \<Rightarrow> bytes \<Rightarrow> bool) \<Rightarrow> anchor_chain \<Rightarrow> anchor \<Rightarrow> anchor_chain \<times> add_result" where
  "add_anchor H edv c a = (
     if anchor_get c (a_id a) \<noteq> None then (c, AddOk)
     else if a_prev a = None \<and> ac_genesisId c \<noteq> None \<and> Some (a_id a) \<noteq> ac_genesisId c then (c, AddFail WrongGenesis)
     else let prev = parent (anchor_get c) a in
       if a_prev a \<noteq> None \<and> a_prev a \<noteq> Some [] \<and> prev = None then (c, AddFail UnknownPrev)
       else let prevHeads = (case prev of Some p \<Rightarrow> headsAt c (a_id p) | None \<Rightarrow> []) in
         (case difficultyFor c prev of None \<Rightarrow> (c, AddFail AddThrows)
          | Some d \<Rightarrow>
           (case verifyAnchor H edv a prev prevHeads (ac_params c) d (ac_verifier c) of
              Inl e \<Rightarrow> (c, AddFail (InvalidAnchor e))
            | Inr hs \<Rightarrow>
                let c1 = c\<lparr>ac_anchors := map_set (a_id a) a (ac_anchors c)\<rparr> in
                (case co_verifyState (ac_opts c) of
                   Some ok \<Rightarrow> if ok (ac_anchors c1) a hs then choose_tip c1 a hs
                              else (c1\<lparr>ac_anchors := map_del (a_id a) (ac_anchors c1)\<rparr>, AddFail BadAppRoot)
                 | None \<Rightarrow> choose_tip c1 a hs))))"

section \<open>Pruning, adopting, installing\<close>

text \<open>The height the caller asks for, clamped to the locked and the settled anchor.\<close>

definition clamp_floor :: "anchor_chain \<Rightarrow> int \<Rightarrow> int" where
  "clamp_floor c floorHeight = (
     let f1 = (case Option.bind (ac_lockedId c) (anchor_get c) of None \<Rightarrow> floorHeight
               | Some l \<Rightarrow> if floorHeight > a_height l then a_height l else floorHeight)
     in case (if co_settlementDepth (ac_opts c) \<noteq> None then Option.bind (ac_settledId c) (anchor_get c) else None) of
          None \<Rightarrow> f1
        | Some s \<Rightarrow> if f1 > a_height s then a_height s else f1)"

definition prune :: "anchor_chain \<Rightarrow> int \<Rightarrow> anchor_chain" where
  "prune c floorHeight0 = (case ac_tip c of None \<Rightarrow> c
   | Some tip \<Rightarrow> let floorHeight = clamp_floor c floorHeight0 in
       if floorHeight \<le> 0 then c
       else if (case Option.bind (ac_floorId c) (anchor_get c) of None \<Rightarrow> False | Some f \<Rightarrow> floorHeight \<le> a_height f) then c
       else (case dropWhile (\<lambda>x. a_height x > floorHeight) (ancestry c tip) of
          [] \<Rightarrow> c
        | floor # _ \<Rightarrow> if a_height floor \<noteq> floorHeight then c
            else let fh = headsAt c (a_id floor)
                 in c\<lparr>ac_anchors := filter (\<lambda>(_, a). \<not> a_height a < floorHeight) (ac_anchors c),
                      ac_floorId := Some (a_id floor), ac_floorHeads := fh\<rparr>))"

fun link_run :: "anchor \<Rightarrow> anchor list \<Rightarrow> anchor list" where
  "link_run cur [] = []"
| "link_run cur (a # as) = (if a_prev cur \<noteq> Some (a_id a) \<or> a_height a \<noteq> a_height cur - 1 then [] else a # link_run a as)"

datatype adopt_error = ChainNotEmpty | FloorHeadsMismatch | NotEpochBoundary | WindowNotCovered nat int

definition adopt ::
  "(bytes \<Rightarrow> bytes) \<Rightarrow> anchor_chain \<Rightarrow> anchor \<Rightarrow> heads \<Rightarrow> anchor list \<Rightarrow> adopt_error + anchor_chain" where
  "adopt H c floor floorHeads anc = (
     let genesisOnly = length (ac_anchors c) = 1 \<and> map_option a_height (ac_tip c) = Some 0
     in if ac_tipId c \<noteq> None \<and> \<not> genesisOnly then Inl ChainNotEmpty
        else if rootOfHeads H floorHeads \<noteq> a_stateRoot floor then Inl FloorHeadsMismatch
        else let linked = link_run floor anc in
          (case (case co_schedule (ac_opts c) of None \<Rightarrow> None
                 | Some s \<Rightarrow> if a_height floor mod rs_epoch s \<noteq> 0 then Some NotEpochBoundary
                     else let dip = int (rs_window s) - rs_epoch s in
                       if dip > 0 \<and> int (length linked) < dip then Some (WindowNotCovered (length linked) dip) else None) of
             Some e \<Rightarrow> Inl e
           | None \<Rightarrow> let held = (if genesisOnly then [] else ac_anchors c);
                         stored = fold (\<lambda>a m. map_set (a_id a) a m) linked held
                     in Inr (c\<lparr>ac_anchors := map_set (a_id floor) floor stored, ac_floorId := Some (a_id floor),
                          ac_floorHeads := floorHeads, ac_tipId := Some (a_id floor), ac_tipHeads := floorHeads,
                          ac_lockedId := Some (a_id floor), ac_settledId := Some (a_id floor)\<rparr>)))"

datatype install_error = InstallNotEmpty | NotHeightZero | InstallHeadsMismatch

definition installGenesis :: "(bytes \<Rightarrow> bytes) \<Rightarrow> anchor_chain \<Rightarrow> anchor \<Rightarrow> heads \<Rightarrow> install_error + anchor_chain" where
  "installGenesis H c g hs = (
     if ac_tipId c \<noteq> None \<or> length (ac_anchors c) > 0 then Inl InstallNotEmpty
     else if a_height g \<noteq> 0 \<or> a_prev g \<noteq> None then Inl NotHeightZero
     else if rootOfHeads H hs \<noteq> a_stateRoot g then Inl InstallHeadsMismatch
     else Inr (c\<lparr>ac_anchors := map_set (a_id g) g (ac_anchors c), ac_tipId := Some (a_id g), ac_tipHeads := hs,
            ac_lockedId := Some (a_id g), ac_settledId := Some (a_id g), ac_genesisId := Some (a_id g)\<rparr>))"

definition ac_size :: "anchor_chain \<Rightarrow> nat" where
  "ac_size c = length (ac_anchors c)"

section \<open>Walks\<close>

text \<open>A map of anchors is well formed when every anchor is filed under its id and is one higher than its
  parent, where that is held.\<close>

definition map_ok :: "anchor_map \<Rightarrow> bool" where
  "map_ok m \<longleftrightarrow> distinct (keys m) \<and> (\<forall>i a. map_of m i = Some a \<longrightarrow> a_id a = i
     \<and> (\<forall>p. parent (map_of m) a = Some p \<longrightarrow> a_height a = a_height p + 1))"

definition stored :: "anchor_map \<Rightarrow> anchor \<Rightarrow> bool" where
  "stored m a \<longleftrightarrow> map_of m (a_id a) = Some a"

definition line :: "anchor_map \<Rightarrow> anchor \<Rightarrow> anchor list" where
  "line m a = ancestry_window (map_of m) (Suc (length m)) (Some a)"

lemma ancestry_line: "ancestry c a = line (ac_anchors c) a"
proof -
  have "anchor_get c = map_of (ac_anchors c)" by (rule ext) (simp add: anchor_get_def)
  then show ?thesis by (simp add: ancestry_def line_def)
qed

lemma anchor_get_map: "anchor_get c = map_of (ac_anchors c)"
  by (rule ext) (simp add: anchor_get_def)

lemma map_ok_id: "map_ok m \<Longrightarrow> map_of m i = Some a \<Longrightarrow> a_id a = i \<and> stored m a"
  by (auto simp: map_ok_def stored_def)

lemma map_ok_parent:
  assumes "map_ok m" "parent (map_of m) a = Some p"
  shows "stored m p"
  using assms by (auto simp: parent_def stored_def map_ok_def split: option.splits if_splits)

lemma map_ok_height: "map_ok m \<Longrightarrow> stored m a \<Longrightarrow> parent (map_of m) a = Some p \<Longrightarrow> a_height a = a_height p + 1"
  by (auto simp: map_ok_def stored_def)

lemma window_stored:
  "map_ok m \<Longrightarrow> stored m a \<Longrightarrow> x \<in> set (ancestry_window (map_of m) n (Some a)) \<Longrightarrow> stored m x \<and> a_height x \<le> a_height a"
proof (induction n arbitrary: a)
  case (Suc n)
  show ?case
  proof (cases "x = a")
    case False
    then obtain p where p: "parent (map_of m) a = Some p" "x \<in> set (ancestry_window (map_of m) n (Some p))"
      using Suc.prems(3) by (cases "parent (map_of m) a"; cases n) auto
    then show ?thesis using Suc.IH[OF Suc.prems(1) map_ok_parent[OF Suc.prems(1) p(1)] p(2)] map_ok_height[OF Suc.prems(1,2) p(1)]
      by simp
  qed (use Suc.prems in simp)
qed simp

lemma window_distinct:
  "map_ok m \<Longrightarrow> stored m a \<Longrightarrow> distinct (map a_id (ancestry_window (map_of m) n (Some a)))"
proof (induction n arbitrary: a)
  case (Suc n)
  show ?case
  proof (cases "parent (map_of m) a")
    case (Some p)
    note pp = map_ok_parent[OF Suc.prems(1) Some] and h = map_ok_height[OF Suc.prems Some]
    have "a_id x \<noteq> a_id a" if "x \<in> set (ancestry_window (map_of m) n (Some p))" for x
    proof
      assume "a_id x = a_id a"
      with window_stored[OF Suc.prems(1) pp that] Suc.prems(2) have "x = a" "a_height x \<le> a_height p" by (auto simp: stored_def)
      with h show False by simp
    qed
    then show ?thesis using Some Suc.IH[OF Suc.prems(1) pp] by fastforce
  qed (cases n; simp)
qed simp

lemma stored_key: "stored m x \<Longrightarrow> a_id x \<in> set (keys m)"
  by (metis stored_def map_of_None_keys option.distinct(1))

lemma window_length:
  assumes "map_ok m" "stored m a"
  shows "length (ancestry_window (map_of m) n (Some a)) \<le> length m"
proof -
  let ?w = "ancestry_window (map_of m) n (Some a)"
  have "set (map a_id ?w) \<subseteq> set (keys m)"
  proof
    fix i assume "i \<in> set (map a_id ?w)"
    then obtain x where "x \<in> set ?w" "i = a_id x" by auto
    then show "i \<in> set (keys m)" using window_stored[OF assms] stored_key by blast
  qed
  then have "card (set (map a_id ?w)) \<le> card (set (keys m))" by (intro card_mono) auto
  also have "\<dots> \<le> length m" using card_length[of "keys m"] by simp
  finally show ?thesis using distinct_card[OF window_distinct[OF assms, of n]] by simp
qed

lemma window_stable:
  "length (ancestry_window get n s) < n \<Longrightarrow> n \<le> k \<Longrightarrow> ancestry_window get k s = ancestry_window get n s"
proof (induction n arbitrary: s k)
  case (Suc n)
  obtain k' where k: "k = Suc k'" using Suc.prems(2) by (cases k) simp_all
  show ?case
  proof (cases s)
    case (Some a)
    have "length (ancestry_window get n (parent get a)) < n" "n \<le> k'" using Suc.prems k Some by simp_all
    then have "ancestry_window get k' (parent get a) = ancestry_window get n (parent get a)" by (rule Suc.IH)
    then show ?thesis by (simp add: k Some)
  qed (simp add: k)
qed simp

text \<open>More turns than anchors change nothing: the walk has ended.\<close>

lemma line_enough:
  assumes "map_ok m" "stored m a" "length m < n"
  shows "ancestry_window (map_of m) n (Some a) = line m a"
  unfolding line_def
proof (rule window_stable)
  show "length (ancestry_window (map_of m) (Suc (length m)) (Some a)) < Suc (length m)"
    using window_length[OF assms(1,2), of "Suc (length m)"] by simp
qed (use assms(3) in simp)

lemma line_step:
  assumes "map_ok m" "stored m a"
  shows "line m a = a # (case parent (map_of m) a of None \<Rightarrow> [] | Some p \<Rightarrow> line m p)"
proof (cases "parent (map_of m) a")
  case None
  then show ?thesis by (cases "length m") (simp_all add: line_def)
next
  case (Some p)
  have "line m a = ancestry_window (map_of m) (Suc (Suc (length m))) (Some a)"
    using line_enough[OF assms, of "Suc (Suc (length m))"] by simp
  also have "\<dots> = a # line m p" using Some by (simp add: line_def)
  finally show ?thesis using Some by simp
qed

lemma line_self: "map_ok m \<Longrightarrow> stored m a \<Longrightarrow> a \<in> set (line m a)"
  by (subst line_step) simp_all

lemma line_stored: "map_ok m \<Longrightarrow> stored m a \<Longrightarrow> x \<in> set (line m a) \<Longrightarrow> stored m x \<and> a_height x \<le> a_height a"
  unfolding line_def by (rule window_stored)

text \<open>Induction along a line, downwards.\<close>

lemma line_induct [consumes 2, case_names Root Link]:
  assumes "map_ok m" "stored m a"
    and root: "\<And>a. stored m a \<Longrightarrow> parent (map_of m) a = None \<Longrightarrow> P a"
    and link: "\<And>a p. stored m a \<Longrightarrow> parent (map_of m) a = Some p \<Longrightarrow> stored m p \<Longrightarrow> P p \<Longrightarrow> P a"
  shows "P a"
  using assms(2)
proof (induction "length (line m a)" arbitrary: a rule: less_induct)
  case less
  show ?case
  proof (cases "parent (map_of m) a")
    case (Some p)
    have "length (line m p) < length (line m a)" using line_step[OF assms(1) less.prems] Some by simp
    then show ?thesis using link[OF less.prems Some] map_ok_parent[OF assms(1) Some] less.hyps by blast
  qed (use root less.prems in blast)
qed

lemma line_suffix:
  assumes "map_ok m" "stored m a" "x \<in> set (line m a)"
  shows "\<exists>ys. line m a = ys @ line m x \<and> (\<forall>y \<in> set ys. a_height x < a_height y)"
  using assms
proof (induction rule: line_induct)
  case (Root a)
  then show ?case using line_step[OF assms(1) Root(1)] by auto
next
  case (Link a p)
  show ?case
  proof (cases "x = a")
    case False
    then have "x \<in> set (line m p)" using Link.prems line_step[OF assms(1) Link(1)] Link(2) by simp
    then obtain ys where ys: "line m p = ys @ line m x" "\<forall>y \<in> set ys. a_height x < a_height y" using Link.IH by blast
    have "a_height x \<le> a_height p" using line_stored[OF assms(1) Link(3) \<open>x \<in> set (line m p)\<close>] by simp
    then have "a_height x < a_height a" using map_ok_height[OF assms(1) Link(1,2)] by simp
    then show ?thesis using ys line_step[OF assms(1) Link(1)] Link(2) by (intro exI[of _ "a # ys"]) simp
  qed auto
qed

lemma line_trans: "map_ok m \<Longrightarrow> stored m a \<Longrightarrow> x \<in> set (line m a) \<Longrightarrow> y \<in> set (line m x) \<Longrightarrow> y \<in> set (line m a)"
  using line_suffix by fastforce

text \<open>Two ancestors of one anchor are on one line, the higher above the lower.\<close>

lemma line_comparable:
  assumes "map_ok m" "stored m a" "x \<in> set (line m a)" "y \<in> set (line m a)" "a_height x \<le> a_height y"
  shows "x \<in> set (line m y)"
proof -
  obtain ys where "line m a = ys @ line m y" "\<forall>z \<in> set ys. a_height y < a_height z" using line_suffix[OF assms(1,2,4)] by blast
  then show ?thesis using assms(3,5) by fastforce
qed

lemma stored_id_eq: "stored m x \<Longrightarrow> stored m y \<Longrightarrow> a_id x = a_id y \<Longrightarrow> x = y"
  by (simp add: stored_def)

lemma step_back_line: "map_ok m \<Longrightarrow> stored m a \<Longrightarrow> step_back (map_of m) k a \<in> set (line m a)"
proof (induction k arbitrary: a)
  case 0
  then show ?case by (simp add: line_self)
next
  case (Suc k)
  then show ?case using line_step[OF Suc.prems] map_ok_parent[OF Suc.prems(1)]
    by (cases "parent (map_of m) a") auto
qed

lemma step_back_height:
  assumes "map_ok m" "stored m a"
  shows "d \<le> s \<Longrightarrow> a_height (step_back (map_of m) s a) \<le> a_height (step_back (map_of m) d a)"
  using assms
proof (induction d arbitrary: a s)
  case 0
  then show ?case using line_stored[OF 0(2,3) step_back_line[OF 0(2,3)]] by simp
next
  case (Suc d)
  then obtain s' where s: "s = Suc s'" by (cases s) simp_all
  show ?case
  proof (cases "parent (map_of m) a")
    case (Some p)
    then show ?thesis using Suc.IH[of s' p] Suc.prems s map_ok_parent[OF Suc.prems(2) Some] by simp
  qed (simp add: s)
qed

section \<open>Storing an anchor\<close>

text \<open>What is asked of a new anchor: one above its parent, and one below anchors already held that name it
  as theirs (an anchor can be held without its parent after a prune).\<close>

definition fits :: "anchor_map \<Rightarrow> anchor \<Rightarrow> bool" where
  "fits m a \<longleftrightarrow> map_of m (a_id a) = None \<and> a_prev a \<noteq> Some (a_id a)
     \<and> (\<forall>p. parent (map_of m) a = Some p \<longrightarrow> a_height a = a_height p + 1)
     \<and> (\<forall>b. stored m b \<and> a_prev b = Some (a_id a) \<longrightarrow> a_height b = a_height a + 1)"

abbreviation store_in :: "anchor_map \<Rightarrow> anchor \<Rightarrow> anchor_map" where
  "store_in m a \<equiv> map_set (a_id a) a m"

lemma parent_store:
  "parent (map_of (store_in m a)) b = (if a_prev b = Some (a_id a) \<and> a_id a \<noteq> [] then Some a else parent (map_of m) b)"
  by (auto simp: parent_def map_of_set split: option.splits)

lemma parent_store_old: "map_of m (a_id a) = None \<Longrightarrow> parent (map_of m) b = Some p \<Longrightarrow> parent (map_of (store_in m a)) b = Some p"
  by (auto simp: parent_def map_of_set split: option.splits if_splits)

lemma store_self: "stored (store_in m a) a"
  by (simp add: stored_def map_of_set)

lemma store_old: "map_of m (a_id a) = None \<Longrightarrow> stored m b \<Longrightarrow> stored (store_in m a) b"
  by (auto simp: stored_def map_of_set)

lemma store_ok:
  assumes "map_ok m" "fits m a"
  shows "map_ok (store_in m a)"
proof -
  have "a_height b = a_height p + 1"
    if b: "map_of (store_in m a) i = Some b" and p: "parent (map_of (store_in m a)) b = Some p" for i b p
  proof (cases "b = a")
    case True
    then show ?thesis using assms(2) p unfolding parent_store fits_def by auto
  next
    case False
    then have "stored m b" using b map_ok_id[OF assms(1)] by (auto simp: map_of_set split: if_splits)
    then show ?thesis
      using assms p map_ok_height[OF assms(1)] unfolding parent_store fits_def by (auto split: if_splits)
  qed
  moreover have "a_id b = i" if "map_of (store_in m a) i = Some b" for i b
    using that map_ok_id[OF assms(1)] by (auto simp: map_of_set split: if_splits)
  moreover have "distinct (keys (store_in m a))" using assms(1) by (simp add: map_ok_def distinct_update)
  ultimately show ?thesis unfolding map_ok_def by blast
qed

lemma line_grows:
  assumes "map_ok m" "fits m a" "stored m b"
  shows "set (line m b) \<subseteq> set (line (store_in m a) b)"
  using assms(1,3)
proof (induction rule: line_induct)
  case (Root b)
  have "stored (store_in m a) b" using store_old assms(2) Root by (simp add: fits_def)
  then show ?case using line_step[OF assms(1) Root(1)] Root(2) line_self[OF store_ok[OF assms(1,2)]] by simp
next
  case (Link b p)
  have b: "stored (store_in m a) b" using store_old assms(2) Link by (simp add: fits_def)
  have p: "parent (map_of (store_in m a)) b = Some p" using parent_store_old assms(2) Link(2) by (simp add: fits_def)
  show ?case using line_step[OF assms(1) Link(1)] line_step[OF store_ok[OF assms(1,2)] b] p Link(2,4) by auto
qed

section \<open>Locks\<close>

text \<open>The locked and the settled anchor lie on the line of the tip, the settled one not above the locked.\<close>

definition locks_ok :: "anchor_map \<Rightarrow> anchor \<Rightarrow> string option \<Rightarrow> string option \<Rightarrow> bool" where
  "locks_ok m t locked settled \<longleftrightarrow> (\<forall>l. locked = Some l \<longrightarrow> (\<exists>L \<in> set (line m t). a_id L = l))
     \<and> (\<forall>s. settled = Some s \<longrightarrow> (\<exists>S \<in> set (line m t). a_id S = s \<and> (\<exists>L \<in> set (line m t). locked = Some (a_id L) \<and> a_height S \<le> a_height L)))"

definition chain_inv :: "anchor_chain \<Rightarrow> bool" where
  "chain_inv c \<longleftrightarrow> map_ok (ac_anchors c)
     \<and> (case ac_tipId c of None \<Rightarrow> ac_lockedId c = None \<and> ac_settledId c = None
        | Some t \<Rightarrow> \<exists>T. map_of (ac_anchors c) t = Some T \<and> locks_ok (ac_anchors c) T (ac_lockedId c) (ac_settledId c))"

definition depths_ok :: "anchor_chain \<Rightarrow> bool" where
  "depths_ok c \<longleftrightarrow> (\<exists>d s. co_finalityDepth (ac_opts c) = Some d \<and> co_settlementDepth (ac_opts c) = Some s \<and> d \<le> s)"

lemma newAnchorChain_inv: "chain_inv (newAnchorChain params v opts)"
  by (simp add: chain_inv_def newAnchorChain_def map_ok_def)

text \<open>One step of \<open>updateLock\<close>: the higher of the lock and the anchor now deep enough.\<close>

lemma lock_advance_spec:
  assumes m: "map_ok (ac_anchors c)" and t: "ac_tip c = Some t" "stored (ac_anchors c) t"
    and cur: "\<And>l. cur = Some l \<Longrightarrow> \<exists>L \<in> set (line (ac_anchors c) t). a_id L = l"
  shows "\<exists>N \<in> set (line (ac_anchors c) t). lock_advance c cur (Some d) = Some (a_id N)
    \<and> a_height (step_back (map_of (ac_anchors c)) d t) \<le> a_height N
    \<and> (N = step_back (map_of (ac_anchors c)) d t \<or> cur = Some (a_id N))
    \<and> (\<forall>L \<in> set (line (ac_anchors c) t). cur = Some (a_id L) \<longrightarrow> a_height L \<le> a_height N)"
proof -
  let ?m = "ac_anchors c" let ?N = "step_back (map_of (ac_anchors c)) d t"
  have N: "?N \<in> set (line ?m t)" by (rule step_back_line[OF m t(2)])
  have fin: "finalized c d = Some ?N" by (simp add: finalized_def t(1) anchor_get_map)
  show ?thesis
  proof (cases cur)
    case None
    then show ?thesis using N by (intro bexI[OF _ N]) (simp add: lock_advance_def fin)
  next
    case (Some l)
    then obtain L where L: "L \<in> set (line ?m t)" "a_id L = l" using cur by blast
    have st: "stored ?m L" using line_stored[OF m t(2) L(1)] by simp
    then have get: "anchor_get c l = Some L" using L(2) by (simp add: anchor_get_map stored_def)
    have uniq: "L' = L" if "L' \<in> set (line ?m t)" "a_id L' = l" for L'
      using that stored_id_eq[OF _ st] line_stored[OF m t(2) that(1)] L(2) by simp
    show ?thesis
    proof (cases "a_height ?N > a_height L")
      case True
      have adv: "lock_advance c cur (Some d) = Some (a_id ?N)" using True Some by (simp add: lock_advance_def fin get)
      have "a_height X \<le> a_height ?N" if "X \<in> set (line ?m t)" "cur = Some (a_id X)" for X
        using uniq[OF that(1)] that(2) Some True by simp
      with adv N show ?thesis by blast
    next
      case False
      have adv: "lock_advance c cur (Some d) = Some (a_id L)" using False Some L(2) by (simp add: lock_advance_def fin get)
      have "a_height X \<le> a_height L" if "X \<in> set (line ?m t)" "cur = Some (a_id X)" for X
        using uniq[OF that(1)] that(2) Some by simp
      moreover have "a_height ?N \<le> a_height L" "cur = Some (a_id L)" using False Some L(2) by simp_all
      ultimately show ?thesis using adv L(1) by blast
    qed
  qed
qed

lemma setTip_inv:
  assumes m: "map_ok (ac_anchors c)" and t: "stored (ac_anchors c) t" and d: "depths_ok c"
    and locks: "locks_ok (ac_anchors c) t (ac_lockedId c) (ac_settledId c)"
  shows "chain_inv (setTip c t hs) \<and> ac_tipId (setTip c t hs) = Some (a_id t) \<and> ac_anchors (setTip c t hs) = ac_anchors c
    \<and> ac_opts (setTip c t hs) = ac_opts c
    \<and> (\<forall>S \<in> set (line (ac_anchors c) t). ac_settledId c = Some (a_id S) \<longrightarrow>
        (\<exists>S' \<in> set (line (ac_anchors c) t). ac_settledId (setTip c t hs) = Some (a_id S') \<and> S \<in> set (line (ac_anchors c) S')))"
proof -
  obtain d s where ds: "co_finalityDepth (ac_opts c) = Some d" "co_settlementDepth (ac_opts c) = Some s" "d \<le> s"
    using d by (auto simp: depths_ok_def)
  let ?m = "ac_anchors c"
  define c1 where "c1 = c\<lparr>ac_tipId := Some (a_id t), ac_tipHeads := hs\<rparr>"
  have c1: "ac_anchors c1 = ?m" "ac_tip c1 = Some t" "ac_lockedId c1 = ac_lockedId c" "ac_settledId c1 = ac_settledId c"
    using t by (simp_all add: c1_def ac_tip_def anchor_get_map stored_def)
  have "\<exists>N \<in> set (line ?m t). lock_advance c1 (ac_lockedId c) (Some d) = Some (a_id N)
    \<and> a_height (step_back (map_of ?m) d t) \<le> a_height N
    \<and> (N = step_back (map_of ?m) d t \<or> ac_lockedId c = Some (a_id N))
    \<and> (\<forall>L \<in> set (line ?m t). ac_lockedId c = Some (a_id L) \<longrightarrow> a_height L \<le> a_height N)"
    unfolding c1(1)[symmetric] by (rule lock_advance_spec) (use m t c1 locks in \<open>auto simp: locks_ok_def\<close>)
  then obtain L where L: "L \<in> set (line ?m t)" "lock_advance c1 (ac_lockedId c) (Some d) = Some (a_id L)"
    "a_height (step_back (map_of ?m) d t) \<le> a_height L"
    "\<And>X. X \<in> set (line ?m t) \<Longrightarrow> ac_lockedId c = Some (a_id X) \<Longrightarrow> a_height X \<le> a_height L" by blast
  define c2 where "c2 = c1\<lparr>ac_lockedId := Some (a_id L)\<rparr>"
  have c2: "ac_anchors c2 = ?m" "ac_tip c2 = Some t" "ac_settledId c2 = ac_settledId c"
    using c1 by (simp_all add: c2_def ac_tip_def anchor_get_map)
  have "\<exists>N \<in> set (line ?m t). lock_advance c2 (ac_settledId c) (Some s) = Some (a_id N)
    \<and> a_height (step_back (map_of ?m) s t) \<le> a_height N
    \<and> (N = step_back (map_of ?m) s t \<or> ac_settledId c = Some (a_id N))
    \<and> (\<forall>L \<in> set (line ?m t). ac_settledId c = Some (a_id L) \<longrightarrow> a_height L \<le> a_height N)"
    unfolding c2(1)[symmetric] by (rule lock_advance_spec) (use m t c2 locks in \<open>auto simp: locks_ok_def\<close>)
  then obtain S where S: "S \<in> set (line ?m t)" "lock_advance c2 (ac_settledId c) (Some s) = Some (a_id S)"
    "S = step_back (map_of ?m) s t \<or> ac_settledId c = Some (a_id S)"
    "\<And>X. X \<in> set (line ?m t) \<Longrightarrow> ac_settledId c = Some (a_id X) \<Longrightarrow> a_height X \<le> a_height S" by blast
  have res: "setTip c t hs = c2\<lparr>ac_settledId := Some (a_id S)\<rparr>"
    using L(2) S(2) ds by (simp add: setTip_def updateLock_def Let_def c1_def c2_def)
  have "a_height S \<le> a_height L"
  proof (rule disjE[OF S(3)])
    assume "S = step_back (map_of ?m) s t"
    then show ?thesis using step_back_height[OF m t ds(3)] L(3) by simp
  next
    assume "ac_settledId c = Some (a_id S)"
    then obtain S0 L0 where "S0 \<in> set (line ?m t)" "a_id S0 = a_id S" "L0 \<in> set (line ?m t)" "ac_lockedId c = Some (a_id L0)"
      "a_height S0 \<le> a_height L0" using locks by (auto simp: locks_ok_def)
    moreover from this have "S0 = S" using line_stored[OF m t S(1)] line_stored[OF m t, of S0] stored_id_eq[of ?m S0 S] by simp
    ultimately show ?thesis using L(4)[of L0] by simp
  qed
  then have "locks_ok ?m t (Some (a_id L)) (Some (a_id S))" using L(1) S(1) by (auto simp: locks_ok_def)
  then have "chain_inv (setTip c t hs)"
    using m t by (auto simp: chain_inv_def res c2_def c1_def stored_def)
  moreover have "X \<in> set (line ?m S)" if "X \<in> set (line ?m t)" "ac_settledId c = Some (a_id X)" for X
    by (rule line_comparable[OF m t that(1) S(1) S(4)[OF that]])
  ultimately show ?thesis using S(1) by (auto simp: res c2_def c1_def)
qed

lemma line_sorted:
  assumes "map_ok m" "stored m a"
  shows "sorted_wrt (\<lambda>x y. a_height y < a_height x) (line m a)"
  using assms
proof (induction rule: line_induct)
  case (Root a)
  then show ?case using line_step[OF assms(1) Root(1)] by simp
next
  case (Link a p)
  have "a_height x < a_height a" if "x \<in> set (line m p)" for x
    using line_stored[OF assms(1) Link(3) that] map_ok_height[OF assms(1) Link(1,2)] by simp
  then show ?case using line_step[OF assms(1) Link(1)] Link(2,4) by simp
qed

text \<open>The fork point is the highest common ancestor, and a switch locks an anchor of the new branch not
  below it.\<close>

lemma resolveFork_switch:
  assumes m: "map_ok m" and a: "stored m a" and t: "stored m t" and c: "ac_anchors c = m"
    and r: "resolveFork c a (Some t) = SwitchTo i final"
  shows "\<exists>F L. F \<in> set (line m a) \<and> F \<in> set (line m t) \<and> L \<in> set (line m a) \<and> a_id L = i \<and> a_height F \<le> a_height L
    \<and> (\<forall>x \<in> set (line m a). x \<in> set (line m t) \<longrightarrow> a_height x \<le> a_height F)"
proof -
  let ?sh = "\<lambda>x. a_id x \<in> set (map a_id (line m t))"
  let ?theirs = "takeWhile (\<lambda>x. \<not> ?sh x) (line m a)"
  note res = r[unfolded resolveFork_def Let_def ancestry_line c option.case]
  obtain F rest where F: "dropWhile (\<lambda>x. \<not> ?sh x) (line m a) = F # rest"
    using res by (auto split: list.splits)
  note res = res[unfolded F list.case]
  have split: "line m a = ?theirs @ F # rest" unfolding F[symmetric] by simp
  have sorted: "sorted_wrt (\<lambda>x y. a_height y < a_height x) (?theirs @ F # rest)" using line_sorted[OF m a] split by simp
  have Fa: "F \<in> set (line m a)" by (subst split) simp
  have "?sh F" using F unfolding dropWhile_eq_Cons_conv by blast
  then obtain F' where "F' \<in> set (line m t)" "a_id F' = a_id F" by auto
  then have Ft: "F \<in> set (line m t)" using stored_id_eq line_stored[OF m a Fa] line_stored[OF m t, of F'] by metis
  have low: "a_height x \<le> a_height F" if x: "x \<in> set (line m a)" "x \<in> set (line m t)" for x
  proof -
    have "x \<notin> set ?theirs" using x(2) by (auto dest!: set_takeWhileD)
    then have "x \<in> set (F # rest)" using x(1) by (subst (asm) split) auto
    then show ?thesis using sorted by (auto simp: sorted_wrt_append)
  qed
  have "\<exists>L \<in> set (line m a). a_id L = i \<and> a_height F \<le> a_height L"
  proof (cases final)
    case True
    have i: "i = a_id (last ?theirs)" and ne: "?theirs \<noteq> []"
      using res True by (simp_all add: support_def split: if_splits) auto
    have "last ?theirs \<in> set ?theirs" using ne by simp
    then have "a_height F \<le> a_height (last ?theirs)" using sorted by (fastforce simp: sorted_wrt_append)
    moreover have "last ?theirs \<in> set (line m a)" using \<open>last ?theirs \<in> set ?theirs\<close> by (meson set_takeWhileD)
    ultimately show ?thesis using i by blast
  next
    case False
    then have "i = a_id F" using res by (simp split: if_splits)
    with Fa show ?thesis by blast
  qed
  with Fa Ft low show ?thesis by blast
qed

definition keeps_settled :: "anchor_chain \<Rightarrow> anchor_chain \<Rightarrow> bool" where
  "keeps_settled c c' \<longleftrightarrow> (\<forall>S. stored (ac_anchors c) S \<and> ac_settledId c = Some (a_id S) \<longrightarrow>
     (\<exists>t S'. ac_tip c' = Some t \<and> stored (ac_anchors c') S' \<and> ac_settledId c' = Some (a_id S')
        \<and> S' \<in> set (line (ac_anchors c') t) \<and> S \<in> set (line (ac_anchors c') S')))"

lemma chain_inv_tip:
  assumes "chain_inv c" "ac_tip c = Some t"
  shows "stored (ac_anchors c) t \<and> locks_ok (ac_anchors c) t (ac_lockedId c) (ac_settledId c)"
  using assms map_ok_id[of "ac_anchors c"]
  by (auto simp: chain_inv_def ac_tip_def anchor_get_map split: option.splits)

lemma chain_inv_no_tip: "chain_inv c \<Longrightarrow> ac_tip c = None \<Longrightarrow> ac_lockedId c = None \<and> ac_settledId c = None"
  by (auto simp: chain_inv_def ac_tip_def anchor_get_map split: option.splits)

lemma keeps_settled_refl:
  assumes "chain_inv c"
  shows "keeps_settled c c"
  unfolding keeps_settled_def
proof (intro allI impI, elim conjE)
  fix S assume S: "stored (ac_anchors c) S" "ac_settledId c = Some (a_id S)"
  then obtain t where t: "ac_tip c = Some t" using chain_inv_no_tip[OF assms] by (cases "ac_tip c") auto
  have m: "map_ok (ac_anchors c)" using assms by (simp add: chain_inv_def)
  note lt = chain_inv_tip[OF assms t]
  then obtain S' where "S' \<in> set (line (ac_anchors c) t)" "a_id S' = a_id S" using S(2) by (auto simp: locks_ok_def)
  then have "S \<in> set (line (ac_anchors c) t)" using line_stored[OF m] lt S(1) stored_id_eq by metis
  then show "\<exists>t S'. ac_tip c = Some t \<and> stored (ac_anchors c) S' \<and> ac_settledId c = Some (a_id S')
        \<and> S' \<in> set (line (ac_anchors c) t) \<and> S \<in> set (line (ac_anchors c) S')"
    using t S line_self[OF m S(1)] by blast
qed

lemma setTip_keeps:
  assumes m: "map_ok (ac_anchors c)" and t: "stored (ac_anchors c) t" and d: "depths_ok c"
    and locks: "locks_ok (ac_anchors c) t lk (ac_settledId c)"
  shows "chain_inv (setTip (c\<lparr>ac_lockedId := lk\<rparr>) t hs) \<and> keeps_settled c (setTip (c\<lparr>ac_lockedId := lk\<rparr>) t hs)
    \<and> ac_anchors (setTip (c\<lparr>ac_lockedId := lk\<rparr>) t hs) = ac_anchors c \<and> ac_opts (setTip (c\<lparr>ac_lockedId := lk\<rparr>) t hs) = ac_opts c"
proof -
  let ?c = "c\<lparr>ac_lockedId := lk\<rparr>" and ?m = "ac_anchors c"
  have "depths_ok ?c" using d by (simp add: depths_ok_def)
  note st = setTip_inv[of ?c t hs, OF _ _ this, simplified, OF m t locks]
  have tip: "ac_tip (setTip ?c t hs) = Some t" using st t by (simp add: ac_tip_def anchor_get_map stored_def)
  have "\<exists>t' S'. ac_tip (setTip ?c t hs) = Some t' \<and> stored ?m S' \<and> ac_settledId (setTip ?c t hs) = Some (a_id S')
        \<and> S' \<in> set (line ?m t') \<and> S \<in> set (line ?m S')" if S: "stored ?m S" "ac_settledId c = Some (a_id S)" for S
  proof -
    obtain S0 where "S0 \<in> set (line ?m t)" "a_id S0 = a_id S" using locks S(2) by (auto simp: locks_ok_def)
    then have "S \<in> set (line ?m t)" using line_stored[OF m t] S(1) stored_id_eq by metis
    then obtain S' where "S' \<in> set (line ?m t)" "ac_settledId (setTip ?c t hs) = Some (a_id S')" "S \<in> set (line ?m S')"
      using st S(2) by blast
    then show ?thesis using tip line_stored[OF m t] by blast
  qed
  then show ?thesis using st by (simp add: keeps_settled_def)
qed

lemma resolveFork_None: "resolveFork c a None = Keep"
proof -
  have "dropWhile (\<lambda>x. \<not> a_id x \<in> set (map a_id ([] :: anchor list))) (ancestry c a) = []" by simp
  then show ?thesis unfolding resolveFork_def Let_def option.case by (simp only: list.case)
qed

text \<open>The ways the choice of the tip can end.\<close>

lemma choose_tip_cases:
  assumes ch: "choose_tip c a hs = (c', r)"
  obtains (keep) "c' = c \<or> (\<exists>k. c' = c\<lparr>ac_conflict := k\<rparr>)"
    | (extend) "descendsFrom c a (ac_lockedId c)" "c' = setTip c a hs"
    | (switch) i final where "resolveFork c a (ac_tip c) = SwitchTo i final" "descendsFrom c a (ac_settledId c)"
        "c' = setTip (c\<lparr>ac_lockedId := Some i\<rparr>) a hs"
proof -
  define wouldBe where "wouldBe = (case ac_tip c of None \<Rightarrow> Some True | Some t \<Rightarrow> heavier a t)"
  show ?thesis
  proof (cases wouldBe)
    case (Some w)
    show ?thesis
    proof (cases "descendsFrom c a (ac_lockedId c)")
      case True
      then have "c' = (if w then setTip c a hs else c)"
        using ch Some unfolding choose_tip_def Let_def wouldBe_def[symmetric] by simp
      then show ?thesis using extend[OF True] keep by (cases w) (simp_all only: if_True if_False simp_thms)
    next
      case lock: False
      show ?thesis
      proof (cases "resolveFork c a (ac_tip c)")
        case Keep
        then have "c' = c" using ch Some lock unfolding choose_tip_def Let_def wouldBe_def[symmetric] by (cases w) simp_all
        then show ?thesis using keep by blast
      next
        case (SwitchTo i final)
        show ?thesis
        proof (cases "(final \<or> w) \<and> descendsFrom c a (ac_settledId c)")
          case True
          then have "c' = setTip (c\<lparr>ac_lockedId := Some i\<rparr>) a hs"
            using ch Some lock SwitchTo unfolding choose_tip_def Let_def wouldBe_def[symmetric] by simp
          then show ?thesis using switch SwitchTo True by blast
        next
          case False
          have "c' = c \<or> (\<exists>k. c' = c\<lparr>ac_conflict := k\<rparr>)"
          proof (cases "final \<or> w")
            case True
            with False have "\<not> descendsFrom c a (ac_settledId c)" by simp
            then show ?thesis using ch Some lock SwitchTo True unfolding choose_tip_def Let_def wouldBe_def[symmetric]
              by (cases "ac_settled c") auto
          next
            case False
            then show ?thesis using ch Some lock SwitchTo unfolding choose_tip_def Let_def wouldBe_def[symmetric] by simp
          qed
          then show ?thesis by (rule keep)
        qed
      qed
    qed
  next
    case None
    then have "c' = c" using ch unfolding choose_tip_def Let_def wouldBe_def[symmetric] by simp
    then show ?thesis using keep by blast
  qed
qed

lemma choose_tip_inv:
  assumes inv: "chain_inv c" and a: "stored (ac_anchors c) a" and d: "depths_ok c" and ch: "choose_tip c a hs = (c', r)"
  shows "chain_inv c' \<and> keeps_settled c c' \<and> ac_anchors c' = ac_anchors c \<and> ac_opts c' = ac_opts c"
proof -
  let ?m = "ac_anchors c"
  have m: "map_ok ?m" using inv by (simp add: chain_inv_def)
  note id = keeps_settled_refl[OF inv]
  have desc: "descendsFrom c a i \<longleftrightarrow> (\<forall>l. i = Some l \<longrightarrow> (\<exists>L \<in> set (line ?m a). a_id L = l))" for i
    by (auto simp: descendsFrom_def ancestry_line list_ex_iff split: option.split)
  from ch show ?thesis
  proof (cases rule: choose_tip_cases)
    case keep
    then show ?thesis using inv id
      by (elim disjE exE; cases "ac_tipId c") (simp_all add: chain_inv_def keeps_settled_def ac_tip_def anchor_get_map)
  next
    case extend
    have "locks_ok ?m a (ac_lockedId c) (ac_settledId c)"
    proof (cases "ac_tip c")
      case None
      then show ?thesis using chain_inv_no_tip[OF inv] by (simp add: locks_ok_def)
    next
      case (Some t)
      note lt = chain_inv_tip[OF inv Some]
      have "\<exists>S \<in> set (line ?m a). a_id S = s \<and> (\<exists>L \<in> set (line ?m a). ac_lockedId c = Some (a_id L) \<and> a_height S \<le> a_height L)"
        if s: "ac_settledId c = Some s" for s
      proof -
        obtain S L where SL: "S \<in> set (line ?m t)" "a_id S = s" "L \<in> set (line ?m t)" "ac_lockedId c = Some (a_id L)" "a_height S \<le> a_height L"
          using lt s by (auto simp: locks_ok_def)
        obtain L' where L': "L' \<in> set (line ?m a)" "a_id L' = a_id L" using extend(1) SL(4) desc by auto
        have "stored ?m L'" "stored ?m L" using line_stored[OF m a L'(1)] line_stored[OF m _ SL(3)] lt by auto
        then have "L' = L" using L'(2) by (rule stored_id_eq)
        moreover have "S \<in> set (line ?m L)" by (rule line_comparable[OF m _ SL(1,3,5)]) (use lt in simp)
        ultimately show ?thesis using SL L'(1) line_trans[OF m a] by blast
      qed
      then show ?thesis using extend(1) desc by (simp add: locks_ok_def)
    qed
    from setTip_keeps[OF m a d this, of hs] extend(2) show ?thesis by simp
  next
    case (switch i final)
    obtain t where t: "ac_tip c = Some t" using switch(1) by (cases "ac_tip c") (simp_all add: resolveFork_None)
    note lt = chain_inv_tip[OF inv t]
    have "\<exists>F L. F \<in> set (line ?m a) \<and> F \<in> set (line ?m t) \<and> L \<in> set (line ?m a) \<and> a_id L = i \<and> a_height F \<le> a_height L
      \<and> (\<forall>x \<in> set (line ?m a). x \<in> set (line ?m t) \<longrightarrow> a_height x \<le> a_height F)"
      by (rule resolveFork_switch[OF m a _ refl switch(1)[unfolded t]]) (use lt in simp)
    then obtain F L where FL: "L \<in> set (line ?m a)" "a_id L = i" "a_height F \<le> a_height L" and "F \<in> set (line ?m t)"
      and FX: "\<forall>x \<in> set (line ?m a). x \<in> set (line ?m t) \<longrightarrow> a_height x \<le> a_height F" by blast
    have "locks_ok ?m a (Some i) (ac_settledId c)"
      unfolding locks_ok_def
    proof (intro conjI allI impI)
      fix s assume s: "ac_settledId c = Some s"
      obtain S where S: "S \<in> set (line ?m a)" "a_id S = s" using switch(2) s desc by auto
      obtain S' where S': "S' \<in> set (line ?m t)" "a_id S' = s" using lt s by (auto simp: locks_ok_def)
      have "S = S'" using line_stored[OF m a S(1)] line_stored[OF m _ S'(1)] lt S(2) S'(2) stored_id_eq by metis
      then have "a_height S \<le> a_height L" using FL(3) FX S(1) S'(1) by fastforce
      then show "\<exists>S \<in> set (line ?m a). a_id S = s \<and> (\<exists>L \<in> set (line ?m a). Some i = Some (a_id L) \<and> a_height S \<le> a_height L)"
        using S FL by blast
    qed (use FL in auto)
    from setTip_keeps[OF m a d this, of hs] switch(3) show ?thesis by simp
  qed
qed

section \<open>Adding keeps the invariant\<close>

text \<open>The anchors held and the new one agree on heights along links. Ids are hashes that commit to the
  height of the parent the anchor was verified against, so this fails only with a collision.\<close>

definition graded :: "anchor set \<Rightarrow> bool" where
  "graded U \<longleftrightarrow> (\<forall>a \<in> U. \<forall>b \<in> U. a_prev b = Some (a_id a) \<longrightarrow> a_height b = a_height a + 1)"

definition held_in :: "anchor_map \<Rightarrow> anchor set \<Rightarrow> bool" where
  "held_in m U \<longleftrightarrow> (\<forall>b. stored m b \<longrightarrow> b \<in> U)"

lemma map_del_store: "map_of m i = None \<Longrightarrow> map_del i (map_set i a m) = m"
proof -
  assume "map_of m i = None"
  then have new: "i \<notin> set (keys m)" by (rule map_of_None_keys[THEN iffD1])
  moreover have "map_del i (m @ [(i, a)]) = m" using new by (induction m) auto
  ultimately show "map_del i (map_set i a m) = m" using keys_set_new[OF new, of a] by metis
qed

text \<open>The two ways \<open>add\<close> can end: nothing happens, or the verified anchor is stored and the tip chosen.\<close>

lemma add_cases:
  assumes "add_anchor H edv c a = (c', r)"
  obtains (same) "c' = c"
  | (added) prev d hs where "map_of (ac_anchors c) (a_id a) = None" "prev = parent (map_of (ac_anchors c)) a"
      "verifyAnchor H edv a prev (case prev of Some p \<Rightarrow> headsAt c (a_id p) | None \<Rightarrow> []) (ac_params c) d (ac_verifier c) = Inr hs"
      "difficultyFor c prev = Some d"
      "choose_tip (c\<lparr>ac_anchors := store_in (ac_anchors c) a\<rparr>) a hs = (c', r)"
proof -
  define prev where "prev = parent (map_of (ac_anchors c)) a"
  show ?thesis
  proof (cases "map_of (ac_anchors c) (a_id a) \<noteq> None
      \<or> (a_prev a = None \<and> ac_genesisId c \<noteq> None \<and> Some (a_id a) \<noteq> ac_genesisId c)
      \<or> (a_prev a \<noteq> None \<and> a_prev a \<noteq> Some [] \<and> prev = None)")
    case True
    obtain big where "add_anchor H edv c a = (if map_of (ac_anchors c) (a_id a) \<noteq> None then (c, AddOk)
        else if a_prev a = None \<and> ac_genesisId c \<noteq> None \<and> Some (a_id a) \<noteq> ac_genesisId c then (c, AddFail WrongGenesis)
        else if a_prev a \<noteq> None \<and> a_prev a \<noteq> Some [] \<and> prev = None then (c, AddFail UnknownPrev) else big)"
      unfolding add_anchor_def anchor_get_map Let_def prev_def[symmetric] by blast
    then have "(c', r) = (if map_of (ac_anchors c) (a_id a) \<noteq> None then (c, AddOk)
        else if a_prev a = None \<and> ac_genesisId c \<noteq> None \<and> Some (a_id a) \<noteq> ac_genesisId c then (c, AddFail WrongGenesis)
        else if a_prev a \<noteq> None \<and> a_prev a \<noteq> Some [] \<and> prev = None then (c, AddFail UnknownPrev) else big)"
      using assms by (simp only:)
    note eq = this
    from True have "c' = c"
    proof (elim disjE)
      assume "map_of (ac_anchors c) (a_id a) \<noteq> None"
      with eq show ?thesis by simp
    next
      assume "a_prev a = None \<and> ac_genesisId c \<noteq> None \<and> Some (a_id a) \<noteq> ac_genesisId c"
      with eq show ?thesis by (cases "map_of (ac_anchors c) (a_id a)") simp_all
    next
      assume "a_prev a \<noteq> None \<and> a_prev a \<noteq> Some [] \<and> prev = None"
      with eq show ?thesis by (cases "map_of (ac_anchors c) (a_id a)") auto
    qed
    then show ?thesis by (rule same)
  next
    case go: False
    then have none: "map_of (ac_anchors c) (a_id a) = None"
      and skip: "(a_prev a = None \<and> ac_genesisId c \<noteq> None \<and> Some (a_id a) \<noteq> ac_genesisId c) = False"
        "(a_prev a \<noteq> None \<and> a_prev a \<noteq> Some [] \<and> prev = None) = False" by blast+
    note run = assms[unfolded add_anchor_def anchor_get_map Let_def, folded prev_def, unfolded none skip]
    show ?thesis
    proof (cases "difficultyFor c prev")
      case None
      then have "c' = c" using run by simp
      then show ?thesis by (rule same)
    next
      case (Some d)
      define v where "v = verifyAnchor H edv a prev (case prev of Some p \<Rightarrow> headsAt c (a_id p) | None \<Rightarrow> []) (ac_params c) d (ac_verifier c)"
      have res: "(case v of Inl e \<Rightarrow> (c, AddFail (InvalidAnchor e))
            | Inr hs \<Rightarrow>
                let c1 = c\<lparr>ac_anchors := store_in (ac_anchors c) a\<rparr> in
                (case co_verifyState (ac_opts c) of
                   Some ok \<Rightarrow> if ok (ac_anchors c1) a hs then choose_tip c1 a hs
                              else (c1\<lparr>ac_anchors := map_del (a_id a) (ac_anchors c1)\<rparr>, AddFail BadAppRoot)
                 | None \<Rightarrow> choose_tip c1 a hs)) = (c', r)"
        using run unfolding Some Let_def v_def by simp
      show ?thesis
      proof (cases v)
        case (Inl e)
        then show ?thesis using res same by simp
      next
        case (Inr hs)
        have "c' = c \<or> choose_tip (c\<lparr>ac_anchors := store_in (ac_anchors c) a\<rparr>) a hs = (c', r)"
          using res Inr map_del_store[OF none, of a] by (auto simp: Let_def split: option.splits if_splits)
        then show ?thesis
        proof
          assume "c' = c"
          then show ?thesis by (rule same)
        next
          assume "choose_tip (c\<lparr>ac_anchors := store_in (ac_anchors c) a\<rparr>) a hs = (c', r)"
          then show ?thesis using added[OF none prev_def Inr[unfolded v_def] Some] by blast
        qed
      qed
    qed
  qed
qed

lemma verified_links:
  assumes "verifyAnchor H edv a prev ph params d v = Inr hs"
  shows "a_prev a = map_option a_id prev" "a_height a = (case prev of Some p \<Rightarrow> a_height p + 1 | None \<Rightarrow> 0)"
  using assms unfolding verifyAnchor_ok by blast+

lemma added_fits:
  assumes m: "map_ok m" and new: "map_of m (a_id a) = None" and U: "graded U" "held_in m U" "a \<in> U"
    and v: "verifyAnchor H edv a (parent (map_of m) a) ph params d vf = Inr hs"
  shows "fits m a"
proof -
  have "a_prev a \<noteq> Some (a_id a)"
  proof
    assume self: "a_prev a = Some (a_id a)"
    then obtain p where "parent (map_of m) a = Some p" "a_id p = a_id a" using verified_links(1)[OF v] by auto
    then have "map_of m (a_id a) = Some p" using map_ok_parent[OF m, of a p] unfolding stored_def by metis
    with new show False by simp
  qed
  then show ?thesis
    using new U verified_links(2)[OF v] unfolding fits_def graded_def held_in_def by auto
qed

lemma locks_ok_mono:
  assumes "locks_ok m t l s" "set (line m t) \<subseteq> set (line m' t)"
  shows "locks_ok m' t l s"
  unfolding locks_ok_def
proof (intro conjI allI impI)
  fix i assume "l = Some i"
  then obtain L where "L \<in> set (line m t)" "a_id L = i" using assms(1) unfolding locks_ok_def by blast
  then show "\<exists>L \<in> set (line m' t). a_id L = i" using assms(2) by blast
next
  fix i assume "s = Some i"
  then obtain S L where "S \<in> set (line m t)" "a_id S = i" "L \<in> set (line m t)" "l = Some (a_id L)" "a_height S \<le> a_height L"
    using assms(1) unfolding locks_ok_def by blast
  then show "\<exists>S \<in> set (line m' t). a_id S = i \<and> (\<exists>L \<in> set (line m' t). l = Some (a_id L) \<and> a_height S \<le> a_height L)"
    using assms(2) by blast
qed

lemma store_inv:
  assumes inv: "chain_inv c" and f: "fits (ac_anchors c) a"
  defines "c1 \<equiv> c\<lparr>ac_anchors := store_in (ac_anchors c) a\<rparr>"
  shows "chain_inv c1 \<and> (\<forall>b. stored (ac_anchors c) b \<longrightarrow> stored (ac_anchors c1) b)"
proof -
  have m: "map_ok (ac_anchors c)" using inv by (simp add: chain_inv_def)
  have new: "map_of (ac_anchors c) (a_id a) = None" using f by (simp add: fits_def)
  have grow: "locks_ok (store_in (ac_anchors c) a) t l s"
    if "stored (ac_anchors c) t" "locks_ok (ac_anchors c) t l s" for t l s
    by (rule locks_ok_mono[OF that(2) line_grows[OF m f that(1)]])
  show ?thesis
  proof (cases "ac_tipId c")
    case None
    then show ?thesis using inv store_ok[OF m f] store_old[OF new] by (simp add: chain_inv_def c1_def)
  next
    case (Some t)
    then obtain T where T: "map_of (ac_anchors c) t = Some T" "locks_ok (ac_anchors c) T (ac_lockedId c) (ac_settledId c)"
      using inv by (auto simp: chain_inv_def)
    have "stored (ac_anchors c) T" "a_id T = t" using map_ok_id[OF m T(1)] by simp_all
    moreover have "t \<noteq> a_id a" using T(1) new by auto
    ultimately show ?thesis using grow[OF _ T(2)] T(1) Some store_ok[OF m f] store_old[OF new]
      by (simp add: chain_inv_def c1_def map_of_set)
  qed
qed

lemma add_inv:
  assumes inv: "chain_inv c" and d: "depths_ok c" and U: "graded U" "held_in (ac_anchors c) U" "a \<in> U"
    and add: "add_anchor H edv c a = (c', r)"
  shows "chain_inv c' \<and> depths_ok c' \<and> held_in (ac_anchors c') U \<and> keeps_settled c c'
    \<and> (\<forall>b. stored (ac_anchors c) b \<longrightarrow> stored (ac_anchors c') b \<and> set (line (ac_anchors c) b) \<subseteq> set (line (ac_anchors c') b))"
  using add
proof (cases rule: add_cases)
  case same
  then show ?thesis using assms keeps_settled_refl[OF inv] by simp
next
  case (added prev dd hs)
  let ?m = "ac_anchors c"
  define c1 where "c1 = c\<lparr>ac_anchors := store_in ?m a\<rparr>"
  have m: "map_ok ?m" using inv by (simp add: chain_inv_def)
  have f: "fits ?m a" by (rule added_fits[OF m added(1) U added(3)[unfolded added(2)]])
  note st = store_inv[OF inv f, folded c1_def]
  have a1: "stored (ac_anchors c1) a" "ac_anchors c1 = store_in ?m a" by (simp_all add: c1_def store_self)
  have d1: "depths_ok c1" using d by (simp add: depths_ok_def c1_def)
  note ch = choose_tip_inv[OF st[THEN conjunct1] a1(1) d1 added(5)[folded c1_def]]
  have "ac_settledId c1 = ac_settledId c" by (simp add: c1_def)
  have "keeps_settled c c'"
    unfolding keeps_settled_def
  proof (intro allI impI)
    fix S assume "stored ?m S \<and> ac_settledId c = Some (a_id S)"
    then have "stored (ac_anchors c1) S \<and> ac_settledId c1 = Some (a_id S)" using st \<open>ac_settledId c1 = ac_settledId c\<close> by simp
    with ch show "\<exists>t S'. ac_tip c' = Some t \<and> stored (ac_anchors c') S' \<and> ac_settledId c' = Some (a_id S')
        \<and> S' \<in> set (line (ac_anchors c') t) \<and> S \<in> set (line (ac_anchors c') S')"
      unfolding keeps_settled_def by blast
  qed
  moreover have B: "ac_anchors c' = store_in ?m a" using ch a1 by simp
  moreover have "held_in (ac_anchors c') U"
    unfolding B held_in_def
  proof (intro allI impI)
    fix b assume "stored (store_in ?m a) b"
    then have "b = a \<or> stored ?m b" by (auto simp: stored_def map_of_set split: if_splits)
    then show "b \<in> U" using U(2,3) unfolding held_in_def by blast
  qed
  moreover have "depths_ok c'" using d ch by (simp add: depths_ok_def c1_def)
  moreover have "\<forall>b. stored ?m b \<longrightarrow> stored (ac_anchors c') b \<and> set (line ?m b) \<subseteq> set (line (ac_anchors c') b)"
    unfolding B using store_old[OF added(1)] line_grows[OF m f] by blast
  moreover have "chain_inv c'" using ch by blast
  ultimately show ?thesis by blast
qed

text \<open>A sequence of additions.\<close>

definition add_all ::
  "(bytes \<Rightarrow> bytes) \<Rightarrow> (bytes \<Rightarrow> bytes \<Rightarrow> bytes \<Rightarrow> bool) \<Rightarrow> anchor list \<Rightarrow> anchor_chain \<Rightarrow> anchor_chain" where
  "add_all H edv as c = fold (\<lambda>a c. fst (add_anchor H edv c a)) as c"

lemma add_all_inv:
  assumes "chain_inv c" "depths_ok c" "graded U" "held_in (ac_anchors c) U" "set as \<subseteq> U"
  shows "chain_inv (add_all H edv as c) \<and> (\<forall>S. stored (ac_anchors c) S \<and> ac_settledId c = Some (a_id S) \<longrightarrow>
     (\<exists>t S'. ac_tip (add_all H edv as c) = Some t \<and> stored (ac_anchors (add_all H edv as c)) S'
        \<and> ac_settledId (add_all H edv as c) = Some (a_id S')
        \<and> S' \<in> set (line (ac_anchors (add_all H edv as c)) t) \<and> S \<in> set (line (ac_anchors (add_all H edv as c)) S')))
     \<and> (\<forall>b. stored (ac_anchors c) b \<longrightarrow> stored (ac_anchors (add_all H edv as c)) b
          \<and> set (line (ac_anchors c) b) \<subseteq> set (line (ac_anchors (add_all H edv as c)) b))"
  using assms
proof (induction as arbitrary: c)
  case Nil
  then show ?case using keeps_settled_refl[of c] by (simp add: add_all_def keeps_settled_def)
next
  case (Cons a as)
  obtain c1 r where add: "add_anchor H edv c a = (c1, r)" by (cases "add_anchor H edv c a")
  note one = add_inv[OF Cons.prems(1,2,3,4) _ add]
  have "a \<in> U" using Cons.prems(5) by simp
  note one = one[OF this]
  have eq: "add_all H edv (a # as) c = add_all H edv as c1" by (simp add: add_all_def add)
  have IH: "chain_inv (add_all H edv as c1) \<and> (\<forall>S. stored (ac_anchors c1) S \<and> ac_settledId c1 = Some (a_id S) \<longrightarrow>
     (\<exists>t S'. ac_tip (add_all H edv as c1) = Some t \<and> stored (ac_anchors (add_all H edv as c1)) S'
        \<and> ac_settledId (add_all H edv as c1) = Some (a_id S')
        \<and> S' \<in> set (line (ac_anchors (add_all H edv as c1)) t) \<and> S \<in> set (line (ac_anchors (add_all H edv as c1)) S')))
     \<and> (\<forall>b. stored (ac_anchors c1) b \<longrightarrow> stored (ac_anchors (add_all H edv as c1)) b
          \<and> set (line (ac_anchors c1) b) \<subseteq> set (line (ac_anchors (add_all H edv as c1)) b))"
    by (rule Cons.IH) (use one Cons.prems in auto)
  have m': "map_ok (ac_anchors (add_all H edv as c1))" using IH by (simp add: chain_inv_def)
  have "\<exists>t S'. ac_tip (add_all H edv as c1) = Some t \<and> stored (ac_anchors (add_all H edv as c1)) S'
        \<and> ac_settledId (add_all H edv as c1) = Some (a_id S')
        \<and> S' \<in> set (line (ac_anchors (add_all H edv as c1)) t) \<and> S \<in> set (line (ac_anchors (add_all H edv as c1)) S')"
    if S: "stored (ac_anchors c) S" "ac_settledId c = Some (a_id S)" for S
  proof -
    obtain S1 where S1: "stored (ac_anchors c1) S1" "ac_settledId c1 = Some (a_id S1)" "S \<in> set (line (ac_anchors c1) S1)"
      using one S unfolding keeps_settled_def by blast
    from IH S1(1,2) obtain t S' where *: "ac_tip (add_all H edv as c1) = Some t" "stored (ac_anchors (add_all H edv as c1)) S'"
      "ac_settledId (add_all H edv as c1) = Some (a_id S')" "S' \<in> set (line (ac_anchors (add_all H edv as c1)) t)"
      "S1 \<in> set (line (ac_anchors (add_all H edv as c1)) S')" by blast
    have "S \<in> set (line (ac_anchors (add_all H edv as c1)) S1)" using IH S1 by blast
    then have "S \<in> set (line (ac_anchors (add_all H edv as c1)) S')" by (rule line_trans[OF m' *(2,5)])
    then show ?thesis using * by blast
  qed
  then show ?case using IH one unfolding eq by blast
qed

end
