(* ===== verification/ForkChoice.thy ===== *)
theory ForkChoice
  imports Chain
begin

text \<open>
  What the anchor chain (\<open>src/consensus/chain.ts\<close>) guarantees: settlement is irreversible, the walks end,
  two nodes that hold the same anchors reach the same verdict on a fork, and without a lock the tip is
  the heaviest anchor, whatever the order of arrival.
\<close>

section \<open>Preference\<close>

text \<open>The interface of fork choice: a strict total order on the values with distinct keys; the best value of
  a set is then unique, so it does not depend on how the set was met.\<close>

locale preference =
  fixes better :: "'a \<Rightarrow> 'a \<Rightarrow> bool" and D :: "'a set"
  assumes irrefl: "x \<in> D \<Longrightarrow> \<not> better x x"
    and trans: "x \<in> D \<Longrightarrow> y \<in> D \<Longrightarrow> z \<in> D \<Longrightarrow> better x y \<Longrightarrow> better y z \<Longrightarrow> better x z"
begin

definition best :: "'a set \<Rightarrow> 'a \<Rightarrow> bool" where
  "best S x \<longleftrightarrow> x \<in> S \<and> (\<forall>y \<in> S. y = x \<or> better x y)"

lemma best_unique: "S \<subseteq> D \<Longrightarrow> best S x \<Longrightarrow> best S y \<Longrightarrow> x = y"
  unfolding best_def using irrefl trans by (metis subsetD)

lemma best_insert_new: "S \<subseteq> D \<Longrightarrow> x \<in> D \<Longrightarrow> best S y \<Longrightarrow> better x y \<Longrightarrow> best (insert x S) x"
  unfolding best_def using trans by (metis insert_iff subsetD)

lemma best_insert_old: "best S y \<Longrightarrow> better y x \<Longrightarrow> best (insert x S) y"
  unfolding best_def by auto

end

definition weight_of :: "anchor \<Rightarrow> int option" where
  "weight_of a = BigInt_of (a_weight a)"

definition prefers :: "anchor \<Rightarrow> anchor \<Rightarrow> bool" where
  "prefers a b \<longleftrightarrow> heavier a b = Some True"

interpretation fork_choice: preference prefers "{a. weight_of a \<noteq> None}"
  by unfold_locales (auto simp: prefers_def heavier_def weight_of_def split: option.splits if_splits)

lemma prefers_total:
  assumes "weight_of a \<noteq> None" "weight_of b \<noteq> None" "a_id a \<noteq> a_id b" "\<not> prefers a b"
  shows "prefers b a"
proof -
  obtain wa wb where w: "BigInt_of (a_weight a) = Some wa" "BigInt_of (a_weight b) = Some wb"
    using assms(1,2) by (auto simp: weight_of_def)
  then show ?thesis using assms(3,4) by (auto simp: prefers_def heavier_def split: if_splits)
qed

section \<open>Without a lock the tip is the heaviest anchor\<close>

definition weighed :: "anchor_map \<Rightarrow> bool" where
  "weighed m \<longleftrightarrow> (\<forall>i b. map_of m i = Some b \<longrightarrow> a_id b = i \<and> weight_of b \<noteq> None)"

lemma weighedD: "weighed m \<Longrightarrow> map_of m i = Some b \<Longrightarrow> a_id b = i \<and> weight_of b \<noteq> None"
  unfolding weighed_def by blast

lemma weighed_store: "weighed m \<Longrightarrow> weight_of a \<noteq> None \<Longrightarrow> weighed (store_in m a)"
  unfolding weighed_def map_of_set by (metis option.inject)

lemma weighed_ran: "weighed m \<Longrightarrow> ran (map_of m) \<subseteq> {a. weight_of a \<noteq> None}"
  unfolding ran_def using weighedD by blast

definition heavy_inv :: "anchor_chain \<Rightarrow> bool" where
  "heavy_inv c \<longleftrightarrow> co_finalityDepth (ac_opts c) = None \<and> ac_lockedId c = None
     \<and> weighed (ac_anchors c)
     \<and> (case ac_tipId c of None \<Rightarrow> ac_anchors c = []
        | Some i \<Rightarrow> \<exists>t. map_of (ac_anchors c) i = Some t \<and> fork_choice.best (ran (map_of (ac_anchors c))) t)"

lemma heavy_inv_new: "co_finalityDepth opts = None \<Longrightarrow> heavy_inv (newAnchorChain params v opts)"
  by (simp add: heavy_inv_def newAnchorChain_def weighed_def)

lemma setTip_unlocked:
  assumes "co_finalityDepth (ac_opts c) = None" "ac_lockedId c = None"
  shows "ac_tipId (setTip c a hs) = Some (a_id a) \<and> ac_anchors (setTip c a hs) = ac_anchors c
    \<and> ac_lockedId (setTip c a hs) = None \<and> ac_opts (setTip c a hs) = ac_opts c"
  using assms by (simp add: setTip_def updateLock_def Let_def lock_advance_def)

lemma choose_tip_unlocked:
  assumes "co_finalityDepth (ac_opts c) = None" "ac_lockedId c = None"
  shows "choose_tip c a hs = (case (case ac_tip c of None \<Rightarrow> Some True | Some t \<Rightarrow> heavier a t) of None \<Rightarrow> (c, AddFail AddThrows)
      | Some w \<Rightarrow> (if w then setTip c a hs else c, AddOk))"
  by (cases "case ac_tip c of None \<Rightarrow> Some True | Some t \<Rightarrow> heavier a t")
    (simp_all add: choose_tip_def Let_def descendsFrom_def assms(2))

lemma ran_store: "map_of m (a_id a) = None \<Longrightarrow> ran (map_of (map_set (a_id a) a m)) = insert a (ran (map_of m))"
  by (simp add: update_conv' ran_map_upd)

lemma heavy_inv_add:
  assumes inv: "heavy_inv c" and add: "add_anchor H edv c a = (c', r)"
  shows "heavy_inv c'"
  using add
proof (cases rule: add_cases)
  case same
  then show ?thesis using inv by simp
next
  case (added prev d hs)
  define c1 where "c1 = c\<lparr>ac_anchors := store_in (ac_anchors c) a\<rparr>"
  have c1: "co_finalityDepth (ac_opts c1) = None" "ac_lockedId c1 = None" using inv by (simp_all add: c1_def heavy_inv_def)
  have wa: "weight_of a \<noteq> None" using added(3) by (auto simp: verifyAnchor_ok weight_of_def)
  have ids: "weighed (ac_anchors c1)" using inv wa weighed_store by (simp add: heavy_inv_def c1_def)
  have ran: "ran (map_of (ac_anchors c1)) = insert a (ran (map_of (ac_anchors c)))"
    using ran_store[OF added(1)] by (simp add: c1_def)
  have dom: "ran (map_of (ac_anchors c)) \<subseteq> {a. weight_of a \<noteq> None}" using inv weighed_ran by (simp add: heavy_inv_def)
  have set: "heavy_inv (setTip c1 a hs)" if "fork_choice.best (ran (map_of (ac_anchors c1))) a"
    using setTip_unlocked[OF c1, of a hs] ids that c1(1) by (simp add: heavy_inv_def c1_def map_of_set)
  note ch = added(5)[folded c1_def, unfolded choose_tip_unlocked[OF c1]]
  show ?thesis
  proof (cases "ac_tipId c")
    case None
    then have "ac_anchors c = []" "ac_tip c1 = None" using inv by (simp_all add: heavy_inv_def ac_tip_def c1_def)
    moreover have "fork_choice.best (ran (map_of (ac_anchors c1))) a"
      using ran \<open>ac_anchors c = []\<close> by (simp add: fork_choice.best_def)
    ultimately show ?thesis using ch set by simp
  next
    case (Some i)
    then obtain t where t: "map_of (ac_anchors c) i = Some t" "fork_choice.best (ran (map_of (ac_anchors c))) t"
      using inv by (auto simp: heavy_inv_def)
    have wt: "weight_of t \<noteq> None" "a_id t = i" using inv weighedD[OF _ t(1)] by (simp_all add: heavy_inv_def)
    have ne: "i \<noteq> a_id a" using t(1) added(1) by auto
    have tip: "ac_tip c1 = Some t" using Some t(1) ne by (simp add: ac_tip_def anchor_get_map c1_def map_of_set)
    obtain w where w: "heavier a t = Some w" using wa wt by (auto simp: heavier_def weight_of_def)
    show ?thesis
    proof (cases w)
      case True
      then have "prefers a t" using w by (simp add: prefers_def)
      then have "fork_choice.best (ran (map_of (ac_anchors c1))) a"
        unfolding ran using fork_choice.best_insert_new[OF dom _ t(2), of a] wa by simp
      then show ?thesis using ch set tip w True by simp
    next
      case False
      then have "\<not> prefers a t" using w by (simp add: prefers_def)
      then have "prefers t a" using prefers_total wa wt ne by metis
      then have "fork_choice.best (ran (map_of (ac_anchors c1))) t"
        unfolding ran by (rule fork_choice.best_insert_old[OF t(2)])
      moreover have "c' = c1" using ch tip w False by simp
      ultimately show ?thesis using ids c1 Some t(1) ne by (simp add: heavy_inv_def c1_def map_of_set)
    qed
  qed
qed

lemma heavy_inv_run:
  assumes "heavy_inv c"
  shows "heavy_inv (add_all H edv as c)"
  using assms
proof (induction as arbitrary: c)
  case (Cons a as)
  obtain c1 r where add: "add_anchor H edv c a = (c1, r)" by (cases "add_anchor H edv c a")
  then show ?case using Cons.IH[OF heavy_inv_add[OF Cons.prems add]] by (simp add: add_all_def)
qed (simp add: add_all_def)

lemma heavy_inv_tip:
  assumes "heavy_inv c"
  shows "case ac_tip c of None \<Rightarrow> ran (map_of (ac_anchors c)) = {}
    | Some t \<Rightarrow> fork_choice.best (ran (map_of (ac_anchors c))) t"
  using assms by (auto simp: heavy_inv_def ac_tip_def anchor_get_map split: option.splits)

lemma heavy_inv_dom: "heavy_inv c \<Longrightarrow> ran (map_of (ac_anchors c)) \<subseteq> {a. weight_of a \<noteq> None}"
  using weighed_ran by (simp add: heavy_inv_def)

lemma same_anchors_same_tip:
  assumes "heavy_inv c" "heavy_inv c'" "ran (map_of (ac_anchors c)) = ran (map_of (ac_anchors c'))"
  shows "ac_tip c = ac_tip c'"
proof (cases "ac_tip c"; cases "ac_tip c'")
  fix t t' assume "ac_tip c = Some t" "ac_tip c' = Some t'"
  then show ?thesis
    using heavy_inv_tip[OF assms(1)] heavy_inv_tip[OF assms(2)] assms(3) fork_choice.best_unique[OF heavy_inv_dom[OF assms(1)]]
    by simp
qed (use heavy_inv_tip[OF assms(1)] heavy_inv_tip[OF assms(2)] assms(3) in \<open>auto simp: fork_choice.best_def\<close>)

section \<open>Both sides of a fork reach the same verdict\<close>

lemma support_filter: "support ref mine other = length (filter (\<lambda>p. p \<in> set mine \<and> p \<notin> set other) ref)"
proof -
  have "support ref mine other = (\<Sum>p \<in> set mine. if p \<in> set other then 0 else count_list ref p)"
    unfolding support_def by (simp add: sum_list_distinct_conv_sum_set)
  also have "\<dots> = length (filter (\<lambda>p. p \<in> set mine \<and> p \<notin> set other) ref)"
  proof (induction ref)
    case (Cons r ref)
    have "(\<Sum>p \<in> set mine. if p \<in> set other then 0 else count_list (r # ref) p)
        = (\<Sum>p \<in> set mine. (if p \<in> set other then 0 else count_list ref p) + (if p = r \<and> p \<notin> set other then 1 else 0))"
      by (intro sum.cong) auto
    also have "\<dots> = (\<Sum>p \<in> set mine. if p \<in> set other then 0 else count_list ref p)
        + (\<Sum>p \<in> set mine. if p = r \<and> p \<notin> set other then 1 else 0)" by (simp add: sum.distrib)
    also have "(\<Sum>p \<in> set mine. if p = r \<and> p \<notin> set other then 1 else (0 :: nat)) = (if r \<in> set mine \<and> r \<notin> set other then 1 else 0)"
    proof (cases "r \<in> set other")
      case True
      then have "(\<Sum>p \<in> set mine. if p = r \<and> p \<notin> set other then 1 else (0 :: nat)) = 0" by (intro sum.neutral) auto
      with True show ?thesis by simp
    next
      case False
      then have "(\<Sum>p \<in> set mine. if p = r \<and> p \<notin> set other then 1 else (0 :: nat)) = (\<Sum>p \<in> set mine. if p = r then 1 else 0)"
        by (intro sum.cong) auto
      with False show ?thesis by simp
    qed
    finally show ?case using Cons.IH by simp
  qed simp
  finally show ?thesis .
qed

text \<open>Two disjoint strict majorities cannot exist.\<close>

lemma support_disjoint: "support ref X Y + support ref Y X \<le> length ref"
proof -
  have "length (filter (\<lambda>p. p \<in> set X \<and> p \<notin> set Y) ref) + length (filter (\<lambda>p. p \<in> set Y \<and> p \<notin> set X) ref) \<le> length ref"
    by (induction ref) auto
  then show ?thesis by (simp add: support_filter)
qed

lemma no_two_majorities: "2 * support ref X Y > length ref \<Longrightarrow> \<not> 2 * support ref Y X > length ref"
  using support_disjoint[of ref X Y] by linarith

text \<open>The part of a line above the fork point.\<close>

definition above :: "anchor_map \<Rightarrow> anchor \<Rightarrow> anchor \<Rightarrow> anchor list" where
  "above m F a = takeWhile (\<lambda>x. a_id x \<noteq> a_id F) (line m a)"

lemma branch_above:
  assumes m: "map_ok m" and a: "stored m a" and t: "stored m t" and F: "F \<in> set (line m a)" "F \<in> set (line m t)"
    and top: "\<And>x. x \<in> set (line m a) \<Longrightarrow> x \<in> set (line m t) \<Longrightarrow> a_height x \<le> a_height F"
  shows "takeWhile (\<lambda>x. a_id x \<notin> set (map a_id (line m t))) (line m a) = above m F a"
    "\<exists>rest. dropWhile (\<lambda>x. a_id x \<notin> set (map a_id (line m t))) (line m a) = F # rest"
proof -
  obtain ys where ys: "line m a = ys @ line m F" "\<forall>y \<in> set ys. a_height F < a_height y" using line_suffix[OF m a F(1)] by blast
  have stF: "stored m F" using line_stored[OF m a F(1)] by simp
  then obtain rest where lf: "line m F = F # rest" using line_step[OF m] by simp
  have out: "a_id y \<notin> set (map a_id (line m t))" if "y \<in> set ys" for y
  proof
    assume "a_id y \<in> set (map a_id (line m t))"
    then obtain z where z: "z \<in> set (line m t)" "a_id z = a_id y" by auto
    have ya: "y \<in> set (line m a)" using that ys(1) by simp
    have "z = y" using line_stored[OF m t z(1)] line_stored[OF m a ya] z(2) stored_id_eq[of m z y] by simp
    then have "a_height y \<le> a_height F" using top[OF ya] z(1) by simp
    with ys(2) that show False by fastforce
  qed
  have idF: "a_id y \<noteq> a_id F" if "y \<in> set ys" for y
  proof
    assume "a_id y = a_id F"
    then have "a_id y \<in> set (map a_id (line m t))" using F(2) by auto
    with out[OF that] show False by simp
  qed
  have "a_id F \<in> set (map a_id (line m t))" using F(2) by auto
  then have "takeWhile (\<lambda>x. a_id x \<notin> set (map a_id (line m t))) (line m a) = ys"
    "dropWhile (\<lambda>x. a_id x \<notin> set (map a_id (line m t))) (line m a) = F # rest"
    unfolding ys(1) lf using out by (simp_all add: takeWhile_append2 dropWhile_append2)
  moreover have "above m F a = ys" unfolding above_def ys(1) lf using idF by (simp add: takeWhile_append2)
  ultimately show "takeWhile (\<lambda>x. a_id x \<notin> set (map a_id (line m t))) (line m a) = above m F a"
    "\<exists>rest. dropWhile (\<lambda>x. a_id x \<notin> set (map a_id (line m t))) (line m a) = F # rest" by simp_all
qed

lemma resolveFork_at:
  assumes m: "map_ok (ac_anchors c)" and a: "stored (ac_anchors c) a" and t: "stored (ac_anchors c) t"
    and F: "F \<in> set (line (ac_anchors c) a)" "F \<in> set (line (ac_anchors c) t)"
    and top: "\<And>x. x \<in> set (line (ac_anchors c) a) \<Longrightarrow> x \<in> set (line (ac_anchors c) t) \<Longrightarrow> a_height x \<le> a_height F"
  defines "P \<equiv> map a_producer (above (ac_anchors c) F a)" and "Q \<equiv> map a_producer (above (ac_anchors c) F t)"
    and "ref \<equiv> reference_producers c F"
  shows "resolveFork c a (Some t) = (if 2 * support ref Q P > length ref then Keep
     else if 2 * support ref P Q > length ref then SwitchTo (a_id (last (above (ac_anchors c) F a))) True
     else SwitchTo (a_id F) False)"
proof -
  let ?A = "line (ac_anchors c) a" and ?T = "line (ac_anchors c) t"
  obtain rest where d: "dropWhile (\<lambda>x. a_id x \<notin> set (map a_id ?T)) ?A = F # rest"
    using branch_above(2)[OF m a t F top] by blast
  have w: "takeWhile (\<lambda>x. a_id x \<notin> set (map a_id ?T)) ?A = above (ac_anchors c) F a"
    by (rule branch_above(1)[OF m a t F top])
  show ?thesis
    unfolding resolveFork_def Let_def ancestry_line option.case d list.case w P_def Q_def ref_def above_def[of _ _ t]
    by (rule refl)
qed

lemma highest_common:
  assumes "map_ok m" "stored m a" "\<exists>x. x \<in> set (line m a) \<and> x \<in> set (line m t)"
  obtains F where "F \<in> set (line m a)" "F \<in> set (line m t)"
    "\<And>x. x \<in> set (line m a) \<Longrightarrow> x \<in> set (line m t) \<Longrightarrow> a_height x \<le> a_height F"
proof -
  let ?S = "set (line m a) \<inter> set (line m t)"
  have fin: "finite ?S" "?S \<noteq> {}" using assms(3) by auto
  have "Max (a_height ` ?S) \<in> a_height ` ?S" using fin by (intro Max_in) auto
  then obtain F where F: "F \<in> ?S" "a_height F = Max (a_height ` ?S)" by auto
  have "a_height x \<le> a_height F" if "x \<in> ?S" for x
    unfolding F(2) using fin that by (intro Max_ge) auto
  then show ?thesis using that F(1) by blast
qed

lemma resolveFork_disjoint:
  assumes "map_ok (ac_anchors c)" "stored (ac_anchors c) a" "stored (ac_anchors c) t"
    and "\<not> (\<exists>x. x \<in> set (line (ac_anchors c) a) \<and> x \<in> set (line (ac_anchors c) t))"
  shows "resolveFork c a (Some t) = Keep"
proof -
  have "dropWhile (\<lambda>x. a_id x \<notin> set (map a_id (line (ac_anchors c) t))) (line (ac_anchors c) a) = []"
    unfolding dropWhile_eq_Nil_conv
  proof
    fix x assume x: "x \<in> set (line (ac_anchors c) a)"
    show "a_id x \<notin> set (map a_id (line (ac_anchors c) t))"
    proof
      assume "a_id x \<in> set (map a_id (line (ac_anchors c) t))"
      then obtain z where z: "z \<in> set (line (ac_anchors c) t)" "a_id z = a_id x" by auto
      then have "z = x" using line_stored[OF assms(1,3) z(1)] line_stored[OF assms(1,2) x] stored_id_eq by metis
      with assms(4) x z show False by blast
    qed
  qed
  then show ?thesis unfolding resolveFork_def Let_def ancestry_line option.case by (simp only: list.case)
qed

lemma reference_same: "ac_anchors c = ac_anchors c' \<Longrightarrow> reference_producers c F = reference_producers c' F"
  by (simp add: reference_producers_def anchor_get_map)

lemma resolveFork_agrees:
  assumes m: "map_ok (ac_anchors c)" and a: "stored (ac_anchors c) a" and t: "stored (ac_anchors c) t"
    and same: "ac_anchors c' = ac_anchors c"
  shows "(resolveFork c a (Some t) = Keep \<and> resolveFork c' t (Some a) = Keep
       \<and> \<not> (\<exists>x. x \<in> set (line (ac_anchors c) a) \<and> x \<in> set (line (ac_anchors c) t)))
    \<or> (resolveFork c a (Some t) = Keep \<and> (\<exists>i. resolveFork c' t (Some a) = SwitchTo i True))
    \<or> ((\<exists>i. resolveFork c a (Some t) = SwitchTo i True) \<and> resolveFork c' t (Some a) = Keep)
    \<or> (\<exists>i. resolveFork c a (Some t) = SwitchTo i False \<and> resolveFork c' t (Some a) = SwitchTo i False)"
proof (cases "\<exists>x. x \<in> set (line (ac_anchors c) a) \<and> x \<in> set (line (ac_anchors c) t)")
  case True
  then obtain F where F: "F \<in> set (line (ac_anchors c) a)" "F \<in> set (line (ac_anchors c) t)"
    "\<And>x. x \<in> set (line (ac_anchors c) a) \<Longrightarrow> x \<in> set (line (ac_anchors c) t) \<Longrightarrow> a_height x \<le> a_height F"
    using highest_common[OF m a] by metis
  define P where "P = map a_producer (above (ac_anchors c) F a)"
  define Q where "Q = map a_producer (above (ac_anchors c) F t)"
  define ref where "ref = reference_producers c F"
  have 1: "resolveFork c a (Some t) = (if 2 * support ref Q P > length ref then Keep
     else if 2 * support ref P Q > length ref then SwitchTo (a_id (last (above (ac_anchors c) F a))) True
     else SwitchTo (a_id F) False)" unfolding P_def Q_def ref_def by (rule resolveFork_at[OF m a t F])
  have 2: "resolveFork c' t (Some a) = (if 2 * support ref P Q > length ref then Keep
     else if 2 * support ref Q P > length ref then SwitchTo (a_id (last (above (ac_anchors c) F t))) True
     else SwitchTo (a_id F) False)"
    unfolding P_def Q_def ref_def reference_same[OF same[symmetric]] same[symmetric]
    by (rule resolveFork_at) (use m a t F same in auto)
  show ?thesis using no_two_majorities[of ref P Q] by (auto simp: 1 2)
next
  case False
  then have "resolveFork c a (Some t) = Keep" by (rule resolveFork_disjoint[OF m a t])
  moreover have "resolveFork c' t (Some a) = Keep" by (rule resolveFork_disjoint) (use m a t same False in auto)
  ultimately show ?thesis using False by blast
qed

section \<open>Properties\<close>

definition ex_opts :: chain_options where
  "ex_opts = \<lparr>co_schedule = None, co_finalityDepth = Some DEFAULT_FINALITY_DEPTH,
     co_settlementDepth = Some DEFAULT_SETTLEMENT_DEPTH, co_verifyState = None\<rparr>"

definition ex_genesis :: anchor where "ex_genesis = genesisAnchor ex_hash ''gavl'' 2 ''r''"

text \<open>A chain that holds the genesis anchor alone.\<close>

definition ex_chain :: anchor_chain where
  "ex_chain = (newAnchorChain ex_params ex_verifier ex_opts)\<lparr>ac_anchors := [(a_id ex_genesis, ex_genesis)],
     ac_tipId := Some (a_id ex_genesis), ac_tipHeads := [], ac_lockedId := Some (a_id ex_genesis),
     ac_settledId := Some (a_id ex_genesis), ac_genesisId := Some (a_id ex_genesis)\<rparr>"

lemma genesisAnchor_fields [simp]:
  "a_height (genesisAnchor H n d r) = 0" "a_prev (genesisAnchor H n d r) = None"
  "a_headsDelta (genesisAnchor H n d r) = []" "a_stateRoot (genesisAnchor H n d r) = rootOfHeads H []"
  "a_weight (genesisAnchor H n d r) = show_int d" "a_producer (genesisAnchor H n d r) = GENESIS_PRODUCER"
  by (simp_all add: genesisAnchor_def Let_def)

lemma install_genesis:
  "installGenesis H (newAnchorChain params v opts) (genesisAnchor H n d r) [] = Inr c \<longleftrightarrow>
   c = (newAnchorChain params v opts)\<lparr>ac_anchors := [(a_id (genesisAnchor H n d r), genesisAnchor H n d r)],
     ac_tipId := Some (a_id (genesisAnchor H n d r)), ac_tipHeads := [], ac_lockedId := Some (a_id (genesisAnchor H n d r)),
     ac_settledId := Some (a_id (genesisAnchor H n d r)), ac_genesisId := Some (a_id (genesisAnchor H n d r))\<rparr>"
  by (auto simp: installGenesis_def newAnchorChain_def)

lemma ex_chain_installed: "installGenesis ex_hash (newAnchorChain ex_params ex_verifier ex_opts) ex_genesis [] = Inr ex_chain"
  unfolding ex_chain_def ex_genesis_def install_genesis by (rule refl)

lemma ex_chain_fields:
  "ac_anchors ex_chain = [(a_id ex_genesis, ex_genesis)]" "ac_tipId ex_chain = Some (a_id ex_genesis)"
  "ac_lockedId ex_chain = Some (a_id ex_genesis)" "ac_settledId ex_chain = Some (a_id ex_genesis)" "ac_opts ex_chain = ex_opts"
  by (simp_all add: ex_chain_def newAnchorChain_def)

lemma single_map_ok: "a_prev g = None \<Longrightarrow> map_ok [(a_id g, g)]"
  by (auto simp: map_ok_def parent_def split: if_splits)

lemma single_line: "a_prev g = None \<Longrightarrow> line [(a_id g, g)] g = [g]"
  by (simp add: line_def parent_def)

lemma install_genesis_inv:
  assumes "installGenesis H (newAnchorChain params v opts) (genesisAnchor H n d r) [] = Inr c"
  shows "chain_inv c"
  using assms single_map_ok[of "genesisAnchor H n d r"] single_line[of "genesisAnchor H n d r"]
  unfolding install_genesis by (simp add: chain_inv_def newAnchorChain_def locks_ok_def)

lemma ex_chain_inv: "chain_inv ex_chain"
  using ex_chain_installed unfolding ex_genesis_def by (rule install_genesis_inv)

lemma ex_chain_depths: "depths_ok ex_chain"
  by (simp add: depths_ok_def ex_chain_fields ex_opts_def DEFAULT_FINALITY_DEPTH_def DEFAULT_SETTLEMENT_DEPTH_def)



text \<open>C16: two nodes that hold the same anchors, one following the tip of each side of a fork, reach compatible
  verdicts. Either exactly one side is final, and the node on it stays while the other switches to it, or
  neither is and both fall back to weight and lock the fork point; without shared history both keep
  their lock. They never both keep their own side of a fork they can trace.\<close>

theorem fork_verdicts_agree:
  assumes "chain_inv c" "stored (ac_anchors c) a" "stored (ac_anchors c) t" "ac_anchors c' = ac_anchors c"
  shows "(resolveFork c a (Some t) = Keep \<and> resolveFork c' t (Some a) = Keep
       \<and> \<not> (\<exists>x. x \<in> set (ancestry c a) \<and> x \<in> set (ancestry c t)))
    \<or> (resolveFork c a (Some t) = Keep \<and> (\<exists>i. resolveFork c' t (Some a) = SwitchTo i True))
    \<or> ((\<exists>i. resolveFork c a (Some t) = SwitchTo i True) \<and> resolveFork c' t (Some a) = Keep)
    \<or> (\<exists>i. resolveFork c a (Some t) = SwitchTo i False \<and> resolveFork c' t (Some a) = SwitchTo i False)"
  unfolding ancestry_line using resolveFork_agrees[OF _ assms(2,3,4)] assms(1) unfolding chain_inv_def by blast

text \<open>A fork above the genesis anchor.\<close>

definition ex_fork_anchor :: "string \<Rightarrow> string option \<Rightarrow> int \<Rightarrow> string \<Rightarrow> string \<Rightarrow> anchor" where
  "ex_fork_anchor i p h w pr = ex_genesis\<lparr>a_id := i, a_prev := p, a_height := h, a_weight := w, a_producer := pr\<rparr>"

definition ex_fork :: anchor_chain where
  "ex_fork = ex_chain\<lparr>ac_anchors := map (\<lambda>a. (a_id a, a))
     [ex_fork_anchor ''g'' None 0 ''1'' GENESIS_PRODUCER, ex_fork_anchor ''h'' (Some ''g'') 1 ''2'' ''p'',
      ex_fork_anchor ''a'' (Some ''h'') 2 ''3'' ''p'', ex_fork_anchor ''t'' (Some ''h'') 2 ''3'' ''q''],
     ac_tipId := Some ''t'', ac_lockedId := None, ac_settledId := None\<rparr>"

lemma ex_fork_inv: "chain_inv ex_fork"
  by (auto simp: chain_inv_def ex_fork_def map_ok_def locks_ok_def parent_def ex_fork_anchor_def split: if_splits)

theorem fork_verdicts_agree_witness:
  "resolveFork ex_fork (ex_fork_anchor ''a'' (Some ''h'') 2 ''3'' ''p'') (Some (ex_fork_anchor ''t'' (Some ''h'') 2 ''3'' ''q''))
     = SwitchTo ''a'' True
   \<and> resolveFork ex_fork (ex_fork_anchor ''t'' (Some ''h'') 2 ''3'' ''q'') (Some (ex_fork_anchor ''a'' (Some ''h'') 2 ''3'' ''p'')) = Keep"
proof -
  have s: "stored (ac_anchors ex_fork) (ex_fork_anchor ''a'' (Some ''h'') 2 ''3'' ''p'')"
    "stored (ac_anchors ex_fork) (ex_fork_anchor ''t'' (Some ''h'') 2 ''3'' ''q'')"
    by (simp_all add: stored_def ex_fork_def ex_fork_anchor_def)
  have "resolveFork ex_fork (ex_fork_anchor ''a'' (Some ''h'') 2 ''3'' ''p'') (Some (ex_fork_anchor ''t'' (Some ''h'') 2 ''3'' ''q''))
     = SwitchTo ''a'' True"
    by (simp add: resolveFork_def ancestry_line line_def ex_fork_def ex_fork_anchor_def parent_def Let_def
        support_def reference_producers_def anchor_get_map FORK_WINDOW_def GENESIS_PRODUCER_def numeral_eq_Suc)
  with fork_verdicts_agree[OF ex_fork_inv s refl] show ?thesis by auto
qed

text \<open>Without a finality lock, fork choice is a function of the anchors held. The tip is the anchor that is
  heavier than every other held, and two chains that were offered anchors in any order, forks, repeats and
  rejected ones included, follow the same tip once they hold the same anchors.\<close>

theorem tip_order_independent:
  assumes "co_finalityDepth opts = None" "co_finalityDepth opts' = None"
    and "c = add_all H edv as (newAnchorChain params v opts)" "c' = add_all H edv as' (newAnchorChain params' v' opts')"
    and "ran (map_of (ac_anchors c)) = ran (map_of (ac_anchors c'))"
  shows "ac_tip c = ac_tip c' \<and> (ac_tip c = None \<longleftrightarrow> ran (map_of (ac_anchors c)) = {})
    \<and> (\<forall>t a. ac_tip c = Some t \<and> a \<in> ran (map_of (ac_anchors c)) \<longrightarrow> a = t \<or> heavier t a = Some True)"
proof -
  have inv: "heavy_inv c" "heavy_inv c'" unfolding assms(3,4) by (rule heavy_inv_run heavy_inv_new assms(1,2))+
  then show ?thesis using same_anchors_same_tip[OF inv assms(5)] heavy_inv_tip[OF inv(1)]
    by (cases "ac_tip c'") (auto simp: fork_choice.best_def prefers_def)
qed

theorem tip_order_independent_witness:
  "\<exists>b. mineAnchor ex_hash (\<lambda>_ _. []) None [] ex_keys ex_prover [] ex_params 2 ''r'' = Mined b
    \<and> ac_tip (add_all ex_hash (\<lambda>_ _ _. True) [b] (newAnchorChain ex_params ex_verifier (ex_opts\<lparr>co_finalityDepth := None\<rparr>)))
      = ac_tip (add_all ex_hash (\<lambda>_ _ _. True) [b, b] (newAnchorChain ex_params ex_verifier (ex_opts\<lparr>co_finalityDepth := None\<rparr>)))"
proof -
  let ?c = "newAnchorChain ex_params ex_verifier (ex_opts\<lparr>co_finalityDepth := None\<rparr>)"
  obtain b where b: "mineAnchor ex_hash (\<lambda>_ _. []) None [] ex_keys ex_prover [] ex_params 2 ''r'' = Mined b"
    using ex_mine[of None] by (auto simp: prev_weight_def)
  obtain c1 r where c1: "add_anchor ex_hash (\<lambda>_ _ _. True) ?c b = (c1, r)" by (cases "add_anchor ex_hash (\<lambda>_ _ _. True) ?c b")
  have "heavy_inv ?c" by (rule heavy_inv_new) simp
  have "add_anchor ex_hash (\<lambda>_ _ _. True) c1 b = (c1, AddOk) \<or> c1 = ?c"
    using c1
  proof (cases rule: add_cases)
    case (added prev d hs)
    have "ac_anchors c1 = store_in (ac_anchors ?c) b"
      using added(5) choose_tip_unlocked[of "?c\<lparr>ac_anchors := store_in (ac_anchors ?c) b\<rparr>" b hs] setTip_unlocked
      by (auto simp: newAnchorChain_def split: option.splits if_splits)
    then show ?thesis by (simp add: add_anchor_def anchor_get_map map_of_set)
  qed simp
  then have same: "add_all ex_hash (\<lambda>_ _ _. True) [b, b] ?c = add_all ex_hash (\<lambda>_ _ _. True) [b] ?c"
    using c1 by (auto simp: add_all_def)
  have "ac_tip (add_all ex_hash (\<lambda>_ _ _. True) [b] ?c) = ac_tip (add_all ex_hash (\<lambda>_ _ _. True) [b, b] ?c)"
    by (rule tip_order_independent[THEN conjunct1, OF _ _ refl refl]) (simp_all add: same)
  with b show ?thesis by blast
qed

lemma line_last:
  assumes "map_ok m" "stored m a"
  shows "line m a \<noteq> [] \<and> parent (map_of m) (last (line m a)) = None"
  using assms
proof (induction rule: line_induct)
  case (Root a)
  then show ?case using line_step[OF assms(1)] by simp
next
  case (Link a p)
  then show ?case using line_step[OF assms(1) Link(1)] by simp
qed

text \<open>C17: the loops of the chain that follow \<open>prev\<close> end. From any anchor held they visit at most as many
  anchors as the chain holds, none twice and each one lower than the one before, and they stop at an anchor
  whose parent is not held; allowing more turns changes nothing.\<close>

theorem walks_end:
  assumes "chain_inv c" "stored (ac_anchors c) a" "ac_size c < n"
  shows "ancestry_window (anchor_get c) n (Some a) = ancestry c a \<and> length (ancestry c a) \<le> ac_size c
    \<and> distinct (map a_id (ancestry c a)) \<and> sorted_wrt (\<lambda>x y. a_height y < a_height x) (ancestry c a)
    \<and> hd (ancestry c a) = a \<and> parent (anchor_get c) (last (ancestry c a)) = None"
proof -
  have m: "map_ok (ac_anchors c)" using assms(1) by (simp add: chain_inv_def)
  have "hd (line (ac_anchors c) a) = a" using line_step[OF m assms(2)] by simp
  moreover note line_enough[OF m assms(2), of n] line_last[OF m assms(2)] line_sorted[OF m assms(2)]
    window_length[OF m assms(2), of "Suc (length (ac_anchors c))"] window_distinct[OF m assms(2), of "Suc (length (ac_anchors c))"]
  ultimately show ?thesis using assms(3) unfolding ancestry_line anchor_get_map ac_size_def line_def by blast
qed

theorem walks_end_witness:
  "ancestry_window (anchor_get ex_fork) 7 (Some (ex_fork_anchor ''a'' (Some ''h'') 2 ''3'' ''p''))
     = ancestry ex_fork (ex_fork_anchor ''a'' (Some ''h'') 2 ''3'' ''p'')
   \<and> length (ancestry ex_fork (ex_fork_anchor ''a'' (Some ''h'') 2 ''3'' ''p'')) \<le> 4"
  using walks_end[OF ex_fork_inv, of "ex_fork_anchor ''a'' (Some ''h'') 2 ''3'' ''p''" 7]
  by (simp add: stored_def ex_fork_def ex_fork_anchor_def ac_size_def)

end
