(* ===== verification/Pruning.thy ===== *)
theory Pruning
  imports ForkChoice
begin

text \<open>
  Pruning and the writer-heads the anchors certify (\<open>src/consensus/chain.ts\<close>): cutting the map below a
  floor leaves the chain, its locks and the heads of what it keeps as they were; in every chain grown from the
  genesis anchor the heads rebuilt for an anchor are the ones its state root commits to; and an adopted
  snapshot with history below its floor breaks this.
\<close>

section \<open>Rebuilt heads\<close>

text \<open>What the walk in \<open>headsAt\<close> rebuilds, the two cached cases left out.\<close>

definition recon :: "anchor_chain \<Rightarrow> anchor \<Rightarrow> heads" where
  "recon c a = (let chain = chainTo c (Some a);
                    atFloor = ac_floorId c \<noteq> None \<and> length chain > 0 \<and> Some (a_id (hd chain)) = ac_floorId c
                in fold (\<lambda>x hs. applyHeadsDelta hs (a_headsDelta x)) (if atFloor then tl chain else chain)
                     (if atFloor then ac_floorHeads c else []))"

lemma headsAt_cases:
  "headsAt c i = (if Some i = ac_tipId c then ac_tipHeads c else if Some i = ac_floorId c then ac_floorHeads c
     else (case anchor_get c i of None \<Rightarrow> [] | Some a \<Rightarrow> recon c a))"
  unfolding headsAt_def recon_def by (rule refl)

lemma recon_step:
  assumes "map_ok (ac_anchors c)" "stored (ac_anchors c) a"
  shows "recon c a = (case parent (map_of (ac_anchors c)) a of
      None \<Rightarrow> if ac_floorId c = Some (a_id a) then ac_floorHeads c else applyHeadsDelta [] (a_headsDelta a)
    | Some p \<Rightarrow> applyHeadsDelta (recon c p) (a_headsDelta a))"
proof (cases "parent (map_of (ac_anchors c)) a")
  case None
  then have "line (ac_anchors c) a = [a]" using line_step[OF assms] by simp
  then show ?thesis using None by (auto simp: recon_def chainTo_def ancestry_line)
next
  case (Some p)
  have p: "stored (ac_anchors c) p" by (rule map_ok_parent[OF assms(1) Some])
  have "rev (line (ac_anchors c) p) \<noteq> []" using line_step[OF assms(1) p] by simp
  then obtain x xs where xs: "rev (line (ac_anchors c) p) = x # xs" by (cases "rev (line (ac_anchors c) p)") simp_all
  have "rev (line (ac_anchors c) a) = (x # xs) @ [a]" using line_step[OF assms] Some xs by simp
  then show ?thesis using Some xs by (simp add: recon_def chainTo_def ancestry_line Let_def)
qed

text \<open>The floor is on the line of an anchor; without a floor every anchor counts.\<close>

definition rooted :: "anchor_chain \<Rightarrow> anchor \<Rightarrow> bool" where
  "rooted c a \<longleftrightarrow> (\<forall>f. ac_floorId c = Some f \<longrightarrow> (\<exists>x \<in> set (line (ac_anchors c) a). a_id x = f))"

lemma rooted_step:
  assumes "map_ok (ac_anchors c)" "stored (ac_anchors c) a"
  shows "rooted c a \<longleftrightarrow> ac_floorId c = None \<or> ac_floorId c = Some (a_id a)
    \<or> (\<exists>p. parent (map_of (ac_anchors c)) a = Some p \<and> rooted c p)"
  using line_step[OF assms] by (cases "ac_floorId c") (auto simp: rooted_def split: option.splits)

section \<open>The invariant\<close>

text \<open>Only anchors at the height of the floor, which is then the lowest, miss their parent.\<close>

definition gaps_ok :: "anchor_chain \<Rightarrow> bool" where
  "gaps_ok c \<longleftrightarrow> (\<forall>b p. stored (ac_anchors c) b \<and> a_prev b = Some p \<and> p \<noteq> [] \<and> map_of (ac_anchors c) p = None \<longrightarrow>
     (\<exists>F. ac_floorId c = Some (a_id F) \<and> stored (ac_anchors c) F \<and> a_height b = a_height F
        \<and> (\<forall>x. stored (ac_anchors c) x \<longrightarrow> a_height F \<le> a_height x)))"

text \<open>The floor is held, nothing below it is, and it is on the line of the tip and of the lock.\<close>

definition floor_ok :: "anchor_chain \<Rightarrow> bool" where
  "floor_ok c \<longleftrightarrow> (\<forall>f. ac_floorId c = Some f \<longrightarrow> (\<exists>F T L. a_id F = f \<and> stored (ac_anchors c) F
     \<and> parent (map_of (ac_anchors c)) F = None \<and> ac_tip c = Some T \<and> L \<in> set (line (ac_anchors c) T)
     \<and> ac_lockedId c = Some (a_id L) \<and> F \<in> set (line (ac_anchors c) L)))"

definition heads_ok :: "(bytes \<Rightarrow> bytes) \<Rightarrow> anchor_chain \<Rightarrow> bool" where
  "heads_ok H c \<longleftrightarrow> (\<forall>T. ac_tip c = Some T \<longrightarrow> ac_tipHeads c = recon c T \<and> ac_lockedId c \<noteq> None)
     \<and> (\<forall>a. stored (ac_anchors c) a \<and> rooted c a \<longrightarrow> rootOfHeads H (recon c a) = a_stateRoot a)"

definition cert_inv :: "(bytes \<Rightarrow> bytes) \<Rightarrow> anchor_chain \<Rightarrow> bool" where
  "cert_inv H c \<longleftrightarrow> chain_inv c \<and> depths_ok c \<and> gaps_ok c \<and> floor_ok c \<and> heads_ok H c"

lemma floor_okD:
  assumes "floor_ok c" "ac_floorId c = Some f"
  obtains F T L where "a_id F = f" "stored (ac_anchors c) F" "parent (map_of (ac_anchors c)) F = None" "ac_tip c = Some T"
    "L \<in> set (line (ac_anchors c) T)" "ac_lockedId c = Some (a_id L)" "F \<in> set (line (ac_anchors c) L)"
  using assms unfolding floor_ok_def by blast

lemma floor_ok_tip:
  assumes "floor_ok c" "ac_floorId c = Some f" "ac_tip c = Some T"
  obtains F L where "a_id F = f" "stored (ac_anchors c) F" "parent (map_of (ac_anchors c)) F = None"
    "L \<in> set (line (ac_anchors c) T)" "ac_lockedId c = Some (a_id L)" "F \<in> set (line (ac_anchors c) L)"
proof -
  from floor_okD[OF assms(1,2)] obtain F T' L where F: "a_id F = f" "stored (ac_anchors c) F" "parent (map_of (ac_anchors c)) F = None"
    "ac_tip c = Some T'" "L \<in> set (line (ac_anchors c) T')" "ac_lockedId c = Some (a_id L)" "F \<in> set (line (ac_anchors c) L)" .
  have "T' = T" using F(4) assms(3) by simp
  with F that show ?thesis by blast
qed

lemma gaps_okD:
  assumes "gaps_ok c" "stored (ac_anchors c) b" "a_prev b = Some p" "p \<noteq> []" "map_of (ac_anchors c) p = None"
  obtains F where "ac_floorId c = Some (a_id F)" "stored (ac_anchors c) F" "a_height b = a_height F"
    "\<forall>x. stored (ac_anchors c) x \<longrightarrow> a_height F \<le> a_height x"
  using assms unfolding gaps_ok_def by blast

lemma chain_inv_map: "chain_inv c \<Longrightarrow> map_ok (ac_anchors c)"
  by (simp add: chain_inv_def)

lemma tip_rooted:
  assumes "chain_inv c" "floor_ok c" "ac_tip c = Some T"
  shows "rooted c T"
  unfolding rooted_def
proof (intro allI impI)
  fix f assume f: "ac_floorId c = Some f"
  note m = chain_inv_map[OF assms(1)]
  obtain F L where F: "a_id F = f" "L \<in> set (line (ac_anchors c) T)" "F \<in> set (line (ac_anchors c) L)"
    by (rule floor_ok_tip[OF assms(2) f assms(3)])
  have "F \<in> set (line (ac_anchors c) T)"
    by (rule line_trans[OF m _ F(2,3)]) (use chain_inv_tip[OF assms(1,3)] in simp)
  with F(1) show "\<exists>x \<in> set (line (ac_anchors c) T). a_id x = f" by blast
qed

text \<open>The caches agree with the walk.\<close>

lemma headsAt_recon:
  assumes inv: "chain_inv c" "floor_ok c" "heads_ok H c" and a: "stored (ac_anchors c) a"
  shows "headsAt c (a_id a) = recon c a"
proof -
  note m = chain_inv_map[OF inv(1)]
  have get: "anchor_get c (a_id a) = Some a" using a by (simp add: anchor_get_map stored_def)
  have "ac_tipHeads c = recon c a" if "Some (a_id a) = ac_tipId c"
    using inv(3) that[symmetric] get by (simp add: heads_ok_def ac_tip_def)
  moreover have "ac_floorHeads c = recon c a" if f: "Some (a_id a) = ac_floorId c"
  proof -
    obtain F where F: "a_id F = a_id a" "stored (ac_anchors c) F" "parent (map_of (ac_anchors c)) F = None"
      using floor_okD[OF inv(2) f[symmetric]] by metis
    have "F = a" using F(1,2) a stored_id_eq by blast
    then show ?thesis using F recon_step[OF m a] f by simp
  qed
  ultimately show ?thesis unfolding headsAt_cases get by simp
qed

section \<open>Adding keeps it\<close>

lemma recon_cong:
  assumes "line (ac_anchors c) a = line (ac_anchors c') a" "ac_floorId c = ac_floorId c'" "ac_floorHeads c = ac_floorHeads c'"
  shows "recon c a = recon c' a" "rooted c a \<longleftrightarrow> rooted c' a"
  by (simp_all only: recon_def rooted_def chainTo_def ancestry_line option.case assms)

text \<open>A new anchor that no anchor held misses as its parent.\<close>

definition fresh :: "anchor_map \<Rightarrow> anchor \<Rightarrow> bool" where
  "fresh m a \<longleftrightarrow> fits m a \<and> (\<forall>b. stored m b \<and> a_prev b = Some (a_id a) \<longrightarrow> a_id a = [])"

lemma parent_fresh: "fresh m a \<Longrightarrow> stored m b \<Longrightarrow> parent (map_of (store_in m a)) b = parent (map_of m) b"
  by (auto simp: fresh_def parent_store)

lemma parent_new: "fresh m a \<Longrightarrow> parent (map_of (store_in m a)) a = parent (map_of m) a"
  by (simp add: fresh_def fits_def parent_store)

lemma line_fresh:
  assumes m: "map_ok m" and f: "fresh m a" and b: "stored m b"
  shows "line (store_in m a) b = line m b"
  using m b
proof (induction rule: line_induct)
  case (Root b)
  have "stored (store_in m a) b" using f Root(1) by (auto simp: fresh_def fits_def intro: store_old)
  then show ?case using line_step[OF m Root(1)] line_step[of "store_in m a" b] parent_fresh[OF f Root(1)] Root(2) store_ok[OF m] f
    by (simp add: fresh_def)
next
  case (Link b p)
  have "stored (store_in m a) b" using f Link(1) by (auto simp: fresh_def fits_def intro: store_old)
  then show ?case using line_step[OF m Link(1)] line_step[of "store_in m a" b] parent_fresh[OF f Link(1)] Link(2,4) store_ok[OF m] f
    by (simp add: fresh_def)
qed

lemma recon_fresh:
  assumes "map_ok (ac_anchors c)" "fresh (ac_anchors c) a" "stored (ac_anchors c) b"
  shows "recon (c\<lparr>ac_anchors := store_in (ac_anchors c) a\<rparr>) b = recon c b"
    "rooted (c\<lparr>ac_anchors := store_in (ac_anchors c) a\<rparr>) b \<longleftrightarrow> rooted c b"
  by (rule recon_cong; simp add: line_fresh[OF assms])+

lemma fits_fresh:
  assumes inv: "chain_inv c" "gaps_ok c" and f: "fits (ac_anchors c) a" and p: "parent (map_of (ac_anchors c)) a = Some p"
  shows "fresh (ac_anchors c) a"
proof -
  have "a_id a = []" if b: "stored (ac_anchors c) b" "a_prev b = Some (a_id a)" for b
  proof (rule ccontr)
    assume ne: "a_id a \<noteq> []"
    have h: "a_height b = a_height a + 1" "a_height a = a_height p + 1" using f b p by (auto simp: fits_def)
    have none: "map_of (ac_anchors c) (a_id a) = None" using f by (simp add: fits_def)
    obtain F where F: "ac_floorId c = Some (a_id F)" "stored (ac_anchors c) F" "a_height b = a_height F"
      "\<forall>x. stored (ac_anchors c) x \<longrightarrow> a_height F \<le> a_height x"
      by (rule gaps_okD[OF inv(2) b ne none])
    have "a_height F \<le> a_height p" using F(4) map_ok_parent[OF chain_inv_map[OF inv(1)] p] by simp
    with F(3) h show False by simp
  qed
  with f show ?thesis unfolding fresh_def by blast
qed

lemma setTip_fields:
  "ac_tipId (setTip c a hs) = Some (a_id a)" "ac_tipHeads (setTip c a hs) = hs" "ac_anchors (setTip c a hs) = ac_anchors c"
  "ac_floorId (setTip c a hs) = ac_floorId c" "ac_floorHeads (setTip c a hs) = ac_floorHeads c" "ac_opts (setTip c a hs) = ac_opts c"
  by (simp_all add: setTip_def updateLock_def Let_def)

text \<open>The lock only moves up the line of the new tip.\<close>

lemma setTip_lock:
  assumes m: "map_ok (ac_anchors c)" and t: "stored (ac_anchors c) t" and d: "depths_ok c"
    and L: "L \<in> set (line (ac_anchors c) t)" "ac_lockedId c = Some (a_id L)"
  shows "\<exists>N \<in> set (line (ac_anchors c) t). ac_lockedId (setTip c t hs) = Some (a_id N) \<and> L \<in> set (line (ac_anchors c) N)"
proof -
  let ?m = "ac_anchors c"
  obtain k where k: "co_finalityDepth (ac_opts c) = Some k" using d by (auto simp: depths_ok_def)
  define c1 where "c1 = c\<lparr>ac_tipId := Some (a_id t), ac_tipHeads := hs\<rparr>"
  have c1: "ac_anchors c1 = ?m" "ac_tip c1 = Some t" "ac_lockedId c1 = ac_lockedId c"
    using t by (simp_all add: c1_def ac_tip_def anchor_get_map stored_def)
  have "\<exists>N \<in> set (line (ac_anchors c1) t). lock_advance c1 (ac_lockedId c) (Some k) = Some (a_id N)
    \<and> a_height (step_back (map_of (ac_anchors c1)) k t) \<le> a_height N
    \<and> (N = step_back (map_of (ac_anchors c1)) k t \<or> ac_lockedId c = Some (a_id N))
    \<and> (\<forall>L \<in> set (line (ac_anchors c1) t). ac_lockedId c = Some (a_id L) \<longrightarrow> a_height L \<le> a_height N)"
    by (rule lock_advance_spec) (use m t c1 L in auto)
  then obtain N where N: "N \<in> set (line ?m t)" "lock_advance c1 (ac_lockedId c) (Some k) = Some (a_id N)" "a_height L \<le> a_height N"
    unfolding c1(1) using L by blast
  have "ac_lockedId (setTip c t hs) = Some (a_id N)" using N(2) k by (simp add: setTip_def updateLock_def Let_def c1_def)
  then show ?thesis using N(1) line_comparable[OF m t L(1) N(1,3)] by blast
qed

text \<open>The floor stays under the lock when the tip moves to \<open>a\<close>.\<close>

lemma setTip_floor:
  assumes m: "map_ok (ac_anchors c)" and a: "stored (ac_anchors c) a" and d: "depths_ok c"
    and L: "L \<in> set (line (ac_anchors c) a)" "lk = Some (a_id L)"
    and F: "\<And>f. ac_floorId c = Some f \<Longrightarrow> \<exists>F. a_id F = f \<and> stored (ac_anchors c) F \<and> parent (map_of (ac_anchors c)) F = None
      \<and> F \<in> set (line (ac_anchors c) L)"
    and c'_def: "c' = setTip (c\<lparr>ac_lockedId := lk\<rparr>) a hs"
  shows "floor_ok c' \<and> ac_tip c' = Some a \<and> ac_tipHeads c' = hs \<and> ac_lockedId c' \<noteq> None
    \<and> ac_floorId c' = ac_floorId c \<and> ac_floorHeads c' = ac_floorHeads c"
proof -
  have d': "depths_ok (c\<lparr>ac_lockedId := lk\<rparr>)" using d by (simp add: depths_ok_def)
  obtain N where N: "N \<in> set (line (ac_anchors c) a)" "ac_lockedId c' = Some (a_id N)" "L \<in> set (line (ac_anchors c) N)"
    using setTip_lock[of "c\<lparr>ac_lockedId := lk\<rparr>" a L hs] m a d' L unfolding c'_def by auto
  have tip: "ac_tip c' = Some a" using a by (simp add: c'_def ac_tip_def setTip_fields anchor_get_map stored_def)
  have N': "stored (ac_anchors c) N" using line_stored[OF m a N(1)] by simp
  have "floor_ok c'"
    unfolding floor_ok_def
  proof (intro allI impI)
    fix f assume "ac_floorId c' = Some f"
    then obtain F where F: "a_id F = f" "stored (ac_anchors c) F" "parent (map_of (ac_anchors c)) F = None"
      "F \<in> set (line (ac_anchors c) L)" using F unfolding c'_def by (auto simp: setTip_fields)
    have "F \<in> set (line (ac_anchors c) N)" by (rule line_trans[OF m N' N(3) F(4)])
    moreover have "ac_anchors c' = ac_anchors c" by (simp add: c'_def setTip_fields)
    ultimately show "\<exists>F T L. a_id F = f \<and> stored (ac_anchors c') F \<and> parent (map_of (ac_anchors c')) F = None
      \<and> ac_tip c' = Some T \<and> L \<in> set (line (ac_anchors c') T) \<and> ac_lockedId c' = Some (a_id L) \<and> F \<in> set (line (ac_anchors c') L)"
      using F N tip by auto
  qed
  then show ?thesis using tip N(2) by (simp add: c'_def setTip_fields)
qed

lemma descends_iff: "descendsFrom c a i \<longleftrightarrow> (\<forall>l. i = Some l \<longrightarrow> (\<exists>L \<in> set (line (ac_anchors c) a). a_id L = l))"
  by (auto simp: descendsFrom_def ancestry_line list_ex_iff split: option.split)

lemma choose_tip_floor:
  assumes inv: "chain_inv c" and a: "stored (ac_anchors c) a" and d: "depths_ok c" and ch: "choose_tip c a hs = (c', r)"
    and fl: "floor_ok c" and tip: "ac_tip c \<noteq> None" "ac_lockedId c \<noteq> None"
  shows "floor_ok c' \<and> ac_lockedId c' \<noteq> None \<and> ac_floorId c' = ac_floorId c \<and> ac_floorHeads c' = ac_floorHeads c
    \<and> (ac_tip c' = ac_tip c \<and> ac_tipHeads c' = ac_tipHeads c \<or> ac_tip c' = Some a \<and> ac_tipHeads c' = hs)"
proof -
  let ?m = "ac_anchors c"
  note m = chain_inv_map[OF inv]
  obtain t where t: "ac_tip c = Some t" using tip by auto
  note lt = chain_inv_tip[OF inv t]
  obtain L0 where L0: "L0 \<in> set (line ?m t)" "ac_lockedId c = Some (a_id L0)"
    using lt tip(2) by (auto simp: locks_ok_def)
  have stL0: "stored ?m L0" using line_stored[OF m _ L0(1)] lt by simp
  have fl0: "\<exists>F. a_id F = f \<and> stored ?m F \<and> parent (map_of ?m) F = None \<and> F \<in> set (line ?m L0)" if f: "ac_floorId c = Some f" for f
  proof -
    obtain F L where F: "a_id F = f" "stored ?m F" "parent (map_of ?m) F = None" "L \<in> set (line ?m t)"
      "ac_lockedId c = Some (a_id L)" "F \<in> set (line ?m L)" by (rule floor_ok_tip[OF fl f t])
    have "stored ?m L" "a_id L = a_id L0" using line_stored[OF m _ F(4)] lt L0(2) F(5) by simp_all
    then have "L = L0" using stL0 stored_id_eq by blast
    with F show ?thesis by blast
  qed
  from ch show ?thesis
  proof (cases rule: choose_tip_cases)
    case keep
    then show ?thesis using fl tip by (elim disjE exE) (simp_all add: floor_ok_def ac_tip_def anchor_get_map)
  next
    case extend
    then obtain L where L: "L \<in> set (line ?m a)" "a_id L = a_id L0" using L0(2) by (auto simp: descends_iff)
    have "L = L0" using line_stored[OF m a L(1)] stL0 L(2) stored_id_eq by blast
    with setTip_floor[OF m a d _ L0(2) fl0 refl, of hs] L(1) extend(2) show ?thesis by simp
  next
    case (switch i final)
    have "\<exists>F L. F \<in> set (line ?m a) \<and> F \<in> set (line ?m t) \<and> L \<in> set (line ?m a) \<and> a_id L = i \<and> a_height F \<le> a_height L
      \<and> (\<forall>x \<in> set (line ?m a). x \<in> set (line ?m t) \<longrightarrow> a_height x \<le> a_height F)"
      by (rule resolveFork_switch[OF m a _ refl switch(1)[unfolded t]]) (use lt in simp)
    then obtain K L where K: "K \<in> set (line ?m a)" "K \<in> set (line ?m t)" "L \<in> set (line ?m a)" "a_id L = i" "a_height K \<le> a_height L"
      by blast
    have "\<exists>F. a_id F = f \<and> stored ?m F \<and> parent (map_of ?m) F = None \<and> F \<in> set (line ?m L)" if f: "ac_floorId c = Some f" for f
    proof -
      obtain F where F: "a_id F = f" "stored ?m F" "parent (map_of ?m) F = None" "F \<in> set (line ?m L0)" using fl0[OF f] by blast
      have Ft: "F \<in> set (line ?m t)" by (rule line_trans[OF m _ L0(1) F(4)]) (use lt in simp)
      have "F \<in> set (line ?m K)"
      proof (cases "a_height F \<le> a_height K")
        case True
        then show ?thesis by (rule line_comparable[OF m _ Ft K(2), rotated]) (use lt in simp)
      next
        case False
        then have "K \<in> set (line ?m F)" by (intro line_comparable[OF m _ K(2) Ft]) (use lt in simp_all)
        then show ?thesis using line_step[OF m F(2)] F(3) line_self[OF m F(2)] by simp
      qed
      moreover have "K \<in> set (line ?m L)" by (rule line_comparable[OF m a K(1,3,5)])
      ultimately have "F \<in> set (line ?m L)" using line_trans[OF m] line_stored[OF m a K(3)] by blast
      with F show ?thesis by blast
    qed
    then have "floor_ok c' \<and> ac_tip c' = Some a \<and> ac_tipHeads c' = hs \<and> ac_lockedId c' \<noteq> None
      \<and> ac_floorId c' = ac_floorId c \<and> ac_floorHeads c' = ac_floorHeads c"
      by (intro setTip_floor[OF m a d K(3) _ _ switch(3)]) (simp_all add: K(4))
    then show ?thesis by blast
  qed
qed

lemma floor_ok_store:
  assumes m: "map_ok (ac_anchors c)" and inv: "chain_inv c" and fl: "floor_ok c" and f: "fresh (ac_anchors c) a"
  defines "c1 \<equiv> c\<lparr>ac_anchors := store_in (ac_anchors c) a\<rparr>"
  shows "floor_ok c1"
  unfolding floor_ok_def
proof (intro allI impI)
  fix i assume "ac_floorId c1 = Some i"
  then have i: "ac_floorId c = Some i" by (simp add: c1_def)
  from floor_okD[OF fl i] obtain F T L where F: "a_id F = i" "stored (ac_anchors c) F" "parent (map_of (ac_anchors c)) F = None"
    "ac_tip c = Some T" "L \<in> set (line (ac_anchors c) T)" "ac_lockedId c = Some (a_id L)" "F \<in> set (line (ac_anchors c) L)" .
  have T: "stored (ac_anchors c) T" using chain_inv_tip[OF inv F(4)] by simp
  have L: "stored (ac_anchors c) L" using line_stored[OF m T F(5)] by simp
  have new: "map_of (ac_anchors c) (a_id a) = None" using f by (simp add: fresh_def fits_def)
  have tipid: "ac_tipId c = Some (a_id T)"
    using F(4) map_ok_id[OF m] by (auto simp: ac_tip_def anchor_get_map bind_eq_Some_conv)
  have "stored (ac_anchors c1) F" "parent (map_of (ac_anchors c1)) F = None" "L \<in> set (line (ac_anchors c1) T)"
    "F \<in> set (line (ac_anchors c1) L)"
    using F store_old[OF new F(2)] parent_fresh[OF f F(2)] line_fresh[OF m f T] line_fresh[OF m f L] by (simp_all add: c1_def)
  moreover have "ac_tip c1 = Some T" using tipid store_old[OF new T] by (simp add: ac_tip_def anchor_get_map c1_def stored_def)
  moreover have "ac_lockedId c1 = Some (a_id L)" using F(6) by (simp add: c1_def)
  ultimately show "\<exists>F T L. a_id F = i \<and> stored (ac_anchors c1) F
     \<and> parent (map_of (ac_anchors c1)) F = None \<and> ac_tip c1 = Some T \<and> L \<in> set (line (ac_anchors c1) T)
     \<and> ac_lockedId c1 = Some (a_id L) \<and> F \<in> set (line (ac_anchors c1) L)" using F(1) by blast
qed

lemma gaps_ok_store:
  assumes g: "gaps_ok c" and f: "fresh (ac_anchors c) a" and p: "parent (map_of (ac_anchors c)) a = Some p" "stored (ac_anchors c) p"
    "ac_anchors c' = store_in (ac_anchors c) a" "ac_floorId c' = ac_floorId c"
  shows "gaps_ok c'"
  unfolding gaps_ok_def p(3,4)
proof (intro allI impI, elim conjE)
  fix b q assume b: "stored (store_in (ac_anchors c) a) b" "a_prev b = Some q" "q \<noteq> []" "map_of (store_in (ac_anchors c) a) q = None"
  have new: "map_of (ac_anchors c) (a_id a) = None" using f by (simp add: fresh_def fits_def)
  have q: "map_of (ac_anchors c) q = None" using b(4) by (simp add: map_of_set split: if_splits)
  have "b \<noteq> a" using p(1) b(2,3) q by (auto simp: parent_def)
  then have bo: "stored (ac_anchors c) b" using b(1) by (auto simp: stored_def map_of_set split: if_splits)
  obtain F where F: "ac_floorId c = Some (a_id F)" "stored (ac_anchors c) F" "a_height b = a_height F"
    "\<forall>x. stored (ac_anchors c) x \<longrightarrow> a_height F \<le> a_height x"
    by (rule gaps_okD[OF g bo b(2,3) q])
  have "a_height F \<le> a_height x" if "stored (store_in (ac_anchors c) a) x" for x
  proof (cases "x = a")
    case True
    have "a_height a = a_height p + 1" using f p(1) by (simp add: fresh_def fits_def)
    moreover have "a_height F \<le> a_height p" using F(4) p(2) by blast
    ultimately show ?thesis using True by simp
  next
    case False
    then have "stored (ac_anchors c) x" using that by (auto simp: stored_def map_of_set split: if_splits)
    with F(4) show ?thesis by blast
  qed
  then show "\<exists>F. ac_floorId c = Some (a_id F) \<and> stored (store_in (ac_anchors c) a) F \<and> a_height b = a_height F
      \<and> (\<forall>x. stored (store_in (ac_anchors c) a) x \<longrightarrow> a_height F \<le> a_height x)"
    using F(1,3) store_old[OF new F(2)] by blast
qed

text \<open>The new anchor's heads are what the walk rebuilds for it, and the verifier has matched them to its
  state root.\<close>

lemma heads_ok_store:
  assumes m: "map_ok (ac_anchors c)" and inv: "chain_inv c" "floor_ok c" "heads_ok H c" and f: "fresh (ac_anchors c) a"
    and p: "parent (map_of (ac_anchors c)) a = Some p"
    and v: "verifyAnchor H edv a (Some p) (headsAt c (a_id p)) params d vf = Inr hs"
  defines "c1 \<equiv> c\<lparr>ac_anchors := store_in (ac_anchors c) a\<rparr>"
  shows "recon c1 a = hs \<and> (\<forall>b. stored (ac_anchors c1) b \<and> rooted c1 b \<longrightarrow> rootOfHeads H (recon c1 b) = a_stateRoot b)"
proof -
  have m1: "map_ok (ac_anchors c1)" using store_ok[OF m] f by (simp add: c1_def fresh_def)
  have st: "stored (ac_anchors c) p" by (rule map_ok_parent[OF m p])
  have a1: "stored (ac_anchors c1) a" by (simp add: c1_def store_self)
  have par: "parent (map_of (ac_anchors c1)) a = Some p" using parent_new[OF f] p by (simp add: c1_def)
  note old = recon_fresh[OF m f, folded c1_def]
  have hs: "hs = applyHeadsDelta (recon c p) (a_headsDelta a)" "rootOfHeads H hs = a_stateRoot a"
    using v headsAt_recon[OF inv st] by (simp_all add: verifyAnchor_ok)
  have rec: "recon c1 a = hs" using recon_step[OF m1 a1] par old(1)[OF st] hs(1) by simp
  moreover have "rootOfHeads H (recon c1 b) = a_stateRoot b" if b: "stored (ac_anchors c1) b" "rooted c1 b" for b
  proof (cases "b = a")
    case True
    then show ?thesis using rec hs(2) by simp
  next
    case False
    then have "stored (ac_anchors c) b" using b(1) by (auto simp: c1_def stored_def map_of_set split: if_splits)
    then show ?thesis using old b(2) inv(3) by (simp add: heads_ok_def)
  qed
  ultimately show ?thesis by blast
qed

lemma cert_inv_add:
  assumes inv: "cert_inv H c" and U: "graded U" "held_in (ac_anchors c) U" "a \<in> U" "a_prev a \<noteq> None"
    and tip: "ac_tip c \<noteq> None" and add: "add_anchor H edv c a = (c', r)"
  shows "cert_inv H c' \<and> held_in (ac_anchors c') U \<and> ac_tip c' \<noteq> None"
  using add
proof (cases rule: add_cases)
  case same
  then show ?thesis using assms by simp
next
  case (added prev d hs)
  let ?m = "ac_anchors c"
  have c: "chain_inv c" "depths_ok c" "gaps_ok c" "floor_ok c" "heads_ok H c" using inv by (simp_all add: cert_inv_def)
  note m = chain_inv_map[OF c(1)]
  obtain p where p: "prev = Some p" using U(4) verified_links(1)[OF added(3)] by (cases prev) simp_all
  have par: "parent (map_of ?m) a = Some p" using added(2) p by simp
  have fit: "fits ?m a" by (rule added_fits[OF m added(1) U(1-3) added(3)[unfolded added(2)]])
  note fr = fits_fresh[OF c(1,3) fit par]
  define c1 where "c1 = c\<lparr>ac_anchors := store_in ?m a\<rparr>"
  have ch: "choose_tip c1 a hs = (c', r)" using added(5) by (simp add: c1_def)
  have c1: "chain_inv c1" "floor_ok c1" "depths_ok c1" "stored (ac_anchors c1) a"
    using store_inv[OF c(1) fit] floor_ok_store[OF m c(1,4) fr] c(2) by (simp_all add: c1_def store_self depths_ok_def)
  have v: "verifyAnchor H edv a (Some p) (headsAt c (a_id p)) (ac_params c) d (ac_verifier c) = Inr hs"
    using added(3) p by simp
  note hd = heads_ok_store[OF m c(1,4,5) fr par v, folded c1_def]
  obtain T where T: "ac_tip c = Some T" using tip by auto
  have stT: "stored ?m T" using chain_inv_tip[OF c(1) T] by simp
  have tipid: "ac_tipId c = Some (a_id T)"
    using T map_ok_id[OF m] by (auto simp: ac_tip_def anchor_get_map bind_eq_Some_conv)
  have T1: "ac_tip c1 = Some T" using tipid store_old[OF added(1) stT] by (simp add: ac_tip_def anchor_get_map c1_def stored_def)
  have lk: "ac_lockedId c1 \<noteq> None" using c(5) T by (simp add: heads_ok_def c1_def)
  note ci = choose_tip_inv[OF c1(1,4,3) ch] and cf = choose_tip_floor[OF c1(1,4,3) ch c1(2) _ lk, unfolded T1]
  have same: "ac_anchors c' = store_in ?m a" "ac_floorId c' = ac_floorId c" "ac_floorHeads c' = ac_floorHeads c"
    using ci cf by (simp_all add: c1_def)
  have rec: "recon c' b = recon c1 b" "rooted c' b \<longleftrightarrow> rooted c1 b" for b
    by (rule recon_cong; use ci cf in simp)+
  have tipc: "ac_tip c' = Some T \<and> ac_tipHeads c' = ac_tipHeads c \<or> ac_tip c' = Some a \<and> ac_tipHeads c' = hs"
    using cf by (simp add: c1_def)
  have "ac_tipHeads c = recon c1 T" using c(5) T recon_fresh(1)[OF m fr stT] by (simp add: heads_ok_def c1_def)
  then have "heads_ok H c'" unfolding heads_ok_def rec using tipc hd cf ci by auto
  moreover have "gaps_ok c'" by (rule gaps_ok_store[OF c(3) fr par map_ok_parent[OF m par] same(1,2)])
  moreover have "depths_ok c'" using ci c1(3) by (simp add: depths_ok_def)
  moreover have "held_in (ac_anchors c') U"
    unfolding same held_in_def
  proof (intro allI impI)
    fix b assume "stored (store_in ?m a) b"
    then have "b = a \<or> stored ?m b" by (auto simp: stored_def map_of_set split: if_splits)
    then show "b \<in> U" using U(2,3) by (auto simp: held_in_def)
  qed
  ultimately show ?thesis using ci cf tipc by (auto simp: cert_inv_def)
qed

section \<open>Pruning keeps it\<close>

definition cut :: "int \<Rightarrow> anchor_map \<Rightarrow> anchor_map" where
  "cut k m = filter (\<lambda>(_, a). \<not> a_height a < k) m"

lemma map_of_cut:
  assumes "map_ok m"
  shows "map_of (cut k m) i = (case map_of m i of None \<Rightarrow> None | Some a \<Rightarrow> if a_height a < k then None else Some a)"
proof -
  have "distinct (keys m)" using assms by (simp add: map_ok_def)
  then show ?thesis unfolding cut_def by (simp add: map_of_filter_vals split: option.split)
qed

lemma stored_cut: "map_ok m \<Longrightarrow> stored (cut k m) a \<longleftrightarrow> stored m a \<and> k \<le> a_height a"
  by (auto simp: stored_def map_of_cut split: option.splits if_splits)

lemma parent_cut:
  "map_ok m \<Longrightarrow> parent (map_of (cut k m)) a = (case parent (map_of m) a of None \<Rightarrow> None | Some p \<Rightarrow> if a_height p < k then None else Some p)"
  by (auto simp: parent_def map_of_cut split: option.splits)

lemma cut_ok:
  assumes "map_ok m"
  shows "map_ok (cut k m)"
proof -
  have "distinct (keys (cut k m))" using assms unfolding cut_def by (intro distinct_keys_filter) (simp add: map_ok_def)
  moreover have "a_id a = i \<and> (\<forall>p. parent (map_of (cut k m)) a = Some p \<longrightarrow> a_height a = a_height p + 1)"
    if "map_of (cut k m) i = Some a" for i a
  proof -
    have "map_of m i = Some a" using that by (auto simp: map_of_cut[OF assms] split: option.splits if_splits)
    then have a: "a_id a = i" "stored m a" using map_ok_id[OF assms] by simp_all
    have "a_height a = a_height p + 1" if "parent (map_of (cut k m)) a = Some p" for p
    proof (rule map_ok_height[OF assms a(2)])
      show "parent (map_of m) a = Some p" using that by (auto simp: parent_cut[OF assms] split: option.splits if_splits)
    qed
    with a show ?thesis by blast
  qed
  ultimately show ?thesis unfolding map_ok_def by blast
qed

text \<open>The line of an anchor that is kept loses its part below the cut and nothing else.\<close>

lemma line_cut:
  assumes m: "map_ok m" and a: "stored m a" and k: "k \<le> a_height a"
  shows "line (cut k m) a = takeWhile (\<lambda>x. k \<le> a_height x) (line m a)"
  using m a k
proof (induction rule: line_induct)
  case (Root a)
  have "stored (cut k m) a" using Root stored_cut[OF m] by simp
  then show ?case using line_step[OF cut_ok[OF m]] line_step[OF m Root(1)] Root parent_cut[OF m, of k a] by simp
next
  case (Link a p)
  have "stored (cut k m) a" using Link stored_cut[OF m] by simp
  note step = line_step[OF cut_ok[OF m] this] line_step[OF m Link(1)] parent_cut[OF m, of k a] Link(2)
  show ?case
  proof (cases "k \<le> a_height p")
    case True
    then show ?thesis using step Link.IH Link.prems by simp
  next
    case False
    then show ?thesis using step Link.prems line_step[OF m Link(3)] by simp
  qed
qed

lemma line_cut_mem:
  assumes m: "map_ok m" and a: "stored m a" and x: "x \<in> set (line m a)" "k \<le> a_height x"
  shows "x \<in> set (line (cut k m) a)"
proof -
  obtain ys where ys: "line m a = ys @ line m x" "\<forall>y \<in> set ys. a_height x < a_height y" using line_suffix[OF m a x(1)] by blast
  have sx: "stored m x" and "a_height x \<le> a_height a" using line_stored[OF m a x(1)] by simp_all
  then have "k \<le> a_height a" using x(2) by simp
  moreover have "takeWhile (\<lambda>y. k \<le> a_height y) (line m a) = ys @ takeWhile (\<lambda>y. k \<le> a_height y) (line m x)"
    unfolding ys(1) using ys(2) x(2) by (intro takeWhile_append2) auto
  moreover have "x \<in> set (takeWhile (\<lambda>y. k \<le> a_height y) (line m x))" using line_step[OF m sx] x(2) by simp
  ultimately show ?thesis using line_cut[OF m a] by simp
qed

text \<open>What a prune that does something does.\<close>

lemma prune_cases:
  obtains (same) "prune c k0 = c"
  | (cut) tip k F where "ac_tip c = Some tip" "k = clamp_floor c k0" "0 < k" "F \<in> set (ancestry c tip)" "a_height F = k"
      "\<And>f. Option.bind (ac_floorId c) (anchor_get c) = Some f \<Longrightarrow> a_height f < k"
      "prune c k0 = c\<lparr>ac_anchors := cut k (ac_anchors c), ac_floorId := Some (a_id F), ac_floorHeads := headsAt c (a_id F)\<rparr>"
proof (cases "ac_tip c")
  case None
  then show ?thesis using same by (simp add: prune_def)
next
  case (Some tip)
  define k where "k = clamp_floor c k0"
  define skip where "skip = (case Option.bind (ac_floorId c) (anchor_get c) of None \<Rightarrow> False | Some f \<Rightarrow> k \<le> a_height f)"
  define ds where "ds = dropWhile (\<lambda>x. a_height x > k) (ancestry c tip)"
  have run: "prune c k0 = (if k \<le> 0 then c else if skip then c else (case ds of [] \<Rightarrow> c
     | floor # _ \<Rightarrow> if a_height floor \<noteq> k then c
            else c\<lparr>ac_anchors := cut k (ac_anchors c), ac_floorId := Some (a_id floor), ac_floorHeads := headsAt c (a_id floor)\<rparr>))"
    unfolding prune_def Let_def k_def[symmetric] skip_def ds_def cut_def Some option.case by (rule refl)
  show ?thesis
  proof (cases "k \<le> 0 \<or> skip \<or> ds = [] \<or> a_height (hd ds) \<noteq> k")
    case True
    then have "prune c k0 = c" unfolding run by (cases ds) auto
    then show ?thesis by (rule same)
  next
    case False
    then obtain F rest where F: "ds = F # rest" "a_height F = k" by (cases ds) simp_all
    have "set ds \<subseteq> set (ancestry c tip)" unfolding ds_def by (auto dest: set_dropWhileD)
    moreover have "a_height f < k" if "Option.bind (ac_floorId c) (anchor_get c) = Some f" for f
      using False that by (simp add: skip_def)
    moreover have "prune c k0 = c\<lparr>ac_anchors := cut k (ac_anchors c), ac_floorId := Some (a_id F), ac_floorHeads := headsAt c (a_id F)\<rparr>"
      using False F unfolding run by simp
    ultimately show ?thesis using cut[OF Some k_def, of F] False F by simp
  qed
qed

lemma clamp_below:
  "Option.bind (ac_lockedId c) (anchor_get c) = Some l \<Longrightarrow> clamp_floor c k \<le> a_height l"
  "co_settlementDepth (ac_opts c) \<noteq> None \<Longrightarrow> Option.bind (ac_settledId c) (anchor_get c) = Some s \<Longrightarrow> clamp_floor c k \<le> a_height s"
  by (auto simp: clamp_floor_def Let_def split: option.splits)

text \<open>The locked and the settled anchor survive, with the tip.\<close>

lemma cut_locks:
  assumes m: "map_ok (ac_anchors c)" and inv: "chain_inv c" "depths_ok c" and T: "ac_tip c = Some T"
    and k: "k = clamp_floor c k0" "k \<le> a_height T"
  shows "locks_ok (cut k (ac_anchors c)) T (ac_lockedId c) (ac_settledId c)"
proof -
  let ?m = "ac_anchors c"
  note lt = chain_inv_tip[OF inv(1) T]
  have keep: "X \<in> set (line (cut k ?m) T)" if "X \<in> set (line ?m T)" "k \<le> a_height X" for X
    by (rule line_cut_mem[OF m _ that]) (use lt in simp)
  have get: "anchor_get c (a_id X) = Some X" if "X \<in> set (line ?m T)" for X
    using line_stored[OF m _ that] lt by (simp add: anchor_get_map stored_def)
  have lock: "X \<in> set (line (cut k ?m) T)" if "X \<in> set (line ?m T)" "ac_lockedId c = Some (a_id X)" for X
    using keep[OF that(1)] clamp_below(1)[of c X k0] that(2) get[OF that(1)] k(1) by simp
  have settled: "X \<in> set (line (cut k ?m) T)" if "X \<in> set (line ?m T)" "ac_settledId c = Some (a_id X)" for X
    using keep[OF that(1)] clamp_below(2)[of c X k0] that(2) get[OF that(1)] k(1) inv(2) by (auto simp: depths_ok_def)
  show ?thesis
    unfolding locks_ok_def
  proof (intro conjI allI impI)
    fix l assume l: "ac_lockedId c = Some l"
    then obtain L where "L \<in> set (line ?m T)" "a_id L = l" using lt by (auto simp: locks_ok_def)
    with lock l show "\<exists>L \<in> set (line (cut k ?m) T). a_id L = l" by blast
  next
    fix s assume s: "ac_settledId c = Some s"
    then obtain S L where SL: "S \<in> set (line ?m T)" "a_id S = s" "L \<in> set (line ?m T)" "ac_lockedId c = Some (a_id L)"
      "a_height S \<le> a_height L" using lt unfolding locks_ok_def by blast
    with settled[OF SL(1)] lock[OF SL(3,4)] s
    show "\<exists>S \<in> set (line (cut k ?m) T). a_id S = s \<and> (\<exists>L \<in> set (line (cut k ?m) T). ac_lockedId c = Some (a_id L) \<and> a_height S \<le> a_height L)"
      by auto
  qed
qed

lemma prune_chain_inv:
  assumes inv: "chain_inv c" "depths_ok c"
  shows "chain_inv (prune c k0) \<and> depths_ok (prune c k0) \<and> ac_tip (prune c k0) = ac_tip c \<and> ac_tipHeads (prune c k0) = ac_tipHeads c
    \<and> ac_tipId (prune c k0) = ac_tipId c
    \<and> ac_lockedId (prune c k0) = ac_lockedId c \<and> ac_settledId (prune c k0) = ac_settledId c
    \<and> (\<forall>a. stored (ac_anchors (prune c k0)) a \<longrightarrow> stored (ac_anchors c) a)"
proof (cases rule: prune_cases[of c k0])
  case same
  then show ?thesis using assms by simp
next
  case (cut T k F)
  note m = chain_inv_map[OF inv(1)]
  have T: "stored (ac_anchors c) T" using chain_inv_tip[OF inv(1) cut(1)] by simp
  have tipid: "ac_tipId c = Some (a_id T)"
    using cut(1) map_ok_id[OF m] by (auto simp: ac_tip_def anchor_get_map bind_eq_Some_conv)
  have "k \<le> a_height T" using line_stored[OF m T] cut(4,5) unfolding ancestry_line by blast
  note lk = cut_locks[OF m inv cut(1,2) this]
  have T': "stored (cut k (ac_anchors c)) T" using stored_cut[OF m] T \<open>k \<le> a_height T\<close> by simp
  have "ac_tip (prune c k0) = Some T" using T' tipid by (simp add: cut(7) ac_tip_def anchor_get_map stored_def)
  moreover have "chain_inv (prune c k0)" using lk cut_ok[OF m] T' tipid by (simp add: chain_inv_def cut(7) stored_def)
  ultimately show ?thesis using inv(2) cut(1) stored_cut[OF m] by (simp add: cut(7) depths_ok_def)
qed

lemma prune_recon:
  assumes inv: "cert_inv H c" and T: "ac_tip c = Some T" and F: "F \<in> set (line (ac_anchors c) T)"
    and below: "\<And>f. Option.bind (ac_floorId c) (anchor_get c) = Some f \<Longrightarrow> a_height f < a_height F"
    and c': "c' = c\<lparr>ac_anchors := cut (a_height F) (ac_anchors c), ac_floorId := Some (a_id F), ac_floorHeads := headsAt c (a_id F)\<rparr>"
    and b: "stored (ac_anchors c') b" "rooted c' b"
  shows "recon c' b = recon c b \<and> rooted c b"
proof -
  let ?m = "ac_anchors c" and ?k = "a_height F"
  have c: "chain_inv c" "floor_ok c" "heads_ok H c" using inv by (simp_all add: cert_inv_def)
  note m = chain_inv_map[OF c(1)]
  have stT: "stored ?m T" using chain_inv_tip[OF c(1) T] by simp
  have stF: "stored ?m F" using line_stored[OF m stT F] by simp
  have anch: "ac_anchors c' = cut ?k ?m" and fl: "ac_floorId c' = Some (a_id F)" "ac_floorHeads c' = headsAt c (a_id F)"
    by (simp_all add: c')
  have m': "map_ok (ac_anchors c')" unfolding anch by (rule cut_ok[OF m])
  have stF': "stored (ac_anchors c') F" using stored_cut[OF m] stF by (simp add: anch)
  have bottom: "parent (map_of (ac_anchors c')) F = None"
    using map_ok_height[OF m stF] by (auto simp: anch parent_cut[OF m] split: option.split)
  have "rooted c F"
    unfolding rooted_def
  proof (intro allI impI)
    fix f assume f: "ac_floorId c = Some f"
    obtain F0 L where F0: "a_id F0 = f" "stored ?m F0" "parent (map_of ?m) F0 = None" "L \<in> set (line ?m T)"
      "ac_lockedId c = Some (a_id L)" "F0 \<in> set (line ?m L)" by (rule floor_ok_tip[OF c(2) f T])
    have "a_height F0 < ?k" using below[of F0] f F0(1,2) by (simp add: anchor_get_map stored_def)
    moreover have "F0 \<in> set (line ?m T)" by (rule line_trans[OF m stT F0(4,6)])
    ultimately have "F0 \<in> set (line ?m F)" by (intro line_comparable[OF m stT _ F]) simp_all
    with F0(1) show "\<exists>x \<in> set (line ?m F). a_id x = f" by blast
  qed
  moreover have "recon c' F = recon c F"
    using recon_step[OF m' stF'] bottom fl headsAt_recon[OF c stF] by simp
  ultimately have F_ok: "recon c' F = recon c F \<and> rooted c F" by simp
  from m' b show ?thesis
  proof (induction rule: line_induct)
    case (Root b)
    have "a_id b = a_id F" using Root(2,3) rooted_step[OF m' Root(1)] fl(1) by simp
    then have "b = F" using stored_id_eq[OF Root(1) stF'] by simp
    with F_ok show ?case by simp
  next
    case (Link b p)
    have b: "stored ?m b" using Link(1) stored_cut[OF m] by (simp add: anch)
    have par: "parent (map_of ?m) b = Some p" using Link(2) by (auto simp: anch parent_cut[OF m] split: option.splits if_splits)
    have "a_id b \<noteq> a_id F" using stored_id_eq[OF Link(1) stF'] bottom Link(2) by auto
    then have "rooted c' p" using Link(2,5) rooted_step[OF m' Link(1)] fl(1) by simp
    then have "recon c' p = recon c p" "rooted c p" using Link(4) by simp_all
    then show ?case using recon_step[OF m' Link(1)] recon_step[OF m b] rooted_step[OF m b] par Link(2) by simp
  qed
qed

lemma cert_inv_prune:
  assumes inv: "cert_inv H c"
  shows "cert_inv H (prune c k0)"
proof (cases rule: prune_cases[of c k0])
  case same
  then show ?thesis using assms by simp
next
  case (cut T k F)
  let ?m = "ac_anchors c"
  define c' where "c' = prune c k0"
  have c: "chain_inv c" "depths_ok c" "gaps_ok c" "floor_ok c" "heads_ok H c" using inv by (simp_all add: cert_inv_def)
  note m = chain_inv_map[OF c(1)]
  have stT: "stored ?m T" using chain_inv_tip[OF c(1) cut(1)] by simp
  have FT: "F \<in> set (line ?m T)" using cut(4) by (simp add: ancestry_line)
  have stF: "stored ?m F" and kT: "k \<le> a_height T" using line_stored[OF m stT FT] cut(5) by simp_all
  have c': "c' = c\<lparr>ac_anchors := cut (a_height F) ?m, ac_floorId := Some (a_id F), ac_floorHeads := headsAt c (a_id F)\<rparr>"
    using cut(5,7) by (simp add: c'_def)
  have anch: "ac_anchors c' = cut k ?m" and fid: "ac_floorId c' = Some (a_id F)" using cut(5) by (simp_all add: c')
  have rec: "recon c' b = recon c b \<and> rooted c b" if "stored (ac_anchors c') b" "rooted c' b" for b
    by (rule prune_recon[OF inv cut(1) FT _ c' that]) (use cut(5,6) in simp)
  note ci = prune_chain_inv[OF c(1,2), of k0, folded c'_def]
  have m': "map_ok (ac_anchors c')" using ci by (intro chain_inv_map) simp
  have stF': "stored (ac_anchors c') F" using stored_cut[OF m] stF cut(5) by (simp add: anch)
  have FT': "F \<in> set (line (ac_anchors c') T)" using line_cut_mem[OF m stT FT] cut(5) by (simp add: anch)
  have bottom: "parent (map_of (ac_anchors c')) F = None"
    using map_ok_height[OF m stF] cut(5) by (auto simp: anch parent_cut[OF m] split: option.split)
  have T': "ac_tip c' = Some T" using ci cut(1) by simp
  have "ac_lockedId c \<noteq> None" using c(5) cut(1) by (simp add: heads_ok_def)
  then obtain L where L: "L \<in> set (line (ac_anchors c') T)" "ac_lockedId c' = Some (a_id L)"
    using chain_inv_tip[OF _ T'] ci by (auto simp: locks_ok_def)
  have stT': "stored (ac_anchors c') T" using chain_inv_tip[OF _ T'] ci by simp
  have "k \<le> a_height L" using line_stored[OF m' stT' L(1)] stored_cut[OF m] by (simp add: anch)
  then have "F \<in> set (line (ac_anchors c') L)" using line_comparable[OF m' stT' FT' L(1)] cut(5) by simp
  then have "floor_ok c'" unfolding floor_ok_def using fid stF' bottom T' L by auto
  moreover have "heads_ok H c'"
    unfolding heads_ok_def
  proof (intro conjI allI impI)
    fix T2 assume "ac_tip c' = Some T2"
    then have [simp]: "T2 = T" using T' by simp
    have "rooted c' T" unfolding rooted_def using fid FT' by auto
    then show "ac_tipHeads c' = recon c' T2" using rec[OF stT'] ci c(5) cut(1) by (simp add: heads_ok_def)
    show "ac_lockedId c' \<noteq> None" using L(2) by simp
  next
    fix a assume a: "stored (ac_anchors c') a \<and> rooted c' a"
    then show "rootOfHeads H (recon c' a) = a_stateRoot a" using rec[of a] c(5) ci by (auto simp: heads_ok_def)
  qed
  moreover have "gaps_ok c'"
    unfolding gaps_ok_def
  proof (intro allI impI, elim conjE)
    fix b q assume b: "stored (ac_anchors c') b" "a_prev b = Some q" "q \<noteq> []" "map_of (ac_anchors c') q = None"
    have bo: "stored ?m b" "k \<le> a_height b" using b(1) stored_cut[OF m] by (simp_all add: anch)
    have "a_height b = k"
    proof (cases "map_of ?m q")
      case None
      obtain F0 where F0: "ac_floorId c = Some (a_id F0)" "stored ?m F0" "a_height b = a_height F0"
        "\<forall>x. stored ?m x \<longrightarrow> a_height F0 \<le> a_height x" by (rule gaps_okD[OF c(3) bo(1) b(2,3) None])
      have "a_height F0 < k" using cut(6)[of F0] F0(1,2) by (simp add: anchor_get_map stored_def)
      with F0(3) bo(2) show ?thesis by simp
    next
      case (Some p)
      then have "a_height p < k" using b(4) by (simp add: anch map_of_cut[OF m] split: if_splits)
      moreover have "parent (map_of ?m) b = Some p" using Some b(2,3) by (simp add: parent_def)
      ultimately show ?thesis using map_ok_height[OF m bo(1)] bo(2) by fastforce
    qed
    moreover have "\<forall>x. stored (ac_anchors c') x \<longrightarrow> k \<le> a_height x" using stored_cut[OF m] by (simp add: anch)
    ultimately show "\<exists>F. ac_floorId c' = Some (a_id F) \<and> stored (ac_anchors c') F \<and> a_height b = a_height F
        \<and> (\<forall>x. stored (ac_anchors c') x \<longrightarrow> a_height F \<le> a_height x)"
      using fid stF' cut(5) by (intro exI[of _ F] conjI) simp_all
  qed
  ultimately show ?thesis using ci by (simp add: cert_inv_def c'_def)
qed

section \<open>The life of a chain\<close>

text \<open>A chain that starts from the genesis anchor, is offered anchors and is pruned now and then.\<close>

inductive chain_run :: "(bytes \<Rightarrow> bytes) \<Rightarrow> (bytes \<Rightarrow> bytes \<Rightarrow> bytes \<Rightarrow> bool) \<Rightarrow> anchor set \<Rightarrow> anchor_chain \<Rightarrow> anchor_chain \<Rightarrow> bool"
  for H edv U where
  here: "chain_run H edv U c c"
| offered: "chain_run H edv U c c1 \<Longrightarrow> a \<in> U \<Longrightarrow> a_prev a \<noteq> None \<Longrightarrow> chain_run H edv U c (fst (add_anchor H edv c1 a))"
| pruned: "chain_run H edv U c c1 \<Longrightarrow> chain_run H edv U c (prune c1 k)"

lemma cert_inv_start:
  assumes i: "installGenesis H (newAnchorChain params v opts) (genesisAnchor H n d r) [] = Inr c"
    and dp: "co_finalityDepth opts = Some df" "co_settlementDepth opts = Some ds" "df \<le> ds"
  shows "cert_inv H c \<and> ac_tip c = Some (genesisAnchor H n d r) \<and> (\<forall>b. stored (ac_anchors c) b \<longrightarrow> b = genesisAnchor H n d r)"
proof -
  let ?g = "genesisAnchor H n d r"
  have c: "ac_anchors c = [(a_id ?g, ?g)]" "ac_tipId c = Some (a_id ?g)" "ac_tipHeads c = []" "ac_lockedId c = Some (a_id ?g)"
    "ac_floorId c = None" "ac_opts c = opts"
    using i unfolding install_genesis by (simp_all add: newAnchorChain_def)
  have st: "b = ?g" if "stored (ac_anchors c) b" for b using that by (auto simp: c stored_def split: if_splits)
  have sg: "stored (ac_anchors c) ?g" by (simp add: c stored_def)
  note inv = install_genesis_inv[OF i]
  have "recon c ?g = []"
    using recon_step[OF chain_inv_map[OF inv] sg] by (simp add: parent_def c applyHeadsDelta_def)
  moreover have tip: "ac_tip c = Some ?g" by (simp add: ac_tip_def anchor_get_map c)
  ultimately have "heads_ok H c"
    unfolding heads_ok_def
  proof (intro conjI allI impI)
    fix a assume "recon c ?g = []" and a: "stored (ac_anchors c) a \<and> rooted c a"
    have "a = ?g" using st a by blast
    with \<open>recon c ?g = []\<close> show "rootOfHeads H (recon c a) = a_stateRoot a" by simp
  qed (simp_all add: c)
  moreover have "gaps_ok c"
    unfolding gaps_ok_def
  proof (intro allI impI, elim conjE)
    fix b q assume "stored (ac_anchors c) b" and q: "a_prev b = Some q"
    from st[OF this(1)] q show "\<exists>F. ac_floorId c = Some (a_id F) \<and> stored (ac_anchors c) F \<and> a_height b = a_height F
      \<and> (\<forall>x. stored (ac_anchors c) x \<longrightarrow> a_height F \<le> a_height x)" by simp
  qed
  moreover have "floor_ok c" "depths_ok c" using dp by (simp_all add: floor_ok_def depths_ok_def c)
  ultimately show ?thesis using inv tip st by (simp add: cert_inv_def)
qed

lemma chain_run_inv:
  assumes "chain_run H edv U c c'" "cert_inv H c" "graded U" "held_in (ac_anchors c) U" "ac_tip c \<noteq> None"
  shows "cert_inv H c' \<and> held_in (ac_anchors c') U \<and> ac_tip c' \<noteq> None"
  using assms
proof (induction rule: chain_run.induct)
  case (offered c c1 a)
  then have "cert_inv H c1" "held_in (ac_anchors c1) U" "ac_tip c1 \<noteq> None" by simp_all
  from cert_inv_add[OF this(1) \<open>graded U\<close> this(2) offered(2,3) this(3)] show ?case
    by (cases "add_anchor H edv c1 a") simp
next
  case (pruned c c1 k)
  then have c1: "cert_inv H c1" "held_in (ac_anchors c1) U" "ac_tip c1 \<noteq> None" by simp_all
  have "chain_inv c1" "depths_ok c1" using c1(1) by (simp_all add: cert_inv_def)
  from prune_chain_inv[OF this, of k] show ?case using cert_inv_prune[OF c1(1), of k] c1(2,3) by (auto simp: held_in_def)
qed simp

section \<open>History held below the floor\<close>

lemma applyHeadsDelta_other: "w \<notin> set (keys delta) \<Longrightarrow> map_of (applyHeadsDelta hs delta) w = map_of hs w"
  unfolding applyHeadsDelta_def by (induction delta arbitrary: hs) (auto simp: map_of_set)

lemma fold_deltas_other:
  "\<forall>x \<in> set xs. w \<notin> set (keys (a_headsDelta x)) \<Longrightarrow>
   map_of (fold (\<lambda>x hs. applyHeadsDelta hs (a_headsDelta x)) xs hs) w = map_of hs w"
  by (induction xs arbitrary: hs) (auto simp: applyHeadsDelta_other)

lemma recon_past_floor:
  assumes m: "map_ok (ac_anchors c)" and F: "stored (ac_anchors c) F" "ac_floorId c = Some (a_id F)"
    "parent (map_of (ac_anchors c)) F = Some p" and a: "stored (ac_anchors c) a"
  shows "recon c a = fold (\<lambda>x hs. applyHeadsDelta hs (a_headsDelta x)) (rev (line (ac_anchors c) a)) []"
proof -
  note last = line_last[OF m a]
  have "last (line (ac_anchors c) a) \<in> set (line (ac_anchors c) a)" using last by simp
  then have "stored (ac_anchors c) (last (line (ac_anchors c) a))" using line_stored[OF m a] by blast
  then have "a_id (last (line (ac_anchors c) a)) \<noteq> a_id F" using last F(1,3) stored_id_eq by force
  then show ?thesis using last F(2) by (simp add: recon_def chainTo_def ancestry_line hd_rev Let_def)
qed

section \<open>Properties\<close>



text \<open>C19: pruning is transparent. The tip, its heads and both locks are as before; every anchor still held had
  been held, its line is the old line cut where the first dropped anchor was, and its heads, if it stands on
  the floor, are rebuilt as before.\<close>

theorem prune_transparent:
  assumes "cert_inv H c" "c' = prune c k"
  shows "ac_tip c' = ac_tip c \<and> ac_tipHeads c' = ac_tipHeads c \<and> ac_lockedId c' = ac_lockedId c \<and> ac_settledId c' = ac_settledId c
    \<and> cert_inv H c'
    \<and> (\<forall>b. stored (ac_anchors c') b \<longrightarrow> stored (ac_anchors c) b
        \<and> ancestry c' b = takeWhile (stored (ac_anchors c')) (ancestry c b)
        \<and> (rooted c' b \<longrightarrow> headsAt c' (a_id b) = headsAt c (a_id b)))"
proof -
  have c: "chain_inv c" "depths_ok c" "floor_ok c" "heads_ok H c" using assms(1) by (simp_all add: cert_inv_def)
  note m = chain_inv_map[OF c(1)] and same = prune_chain_inv[OF c(1,2), of k, folded assms(2)]
  have inv': "cert_inv H c'" unfolding assms(2) by (rule cert_inv_prune[OF assms(1)])
  then have c': "chain_inv c'" "floor_ok c'" "heads_ok H c'" by (simp_all add: cert_inv_def)
  have "ancestry c' b = takeWhile (stored (ac_anchors c')) (ancestry c b) \<and> (rooted c' b \<longrightarrow> headsAt c' (a_id b) = headsAt c (a_id b))"
    if b: "stored (ac_anchors c') b" for b
  proof (cases rule: prune_cases[of c k])
    case same
    have "takeWhile (stored (ac_anchors c)) (ancestry c b) = ancestry c b"
      using b line_stored[OF m, of b] same assms(2) by (simp add: takeWhile_eq_all_conv ancestry_line)
    with same assms(2) show ?thesis by (metis (no_types))
  next
    case (cut T j F)
    have st: "stored (ac_anchors c) b" "j \<le> a_height b" using b stored_cut[OF m] by (simp_all add: assms(2) cut(7))
    have "takeWhile (stored (ac_anchors c')) (line (ac_anchors c) b) = takeWhile (\<lambda>x. j \<le> a_height x) (line (ac_anchors c) b)"
      using line_stored[OF m st(1)] stored_cut[OF m] by (intro takeWhile_cong) (auto simp: assms(2) cut(7))
    then have line: "ancestry c' b = takeWhile (stored (ac_anchors c')) (ancestry c b)"
      using line_cut[OF m st] by (simp add: ancestry_line assms(2) cut(7))
    have "headsAt c' (a_id b) = headsAt c (a_id b)" if r: "rooted c' b"
    proof -
      have "recon c' b = recon c b \<and> rooted c b"
      proof (rule prune_recon[OF assms(1) cut(1) _ _ _ b r])
        show "F \<in> set (line (ac_anchors c) T)" using cut(4) by (simp add: ancestry_line)
        show "a_height f < a_height F" if "Option.bind (ac_floorId c) (anchor_get c) = Some f" for f using cut(5) cut(6)[OF that] by simp
        show "c' = c\<lparr>ac_anchors := Pruning.cut (a_height F) (ac_anchors c), ac_floorId := Some (a_id F), ac_floorHeads := headsAt c (a_id F)\<rparr>"
          unfolding assms(2) cut(7) cut(5) by (rule refl)
      qed
      then show ?thesis using headsAt_recon[OF c' b] headsAt_recon[OF c(1,3,4) st(1)] by simp
    qed
    with line show ?thesis by blast
  qed
  with same inv' show ?thesis by blast
qed

text \<open>A chain of three.\<close>

definition ex_g :: anchor where "ex_g = ex_fork_anchor ''g'' None 0 ''1'' GENESIS_PRODUCER"

definition ex_h :: anchor where "ex_h = ex_fork_anchor ''h'' (Some ''g'') 1 ''2'' ''p''"

definition ex_a :: anchor where "ex_a = ex_fork_anchor ''a'' (Some ''h'') 2 ''3'' ''p''"

definition ex_long :: anchor_chain where
  "ex_long = ex_chain\<lparr>ac_anchors := [(''g'', ex_g), (''h'', ex_h), (''a'', ex_a)],
     ac_tipId := Some ''a'', ac_lockedId := Some ''h'', ac_settledId := Some ''h''\<rparr>"

lemma ex_line_fields [simp]:
  "a_id ex_g = ''g''" "a_id ex_h = ''h''" "a_id ex_a = ''a''" "a_prev ex_g = None" "a_prev ex_h = Some ''g''" "a_prev ex_a = Some ''h''"
  "a_height ex_g = 0" "a_height ex_h = 1" "a_height ex_a = 2"
  by (simp_all add: ex_g_def ex_h_def ex_a_def ex_fork_anchor_def)

lemma ex_line_parents:
  "parent m ex_g = None" "parent m ex_h = m ''g''" "parent m ex_a = m ''h''"
  by (simp_all add: parent_def)

lemma ex_long_fields:
  "ac_anchors ex_long = [(''g'', ex_g), (''h'', ex_h), (''a'', ex_a)]"
  "ac_floorId ex_long = None" "ac_tipHeads ex_long = []" "ac_lockedId ex_long = Some ''h''" "ac_settledId ex_long = Some ''h''"
  "ac_tip ex_long = Some ex_a" "ac_opts ex_long = ex_opts" "ac_tipId ex_long = Some ''a''"
  by (simp_all add: ex_long_def ex_chain_def newAnchorChain_def ac_tip_def anchor_get_def)

lemma ex_long_stored: "stored (ac_anchors ex_long) b \<longleftrightarrow> b \<in> {ex_g, ex_h, ex_a}"
proof
  assume "stored (ac_anchors ex_long) b"
  then have "Some b \<in> {Some ex_g, Some ex_h, Some ex_a}"
    unfolding stored_def ex_long_fields by (simp split: if_splits)
  then show "b \<in> {ex_g, ex_h, ex_a}" by simp
next
  assume "b \<in> {ex_g, ex_h, ex_a}"
  then show "stored (ac_anchors ex_long) b" unfolding stored_def ex_long_fields by (elim insertE) simp_all
qed

lemma ex_long_map: "map_ok (ac_anchors ex_long)"
  unfolding map_ok_def
proof (intro conjI allI impI)
  fix i a p assume a: "map_of (ac_anchors ex_long) i = Some a" and p: "parent (map_of (ac_anchors ex_long)) a = Some p"
  have "a = ex_g \<or> a = ex_h \<or> a = ex_a" using a by (auto simp: ex_long_fields split: if_splits)
  then show "a_height a = a_height p + 1" using p unfolding ex_long_fields by (elim disjE) (simp_all add: ex_line_parents)
qed (auto simp: ex_long_fields split: if_splits)

lemma ex_long_lines:
  "line (ac_anchors ex_long) ex_a = [ex_a, ex_h, ex_g]" "line (ac_anchors ex_long) ex_h = [ex_h, ex_g]"
  by (simp_all add: line_def ex_long_fields ex_line_parents numeral_eq_Suc)

lemma ex_fork_anchor_heads: "a_headsDelta (ex_fork_anchor i p h w pr) = []" "a_stateRoot (ex_fork_anchor i p h w pr) = rootOfHeads ex_hash []"
  by (simp_all add: ex_fork_anchor_def ex_genesis_def)

lemma fold_no_deltas: "\<forall>x \<in> set xs. a_headsDelta x = [] \<Longrightarrow> fold (\<lambda>x hs. applyHeadsDelta hs (a_headsDelta x)) xs hs = hs"
  by (induction xs) (simp_all add: applyHeadsDelta_def)

lemma ex_long_inv: "cert_inv ex_hash ex_long"
proof -
  have inv: "chain_inv ex_long"
    unfolding chain_inv_def
  proof
    show "map_ok (ac_anchors ex_long)" by (rule ex_long_map)
    have "map_of (ac_anchors ex_long) ''a'' = Some ex_a" by (simp add: ex_long_fields)
    moreover have "locks_ok (ac_anchors ex_long) ex_a (Some ''h'') (Some ''h'')" by (simp add: locks_ok_def ex_long_lines)
    ultimately show "case ac_tipId ex_long of None \<Rightarrow> ac_lockedId ex_long = None \<and> ac_settledId ex_long = None
        | Some t \<Rightarrow> \<exists>T. map_of (ac_anchors ex_long) t = Some T \<and> locks_ok (ac_anchors ex_long) T (ac_lockedId ex_long) (ac_settledId ex_long)"
      unfolding ex_long_fields by simp
  qed
  have d: "a_headsDelta b = [] \<and> a_stateRoot b = rootOfHeads ex_hash []" if "stored (ac_anchors ex_long) b" for b
    using that[unfolded ex_long_stored] by (auto simp: ex_fork_anchor_heads ex_g_def ex_h_def ex_a_def)
  have rec: "recon ex_long b = []" if "stored (ac_anchors ex_long) b" for b
  proof -
    have "\<forall>x \<in> set (rev (line (ac_anchors ex_long) b)). a_headsDelta x = []"
      using line_stored[OF ex_long_map that] d by auto
    then show ?thesis unfolding recon_def chainTo_def ancestry_line Let_def ex_long_fields option.case by (simp add: fold_no_deltas)
  qed
  have "heads_ok ex_hash ex_long"
    unfolding heads_ok_def
  proof (intro conjI allI impI)
    fix T assume T: "ac_tip ex_long = Some T"
    have "stored (ac_anchors ex_long) T" using chain_inv_tip[OF inv T] by blast
    then show "ac_tipHeads ex_long = recon ex_long T" using rec ex_long_fields(3) by simp
    show "ac_lockedId ex_long \<noteq> None" by (simp add: ex_long_fields)
  next
    fix a assume "stored (ac_anchors ex_long) a \<and> rooted ex_long a"
    then show "rootOfHeads ex_hash (recon ex_long a) = a_stateRoot a" using rec[of a] d[of a] by simp
  qed
  moreover have "gaps_ok ex_long"
    unfolding gaps_ok_def
  proof (intro allI impI, elim conjE)
    fix b q assume "stored (ac_anchors ex_long) b" and q: "a_prev b = Some q" "map_of (ac_anchors ex_long) q = None"
    from this[unfolded ex_long_stored] q
    show "\<exists>F. ac_floorId ex_long = Some (a_id F) \<and> stored (ac_anchors ex_long) F \<and> a_height b = a_height F
      \<and> (\<forall>x. stored (ac_anchors ex_long) x \<longrightarrow> a_height F \<le> a_height x)"
      by (auto simp: ex_long_fields)
  qed
  moreover have "floor_ok ex_long" "depths_ok ex_long"
    using ex_chain_depths by (simp_all add: floor_ok_def ex_long_fields depths_ok_def ex_chain_fields)
  ultimately show ?thesis using inv by (simp add: cert_inv_def)
qed

lemma ex_long_prune: "prune ex_long 1 = ex_long\<lparr>ac_anchors := [(''h'', ex_h), (''a'', ex_a)], ac_floorId := Some ''h'', ac_floorHeads := headsAt ex_long ''h''\<rparr>"
proof -
  have k: "clamp_floor ex_long 1 = 1" by (simp add: clamp_floor_def ex_long_fields anchor_get_def)
  show ?thesis unfolding prune_def k by (simp add: ex_long_fields ancestry_line ex_long_lines[unfolded ex_long_fields] Let_def)
qed

theorem prune_transparent_witness:
  "ac_floorId (prune ex_long 1) = Some ''h'' \<and> ac_tip (prune ex_long 1) = ac_tip ex_long
   \<and> headsAt (prune ex_long 1) ''h'' = headsAt ex_long ''h''"
proof -
  have st: "stored (ac_anchors (prune ex_long 1)) ex_h" by (simp add: ex_long_prune stored_def)
  have "line (ac_anchors (prune ex_long 1)) ex_h = [ex_h]" by (simp add: ex_long_prune line_def parent_def)
  then have "rooted (prune ex_long 1) ex_h" by (simp add: rooted_def ex_long_prune)
  with st have "headsAt (prune ex_long 1) (a_id ex_h) = headsAt ex_long (a_id ex_h)"
    using prune_transparent[OF ex_long_inv refl, of 1] by blast
  then show ?thesis using prune_transparent[OF ex_long_inv refl, of 1] by (simp add: ex_long_prune)
qed

text \<open>A chain that holds anchors below its floor, as \<open>adopt\<close> leaves one when it is given the history
  linked to the floor, rebuilds heads from that history instead of the floor's. A writer whose last write is
  older than the history held has no head at an anchor above the floor, although the floor's heads, and
  the state root of an anchor that changes none of them, have one.\<close>

theorem adopted_history_hides_heads:
  assumes "map_ok (ac_anchors c)" "stored (ac_anchors c) F" "ac_floorId c = Some (a_id F)"
    and "parent (anchor_get c) F = Some p" "stored (ac_anchors c) a" "ac_tipId c \<noteq> Some (a_id a)" "a_id a \<noteq> a_id F"
    and "\<And>x. x \<in> set (ancestry c a) \<Longrightarrow> w \<notin> set (keys (a_headsDelta x))"
  shows "map_of (headsAt c (a_id a)) w = None"
proof -
  have "headsAt c (a_id a) = recon c a" using assms(3,5,6,7) by (simp add: headsAt_cases anchor_get_map stored_def)
  also have "\<dots> = fold (\<lambda>x hs. applyHeadsDelta hs (a_headsDelta x)) (rev (line (ac_anchors c) a)) []"
    by (rule recon_past_floor) (use assms in \<open>simp_all add: anchor_get_map\<close>)
  finally show ?thesis using fold_deltas_other[of "rev (line (ac_anchors c) a)" w "[]"] assms(8) by (simp add: ancestry_line)
qed

definition ex_heads :: heads where "ex_heads = [(''w'', \<lparr>h_id = ''i'', h_seq = 0\<rparr>)]"

definition ex_floor :: anchor where
  "ex_floor = (ex_fork_anchor ''f'' (Some ''h'') 2 ''3'' ''p'')\<lparr>a_stateRoot := rootOfHeads ex_hash ex_heads\<rparr>"

text \<open>The anchors \<open>c\<close> and \<open>d\<close> follow the floor and change no head.\<close>

definition ex_adopted :: anchor_chain where
  "ex_adopted = (case adopt ex_hash ex_chain ex_floor ex_heads [ex_h] of
     Inl _ \<Rightarrow> ex_chain
   | Inr c \<Rightarrow> setTip (c\<lparr>ac_anchors := ac_anchors c @ [(''c'', ex_floor\<lparr>a_id := ''c'', a_prev := Some ''f'', a_height := 3\<rparr>),
       (''d'', ex_floor\<lparr>a_id := ''d'', a_prev := Some ''c'', a_height := 4\<rparr>)]\<rparr>)
       (ex_floor\<lparr>a_id := ''d'', a_prev := Some ''c'', a_height := 4\<rparr>) ex_heads)"

lemma ex_floor_fields [simp]:
  "a_id ex_floor = ''f''" "a_prev ex_floor = Some ''h''" "a_height ex_floor = 2" "a_headsDelta ex_floor = []"
  "a_stateRoot ex_floor = rootOfHeads ex_hash ex_heads"
  by (simp_all add: ex_floor_def ex_fork_anchor_def ex_genesis_def)

lemma ex_adopt: "\<exists>c'. adopt ex_hash ex_chain ex_floor ex_heads [ex_h] = Inr c' \<and> ac_anchors c' = [(''h'', ex_h), (''f'', ex_floor)]
   \<and> ac_floorId c' = Some ''f'' \<and> ac_floorHeads c' = ex_heads"
  by (simp add: adopt_def Let_def ex_chain_fields ac_tip_def anchor_get_map ex_genesis_def ex_opts_def)

lemma ex_adopted_fields:
  "ac_anchors ex_adopted = [(''h'', ex_h), (''f'', ex_floor), (''c'', ex_floor\<lparr>a_id := ''c'', a_prev := Some ''f'', a_height := 3\<rparr>),
     (''d'', ex_floor\<lparr>a_id := ''d'', a_prev := Some ''c'', a_height := 4\<rparr>)]"
  "ac_floorId ex_adopted = Some ''f''" "ac_tipId ex_adopted = Some ''d''" "ac_floorHeads ex_adopted = ex_heads"
  using ex_adopt by (auto simp: ex_adopted_def setTip_fields)

theorem adopted_history_hides_heads_witness:
  "(\<exists>c'. adopt ex_hash ex_chain ex_floor ex_heads [ex_h] = Inr c') \<and> ''w'' \<in> set (keys (ac_floorHeads ex_adopted))
   \<and> rootOfHeads ex_hash (ac_floorHeads ex_adopted) = a_stateRoot (ex_floor\<lparr>a_id := ''c'', a_prev := Some ''f'', a_height := 3\<rparr>)
   \<and> map_of (headsAt ex_adopted ''c'') ''w'' = None"
proof -
  let ?c = "ex_floor\<lparr>a_id := ''c'', a_prev := Some ''f'', a_height := 3\<rparr>"
  have m: "map_ok (ac_anchors ex_adopted)"
    unfolding map_ok_def
  proof (intro conjI allI impI)
    fix i a p assume a: "map_of (ac_anchors ex_adopted) i = Some a" and p: "parent (map_of (ac_anchors ex_adopted)) a = Some p"
    have "a \<in> {ex_h, ex_floor, ?c, ex_floor\<lparr>a_id := ''d'', a_prev := Some ''c'', a_height := 4\<rparr>}"
      using a by (auto simp: ex_adopted_fields split: if_splits)
    then show "a_height a = a_height p + 1" using p unfolding ex_adopted_fields by (elim insertE) (auto simp: parent_def)
  qed (auto simp: ex_adopted_fields split: if_splits)
  have "map_of (headsAt ex_adopted (a_id ?c)) ''w'' = None"
  proof (rule adopted_history_hides_heads[OF m, of ex_floor ex_h])
    have "ancestry ex_adopted ?c = [?c, ex_floor, ex_h]"
      by (simp add: ancestry_line line_def ex_adopted_fields parent_def numeral_eq_Suc)
    then show "''w'' \<notin> set (keys (a_headsDelta x))" if "x \<in> set (ancestry ex_adopted ?c)" for x
      using that ex_fork_anchor_heads(1) by (auto simp: ex_h_def)
  qed (simp_all add: stored_def ex_adopted_fields anchor_get_map parent_def)
  moreover have "\<exists>c'. adopt ex_hash ex_chain ex_floor ex_heads [ex_h] = Inr c'" using ex_adopt by blast
  moreover have "''w'' \<in> set (keys ex_heads)" by (simp add: ex_heads_def)
  ultimately show ?thesis by (simp add: ex_adopted_fields)
qed

end
