(* ===== verification/Order.thy ===== *)
theory Order
  imports Fold Pruning "HOL-Library.Product_Lexorder"
begin

text \<open>
  \<open>src/consensus/order.ts\<close> and the folds of \<open>src/market/fold.ts\<close>: the order the anchors induce on the
  writes, and the board an anchor commits to. The property that matters is that this board depends on
  the anchor and on which writes are held, not on the order in which they arrived.
\<close>

section \<open>Certifying epochs\<close>

type_synonym epochs = "(string, int) jsmap"

definition group_by_writer :: "write list \<Rightarrow> (string, write list) jsmap" where
  "group_by_writer writes = fold (\<lambda>w m. map_set (w_writer w) ((case map_of m (w_writer w) of Some arr \<Rightarrow> arr | None \<Rightarrow> []) @ [w]) m) writes []"

definition assign_epoch :: "int \<Rightarrow> int \<Rightarrow> int \<Rightarrow> write list \<Rightarrow> epochs \<Rightarrow> epochs" where
  "assign_epoch frm to h ws epoch =
     fold (\<lambda>w e. if w_seq w > frm \<and> w_seq w \<le> to \<and> \<not> map_has e (w_id w) then map_set (w_id w) h e else e) ws epoch"

definition epoch_entry ::
  "(string, write list) jsmap \<Rightarrow> int \<Rightarrow> string \<times> head \<Rightarrow> (string, int) jsmap \<times> epochs \<Rightarrow> (string, int) jsmap \<times> epochs" where
  "epoch_entry byWriter height e st = (let writer = fst e; to = h_seq (snd e); covered = fst st; epoch = snd st;
       frm = (case map_of covered writer of Some s \<Rightarrow> s | None \<Rightarrow> - 1)
     in if to \<le> frm then st
        else (map_set writer to covered,
              assign_epoch frm to height (case map_of byWriter writer of Some ws \<Rightarrow> ws | None \<Rightarrow> []) epoch))"

definition epochOf :: "anchor list \<Rightarrow> write list \<Rightarrow> epochs" where
  "epochOf chain writes = snd (fold (\<lambda>a. fold (epoch_entry (group_by_writer writes) (a_height a)) (a_headsDelta a)) chain ([], []))"

section \<open>The finalized order\<close>

definition MAX_SAFE_INTEGER :: int where "MAX_SAFE_INTEGER = 2 ^ 53 - 1"

record final_ordering =
  or_included :: "write list"
  or_order :: "write \<Rightarrow> write \<Rightarrow> int"
  or_bornAt :: epochs
  or_nowHeight :: "int option"
  or_chain :: "anchor list"

definition certified_order :: "epochs \<Rightarrow> write \<Rightarrow> write \<Rightarrow> int" where
  "certified_order epoch a b =
     (let ea = (case map_of epoch (w_id a) of Some e \<Rightarrow> e | None \<Rightarrow> MAX_SAFE_INTEGER);
          eb = (case map_of epoch (w_id b) of Some e \<Rightarrow> e | None \<Rightarrow> MAX_SAFE_INTEGER)
      in if ea \<noteq> eb then ea - eb
         else if w_ts a \<noteq> w_ts b then w_ts a - w_ts b
         else if w_writer a \<noteq> w_writer b then (if w_writer a < w_writer b then - 1 else 1)
         else w_seq a - w_seq b)"

definition orderingFor :: "write list \<Rightarrow> anchor_chain \<Rightarrow> anchor option \<Rightarrow> final_ordering" where
  "orderingFor writes c anchor = (case anchor of
     None \<Rightarrow> \<lparr>or_included = [], or_order = \<lambda>_ _. 0, or_bornAt = [], or_nowHeight = None, or_chain = []\<rparr>
   | Some a \<Rightarrow> let chain = chainTo c (Some a); hs = headsAt c (a_id a);
         included = filter (\<lambda>w. case map_of hs (w_writer w) of None \<Rightarrow> False | Some h \<Rightarrow> w_seq w \<le> h_seq h) writes;
         epoch = epochOf chain included
       in \<lparr>or_included = included, or_order = certified_order epoch, or_bornAt = epoch, or_nowHeight = Some (a_height a), or_chain = chain\<rparr>)"

definition finalizedOrdering :: "write list \<Rightarrow> anchor_chain \<Rightarrow> nat \<Rightarrow> final_ordering" where
  "finalizedOrdering writes c k = orderingFor writes c (finalized c k)"

section \<open>Folding writes\<close>

record fold_options =
  fo_order :: "(write \<Rightarrow> write \<Rightarrow> int) option"
  fo_bornAt :: "epochs option"
  fo_base :: "view option"

definition byTs :: "write \<Rightarrow> write \<Rightarrow> int" where
  "byTs a b = (if w_ts a - w_ts b \<noteq> 0 then w_ts a - w_ts b
     else let c = (if w_writer a < w_writer b then - 1 else if w_writer a > w_writer b then 1 else 0)
          in if c \<noteq> 0 then c else w_seq a - w_seq b)"

definition heightOf :: "epochs option \<Rightarrow> int \<Rightarrow> write \<Rightarrow> int" where
  "heightOf born nowHeight w = min (case Option.bind born (\<lambda>m. map_of m (w_id w)) of Some h \<Rightarrow> h | None \<Rightarrow> nowHeight) nowHeight"

definition fold_order :: "(write \<Rightarrow> int) \<Rightarrow> (write \<Rightarrow> write \<Rightarrow> int) \<Rightarrow> write \<Rightarrow> write \<Rightarrow> int" where
  "fold_order ht ord a b = (if ht a - ht b \<noteq> 0 then ht a - ht b else ord a b)"

definition ref_of :: "write \<Rightarrow> write_ref" where
  "ref_of w = \<lparr>wr_id = w_id w, wr_writer = w_writer w, wr_seq = w_seq w\<rparr>"

definition fold_write :: "(int \<Rightarrow> bool) \<Rightarrow> (write \<Rightarrow> int) \<Rightarrow> write \<Rightarrow> view \<Rightarrow> view" where
  "fold_write lift_x ht w v = (let h = ht w; v' = advance v h in
     (case parseOp lift_x (w_payload w) of None \<Rightarrow> v' | Some op \<Rightarrow> fst (applyOp v' (ref_of w) op h)))"

definition computeView :: "(int \<Rightarrow> bool) \<Rightarrow> write list \<Rightarrow> int \<Rightarrow> fold_options \<Rightarrow> view" where
  "computeView lift_x writes nowHeight opts =
     (let v = (case fo_base opts of Some b \<Rightarrow> cloneView b | None \<Rightarrow> emptyView);
          ht = heightOf (fo_bornAt opts) nowHeight;
          ord = (case fo_order opts of Some f \<Rightarrow> f | None \<Rightarrow> byTs)
      in advance (fold (fold_write lift_x ht) (sort_by (fold_order ht ord) writes) v) nowHeight)"

definition viewAtAnchor :: "(int \<Rightarrow> bool) \<Rightarrow> write list \<Rightarrow> anchor_chain \<Rightarrow> string \<Rightarrow> view option \<Rightarrow> view" where
  "viewAtAnchor lift_x writes c anchorId base = (let ord = orderingFor writes c (anchor_get c anchorId) in
     (case or_nowHeight ord of
        None \<Rightarrow> (case base of Some b \<Rightarrow> cloneView b | None \<Rightarrow> emptyView)
      | Some h \<Rightarrow> computeView lift_x (or_included ord) h
          \<lparr>fo_order = Some (or_order ord), fo_bornAt = Some (or_bornAt ord), fo_base = base\<rparr>))"

section \<open>The epoch of a write\<close>

lemma group_by_writer_get:
  "(case map_of (group_by_writer ws) u of Some xs \<Rightarrow> xs | None \<Rightarrow> []) = filter (\<lambda>w. w_writer w = u) ws"
proof -
  have "(case map_of (fold (\<lambda>w m. map_set (w_writer w) ((case map_of m (w_writer w) of Some arr \<Rightarrow> arr | None \<Rightarrow> []) @ [w]) m) ws m) u of
      Some xs \<Rightarrow> xs | None \<Rightarrow> [])
    = (case map_of m u of Some xs \<Rightarrow> xs | None \<Rightarrow> []) @ filter (\<lambda>w. w_writer w = u) ws" for m
    by (induction ws arbitrary: m) (simp_all add: map_of_set)
  from this[of "[]"] show ?thesis by (simp add: group_by_writer_def)
qed

lemma assign_epoch_get:
  assumes "distinct (map w_id ws)"
  shows "map_of (assign_epoch frm to h ws e) i = (case map_of e i of Some x \<Rightarrow> Some x
    | None \<Rightarrow> if \<exists>w \<in> set ws. w_id w = i \<and> frm < w_seq w \<and> w_seq w \<le> to then Some h else None)"
  using assms unfolding assign_epoch_def
proof (induction ws arbitrary: e)
  case (Cons w ws)
  let ?e = "if w_seq w > frm \<and> w_seq w \<le> to \<and> \<not> map_has e (w_id w) then map_set (w_id w) h e else e"
  have "map_of ?e i = (case map_of e i of Some x \<Rightarrow> Some x | None \<Rightarrow> if w_id w = i \<and> frm < w_seq w \<and> w_seq w \<le> to then Some h else None)"
    by (auto simp: map_of_set map_has_def split: option.split)
  then show ?case using Cons.IH[of ?e] Cons.prems by (auto split: option.split)
qed (simp split: option.split)

definition cov_seq :: "(string, int) jsmap \<Rightarrow> string \<Rightarrow> int" where
  "cov_seq covered u = (case map_of covered u of Some s \<Rightarrow> s | None \<Rightarrow> - 1)"

text \<open>Covered and assigned go together.\<close>

definition epoch_inv :: "write list \<Rightarrow> (string, int) jsmap \<times> epochs \<Rightarrow> bool" where
  "epoch_inv ws st \<longleftrightarrow> (\<forall>w \<in> set ws. map_of (snd st) (w_id w) = None \<longleftrightarrow> cov_seq (fst st) (w_writer w) < w_seq w)"

definition covers :: "heads \<Rightarrow> write \<Rightarrow> bool" where
  "covers hs w \<longleftrightarrow> (case map_of hs (w_writer w) of Some h \<Rightarrow> w_seq w \<le> h_seq h | None \<Rightarrow> False)"

lemma epoch_entry_spec:
  assumes inv: "epoch_inv ws st" and d: "distinct (map w_id ws)" and st'_def: "st' = epoch_entry (group_by_writer ws) ht (u, h) st"
  shows "epoch_inv ws st'"
    "w \<in> set ws \<Longrightarrow> map_of (snd st') (w_id w) = (case map_of (snd st) (w_id w) of Some x \<Rightarrow> Some x
      | None \<Rightarrow> if w_writer w = u \<and> w_seq w \<le> h_seq h then Some ht else None)"
proof -
  let ?frm = "cov_seq (fst st) u"
  have st': "st' = (if h_seq h \<le> ?frm then st else (map_set u (h_seq h) (fst st),
      assign_epoch ?frm (h_seq h) ht (filter (\<lambda>w. w_writer w = u) ws) (snd st)))"
    unfolding st'_def epoch_entry_def Let_def fst_conv snd_conv cov_seq_def[symmetric] group_by_writer_get by (rule refl)
  have one: "w' = w" if "w \<in> set ws" "w' \<in> set ws" "w_id w' = w_id w" for w w'
    using d that by (auto simp: distinct_map inj_on_def)
  have df: "distinct (map w_id (filter (\<lambda>w. w_writer w = u) ws))" using d by (simp add: distinct_map_filter)
  have get: "map_of (snd st') (w_id w) = (case map_of (snd st) (w_id w) of Some x \<Rightarrow> Some x
      | None \<Rightarrow> if w_writer w = u \<and> w_seq w \<le> h_seq h then Some ht else None)" if w: "w \<in> set ws" for w
  proof (cases "h_seq h \<le> ?frm")
    case True
    then show ?thesis using inv w by (auto simp: st' epoch_inv_def split: option.split)
  next
    case False
    have "(\<exists>x \<in> set (filter (\<lambda>w. w_writer w = u) ws). w_id x = w_id w \<and> ?frm < w_seq x \<and> w_seq x \<le> h_seq h)
        \<longleftrightarrow> w_writer w = u \<and> ?frm < w_seq w \<and> w_seq w \<le> h_seq h"
      using one[OF w] w by auto
    then have "map_of (snd st') (w_id w) = (case map_of (snd st) (w_id w) of Some x \<Rightarrow> Some x
      | None \<Rightarrow> if w_writer w = u \<and> ?frm < w_seq w \<and> w_seq w \<le> h_seq h then Some ht else None)"
      using False by (simp add: st' assign_epoch_get[OF df] split: option.split)
    then show ?thesis using inv w by (auto simp: epoch_inv_def split: option.split)
  qed
  show "w \<in> set ws \<Longrightarrow> map_of (snd st') (w_id w) = (case map_of (snd st) (w_id w) of Some x \<Rightarrow> Some x
      | None \<Rightarrow> if w_writer w = u \<and> w_seq w \<le> h_seq h then Some ht else None)" by (rule get)
  have cov: "cov_seq (fst st') v = (if v = u then max ?frm (h_seq h) else cov_seq (fst st) v)" for v
    by (auto simp: st' cov_seq_def map_of_set)
  show "epoch_inv ws st'"
    unfolding epoch_inv_def
  proof
    fix w assume w: "w \<in> set ws"
    then have "map_of (snd st) (w_id w) = None \<longleftrightarrow> cov_seq (fst st) (w_writer w) < w_seq w" using inv by (simp add: epoch_inv_def)
    then show "map_of (snd st') (w_id w) = None \<longleftrightarrow> cov_seq (fst st') (w_writer w) < w_seq w"
      unfolding get[OF w] cov by (auto split: option.split)
  qed
qed

lemma epoch_delta:
  assumes "epoch_inv ws st" "distinct (map w_id ws)" "distinct (keys delta)"
  shows "epoch_inv ws (fold (epoch_entry (group_by_writer ws) ht) delta st)
    \<and> (\<forall>w \<in> set ws. map_of (snd (fold (epoch_entry (group_by_writer ws) ht) delta st)) (w_id w)
        = (case map_of (snd st) (w_id w) of Some x \<Rightarrow> Some x | None \<Rightarrow> if covers delta w then Some ht else None))"
  using assms
proof (induction delta arbitrary: st)
  case Nil
  then show ?case by (auto simp: covers_def split: option.split)
next
  case (Cons e delta)
  obtain u h where e: "e = (u, h)" by (cases e)
  note one = epoch_entry_spec[where ht = ht and u = u and h = h, OF Cons.prems(1,2) refl]
  have "distinct (keys delta)" using Cons.prems(3) by simp
  note IH = Cons.IH[OF one(1) Cons.prems(2) this]
  have u: "u \<notin> set (keys delta)" using Cons.prems(3) e by simp
  have c: "covers ((u, h) # delta) w \<longleftrightarrow> (if w_writer w = u then w_seq w \<le> h_seq h else covers delta w)" for w
    by (auto simp: covers_def)
  have no: "covers delta w = False" if "w_writer w = u" for w
    using u that by (simp add: covers_def map_of_None_keys[THEN iffD2])
  show ?case
    unfolding e
  proof (intro conjI ballI)
    fix w assume w: "w \<in> set ws"
    note IHw = IH[THEN conjunct2, rule_format, OF w] and onew = one(2)[OF w]
    show "map_of (snd (fold (epoch_entry (group_by_writer ws) ht) ((u, h) # delta) st)) (w_id w)
        = (case map_of (snd st) (w_id w) of Some x \<Rightarrow> Some x | None \<Rightarrow> if covers ((u, h) # delta) w then Some ht else None)"
      using IHw onew no[of w] by (cases "map_of (snd st) (w_id w)") (simp_all add: c)
  qed (use IH in simp)
qed

definition first_cover :: "anchor list \<Rightarrow> write \<Rightarrow> int option" where
  "first_cover chain w = map_option a_height (List.find (\<lambda>a. covers (a_headsDelta a) w) chain)"

lemma epochOf_first:
  assumes d: "distinct (map w_id ws)" and k: "\<And>a. a \<in> set chain \<Longrightarrow> distinct (keys (a_headsDelta a))"
    and w: "w \<in> set ws" "\<forall>x \<in> set ws. 0 \<le> w_seq x"
  shows "map_of (epochOf chain ws) (w_id w) = first_cover chain w"
proof -
  have "map_of (snd (fold (\<lambda>a. fold (epoch_entry (group_by_writer ws) (a_height a)) (a_headsDelta a)) chain st)) (w_id w)
    = (case map_of (snd st) (w_id w) of Some x \<Rightarrow> Some x | None \<Rightarrow> first_cover chain w)" if "epoch_inv ws st" for st
    using k that
  proof (induction chain arbitrary: st)
    case Nil
    then show ?case by (simp add: first_cover_def split: option.split)
  next
    case (Cons a chain)
    note one = epoch_delta[OF Cons.prems(2) d Cons.prems(1)[of a, simplified], of "a_height a"]
    note IH = Cons.IH[OF Cons.prems(1) one[THEN conjunct1]]
    show ?case using IH one w(1) by (simp add: first_cover_def split: option.split)
  qed
  moreover have "epoch_inv ws ([], [])" using w(2) by (auto simp: epoch_inv_def cov_seq_def)
  ultimately show ?thesis by (simp add: epochOf_def)
qed

section \<open>The order is total\<close>

text \<open>A comparator that compares keys of a linear order, different ones for different values, is strict.\<close>

lemma strict_comparator_of_key:
  fixes key :: "'a \<Rightarrow> 'k::linorder"
  assumes "\<And>a b. a \<in> D \<Longrightarrow> b \<in> D \<Longrightarrow> cmp a b \<le> 0 \<longleftrightarrow> key a \<le> key b" "inj_on key D"
  shows "strict_comparator cmp D"
proof
  fix x y assume "x \<in> D" "y \<in> D"
  then show "cmp x y \<le> 0 \<or> cmp y x \<le> 0" using assms(1) by (simp add: linear)
next
  fix x y z assume "x \<in> D" "y \<in> D" "z \<in> D" "cmp x y \<le> 0" "cmp y z \<le> 0"
  then show "cmp x z \<le> 0" using assms(1) by (meson order.trans)
next
  fix x y assume "x \<in> D" "y \<in> D" "cmp x y \<le> 0" "cmp y x \<le> 0"
  then show "x = y" using assms by (meson antisym inj_onD)
qed

text \<open>The place of a write in the order: height, epoch, time, writer, sequence number.\<close>

datatype fold_key = FoldKey int int int string int

fun key_tuple :: "fold_key \<Rightarrow> int \<times> int \<times> int \<times> string \<times> int" where
  "key_tuple (FoldKey h e t w n) = (h, e, t, w, n)"

lemma key_tuple_inj: "key_tuple x = key_tuple y \<Longrightarrow> x = y"
  by (cases x; cases y) simp

instantiation fold_key :: linorder
begin

definition less_eq_fold_key :: "fold_key \<Rightarrow> fold_key \<Rightarrow> bool" where
  "less_eq_fold_key x y \<longleftrightarrow> key_tuple x \<le> key_tuple y"

definition less_fold_key :: "fold_key \<Rightarrow> fold_key \<Rightarrow> bool" where
  "less_fold_key x y \<longleftrightarrow> key_tuple x < key_tuple y"

instance
  by standard (auto simp: less_eq_fold_key_def less_fold_key_def intro: key_tuple_inj)

end

definition order_key :: "epochs \<Rightarrow> (write \<Rightarrow> int) \<Rightarrow> write \<Rightarrow> fold_key" where
  "order_key epoch ht w = FoldKey (ht w) (case map_of epoch (w_id w) of Some e \<Rightarrow> e | None \<Rightarrow> MAX_SAFE_INTEGER) (w_ts w) (w_writer w) (w_seq w)"

lemma order_key_cmp: "fold_order ht (certified_order epoch) a b \<le> 0 \<longleftrightarrow> order_key epoch ht a \<le> order_key epoch ht b"
  by (auto simp: fold_order_def certified_order_def order_key_def less_eq_fold_key_def Let_def less_eq_prod_def)

definition at_position :: "write \<Rightarrow> string \<times> int" where
  "at_position w = (w_writer w, w_seq w)"

lemma fold_order_strict:
  assumes "inj_on at_position D"
  shows "strict_comparator (fold_order ht (certified_order epoch)) D"
proof (rule strict_comparator_of_key)
  show "inj_on (order_key epoch ht) D"
    using assms by (auto simp: inj_on_def order_key_def at_position_def)
qed (rule order_key_cmp)

lemma epoch_outside: "i \<notin> w_id ` set ws \<Longrightarrow> map_of (epochOf chain ws) i = None"
proof -
  assume i: "i \<notin> w_id ` set ws"
  have a: "map_of (assign_epoch frm to h xs e) i = map_of e i" if "set xs \<subseteq> set ws" for frm to h xs e
    using that i unfolding assign_epoch_def by (induction xs arbitrary: e) (auto simp: map_of_set)
  have e: "map_of (snd (epoch_entry (group_by_writer ws) h x st)) i = map_of (snd st) i" for h x st
    unfolding epoch_entry_def Let_def group_by_writer_get by (simp add: a)
  have d: "map_of (snd (fold (epoch_entry (group_by_writer ws) h) delta st)) i = map_of (snd st) i" for h delta st
    by (induction delta arbitrary: st) (simp_all add: e)
  have "map_of (snd (fold (\<lambda>a. fold (epoch_entry (group_by_writer ws) (a_height a)) (a_headsDelta a)) chain st)) i = map_of (snd st) i" for st
    by (induction chain arbitrary: st) (simp_all add: d)
  then show ?thesis by (simp add: epochOf_def)
qed

text \<open>The fold sees the epochs of its own writes only.\<close>

lemma fold_write_cong:
  assumes "\<And>w. w \<in> set ws \<Longrightarrow> ht w = ht' w"
  shows "fold (fold_write lift_x ht) ws v = fold (fold_write lift_x ht') ws v"
  using assms by (intro fold_cong) (auto simp: fold_write_def fun_eq_iff)

lemma computeView_perm:
  assumes "mset ws = mset ws'" "inj_on at_position (set ws)"
    and "\<And>w. w \<in> set ws \<Longrightarrow> map_of e (w_id w) = map_of e' (w_id w)"
  shows "computeView lift_x ws h \<lparr>fo_order = Some (certified_order e), fo_bornAt = Some e, fo_base = base\<rparr>
    = computeView lift_x ws' h \<lparr>fo_order = Some (certified_order e'), fo_bornAt = Some e', fo_base = base\<rparr>"
proof -
  have set: "set ws' = set ws" using assms(1) by (metis set_mset_mset)
  have ht: "heightOf (Some e) h w = heightOf (Some e') h w" if "w \<in> set ws" for w
    using assms(3)[OF that] by (simp add: heightOf_def)
  have "sort_by (fold_order (heightOf (Some e) h) (certified_order e)) ws
      = sort_by (fold_order (heightOf (Some e') h) (certified_order e')) ws"
    using assms(3) ht by (intro sort_by_cong) (simp add: order_key_cmp order_key_def)
  also have "\<dots> = sort_by (fold_order (heightOf (Some e') h) (certified_order e')) ws'"
    by (rule strict_comparator.sort_by_perm[OF fold_order_strict[OF assms(2)] assms(1)]) simp
  finally have sort: "sort_by (fold_order (heightOf (Some e) h) (certified_order e)) ws
      = sort_by (fold_order (heightOf (Some e') h) (certified_order e')) ws'" .
  have "fold (fold_write lift_x (heightOf (Some e) h)) (sort_by (fold_order (heightOf (Some e') h) (certified_order e')) ws') v
      = fold (fold_write lift_x (heightOf (Some e') h)) (sort_by (fold_order (heightOf (Some e') h) (certified_order e')) ws') v" for v
    by (rule fold_write_cong) (simp add: set ht)
  then show ?thesis by (simp add: computeView_def Let_def sort)
qed

section \<open>The board of an anchor\<close>

lemma orderingFor_some:
  "orderingFor ws c (Some a) = \<lparr>or_included = filter (covers (headsAt c (a_id a))) ws,
     or_order = certified_order (epochOf (chainTo c (Some a)) (filter (covers (headsAt c (a_id a))) ws)),
     or_bornAt = epochOf (chainTo c (Some a)) (filter (covers (headsAt c (a_id a))) ws),
     or_nowHeight = Some (a_height a), or_chain = chainTo c (Some a)\<rparr>"
proof -
  have "covers hs = (\<lambda>w. case map_of hs (w_writer w) of None \<Rightarrow> False | Some h \<Rightarrow> w_seq w \<le> h_seq h)" for hs
    by (auto simp: covers_def fun_eq_iff split: option.split)
  then show ?thesis by (simp add: orderingFor_def Let_def)
qed

lemma epochOf_perm:
  assumes "mset ws = mset ws'" "distinct (map w_id ws)" "\<forall>x \<in> set ws. 0 \<le> w_seq x"
    and k: "\<And>a. a \<in> set chain \<Longrightarrow> distinct (keys (a_headsDelta a))"
  shows "map_of (epochOf chain ws) = map_of (epochOf chain ws')"
proof
  fix i
  have set: "set ws' = set ws" using assms(1) by (metis set_mset_mset)
  have "mset (map w_id ws) = mset (map w_id ws')" using assms(1) by simp
  then have d': "distinct (map w_id ws')" using assms(2) mset_eq_imp_distinct_iff by blast
  show "map_of (epochOf chain ws) i = map_of (epochOf chain ws') i"
  proof (cases "i \<in> w_id ` set ws")
    case True
    then obtain w where w: "w \<in> set ws" "i = w_id w" by auto
    have "map_of (epochOf chain ws) i = first_cover chain w" unfolding w(2) by (rule epochOf_first[OF assms(2) k w(1) assms(3)])
    moreover have "map_of (epochOf chain ws') i = first_cover chain w"
      unfolding w(2) by (rule epochOf_first[OF d' k]) (use w(1) assms(3) set in auto)
    ultimately show ?thesis by simp
  qed (simp add: epoch_outside set)
qed

lemma viewAtAnchor_perm:
  assumes perm: "mset ws = mset ws'" and d: "distinct (map w_id ws)" "inj_on at_position (set ws)" "\<forall>x \<in> set ws. 0 \<le> w_seq x"
    and k: "\<And>a. stored (ac_anchors c) a \<Longrightarrow> distinct (keys (a_headsDelta a))" and m: "map_ok (ac_anchors c)"
  shows "viewAtAnchor lift_x ws c i base = viewAtAnchor lift_x ws' c i base"
proof (cases "anchor_get c i")
  case None
  then show ?thesis by (simp add: viewAtAnchor_def orderingFor_def Let_def)
next
  case (Some a)
  then have a: "stored (ac_anchors c) a" using map_ok_id[OF m] by (simp add: anchor_get_map)
  define inc where "inc = filter (covers (headsAt c (a_id a))) ws"
  define inc' where "inc' = filter (covers (headsAt c (a_id a))) ws'"
  have p: "mset inc = mset inc'" using perm by (simp add: inc_def inc'_def)
  have di: "distinct (map w_id inc)" "inj_on at_position (set inc)" "\<forall>x \<in> set inc. 0 \<le> w_seq x"
    using d by (auto simp: inc_def distinct_map_filter intro: inj_on_subset)
  have kc: "distinct (keys (a_headsDelta x))" if "x \<in> set (chainTo c (Some a))" for x
    using k line_stored[OF m a] that by (simp add: chainTo_def ancestry_line)
  note ep = epochOf_perm[OF p di(1,3) kc]
  show ?thesis
    unfolding viewAtAnchor_def Some orderingFor_some Let_def inc_def[symmetric] inc'_def[symmetric]
    by simp (rule computeView_perm[OF p di(2)], simp add: ep)
qed

section \<open>The fold keeps the board well formed\<close>

lemma fold_write_ok:
  assumes "board_ok v" "wf_json (w_payload w)" "w_id w \<notin> board_ids v"
  shows "board_ok (fold_write lift_x ht w v) \<and> board_ids (fold_write lift_x ht w v) \<subseteq> insert (w_id w) (board_ids v)"
proof -
  define v' where "v' = advance v (ht w)"
  have v': "board_ok v'" "board_ids v' \<subseteq> board_ids v" using advance_board_ok[OF assms(1)] board_ids_advance[OF assms(1)] by (simp_all add: v'_def)
  show ?thesis
  proof (cases "parseOp lift_x (w_payload w)")
    case None
    then show ?thesis using v' by (auto simp: fold_write_def v'_def Let_def)
  next
    case (Some q)
    have q: "op_ok lift_x q" using parseOp_sound[OF assms(2) Some] by simp
    have fresh: "wr_id (ref_of w) \<notin> board_ids v'" using assms(3) v'(2) by (auto simp: ref_of_def)
    have ok: "board_ok (fst (applyOp v' (ref_of w) q (ht w)))" by (rule applyOp_board_ok[OF v'(1) q fresh])
    have "board_ids (fst (applyOp v' (ref_of w) q (ht w))) \<subseteq> insert (w_id w) (board_ids v')"
      using board_ids_applyOp[OF v'(1) board_ok_D(2)[OF ok]] by (simp add: ref_of_def)
    then show ?thesis using ok v'(2) Some by (auto simp: fold_write_def v'_def Let_def)
  qed
qed

lemma fold_writes_ok:
  assumes "board_ok v" "\<forall>w \<in> set ws. wf_json (w_payload w)" "distinct (map w_id ws)" "\<forall>w \<in> set ws. w_id w \<notin> board_ids v"
  shows "board_ok (fold (fold_write lift_x ht) ws v) \<and> board_ids (fold (fold_write lift_x ht) ws v) \<subseteq> w_id ` set ws \<union> board_ids v"
  using assms
proof (induction ws arbitrary: v)
  case (Cons w ws)
  have one: "board_ok (fold_write lift_x ht w v)" "board_ids (fold_write lift_x ht w v) \<subseteq> insert (w_id w) (board_ids v)"
    using fold_write_ok[OF Cons.prems(1), of w lift_x ht] Cons.prems(2,4) by simp_all
  have "\<forall>x \<in> set ws. w_id x \<notin> board_ids (fold_write lift_x ht w v)"
    using one(2) Cons.prems(3,4) by (force simp: image_iff)
  then have "board_ok (fold (fold_write lift_x ht) ws (fold_write lift_x ht w v))
    \<and> board_ids (fold (fold_write lift_x ht) ws (fold_write lift_x ht w v)) \<subseteq> w_id ` set ws \<union> board_ids (fold_write lift_x ht w v)"
    using Cons.IH[OF one(1)] Cons.prems(2,3) by simp
  then show ?case using one(2) by auto
qed simp

lemma emptyView_ok: "board_ok emptyView" "board_ids emptyView = {}"
  by (auto simp: emptyView_def board_ok_def board_ids_def entries_ok_def hashes_ok_def capacity_ok_def)

lemma computeView_ok:
  assumes base: "\<And>b. fo_base opts = Some b \<Longrightarrow> board_ok b \<and> (\<forall>w \<in> set ws. w_id w \<notin> board_ids b)"
    and ws: "\<forall>w \<in> set ws. wf_json (w_payload w)" "distinct (map w_id ws)"
  shows "board_ok (computeView lift_x ws h opts)"
proof -
  define v where "v = (case fo_base opts of Some b \<Rightarrow> cloneView b | None \<Rightarrow> emptyView)"
  have v: "board_ok v" "\<forall>w \<in> set ws. w_id w \<notin> board_ids v"
    using base emptyView_ok cloneView_id board_view_wf by (auto simp: v_def split: option.split)
  let ?xs = "sort_by (fold_order (heightOf (fo_bornAt opts) h) (case fo_order opts of Some f \<Rightarrow> f | None \<Rightarrow> byTs)) ws"
  have "mset (map w_id ?xs) = mset (map w_id ws)" by simp
  then have "distinct (map w_id ?xs)" using ws(2) mset_eq_imp_distinct_iff by blast
  then have "board_ok (fold (fold_write lift_x (heightOf (fo_bornAt opts) h)) ?xs v)"
    using fold_writes_ok[OF v(1), of ?xs] v(2) ws(1) by simp
  then show ?thesis by (simp add: computeView_def Let_def v_def[symmetric] advance_board_ok)
qed

section \<open>Properties\<close>

text \<open>The epoch of a write is the height of the first anchor, from the bottom of the chain up, whose heads
  delta covers it; a write no delta covers has none. The loop over deltas with its cursor per writer
  computes exactly that.\<close>

theorem epoch_is_first_cover:
  assumes "distinct (map w_id ws)" "\<forall>x \<in> set ws. 0 \<le> w_seq x" "\<forall>a \<in> set chain. distinct (keys (a_headsDelta a))"
    and "w \<in> set ws"
  shows "map_of (epochOf chain ws) (w_id w) = map_option a_height
    (List.find (\<lambda>a. case map_of (a_headsDelta a) (w_writer w) of Some h \<Rightarrow> w_seq w \<le> h_seq h | None \<Rightarrow> False) chain)"
proof -
  have "map_of (epochOf chain ws) (w_id w) = first_cover chain w"
    by (rule epochOf_first) (use assms in auto)
  then show ?thesis by (simp add: first_cover_def covers_def)
qed

definition ex_write_at :: "string \<Rightarrow> int \<Rightarrow> string \<Rightarrow> int \<Rightarrow> write" where
  "ex_write_at u n i t = \<lparr>w_writer = u, w_seq = n, w_prev = None, w_stateRoot = [], w_plot = \<lparr>pc_root = [], pc_k = 0\<rparr>,
     w_difficulty = [], w_ts = t, w_payload = opPayload (SwapAbort ex_id), w_space = \<lparr>s_index = 0, s_value = [], s_path = [], s_quality = []\<rparr>,
     w_time = \<lparr>t_iters = 0, t_output = [], t_proof = []\<rparr>, w_id = i, w_sig = []\<rparr>"

lemma ex_write_at_fields [simp]:
  "w_writer (ex_write_at u n i t) = u" "w_seq (ex_write_at u n i t) = n" "w_id (ex_write_at u n i t) = i" "w_ts (ex_write_at u n i t) = t"
  "w_payload (ex_write_at u n i t) = opPayload (SwapAbort ex_id)"
  by (simp_all add: ex_write_at_def)

theorem epoch_is_first_cover_witness:
  "map_of (epochOf [ex_g, ex_h\<lparr>a_headsDelta := [(''u'', \<lparr>h_id = ''i'', h_seq = 1\<rparr>)]\<rparr>, ex_a\<lparr>a_headsDelta := [(''u'', \<lparr>h_id = ''j'', h_seq = 2\<rparr>)]\<rparr>]
     [ex_write_at ''u'' 0 ''k'' 5, ex_write_at ''u'' 1 ''i'' 4, ex_write_at ''u'' 2 ''j'' 3]) ''i'' = Some 1"
proof -
  have d: "a_headsDelta ex_g = []" by (simp add: ex_g_def ex_fork_anchor_heads)
  show ?thesis
    using epoch_is_first_cover[of "[ex_write_at ''u'' 0 ''k'' 5, ex_write_at ''u'' 1 ''i'' 4, ex_write_at ''u'' 2 ''j'' 3]"
        "[ex_g, ex_h\<lparr>a_headsDelta := [(''u'', \<lparr>h_id = ''i'', h_seq = 1\<rparr>)]\<rparr>, ex_a\<lparr>a_headsDelta := [(''u'', \<lparr>h_id = ''j'', h_seq = 2\<rparr>)]\<rparr>]"
        "ex_write_at ''u'' 1 ''i'' 4"]
    by (simp add: d)
qed

text \<open>C20: the board an anchor commits to is well formed, with no offer oversold, and is a function of the anchor's
  chain and of which writes are held: two nodes that received the same writes in different orders compute
  the same board, hence the same \<open>appRoot\<close>, whatever the time stamps say.\<close>

theorem anchor_board_agreed:
  assumes "map_ok (ac_anchors c)" "\<And>a. stored (ac_anchors c) a \<Longrightarrow> distinct (keys (a_headsDelta a))"
    and "mset ws = mset ws'" "distinct (map w_id ws)" "inj_on (\<lambda>w. (w_writer w, w_seq w)) (set ws)" "\<forall>x \<in> set ws. 0 \<le> w_seq x"
    and "\<forall>w \<in> set ws. wf_json (w_payload w)" "\<And>b. base = Some b \<Longrightarrow> board_ok b \<and> (\<forall>w \<in> set ws. w_id w \<notin> board_ids b)"
  shows "board_ok (viewAtAnchor lift_x ws c i base) \<and> viewAtAnchor lift_x ws' c i base = viewAtAnchor lift_x ws c i base"
proof
  have inj: "inj_on at_position (set ws)" using assms(5) by (simp add: inj_on_def at_position_def)
  show "viewAtAnchor lift_x ws' c i base = viewAtAnchor lift_x ws c i base"
    by (rule viewAtAnchor_perm[OF assms(3,4) inj assms(6,2,1), symmetric])
  show "board_ok (viewAtAnchor lift_x ws c i base)"
  proof (cases "anchor_get c i")
    case None
    then show ?thesis using assms(8) emptyView_ok cloneView_id board_view_wf
      by (auto simp: viewAtAnchor_def orderingFor_def Let_def split: option.split)
  next
    case (Some a)
    then show ?thesis unfolding viewAtAnchor_def Some orderingFor_some Let_def
      by simp (rule computeView_ok, use assms(4,7,8) in \<open>auto simp: distinct_map_filter\<close>)
  qed
qed

theorem anchor_board_agreed_witness:
  "viewAtAnchor (\<lambda>_. True) [ex_write_at ''v'' 0 ''j'' 3, ex_write_at ''u'' 0 ''i'' 4] ex_long ''a'' None
   = viewAtAnchor (\<lambda>_. True) [ex_write_at ''u'' 0 ''i'' 4, ex_write_at ''v'' 0 ''j'' 3] ex_long ''a'' None
   \<and> board_ok (viewAtAnchor (\<lambda>_. True) [ex_write_at ''u'' 0 ''i'' 4, ex_write_at ''v'' 0 ''j'' 3] ex_long ''a'' None)"
proof -
  have k: "distinct (keys (a_headsDelta a))" if "stored (ac_anchors ex_long) a" for a
    using that[unfolded ex_long_stored] by (auto simp: ex_fork_anchor_heads ex_g_def ex_h_def ex_a_def)
  have w: "\<forall>w \<in> set [ex_write_at ''u'' 0 ''i'' 4, ex_write_at ''v'' 0 ''j'' 3]. wf_json (w_payload w)"
    by (simp add: wf_opPayload)
  show ?thesis
    using anchor_board_agreed[OF ex_long_map k, of "[ex_write_at ''u'' 0 ''i'' 4, ex_write_at ''v'' 0 ''j'' 3]"
        "[ex_write_at ''v'' 0 ''j'' 3, ex_write_at ''u'' 0 ''i'' 4]" None "\<lambda>_. True" "''a''"] w
    by (auto simp: image_iff)
qed

end
