(* ===== verification/Node.thy ===== *)
theory Node
  imports Pruning
begin

text \<open>
  \<open>src/sync/messages.ts\<close> and \<open>src/sync/node.ts\<close>: the gossip node. A connection is a number, standing for
  the object's identity. What the node does to the outside (messages sent, the daemon's callbacks,
  warnings) is the list of events a handler returns, in order. The callbacks that answer the node are
  functions of it, arguments of the model; \<open>onSnapshot\<close> and \<open>adoptFloor\<close> change it. The promise queue is
  a list of jobs, run one at a time; a job runs without interruption, and one that throws ends there.
  Debug output and \<open>getPeer\<close> accessors are left out.
\<close>

section \<open>Messages\<close>

record stored_snapshot =
  ss_anchorId :: string
  ss_height :: int
  ss_heads :: heads
  ss_state :: json

datatype sync_message =
    Hello string heads "string option" "string option"
  | Want "(string, int) jsmap"
  | Writes "write list"
  | Announce "write list"
  | AnchorTip int string string
  | AnchorWant int
  | AnchorChainMsg "anchor list"
  | SnapOffer string int
  | SnapWant
  | SnapMsg stored_snapshot
  | SnapHave string int

type_synonym conn = nat

section \<open>The node\<close>

datatype job = ResolveBootstrap | IngestAnchors conn "anchor list"

record node =
  nd_ledger :: ledger
  nd_anchors :: "anchor_chain option"
  nd_conns :: "conn list"
  nd_peerKey :: "conn \<Rightarrow> string option"
  nd_mode :: "string option"
  nd_warnedModes :: "string list"
  nd_genesisId :: "string option"
  nd_warnedGenesis :: "string list"
  nd_snapshotQuorum :: nat
  nd_snapshotOffers :: "(conn, string \<times> int) jsmap"
  nd_replicationTarget :: nat
  nd_snapshotHolders :: "(conn, string \<times> int) jsmap"
  nd_orphans :: "(string, anchor) jsmap"
  nd_queue :: "job list"

definition newNode :: "ledger \<Rightarrow> anchor_chain option \<Rightarrow> (conn \<Rightarrow> string option) \<Rightarrow> node" where
  "newNode l anchors peerKey = \<lparr>nd_ledger = l, nd_anchors = anchors, nd_conns = [], nd_peerKey = peerKey, nd_mode = None,
     nd_warnedModes = [], nd_genesisId = None, nd_warnedGenesis = [], nd_snapshotQuorum = 1, nd_snapshotOffers = [],
     nd_replicationTarget = 1, nd_snapshotHolders = [], nd_orphans = [], nd_queue = []\<rparr>"

text \<open>The callbacks of the daemon that answer; an absent one answers \<open>None\<close> or \<open>False\<close>.\<close>

record node_app =
  ap_snapshotHeader :: "node \<Rightarrow> (string \<times> int) option"
  ap_fullSnapshot :: "node \<Rightarrow> stored_snapshot option"
  ap_wantSnapshot :: "node \<Rightarrow> string \<times> int \<Rightarrow> bool"
  ap_wantForReplication :: "node \<Rightarrow> string \<times> int \<Rightarrow> bool"
  ap_onSnapshot :: "node \<Rightarrow> stored_snapshot \<Rightarrow> node \<times> bool"
  ap_adoptFloor :: "(node \<Rightarrow> anchor list \<Rightarrow> node \<times> bool) option"

datatype event =
    Sent conn sync_message
  | OnApplied "write list"
  | OnEquivocation string "write" "write"
  | OnTip anchor
  | OnUnderReplicated string int nat nat
  | WarnMode string
  | WarnGenesis string
  | WarnNoGenesis

definition truthy :: "string option \<Rightarrow> bool" where
  "truthy s \<longleftrightarrow> s \<noteq> None \<and> s \<noteq> Some []"

definition nd_tip :: "node \<Rightarrow> anchor option" where
  "nd_tip n = Option.bind (nd_anchors n) ac_tip"

definition anchorTipMsg :: "node \<Rightarrow> sync_message option" where
  "anchorTipMsg n = map_option (\<lambda>t. AnchorTip (a_height t) (a_weight t) (a_id t)) (nd_tip n)"

definition hello_of :: "(bytes \<Rightarrow> bytes) \<Rightarrow> node \<Rightarrow> sync_message" where
  "hello_of H n = Hello (ledger_stateRoot H (nd_ledger n)) (ledger_heads (nd_ledger n)) (nd_mode n) (nd_genesisId n)"

definition broadcast :: "node \<Rightarrow> sync_message \<Rightarrow> event list" where
  "broadcast n m = map (\<lambda>c. Sent c m) (nd_conns n)"

definition broadcastExcept :: "node \<Rightarrow> conn \<Rightarrow> sync_message \<Rightarrow> event list" where
  "broadcastExcept n except m = map (\<lambda>c. Sent c m) (filter (\<lambda>c. c \<noteq> except) (nd_conns n))"

definition advertise :: "(bytes \<Rightarrow> bytes) \<Rightarrow> node \<Rightarrow> event list" where
  "advertise H n = broadcast n (hello_of H n)"

section \<open>What to pull and whom to nudge\<close>

definition diffWant :: "ledger \<Rightarrow> heads \<Rightarrow> (string, int) jsmap" where
  "diffWant l theirHeads = (let mine = ledger_heads l in
     fold (\<lambda>(w, their) want. case map_of mine w of
         None \<Rightarrow> map_set w 0 want
       | Some m \<Rightarrow> if h_seq their > h_seq m then map_set w (h_seq m + 1) want
           else if idAt l w (h_seq their) \<noteq> Some (h_id their) then map_set w (h_seq their) want
           else want) theirHeads [])"

definition aheadOf :: "ledger \<Rightarrow> heads \<Rightarrow> bool" where
  "aheadOf l theirHeads = list_ex (\<lambda>(w, m). case map_of theirHeads w of None \<Rightarrow> True | Some their \<Rightarrow> h_seq m > h_seq their) (ledger_heads l)"

section \<open>Quorum and replication\<close>

datatype voucher = ByKey string | ByConn conn

definition voucher_of :: "node \<Rightarrow> conn \<Rightarrow> voucher" where
  "voucher_of n c = (case nd_peerKey n c of Some k \<Rightarrow> ByKey k | None \<Rightarrow> ByConn c)"

definition vouchers :: "node \<Rightarrow> (conn, string \<times> int) jsmap \<Rightarrow> string \<Rightarrow> voucher list" where
  "vouchers n offers anchorId = map (\<lambda>(c, _). voucher_of n c) (filter (\<lambda>(_, offer). fst offer = anchorId) offers)"

definition snapshotQuorumMet :: "node \<Rightarrow> string \<Rightarrow> bool" where
  "snapshotQuorumMet n anchorId \<longleftrightarrow> length (remdups (vouchers n (nd_snapshotOffers n) anchorId)) \<ge> nd_snapshotQuorum n"

definition replicationFactor :: "node_app \<Rightarrow> node \<Rightarrow> string \<Rightarrow> nat" where
  "replicationFactor ap n anchorId = length (remdups
     ((if map_option fst (ap_snapshotHeader ap n) = Some anchorId then [ByKey ''self''] else []) @ vouchers n (nd_snapshotHolders n) anchorId))"

definition reBeaconHave :: "node_app \<Rightarrow> node \<Rightarrow> event list" where
  "reBeaconHave ap n = (case ap_snapshotHeader ap n of None \<Rightarrow> [] | Some (i, h) \<Rightarrow> broadcast n (SnapHave i h))"

definition checkReplication :: "node_app \<Rightarrow> node \<Rightarrow> event list" where
  "checkReplication ap n = (case ap_snapshotHeader ap n of None \<Rightarrow> []
     | Some (i, h) \<Rightarrow> let factor = replicationFactor ap n i
         in if factor < nd_replicationTarget n then [OnUnderReplicated i h factor (nd_replicationTarget n)] else [])"

section \<open>Peers, local writes and anchors\<close>

definition addPeer :: "(bytes \<Rightarrow> bytes) \<Rightarrow> node_app \<Rightarrow> node \<Rightarrow> conn \<Rightarrow> node \<times> event list" where
  "addPeer H ap n0 c = (let n = n0\<lparr>nd_conns := (if c \<in> set (nd_conns n0) then nd_conns n0 else nd_conns n0 @ [c])\<rparr> in
     (n, Sent c (hello_of H n) # (case anchorTipMsg n of None \<Rightarrow> [] | Some t \<Rightarrow> [Sent c t])
       @ (case ap_snapshotHeader ap n of None \<Rightarrow> [] | Some (i, h) \<Rightarrow> [Sent c (SnapOffer i h), Sent c (SnapHave i h)])))"

definition peerClosed :: "node_app \<Rightarrow> node \<Rightarrow> conn \<Rightarrow> node \<times> event list" where
  "peerClosed ap n0 c = (let n = n0\<lparr>nd_conns := filter (\<lambda>x. x \<noteq> c) (nd_conns n0), nd_snapshotOffers := map_del c (nd_snapshotOffers n0),
     nd_snapshotHolders := map_del c (nd_snapshotHolders n0)\<rparr> in (n, checkReplication ap n))"

definition resync :: "(bytes \<Rightarrow> bytes) \<Rightarrow> node \<Rightarrow> event list" where
  "resync H n = broadcast n (AnchorWant (case nd_tip n of None \<Rightarrow> 0 | Some t \<Rightarrow> max 0 (a_height t - 8))) @ advertise H n"

definition submit :: "(bytes \<Rightarrow> bytes) \<Rightarrow> (bytes \<Rightarrow> bytes \<Rightarrow> bytes \<Rightarrow> bool) \<Rightarrow> node \<Rightarrow> write \<Rightarrow> node \<times> event list" where
  "submit H edv n w = (case apply_write H edv (nd_ledger n) w False of
     (l, Applied ws _) \<Rightarrow> (n\<lparr>nd_ledger := l\<rparr>, if ws = [] then [] else OnApplied ws # broadcast n (Announce ws))
   | (l, Refused _ _) \<Rightarrow> (n\<lparr>nd_ledger := l\<rparr>, []))"

text \<open>\<open>None\<close> as result when the node has no consensus chain.\<close>

definition submitAnchor ::
  "(bytes \<Rightarrow> bytes) \<Rightarrow> (bytes \<Rightarrow> bytes \<Rightarrow> bytes \<Rightarrow> bool) \<Rightarrow> node \<Rightarrow> anchor \<Rightarrow> node \<times> event list \<times> add_result option" where
  "submitAnchor H edv n a = (case nd_anchors n of None \<Rightarrow> (n, [], None)
     | Some c \<Rightarrow> let before = map_option a_id (ac_tip c); (c', r) = add_anchor H edv c a; n' = n\<lparr>nd_anchors := Some c'\<rparr>
         in (n', (case ac_tip c' of None \<Rightarrow> []
             | Some t \<Rightarrow> if r = AddOk \<and> Some (a_id t) \<noteq> before then OnTip t # broadcast n' (AnchorTip (a_height t) (a_weight t) (a_id t)) else []),
           Some r))"

section \<open>Ingesting anchors\<close>

text \<open>The loop over \<open>add\<close>: the chain, whether a parent was missing, whether the lock refused an anchor,
  and whether \<open>add\<close> threw, which ends the job.\<close>

fun add_each ::
  "(bytes \<Rightarrow> bytes) \<Rightarrow> (bytes \<Rightarrow> bytes \<Rightarrow> bytes \<Rightarrow> bool) \<Rightarrow> anchor list \<Rightarrow> anchor_chain \<Rightarrow> bool \<Rightarrow> bool \<Rightarrow> anchor_chain \<times> bool \<times> bool \<times> bool" where
  "add_each H edv [] c gap conflict = (c, gap, conflict, False)"
| "add_each H edv (a # as) c gap conflict = (let (c', r) = add_anchor H edv c a in
     if r = AddFail AddThrows then (c', gap, conflict, True)
     else add_each H edv as c' (gap \<or> r = AddFail UnknownPrev) (conflict \<or> r = AddFail ConflictsFinalized))"

definition by_height :: "anchor \<Rightarrow> anchor \<Rightarrow> int" where
  "by_height x y = a_height x - a_height y"

definition ORPHAN_CAP :: nat where "ORPHAN_CAP = 50000"

text \<open>The branch pushed to a peer whose anchors our lock refused.\<close>

definition our_branch :: "anchor_chain \<Rightarrow> anchor list \<Rightarrow> anchor list" where
  "our_branch c anchors = (let ours = chainTo c (ac_tip c);
       foreign = map a_height (filter (\<lambda>a. a_id a \<notin> set (map a_id ours)) anchors)
     in if foreign = [] then [] else filter (\<lambda>a. a_height a \<ge> Min (set foreign)) ours)"

definition resolveBootstrap ::
  "(bytes \<Rightarrow> bytes) \<Rightarrow> (bytes \<Rightarrow> bytes \<Rightarrow> bytes \<Rightarrow> bool) \<Rightarrow> node_app \<Rightarrow> node \<Rightarrow> node \<times> event list" where
  "resolveBootstrap H edv ap n = (case (nd_anchors n, ap_adoptFloor ap) of
     (Some c, Some adoptFloor) \<Rightarrow>
       if (case ac_tip c of None \<Rightarrow> False | Some t \<Rightarrow> a_height t \<noteq> 0) \<or> nd_orphans n = [] then (n, [])
       else (case adoptFloor n (vals (nd_orphans n)) of
           (n1, False) \<Rightarrow> (n1, [])
         | (n1, True) \<Rightarrow> (case nd_anchors n1 of None \<Rightarrow> (n1, [])
             | Some c1 \<Rightarrow> (case add_each H edv (sort_by by_height (vals (nd_orphans n1))) c1 False False of
                 (c2, _, _, True) \<Rightarrow> (n1\<lparr>nd_anchors := Some c2\<rparr>, [])
               | (c2, _, _, False) \<Rightarrow> let n2 = n1\<lparr>nd_anchors := Some c2, nd_orphans := []\<rparr> in
                   (n2, (case ac_tip c2 of None \<Rightarrow> []
                     | Some t \<Rightarrow> OnTip t # broadcast n2 (AnchorTip (a_height t) (a_weight t) (a_id t)))))))
   | _ \<Rightarrow> (n, []))"

definition ingestAnchors ::
  "(bytes \<Rightarrow> bytes) \<Rightarrow> (bytes \<Rightarrow> bytes \<Rightarrow> bytes \<Rightarrow> bool) \<Rightarrow> node_app \<Rightarrow> node \<Rightarrow> conn \<Rightarrow> anchor list \<Rightarrow> node \<times> event list" where
  "ingestAnchors H edv ap n0 conn anchors = (case nd_anchors n0 of None \<Rightarrow> (n0, [])
     | Some c0 \<Rightarrow> let before = map_option a_id (ac_tip c0) in
       (case add_each H edv (sort_by by_height anchors) c0 False False of
          (c, _, _, True) \<Rightarrow> (n0\<lparr>nd_anchors := Some c\<rparr>, [])
        | (c, gap, conflict, False) \<Rightarrow>
            let n = n0\<lparr>nd_anchors := Some c\<rparr>;
                push = (if conflict then [Sent conn (AnchorChainMsg (our_branch c anchors))] else []);
                effectivelyFresh = (case ac_tip c of None \<Rightarrow> True | Some t \<Rightarrow> a_height t = 0 \<and> list_all (\<lambda>a. a_height a > 0) anchors)
            in if gap \<and> effectivelyFresh then
                 (let n1 = (if length (nd_orphans n) < ORPHAN_CAP
                     then n\<lparr>nd_orphans := fold (\<lambda>a m. map_set (a_id a) a m) anchors (nd_orphans n)\<rparr> else n);
                      (n2, es) = resolveBootstrap H edv ap n1 in (n2, push @ es))
               else (n, push @ (if gap then [Sent conn (AnchorWant 0)] else [])
                 @ (case ac_tip c of None \<Rightarrow> []
                   | Some t \<Rightarrow> if Some (a_id t) \<noteq> before
                       then OnTip t # broadcastExcept n conn (AnchorTip (a_height t) (a_weight t) (a_id t)) else []))))"

definition run_job ::
  "(bytes \<Rightarrow> bytes) \<Rightarrow> (bytes \<Rightarrow> bytes \<Rightarrow> bytes \<Rightarrow> bool) \<Rightarrow> node_app \<Rightarrow> node \<Rightarrow> node \<times> event list" where
  "run_job H edv ap n = (case nd_queue n of [] \<Rightarrow> (n, [])
     | ResolveBootstrap # js \<Rightarrow> resolveBootstrap H edv ap (n\<lparr>nd_queue := js\<rparr>)
     | IngestAnchors c as # js \<Rightarrow> ingestAnchors H edv ap (n\<lparr>nd_queue := js\<rparr>) c as)"

section \<open>Handling a message\<close>

text \<open>The diagnostics of a greeting.\<close>

definition greet_warnings :: "node \<Rightarrow> string option \<Rightarrow> string option \<Rightarrow> node \<times> event list" where
  "greet_warnings n mode genesis =
     (let bad = truthy mode \<and> truthy (nd_mode n) \<and> mode \<noteq> nd_mode n \<and> the mode \<notin> set (nd_warnedModes n);
          n1 = (if bad then n\<lparr>nd_warnedModes := nd_warnedModes n @ [the mode]\<rparr> else n);
          e1 = (if bad then [WarnMode (the mode)] else [])
      in if truthy (nd_genesisId n) \<and> truthy genesis \<and> genesis \<noteq> nd_genesisId n \<and> the genesis \<notin> set (nd_warnedGenesis n)
         then (n1\<lparr>nd_warnedGenesis := nd_warnedGenesis n @ [the genesis]\<rparr>, e1 @ [WarnGenesis (the genesis)])
         else if truthy (nd_genesisId n) \<and> genesis = None \<and> ''none'' \<notin> set (nd_warnedGenesis n)
         then (n1\<lparr>nd_warnedGenesis := nd_warnedGenesis n @ [''none'']\<rparr>, e1 @ [WarnNoGenesis])
         else (n1, e1))"

text \<open>The loop over the writes of a message: ledger, learned writes, whether anything changed, events.\<close>

fun take_writes ::
  "(bytes \<Rightarrow> bytes) \<Rightarrow> (bytes \<Rightarrow> bytes \<Rightarrow> bytes \<Rightarrow> bool) \<Rightarrow> write list \<Rightarrow> ledger \<Rightarrow> ledger \<times> write list \<times> bool \<times> event list" where
  "take_writes H edv [] l = (l, [], False, [])"
| "take_writes H edv (w # ws) l = (let (l1, r) = apply_write H edv l w False;
       (l2, learned, changed, es) = take_writes H edv ws l1
     in case r of
        Applied as buffered \<Rightarrow> (l2, as @ learned, as \<noteq> [] \<or> buffered \<or> changed, es)
      | Refused _ (Some (x, y)) \<Rightarrow> (l2, learned, changed, OnEquivocation (w_writer w) x y # es)
      | Refused _ None \<Rightarrow> (l2, learned, changed, es))"

definition handle_writes ::
  "(bytes \<Rightarrow> bytes) \<Rightarrow> (bytes \<Rightarrow> bytes \<Rightarrow> bytes \<Rightarrow> bool) \<Rightarrow> node \<Rightarrow> conn \<Rightarrow> write list \<Rightarrow> node \<times> event list" where
  "handle_writes H edv n conn ws = (let (l, learned, changed, es) = take_writes H edv ws (nd_ledger n); n' = n\<lparr>nd_ledger := l\<rparr> in
     (n', es @ (if learned \<noteq> [] then OnApplied learned # broadcastExcept n' conn (Announce learned) else [])
       @ (if changed then [Sent conn (hello_of H n')] else [])))"

definition handle_hello :: "(bytes \<Rightarrow> bytes) \<Rightarrow> node \<Rightarrow> conn \<Rightarrow> heads \<Rightarrow> string option \<Rightarrow> string option \<Rightarrow> node \<times> event list" where
  "handle_hello H n conn hs mode genesis = (let (n', es) = greet_warnings n mode genesis; want = diffWant (nd_ledger n') hs in
     (n', es @ (if want \<noteq> [] then [Sent conn (Want want)]
       else if aheadOf (nd_ledger n') hs then [Sent conn (hello_of H n')] else [])))"

definition handle_want :: "node \<Rightarrow> conn \<Rightarrow> (string, int) jsmap \<Rightarrow> event list" where
  "handle_want n conn frm = (let ws = concat (map (\<lambda>(w, s). writesFrom (nd_ledger n) w s) frm)
     in if ws \<noteq> [] then [Sent conn (Writes ws)] else [])"

text \<open>\<open>BigInt\<close> of the offered weight may throw, which ends the handler.\<close>

definition handle_tip :: "node \<Rightarrow> conn \<Rightarrow> int \<Rightarrow> string \<Rightarrow> string \<Rightarrow> event list" where
  "handle_tip n conn height weight i = (case nd_anchors n of None \<Rightarrow> []
     | Some c \<Rightarrow> if anchor_get c i \<noteq> None then []
       else (case ac_tip c of
           None \<Rightarrow> Sent conn (AnchorWant 0) # (if height > 0 then [Sent conn SnapWant] else [])
         | Some t \<Rightarrow> (case (BigInt_of weight, BigInt_of (a_weight t)) of
             (Some theirs, Some mine) \<Rightarrow> if theirs \<ge> mine
                then Sent conn (AnchorWant (a_height t)) # (if a_height t = 0 \<and> height > 0 then [Sent conn SnapWant] else [])
                else []
           | _ \<Rightarrow> [])))"

definition handle ::
  "(bytes \<Rightarrow> bytes) \<Rightarrow> (bytes \<Rightarrow> bytes \<Rightarrow> bytes \<Rightarrow> bool) \<Rightarrow> node_app \<Rightarrow> node \<Rightarrow> conn \<Rightarrow> sync_message \<Rightarrow> node \<times> event list" where
  "handle H edv ap n conn m = (case m of
     Hello _ hs mode genesis \<Rightarrow> handle_hello H n conn hs mode genesis
   | Want frm \<Rightarrow> (n, handle_want n conn frm)
   | Writes ws \<Rightarrow> handle_writes H edv n conn ws
   | Announce ws \<Rightarrow> handle_writes H edv n conn ws
   | SnapOffer i h \<Rightarrow> (let n' = n\<lparr>nd_snapshotOffers := map_set conn (i, h) (nd_snapshotOffers n),
         nd_snapshotHolders := map_set conn (i, h) (nd_snapshotHolders n)\<rparr>
       in (n', if ap_wantSnapshot ap n' (i, h) \<and> snapshotQuorumMet n' i then [Sent conn SnapWant] else []))
   | SnapHave i h \<Rightarrow> (let n' = n\<lparr>nd_snapshotHolders := map_set conn (i, h) (nd_snapshotHolders n)\<rparr>
       in (n', (if ap_wantForReplication ap n' (i, h) then [Sent conn SnapWant] else []) @ checkReplication ap n'))
   | SnapWant \<Rightarrow> (n, case ap_fullSnapshot ap n of None \<Rightarrow> [] | Some s \<Rightarrow> [Sent conn (SnapMsg s)])
   | SnapMsg s \<Rightarrow> (let n1 = n\<lparr>nd_snapshotOffers := map_set conn (ss_anchorId s, ss_height s) (nd_snapshotOffers n)\<rparr>;
         (n2, seeded) = ap_onSnapshot ap n1 s
       in if seeded then (n2, advertise H n2) else (n2\<lparr>nd_queue := nd_queue n2 @ [ResolveBootstrap]\<rparr>, []))
   | AnchorTip height weight i \<Rightarrow> (n, handle_tip n conn height weight i)
   | AnchorWant from_height \<Rightarrow> (n, case nd_anchors n of None \<Rightarrow> []
       | Some c \<Rightarrow> let as = filter (\<lambda>a. a_height a \<ge> from_height) (chainTo c (ac_tip c))
           in if as \<noteq> [] then [Sent conn (AnchorChainMsg as)] else [])
   | AnchorChainMsg as \<Rightarrow> (if nd_anchors n = None then (n, [])
       else (n\<lparr>nd_queue := nd_queue n @ [IngestAnchors conn as]\<rparr>, [])))"

end
