(* ===== verification/Gossip.thy ===== *)
theory Gossip
  imports Node
begin

text \<open>
  What the gossip node (\<open>src/sync/node.ts\<close>) guarantees: one greeting, one request and one answer close
  the gap between two ledgers, agreement is silent, a quorum counts peers and not connections, and no
  message moves the node off settled history.
\<close>

section \<open>Folds that set some keys\<close>

lemma fold_set_some:
  assumes "distinct (keys xs)"
  shows "map_of (fold (\<lambda>(k, v) m. case g k v of None \<Rightarrow> m | Some x \<Rightarrow> map_set k x m) xs m) i
    = (case Option.bind (map_of xs i) (g i) of None \<Rightarrow> map_of m i | Some x \<Rightarrow> Some x)"
  using assms
proof (induction xs arbitrary: m)
  case (Cons e xs)
  obtain k v where e: "e = (k, v)" by (cases e)
  then have d: "distinct (keys xs)" "k \<notin> set (keys xs)" using Cons.prems by simp_all
  have "map_of xs k = None" by (rule map_of_None_keys[THEN iffD2, OF d(2)])
  then show ?case using Cons.IH[OF d(1)] by (auto simp: e map_of_set split: option.splits)
qed simp

lemma fold_set_some_distinct:
  "distinct (keys m) \<Longrightarrow> distinct (keys (fold (\<lambda>(k, v) m. case g k v of None \<Rightarrow> m | Some x \<Rightarrow> map_set k x m) xs m))"
  by (induction xs arbitrary: m) (auto simp: distinct_update split: option.split)

lemma ledger_heads_fold:
  "ledger_heads l = fold (\<lambda>(w, c) out. case chain_head c of None \<Rightarrow> out | Some h \<Rightarrow> map_set w h out) (lg_chains l) []"
  by (simp add: ledger_heads_def)

lemma ledger_heads_get:
  "distinct (keys (lg_chains l)) \<Longrightarrow> map_of (ledger_heads l) w = Option.bind (map_of (lg_chains l) w) chain_head"
  unfolding ledger_heads_fold using fold_set_some[of "lg_chains l" "\<lambda>_. chain_head" "[]" w] by (simp split: option.split)

lemma ledger_heads_distinct: "distinct (keys (ledger_heads l))"
  unfolding ledger_heads_fold by (rule fold_set_some_distinct[of "[]" "\<lambda>_. chain_head", simplified])

text \<open>What is asked of a peer, writer by writer.\<close>

definition want_of :: "ledger \<Rightarrow> string \<Rightarrow> head \<Rightarrow> int option" where
  "want_of l w their = (case map_of (ledger_heads l) w of None \<Rightarrow> Some 0
     | Some m \<Rightarrow> if h_seq their > h_seq m then Some (h_seq m + 1)
         else if idAt l w (h_seq their) \<noteq> Some (h_id their) then Some (h_seq their) else None)"

lemma diffWant_fold:
  "diffWant l hs = fold (\<lambda>(w, their) want. case want_of l w their of None \<Rightarrow> want | Some s \<Rightarrow> map_set w s want) hs []"
  unfolding diffWant_def Let_def want_of_def by (rule fold_cong) (auto simp: fun_eq_iff split: option.split)

lemma diffWant_get: "distinct (keys hs) \<Longrightarrow> map_of (diffWant l hs) w = Option.bind (map_of hs w) (want_of l w)"
  unfolding diffWant_fold by (simp add: fold_set_some split: option.split)

lemma diffWant_distinct: "distinct (keys (diffWant l hs))"
  unfolding diffWant_fold by (rule fold_set_some_distinct[of "[]" "want_of l", simplified])

section \<open>A run arriving in order\<close>

definition synced ::
  "(bytes \<Rightarrow> bytes) \<Rightarrow> (bytes \<Rightarrow> bytes \<Rightarrow> bytes \<Rightarrow> bool) \<Rightarrow> ledger \<Rightarrow> string \<Rightarrow> write list \<Rightarrow> nat \<Rightarrow> bool" where
  "synced H edv l W ws n \<longleftrightarrow> ledger_ok H edv l \<and> n \<le> length ws \<and> pending_of l W = []
     \<and> (case map_of (lg_chains l) W of None \<Rightarrow> n = 0 | Some c \<Rightarrow> run_chain (lg_params l) W ws n c)"

lemma synced_chain:
  assumes "synced H edv l W ws n" "n < length ws" "w_writer (ws ! n) = W" "pc_root (w_plot (ws ! n)) = pc_root (w_plot (ws ! 0))"
  shows "\<exists>c. map_of (lg_chains (ensure_chain (l\<lparr>lg_tick := t\<rparr>) (ws ! n))) W = Some c \<and> run_chain (lg_params l) W ws n c
    \<and> pending_of (ensure_chain (l\<lparr>lg_tick := t\<rparr>) (ws ! n)) W = []"
proof (cases "map_of (lg_chains l) W")
  case None
  then show ?thesis using assms by (simp add: synced_def ensure_chain_def run_chain_def newChain_def map_of_set)
next
  case (Some c)
  then show ?thesis using assms by (simp add: synced_def ensure_chain_def pending_of_def)
qed

lemma synced_step:
  assumes s: "synced H edv l W ws n" and v: "valid_run H edv (lg_params l) W ws" and n: "n < length ws"
    and ap: "apply_write H edv l (ws ! n) False = (l', r)"
  shows "synced H edv l' W ws (Suc n) \<and> lg_params l' = lg_params l \<and> r = Applied [ws ! n] False"
proof -
  let ?w = "ws ! n" let ?l1 = "ensure_chain (l\<lparr>lg_tick := lg_tick l + 1\<rparr>) (ws ! n)"
  have w: "w_writer ?w = W" "w_seq ?w = int n" "pc_root (w_plot ?w) = pc_root (w_plot (ws ! 0))" using v n by (auto simp: valid_run_def)
  have lok: "ledger_ok H edv l" using s by (simp add: synced_def)
  obtain c where c: "map_of (lg_chains ?l1) W = Some c" "run_chain (lg_params l) W ws n c" "pending_of ?l1 W = []"
    using synced_chain[OF s n w(1,3)] by blast
  have l1ok: "ledger_ok H edv ?l1" by (intro ensure_ok ledger_ok_tick lok)
  then have cok: "chain_ok H edv c" using c(1) by (simp add: ledger_ok_def)
  note app = run_append[OF v c(2) cok n]
  have nx: "nextSeq c = int n" "wc_baseSeq c = 0" using run_chain_next[OF c(2)] n c(2) by (simp_all add: run_chain_def)
  define l2 where "l2 = set_pending ?l1 (w_writer ?w) []"
  have "apply_write H edv l ?w False = (if w_seq ?w < wc_baseSeq c then (l2, Applied [] False)
         else (case (if w_seq ?w < nextSeq c then chain_at c (w_seq ?w) else map_option fst (map_of ([] :: pending) (w_seq ?w))) of
             Some existing \<Rightarrow> if w_id existing = w_id ?w then (l2, Applied [] False)
               else (l2, Refused (AppendError Equivocation) (Some (existing, ?w)))
           | None \<Rightarrow>
               if w_seq ?w > nextSeq c then
                 (case verifyWrite H edv ?w (lg_params l2) False of
                    Some e \<Rightarrow> (l2, Refused (AheadInvalid e) None)
                  | None \<Rightarrow> (set_pending l2 (w_writer ?w) (map_set (w_seq ?w) (?w, lg_tick l2) []), Applied [] True))
               else (case append_write H edv c ?w False of
                   (chain', AppendFail e eq) \<Rightarrow> (set_chain l2 (w_writer ?w) chain', Refused (AppendError e) eq)
                 | (chain', AppendOk) \<Rightarrow>
                     (case drain H edv False chain' [] (nextSeq chain') [?w] of
                        (chain'', pend', r) \<Rightarrow> (set_pending (set_chain l2 (w_writer ?w) chain'') (w_writer ?w) pend', r)))))"
    by (rule apply_write_eq[OF refl _ _ _ refl]) (use c w in \<open>simp_all add: l2_def decay_def\<close>)
  also have "\<dots> = (set_pending (set_chain l2 W (extended c ?w)) W [], Applied [?w] False)"
    using app nx w by (simp add: drain.simps)
  finally have res: "l' = set_pending (set_chain l2 W (extended c ?w)) W []" "r = Applied [?w] False" using ap by simp_all
  have par: "lg_params l' = lg_params l" by (simp add: res l2_def)
  moreover have "ledger_ok H edv l'" by (rule apply_keeps_ok[OF lok ap])
  ultimately show ?thesis using app n by (simp add: synced_def res map_of_set l2_def)
qed

lemma synced_frame:
  assumes "synced H edv l W ws n" "apply_write H edv l w False = (l', r)" "w_writer w \<noteq> W"
  shows "synced H edv l' W ws n \<and> lg_params l' = lg_params l"
proof -
  have lok: "ledger_ok H edv l" using assms(1) by (simp add: synced_def)
  have f: "lg_params l' = lg_params l" "map_of (lg_chains l') W = map_of (lg_chains l) W" "pending_of l' W = pending_of l W"
    using apply_frame[OF lok assms(2)] assms(3) by auto
  then show ?thesis using assms(1) apply_keeps_ok[OF lok assms(2)] by (simp add: synced_def split: option.splits)
qed

lemma synced_all:
  assumes "synced H edv l W ws n" "valid_run H edv (lg_params l) W ws" "filter (\<lambda>w. w_writer w = W) ds = drop n ws"
  shows "synced H edv (applyAll H edv ds l) W ws (length ws) \<and> lg_params (applyAll H edv ds l) = lg_params l"
  using assms
proof (induction ds arbitrary: l n)
  case Nil
  then have "n = length ws" by (simp add: synced_def)
  then show ?case using Nil by simp
next
  case (Cons d ds)
  obtain l' r where ap: "apply_write H edv l d False = (l', r)" by (cases "apply_write H edv l d False")
  show ?case
  proof (cases "w_writer d = W")
    case True
    then have eq: "drop n ws = d # filter (\<lambda>w. w_writer w = W) ds" using Cons.prems(3) by simp
    then have n: "n < length ws" by (metis drop_all leI list.distinct(1))
    then have d: "d = ws ! n" "filter (\<lambda>w. w_writer w = W) ds = drop (Suc n) ws"
      using eq by (simp_all add: Cons_nth_drop_Suc[symmetric])
    have one: "synced H edv l' W ws (Suc n)" "lg_params l' = lg_params l"
      using synced_step[OF Cons.prems(1,2) n, of l' r] ap d(1) by simp_all
    have "valid_run H edv (lg_params l') W ws" using Cons.prems(2) one(2) by simp
    from Cons.IH[OF one(1) this d(2)] one(2) show ?thesis using ap by simp
  next
    case False
    note one = synced_frame[OF Cons.prems(1) ap False]
    have "valid_run H edv (lg_params l') W ws" using Cons.prems(2) one by simp
    from Cons.IH[OF one[THEN conjunct1] this] Cons.prems(3) False one show ?thesis using ap by simp
  qed
qed

section \<open>Closing a gap\<close>

lemma take_writes_ledger: "fst (take_writes H edv ws l) = applyAll H edv ws l"
proof (induction ws arbitrary: l)
  case (Cons w ws)
  obtain l1 r where 1: "apply_write H edv l w False = (l1, r)" by (cases "apply_write H edv l w False")
  obtain l2 learned changed es where 2: "take_writes H edv ws l1 = (l2, learned, changed, es)" by (cases "take_writes H edv ws l1")
  have "fst (take_writes H edv (w # ws) l) = l2"
  proof (cases r)
    case (Refused e eq)
    then show ?thesis by (cases eq) (auto simp: 1 2)
  qed (simp add: 1 2)
  moreover have "applyAll H edv (w # ws) l = l2" using Cons.IH[of l1] by (simp add: 1 2)
  ultimately show ?case by (simp only:)
qed simp

lemma chain_writes_of:
  assumes "ledger_ok H edv l" "map_of (lg_chains l) u = Some c" "w \<in> set (wc_writes c)"
  shows "w_writer w = u"
proof -
  obtain i where i: "i < length (wc_writes c)" "w = wc_writes c ! i" using assms(3) by (auto simp: in_set_conv_nth)
  have "chain_ok H edv c" "wc_writer c = u" using assms(1,2) by (simp_all add: ledger_ok_def)
  then show ?thesis using i by (auto simp: chain_ok_def link_ok_def Let_def)
qed

lemma writesFrom_of: "ledger_ok H edv l \<Longrightarrow> w \<in> set (writesFrom l u s) \<Longrightarrow> w_writer w = u"
  using chain_writes_of[of H edv l u] by (cases "map_of (lg_chains l) u") (auto simp: writesFrom_def dest: in_set_dropD)

lemma served_of:
  assumes "ledger_ok H edv l" "distinct (keys frm)"
  shows "filter (\<lambda>w. w_writer w = W) (concat (map (\<lambda>(w, s). writesFrom l w s) frm))
    = (case map_of frm W of None \<Rightarrow> [] | Some s \<Rightarrow> writesFrom l W s)"
  using assms(2)
proof (induction frm)
  case (Cons e frm)
  obtain u s where e: "e = (u, s)" by (cases e)
  then have d: "distinct (keys frm)" "u \<notin> set (keys frm)" using Cons.prems by simp_all
  have none: "map_of frm u = None" by (rule map_of_None_keys[THEN iffD2, OF d(2)])
  have "filter (\<lambda>w. w_writer w = W) (writesFrom l u s) = (if u = W then writesFrom l u s else [])"
    using writesFrom_of[OF assms(1)] by (auto simp: filter_id_conv filter_empty_conv)
  then show ?case using Cons.IH[OF d(1)] none e by auto
qed simp

lemma run_head:
  assumes "run_chain params W ws n c" "chain_ok H edv c" "n \<le> length ws"
  shows "chain_head c = (if n = 0 then None else Some \<lparr>h_id = w_id (ws ! (n - 1)), h_seq = int n - 1\<rparr>)"
proof -
  have n: "nextSeq c = int n" by (rule run_chain_next[OF assms(1,3)])
  have "last (take n ws) = ws ! (n - 1)" if "n \<noteq> 0"
  proof -
    have "take n ws \<noteq> []" using assms(3) that by auto
    then show ?thesis using assms(3) that by (simp add: last_conv_nth min_def)
  qed
  then have "headId c = (if n = 0 then None else Some (w_id (ws ! (n - 1))))"
    using assms(1,3) by (auto simp: headId_def run_chain_def)
  then show ?thesis using chain_head_ok[OF assms(2)] n by simp
qed

lemma synced_head:
  assumes "synced H edv l W ws n"
  shows "map_of (ledger_heads l) W = (if n = 0 then None else Some \<lparr>h_id = w_id (ws ! (n - 1)), h_seq = int n - 1\<rparr>)"
proof -
  have l: "ledger_ok H edv l" "n \<le> length ws" using assms by (simp_all add: synced_def)
  then have d: "distinct (keys (lg_chains l))" by (simp add: ledger_ok_def)
  show ?thesis
  proof (cases "map_of (lg_chains l) W")
    case None
    then show ?thesis using assms by (simp add: ledger_heads_get[OF d] synced_def)
  next
    case (Some c)
    then have "run_chain (lg_params l) W ws n c" "chain_ok H edv c" using assms l by (auto simp: synced_def ledger_ok_def)
    from run_head[OF this l(2)] show ?thesis using Some by (simp add: ledger_heads_get[OF d])
  qed
qed

lemma greet_warnings_frame: "nd_ledger (fst (greet_warnings n mode genesis)) = nd_ledger n"
  by (simp add: greet_warnings_def Let_def)

lemma pull_gap:
  assumes a: "synced H edv (nd_ledger A) W ws n" "n < length ws" "valid_run H edv (lg_params (nd_ledger A)) W ws"
    and b: "synced H edv (nd_ledger B) W ws (length ws)"
  shows "\<exists>frm served A1 es A2 es'. handle H edv ap A toB (hello_of H B) = (A1, es) \<and> Sent toB (Want frm) \<in> set es
    \<and> handle H edv ap' B toA (Want frm) = (B, [Sent toA (Writes served)])
    \<and> handle H edv ap A1 toB (Writes served) = (A2, es')
    \<and> synced H edv (nd_ledger A2) W ws (length ws)"
proof -
  let ?hs = "ledger_heads (nd_ledger B)"
  define frm where "frm = diffWant (nd_ledger A) ?hs"
  define served where "served = concat (map (\<lambda>(w, s). writesFrom (nd_ledger B) w s) frm)"
  have pos: "length ws \<noteq> 0" using a(2) by auto
  have want: "map_of frm W = Some (int n)"
    unfolding frm_def diffWant_get[OF ledger_heads_distinct] synced_head[OF b]
    using pos a(2) by (simp add: want_of_def synced_head[OF a(1)])
  obtain c where c: "map_of (lg_chains (nd_ledger B)) W = Some c" "run_chain (lg_params (nd_ledger B)) W ws (length ws) c"
    using b pos by (auto simp: synced_def split: option.splits)
  have "ledger_ok H edv (nd_ledger B)" "distinct (keys frm)" using b diffWant_distinct by (simp_all add: synced_def frm_def)
  from served_of[OF this, of W] have "filter (\<lambda>w. w_writer w = W) served = writesFrom (nd_ledger B) W (int n)"
    unfolding want served_def by simp
  then have "filter (\<lambda>w. w_writer w = W) served = drop n ws" using c by (simp add: writesFrom_def run_chain_def)
  moreover have "frm \<noteq> []" using \<open>map_of frm W = Some (int n)\<close> by auto
  moreover have "drop n ws \<noteq> []" using a(2) by simp
  ultimately have s: "filter (\<lambda>w. w_writer w = W) served = drop n ws" "served \<noteq> []" "frm \<noteq> []" by auto
  obtain A1 es0 where g: "greet_warnings A (nd_mode B) (nd_genesisId B) = (A1, es0)" by (cases "greet_warnings A (nd_mode B) (nd_genesisId B)")
  have led: "nd_ledger A1 = nd_ledger A" using greet_warnings_frame[of A "nd_mode B" "nd_genesisId B"] g by simp
  have "handle H edv ap A toB (hello_of H B) = (A1, es0 @ [Sent toB (Want frm)])"
    using s(3) by (simp add: handle_def hello_of_def handle_hello_def g led frm_def)
  moreover have "handle H edv ap' B toA (Want frm) = (B, [Sent toA (Writes served)])"
    using s(2) by (simp add: handle_def handle_want_def served_def[symmetric])
  moreover obtain A2 es' where h: "handle H edv ap A1 toB (Writes served) = (A2, es')"
    by (cases "handle H edv ap A1 toB (Writes served)")
  moreover have "nd_ledger A2 = applyAll H edv served (nd_ledger A)"
    using h take_writes_ledger[of H edv served "nd_ledger A"] led by (auto simp: handle_def handle_writes_def Let_def split: prod.splits)
  ultimately show ?thesis using synced_all[OF a(1,3) s(1)] by auto
qed

section \<open>Agreement is silent\<close>

lemma idAt_head:
  assumes l: "ledger_ok H edv l" and h: "map_of (ledger_heads l) w = Some h"
  shows "idAt l w (h_seq h) = Some (h_id h)"
proof -
  have d: "distinct (keys (lg_chains l))" using l by (simp add: ledger_ok_def)
  obtain c where c: "map_of (lg_chains l) w = Some c" "chain_head c = Some h"
    using h ledger_heads_get[OF d] by (auto simp: bind_eq_Some_conv)
  have ok: "chain_ok H edv c" using l c(1) by (simp add: ledger_ok_def)
  obtain i where i: "headId c = Some i" "h = \<lparr>h_id = i, h_seq = nextSeq c - 1\<rparr>" using c(2) chain_head_ok[OF ok] by auto
  show ?thesis
  proof (cases "wc_writes c = []")
    case True
    then show ?thesis using i c by (simp add: idAt_def headId_def nextSeq_def)
  next
    case False
    then have "chain_at c (nextSeq c - 1) = Some (last (wc_writes c))"
      by (simp add: chain_at_def nextSeq_def Let_def last_conv_nth nat_diff_distrib')
    then show ?thesis using i c False by (simp add: idAt_def headId_def nextSeq_def)
  qed
qed

lemma quiet:
  assumes "ledger_ok H edv (nd_ledger n)" "distinct (keys hs)" "map_of hs = map_of (ledger_heads (nd_ledger n))"
  shows "diffWant (nd_ledger n) hs = [] \<and> \<not> aheadOf (nd_ledger n) hs"
proof
  have "map_of (diffWant (nd_ledger n) hs) w = None" for w
    unfolding diffWant_get[OF assms(2)] assms(3)
    using idAt_head[OF assms(1)] by (cases "map_of (ledger_heads (nd_ledger n)) w") (simp_all add: want_of_def)
  then show "diffWant (nd_ledger n) hs = []" by (metis list.exhaust map_of_Cons_code(2) option.distinct(1) prod.exhaust)
  have "map_of hs w = Some h" if "(w, h) \<in> set (ledger_heads (nd_ledger n))" for w h
    using that map_of_mem[OF ledger_heads_distinct] assms(3) by metis
  then show "\<not> aheadOf (nd_ledger n) hs" by (auto simp: aheadOf_def list_ex_iff)
qed

section \<open>Settled history and messages\<close>

fun msg_anchors :: "sync_message \<Rightarrow> anchor set" where
  "msg_anchors (AnchorChainMsg as) = set as"
| "msg_anchors _ = {}"

fun job_anchors :: "job \<Rightarrow> anchor set" where
  "job_anchors (IngestAnchors c as) = set as"
| "job_anchors ResolveBootstrap = {}"

text \<open>The life of a node: messages and jobs in any order, peers that come and go, writes and anchors of its own.\<close>

inductive node_run ::
  "(bytes \<Rightarrow> bytes) \<Rightarrow> (bytes \<Rightarrow> bytes \<Rightarrow> bytes \<Rightarrow> bool) \<Rightarrow> node_app \<Rightarrow> anchor set \<Rightarrow> node \<Rightarrow> node \<Rightarrow> bool"
  for H edv ap U n0 where
  start: "node_run H edv ap U n0 n0"
| message: "node_run H edv ap U n0 n \<Longrightarrow> msg_anchors m \<subseteq> U \<Longrightarrow> node_run H edv ap U n0 (fst (handle H edv ap n c m))"
| job: "node_run H edv ap U n0 n \<Longrightarrow> node_run H edv ap U n0 (fst (run_job H edv ap n))"
| mined: "node_run H edv ap U n0 n \<Longrightarrow> a \<in> U \<Longrightarrow> node_run H edv ap U n0 (fst (submitAnchor H edv n a))"
| written: "node_run H edv ap U n0 n \<Longrightarrow> node_run H edv ap U n0 (fst (submit H edv n w))"
| joined: "node_run H edv ap U n0 n \<Longrightarrow> node_run H edv ap U n0 (fst (addPeer H ap n c))"
| left: "node_run H edv ap U n0 n \<Longrightarrow> node_run H edv ap U n0 (fst (peerClosed ap n c))"

inductive_cases node_run_elim: "node_run H edv ap U n0 n"

text \<open>The state of the run: the chain grew by \<open>add\<close> alone, and what is queued is from \<open>U\<close>.\<close>

definition grown ::
  "(bytes \<Rightarrow> bytes) \<Rightarrow> (bytes \<Rightarrow> bytes \<Rightarrow> bytes \<Rightarrow> bool) \<Rightarrow> anchor set \<Rightarrow> anchor_chain \<Rightarrow> node \<Rightarrow> bool" where
  "grown H edv U c0 n \<longleftrightarrow> (\<exists>as. set as \<subseteq> U \<and> nd_anchors n = Some (add_all H edv as c0))
     \<and> (\<forall>j \<in> set (nd_queue n). job_anchors j \<subseteq> U)"

lemma add_all_append: "add_all H edv (as @ bs) c = add_all H edv bs (add_all H edv as c)"
  by (simp add: add_all_def)

lemma grownI:
  assumes "grown H edv U c0 n" "nd_anchors n' = map_option (add_all H edv bs) (nd_anchors n)" "set bs \<subseteq> U"
    and "\<forall>j \<in> set (nd_queue n'). job_anchors j \<subseteq> U"
  shows "grown H edv U c0 n'"
proof -
  obtain as where "set as \<subseteq> U" "nd_anchors n = Some (add_all H edv as c0)" using assms(1) by (auto simp: grown_def)
  then have "set (as @ bs) \<subseteq> U" "nd_anchors n' = Some (add_all H edv (as @ bs) c0)" using assms(2,3) by (simp_all add: add_all_append)
  then show ?thesis using assms(4) unfolding grown_def by blast
qed

lemma grown_same:
  assumes "grown H edv U c0 n" "nd_anchors n' = nd_anchors n" "set (nd_queue n') \<subseteq> set (nd_queue n)"
  shows "grown H edv U c0 n'"
  using assms by (auto simp: grown_def)

lemma add_each_all: "\<exists>bs. set bs \<subseteq> set as \<and> fst (add_each H edv as c gap conflict) = add_all H edv bs c"
proof (induction as arbitrary: c gap conflict)
  case Nil
  then show ?case by (intro exI[of _ "[]"]) (simp add: add_all_def)
next
  case (Cons a as)
  obtain c' r where r: "add_anchor H edv c a = (c', r)" by (cases "add_anchor H edv c a")
  show ?case
  proof (cases "r = AddFail AddThrows")
    case True
    then show ?thesis using r by (intro exI[of _ "[a]"]) (simp add: add_all_def)
  next
    case False
    obtain bs where "set bs \<subseteq> set as"
      "fst (add_each H edv as c' (gap \<or> r = AddFail UnknownPrev) (conflict \<or> r = AddFail ConflictsFinalized)) = add_all H edv bs c'"
      using Cons.IH by blast
    then show ?thesis using r False by (intro exI[of _ "a # bs"]) (auto simp: add_all_def)
  qed
qed

lemma handle_frame:
  assumes "\<And>n s. nd_anchors (fst (ap_onSnapshot ap n s)) = nd_anchors n \<and> nd_queue (fst (ap_onSnapshot ap n s)) = nd_queue n"
  shows "nd_anchors (fst (handle H edv ap n c m)) = nd_anchors n
    \<and> (\<forall>j \<in> set (nd_queue (fst (handle H edv ap n c m))). j \<in> set (nd_queue n) \<or> job_anchors j \<subseteq> msg_anchors m)"
proof (cases m)
  case (SnapMsg s)
  define n1 where "n1 = n\<lparr>nd_snapshotOffers := map_set c (ss_anchorId s, ss_height s) (nd_snapshotOffers n)\<rparr>"
  obtain n2 seeded where s: "ap_onSnapshot ap n1 s = (n2, seeded)" by (cases "ap_onSnapshot ap n1 s")
  have "nd_anchors n2 = nd_anchors n" "nd_queue n2 = nd_queue n" using assms[of n1 s] s by (simp_all add: n1_def)
  then show ?thesis using s by (auto simp: SnapMsg handle_def n1_def[symmetric])
next
  case (Hello r hs mode genesis)
  then show ?thesis by (auto simp: handle_def handle_hello_def greet_warnings_def Let_def split: prod.splits if_splits)
qed (auto simp: handle_def handle_writes_def Let_def split: prod.splits)

lemma resolve_settled:
  assumes "nd_anchors n = Some c" "ac_tip c = Some t" "a_height t \<noteq> 0"
  shows "resolveBootstrap H edv ap n = (n, [])"
  using assms by (simp add: resolveBootstrap_def split: option.split)

lemma ingest_grows:
  assumes n: "nd_anchors n = Some c0" and tip: "\<And>bs. set bs \<subseteq> set as \<Longrightarrow> \<exists>t. ac_tip (add_all H edv bs c0) = Some t \<and> a_height t \<noteq> 0"
  shows "\<exists>bs. set bs \<subseteq> set as \<and> nd_anchors (fst (ingestAnchors H edv ap n conn as)) = Some (add_all H edv bs c0)
    \<and> nd_queue (fst (ingestAnchors H edv ap n conn as)) = nd_queue n"
proof -
  obtain bs where bs: "set bs \<subseteq> set as" "fst (add_each H edv (sort_by by_height as) c0 False False) = add_all H edv bs c0"
    using add_each_all[of "sort_by by_height as" H edv c0 False False] by auto
  obtain c gap conflict threw where r: "add_each H edv (sort_by by_height as) c0 False False = (c, gap, conflict, threw)"
    by (cases "add_each H edv (sort_by by_height as) c0 False False")
  then have c: "c = add_all H edv bs c0" using bs(2) by simp
  obtain t where t: "ac_tip c = Some t" "a_height t \<noteq> 0" using tip[OF bs(1)] c by auto
  have "nd_anchors (fst (ingestAnchors H edv ap n conn as)) = Some c \<and> nd_queue (fst (ingestAnchors H edv ap n conn as)) = nd_queue n"
    using t by (cases threw) (simp_all add: ingestAnchors_def n r Let_def)
  then show ?thesis using bs(1) c by blast
qed

lemma settled_high:
  assumes "chain_inv c" "depths_ok c" "graded U" "held_in (ac_anchors c) U" "stored (ac_anchors c) S"
    "ac_settledId c = Some (a_id S)" "0 < a_height S" "set as \<subseteq> U"
  shows "\<exists>t S'. ac_tip (add_all H edv as c) = Some t \<and> a_height t \<noteq> 0 \<and> stored (ac_anchors (add_all H edv as c)) S'
    \<and> ac_settledId (add_all H edv as c) = Some (a_id S') \<and> S' \<in> set (ancestry (add_all H edv as c) t)
    \<and> S \<in> set (ancestry (add_all H edv as c) S')"
proof -
  let ?c = "add_all H edv as c"
  note all = add_all_inv[OF assms(1-4,8), of H edv]
  obtain t S' where t: "ac_tip ?c = Some t" "stored (ac_anchors ?c) S'" "ac_settledId ?c = Some (a_id S')"
    "S' \<in> set (line (ac_anchors ?c) t)" "S \<in> set (line (ac_anchors ?c) S')" using all assms(5,6) by blast
  have m: "map_ok (ac_anchors ?c)" using all by (simp add: chain_inv_def)
  have "stored (ac_anchors ?c) t" using chain_inv_tip[OF _ t(1)] all by blast
  then have "a_height S \<le> a_height t" using line_stored[OF m _ t(4)] line_stored[OF m t(2,5)] by force
  then show ?thesis using t assms(7) unfolding ancestry_line by auto
qed

lemma node_run_grown:
  assumes "node_run H edv ap U n0 n" "grown H edv U c0 n0"
    and ap: "\<And>n s. nd_anchors (fst (ap_onSnapshot ap n s)) = nd_anchors n \<and> nd_queue (fst (ap_onSnapshot ap n s)) = nd_queue n"
    and high: "\<And>as. set as \<subseteq> U \<Longrightarrow> \<exists>t. ac_tip (add_all H edv as c0) = Some t \<and> a_height t \<noteq> 0"
  shows "grown H edv U c0 n"
  using assms(1,2)
proof (induction rule: node_run.induct)
  case (message n m c)
  then have g: "grown H edv U c0 n" by simp
  note f = handle_frame[OF ap, of H edv n c m]
  have "\<forall>j \<in> set (nd_queue (fst (handle H edv ap n c m))). job_anchors j \<subseteq> U"
    using f g message.hyps(2) by (auto simp: grown_def)
  with f show ?case by (intro grownI[OF g, of _ "[]"]; cases "nd_anchors n") (simp_all add: add_all_def)
next
  case (job n)
  then have g: "grown H edv U c0 n" by simp
  obtain as where as: "set as \<subseteq> U" "nd_anchors n = Some (add_all H edv as c0)" using g by (auto simp: grown_def)
  have high': "\<exists>t. ac_tip (add_all H edv bs (add_all H edv as c0)) = Some t \<and> a_height t \<noteq> 0" if "set bs \<subseteq> U" for bs
    using high[of "as @ bs"] as(1) that by (simp add: add_all_append)
  show ?case
  proof (cases "nd_queue n")
    case Nil
    then show ?thesis using g by (simp add: run_job_def)
  next
    case (Cons j js)
    define n1 where "n1 = n\<lparr>nd_queue := js\<rparr>"
    have n1: "nd_anchors n1 = Some (add_all H edv as c0)" "nd_queue n1 = js" using as(2) by (simp_all add: n1_def)
    have g1: "grown H edv U c0 n1" by (rule grown_same[OF g]) (auto simp: n1_def Cons)
    have jU: "job_anchors j \<subseteq> U" using g Cons by (simp add: grown_def)
    show ?thesis
    proof (cases j)
      case ResolveBootstrap
      obtain t where "ac_tip (add_all H edv as c0) = Some t" "a_height t \<noteq> 0" using high'[of "[]"] by (auto simp: add_all_def)
      then have "resolveBootstrap H edv ap n1 = (n1, [])" using resolve_settled n1(1) by blast
      then show ?thesis using g1 Cons ResolveBootstrap by (simp add: run_job_def n1_def[symmetric])
    next
      case (IngestAnchors conn xs)
      have xs: "set xs \<subseteq> U" using jU IngestAnchors by simp
      obtain bs where bs: "set bs \<subseteq> set xs" "nd_anchors (fst (ingestAnchors H edv ap n1 conn xs)) = Some (add_all H edv bs (add_all H edv as c0))"
        "nd_queue (fst (ingestAnchors H edv ap n1 conn xs)) = nd_queue n1"
        using ingest_grows[OF n1(1), of xs H edv ap conn] high' xs by blast
      have "grown H edv U c0 (fst (ingestAnchors H edv ap n1 conn xs))"
        using g1 bs xs n1 by (intro grownI[OF g1, of _ bs]) (auto simp: grown_def)
      then show ?thesis using Cons IngestAnchors by (simp add: run_job_def n1_def[symmetric])
    qed
  qed
next
  case (mined n a)
  then have g: "grown H edv U c0 n" by simp
  then obtain c where c: "nd_anchors n = Some c" by (auto simp: grown_def)
  have "nd_anchors (fst (submitAnchor H edv n a)) = Some (add_all H edv [a] c)" "nd_queue (fst (submitAnchor H edv n a)) = nd_queue n"
    by (simp_all add: submitAnchor_def c Let_def add_all_def split: prod.split)
  then show ?case using g c mined.hyps(2) by (intro grownI[OF g, of _ "[a]"]) (auto simp: grown_def)
next
  case (written n w)
  then have g: "grown H edv U c0 n" by simp
  show ?case by (rule grown_same[OF g]) (auto simp: submit_def split: prod.split apply_result.split)
next
  case (joined n c)
  then have g: "grown H edv U c0 n" by simp
  show ?case by (rule grown_same[OF g]) (auto simp: addPeer_def Let_def)
next
  case (left n c)
  then have g: "grown H edv U c0 n" by simp
  show ?case by (rule grown_same[OF g]) (auto simp: peerClosed_def Let_def)
qed simp

section \<open>Quorum\<close>

lemma vouchers_set: "set (vouchers n offers i) = voucher_of n ` {c. \<exists>o'. (c, o') \<in> set offers \<and> fst o' = i}"
  by (force simp: vouchers_def)

lemma quorum_iff:
  assumes "distinct (keys (nd_snapshotOffers n))"
  shows "snapshotQuorumMet n i \<longleftrightarrow>
    nd_snapshotQuorum n \<le> card (voucher_of n ` {c. \<exists>h. map_of (nd_snapshotOffers n) c = Some (i, h)})"
proof -
  have "{c. \<exists>o'. (c, o') \<in> set (nd_snapshotOffers n) \<and> fst o' = i} = {c. \<exists>h. map_of (nd_snapshotOffers n) c = Some (i, h)}"
    by (auto simp: map_of_mem[OF assms])
  then show ?thesis by (simp add: snapshotQuorumMet_def length_remdups_card_conv vouchers_set)
qed

section \<open>Properties\<close>

definition ex_app :: node_app where
  "ex_app = \<lparr>ap_snapshotHeader = \<lambda>_. None, ap_fullSnapshot = \<lambda>_. None, ap_wantSnapshot = \<lambda>_ _. True,
     ap_wantForReplication = \<lambda>_ _. False, ap_onSnapshot = \<lambda>n _. (n, False), ap_adoptFloor = None\<rparr>"

text \<open>C21: one greeting closes a gap. When a node that holds the first writes of a writer (or none) receives the
  greeting of a peer that holds all of them, it asks for what it lacks; the peer's answer to that request,
  whatever other writers' writes it carries, leaves the node with the writer's whole chain.\<close>

theorem pull_closes_gap:
  assumes "synced H edv (nd_ledger A) W ws n" "n < length ws" "valid_run H edv (lg_params (nd_ledger A)) W ws"
    and "synced H edv (nd_ledger B) W ws (length ws)"
  shows "\<exists>frm served A1 es A2 es' c. handle H edv ap A toB (hello_of H B) = (A1, es) \<and> Sent toB (Want frm) \<in> set es
    \<and> handle H edv ap' B toA (Want frm) = (B, [Sent toA (Writes served)])
    \<and> handle H edv ap A1 toB (Writes served) = (A2, es')
    \<and> map_of (lg_chains (nd_ledger A2)) W = Some c \<and> wc_writes c = ws"
proof -
  obtain frm served A1 es A2 es' where *: "handle H edv ap A toB (hello_of H B) = (A1, es)" "Sent toB (Want frm) \<in> set es"
    "handle H edv ap' B toA (Want frm) = (B, [Sent toA (Writes served)])" "handle H edv ap A1 toB (Writes served) = (A2, es')"
    and s: "synced H edv (nd_ledger A2) W ws (length ws)" using pull_gap[OF assms] by blast
  have "length ws \<noteq> 0" using assms(2) by auto
  then obtain c where "map_of (lg_chains (nd_ledger A2)) W = Some c" "wc_writes c = ws"
    using s by (auto simp: synced_def run_chain_def split: option.splits)
  with * show ?thesis by blast
qed

lemma ex_synced:
  assumes "valid_run ex_hash (\<lambda>_ _ _. True) ex_params W ws"
  shows "synced ex_hash (\<lambda>_ _ _. True) (newLedger ex_params) W ws 0"
    "synced ex_hash (\<lambda>_ _ _. True) (applyAll ex_hash (\<lambda>_ _ _. True) ws (newLedger ex_params)) W ws (length ws)"
proof -
  show s: "synced ex_hash (\<lambda>_ _ _. True) (newLedger ex_params) W ws 0"
    using newLedger_ok[of ex_hash "\<lambda>_ _ _. True" ex_params] by (simp add: synced_def) (simp add: newLedger_def pending_of_def)
  have "filter (\<lambda>w. w_writer w = W) ws = drop 0 ws"
    using assms by (auto simp: filter_id_conv valid_run_def in_set_conv_nth)
  from synced_all[OF s _ this] assms
  show "synced ex_hash (\<lambda>_ _ _. True) (applyAll ex_hash (\<lambda>_ _ _. True) ws (newLedger ex_params)) W ws (length ws)"
    by (simp add: newLedger_def)
qed

theorem pull_closes_gap_witness:
  "\<exists>a b frm served A1 es A2 es' c. let A = newNode (newLedger ex_params) None (\<lambda>_. None);
       B = newNode (applyAll ex_hash (\<lambda>_ _ _. True) [a, b] (newLedger ex_params)) None (\<lambda>_. None)
     in handle ex_hash (\<lambda>_ _ _. True) ex_app A 1 (hello_of ex_hash B) = (A1, es) \<and> Sent 1 (Want frm) \<in> set es
      \<and> handle ex_hash (\<lambda>_ _ _. True) ex_app B 2 (Want frm) = (B, [Sent 2 (Writes served)])
      \<and> handle ex_hash (\<lambda>_ _ _. True) ex_app A1 1 (Writes served) = (A2, es')
      \<and> map_of (lg_chains (nd_ledger A2)) (w_writer a) = Some c \<and> wc_writes c = [a, b]"
proof -
  obtain a b where run: "valid_run ex_hash (\<lambda>_ _ _. True) ex_params (w_writer a) [a, b]" using ex_run by blast
  let ?A = "newNode (newLedger ex_params) None (\<lambda>_. None)"
  let ?B = "newNode (applyAll ex_hash (\<lambda>_ _ _. True) [a, b] (newLedger ex_params)) None (\<lambda>_. None)"
  have led: "nd_ledger ?A = newLedger ex_params" "nd_ledger ?B = applyAll ex_hash (\<lambda>_ _ _. True) [a, b] (newLedger ex_params)"
    "lg_params (nd_ledger ?A) = ex_params" by (simp_all add: newNode_def newLedger_def)
  have "synced ex_hash (\<lambda>_ _ _. True) (nd_ledger ?A) (w_writer a) [a, b] 0" "0 < length [a, b]"
    "valid_run ex_hash (\<lambda>_ _ _. True) (lg_params (nd_ledger ?A)) (w_writer a) [a, b]"
    "synced ex_hash (\<lambda>_ _ _. True) (nd_ledger ?B) (w_writer a) [a, b] (length [a, b])"
    unfolding led by (rule ex_synced(1)[OF run], simp, simp only: newLedger_def ledger.simps run, rule ex_synced(2)[OF run])
  from pull_closes_gap[OF this, of ex_app 1 ex_app 2] show ?thesis unfolding Let_def by blast
qed



text \<open>A checkpoint reaches quorum exactly when that many distinct peers last offered it, where all the
  connections of one identity are one peer; so a peer that opens more connections gains nothing.\<close>

theorem quorum_counts_peers:
  assumes "distinct (keys (nd_snapshotOffers n))"
  shows "(snapshotQuorumMet n i \<longleftrightarrow>
      nd_snapshotQuorum n \<le> card (voucher_of n ` {c. \<exists>h. map_of (nd_snapshotOffers n) c = Some (i, h)}))
    \<and> (nd_peerKey n c = nd_peerKey n c' \<and> nd_peerKey n c \<noteq> None \<and> map_of (nd_snapshotOffers n) c = Some (i, h)
        \<and> map_of (nd_snapshotOffers n) c' = None
      \<longrightarrow> snapshotQuorumMet (n\<lparr>nd_snapshotOffers := map_set c' (i, h') (nd_snapshotOffers n)\<rparr>) i = snapshotQuorumMet n i)"
proof (intro conjI impI)
  show q: "snapshotQuorumMet n i \<longleftrightarrow>
      nd_snapshotQuorum n \<le> card (voucher_of n ` {c. \<exists>h. map_of (nd_snapshotOffers n) c = Some (i, h)})"
    by (rule quorum_iff[OF assms])
  assume same: "nd_peerKey n c = nd_peerKey n c' \<and> nd_peerKey n c \<noteq> None \<and> map_of (nd_snapshotOffers n) c = Some (i, h)
        \<and> map_of (nd_snapshotOffers n) c' = None"
  let ?n = "n\<lparr>nd_snapshotOffers := map_set c' (i, h') (nd_snapshotOffers n)\<rparr>"
  have v: "voucher_of ?n = voucher_of n" by (simp add: voucher_of_def fun_eq_iff)
  have d: "distinct (keys (nd_snapshotOffers ?n))" using assms by (simp add: distinct_update)
  have "{x. \<exists>h. map_of (nd_snapshotOffers ?n) x = Some (i, h)} = insert c' {x. \<exists>h. map_of (nd_snapshotOffers n) x = Some (i, h)}"
    using same by (auto simp: map_of_set)
  moreover have "voucher_of n c' = voucher_of n c" using same by (cases "nd_peerKey n c'") (auto simp: voucher_of_def)
  ultimately have "voucher_of ?n ` {x. \<exists>h. map_of (nd_snapshotOffers ?n) x = Some (i, h)}
      = voucher_of n ` {x. \<exists>h. map_of (nd_snapshotOffers n) x = Some (i, h)}"
    unfolding v using same by (auto simp: image_iff)
  then show "snapshotQuorumMet ?n i = snapshotQuorumMet n i" unfolding quorum_iff[OF assms] quorum_iff[OF d] by simp
qed

theorem quorum_counts_peers_witness:
  "snapshotQuorumMet ((newNode (newLedger ex_params) None (\<lambda>c. if c < 3 then Some ''k'' else None))
     \<lparr>nd_snapshotQuorum := 2, nd_snapshotOffers := [(1, (''s'', 5)), (2, (''s'', 5)), (3, (''s'', 5))]\<rparr>) ''s''
   \<and> \<not> snapshotQuorumMet ((newNode (newLedger ex_params) None (\<lambda>c. if c < 3 then Some ''k'' else None))
     \<lparr>nd_snapshotQuorum := 2, nd_snapshotOffers := map_set 2 (''s'', 5) [(1, (''s'', 5))]\<rparr>) ''s''"
proof -
  let ?n = "(newNode (newLedger ex_params) None (\<lambda>c. if c < 3 then Some ''k'' else None))\<lparr>nd_snapshotQuorum := 2, nd_snapshotOffers := [(1, (''s'', 5))]\<rparr>"
  have "distinct (keys (nd_snapshotOffers ?n))" by simp
  from quorum_counts_peers[OF this, of "''s''" 1 2 5 5] show ?thesis
    by (simp add: newNode_def snapshotQuorumMet_def vouchers_def voucher_of_def)
qed

text \<open>Agreement is silent: a node that is greeted with the heads it has asks for nothing and says nothing.\<close>

lemma agreement_quiet:
  assumes "ledger_ok H edv (nd_ledger n)" "distinct (keys hs)" "map_of hs = map_of (ledger_heads (nd_ledger n))"
  shows "\<forall>c m. Sent c m \<notin> set (snd (handle H edv ap n conn (Hello root hs mode genesis)))"
proof -
  have "nd_ledger (fst (greet_warnings n mode genesis)) = nd_ledger n" by (rule greet_warnings_frame)
  moreover have "\<forall>c m. Sent c m \<notin> set (snd (greet_warnings n mode genesis))" by (simp add: greet_warnings_def Let_def)
  ultimately show ?thesis using quiet[OF assms]
    by (cases "greet_warnings n mode genesis") (simp add: handle_def handle_hello_def)
qed

text \<open>A peer that is behind but still has a head below our pruned floor is not told so: the id at that
  position is gone, so the node asks the peer for writes it has itself pruned and never answers with its
  own greeting, although it holds writes the peer lacks.\<close>

lemma pruned_peer_not_nudged:
  assumes "distinct (keys hs)" "map_of hs w = Some h" "map_of (lg_chains (nd_ledger n)) w = Some c"
    and "map_of (ledger_heads (nd_ledger n)) w = Some mine" "h_seq h \<le> h_seq mine" "h_seq h < wc_baseSeq c - 1"
  shows "aheadOf (nd_ledger n) hs \<or> h_seq h = h_seq mine"
    and "\<forall>x r hs' md g. Sent x (Hello r hs' md g) \<notin> set (snd (handle H edv ap n conn (Hello root hs mode genesis)))"
    and "\<exists>frm. map_of frm w = Some (h_seq h) \<and> Sent conn (Want frm) \<in> set (snd (handle H edv ap n conn (Hello root hs mode genesis)))"
proof -
  let ?want = "diffWant (nd_ledger n) hs"
  have "idAt (nd_ledger n) w (h_seq h) = None" using assms(3,6) by (simp add: idAt_def chain_at_def)
  then have want: "map_of ?want w = Some (h_seq h)" unfolding diffWant_get[OF assms(1)] using assms(2,4,5) by (simp add: want_of_def)
  then have ne: "?want \<noteq> []" by auto
  have "(w, mine) \<in> set (ledger_heads (nd_ledger n))" using assms(4) map_of_mem[OF ledger_heads_distinct] by metis
  then show "aheadOf (nd_ledger n) hs \<or> h_seq h = h_seq mine" using assms(2,5) by (force simp: aheadOf_def list_ex_iff)
  have led: "nd_ledger (fst (greet_warnings n mode genesis)) = nd_ledger n" by (rule greet_warnings_frame)
  have ev: "\<forall>c m. Sent c m \<notin> set (snd (greet_warnings n mode genesis))" by (simp add: greet_warnings_def Let_def)
  show "\<forall>x r hs' md g. Sent x (Hello r hs' md g) \<notin> set (snd (handle H edv ap n conn (Hello root hs mode genesis)))"
    using led ev ne by (cases "greet_warnings n mode genesis") (simp add: handle_def handle_hello_def)
  show "\<exists>frm. map_of frm w = Some (h_seq h) \<and> Sent conn (Want frm) \<in> set (snd (handle H edv ap n conn (Hello root hs mode genesis)))"
    using led want ne by (intro exI[of _ ?want]; cases "greet_warnings n mode genesis") (simp add: handle_def handle_hello_def)
qed

end
