(* ===== verification/Keys.thy ===== *)
theory Keys
  imports FundsCheck
begin

text \<open>
  \<open>src/swap/keys.ts\<close>: every swap key and secret is derived from a 32-byte seed with HMAC-SHA256 over
  a length-prefixed message. The record \<open>crypto\<close> holds the primitives of \<open>node:crypto\<close>,
  \<open>@noble/curves\<close> and \<open>@scure/btc-signer\<close> the swap code calls; the definitions take it as an
  argument. A throw is a value of \<open>key_error\<close>. A \<open>Chain\<close> or \<open>Net\<close> that is none of the listed ones
  cannot be written in the model, so the membership checks have no branch here.
\<close>

section \<open>Primitives\<close>

record crypto =
  hmac :: "bytes \<Rightarrow> bytes \<Rightarrow> bytes"
  sha :: "bytes \<Rightarrow> bytes"
  curve_n :: int
  pub_of :: "bytes \<Rightarrow> bytes"
  sign_with :: "bytes \<Rightarrow> bytes \<Rightarrow> bytes \<Rightarrow> bytes"
  on_curve :: "int \<Rightarrow> bool"
  tagged :: "string \<Rightarrow> bytes \<Rightarrow> bytes"
  leaf_hash :: "bytes \<Rightarrow> bytes"
  tweak_pub :: "bytes \<Rightarrow> bytes \<Rightarrow> bytes \<times> 8 word"
  tweak_priv :: "bytes \<Rightarrow> bytes"

datatype swap_role = Maker | Taker

primrec role_text :: "swap_role \<Rightarrow> string" where
  "role_text Maker = ''maker''"
| "role_text Taker = ''taker''"

datatype key_error = FieldOver | BadSeed nat | ZeroKey string | EmptySwapId | NoTakeParty | BadTakeSeq int

section \<open>Derivation\<close>

definition KEYS_DOMAIN :: string where "KEYS_DOMAIN = ''gavl/swap-keys/v1''"

definition key_lp :: "string \<Rightarrow> key_error + bytes" where
  "key_lp field = (let bs = utf8 field; n = length bs in
     if n > 0xffff then Inl FieldOver
     else Inr (concatBytes [[of_nat (n div 256), of_nat (n mod 256)], bs]))"

fun lp_all :: "string list \<Rightarrow> key_error + bytes" where
  "lp_all [] = Inr []"
| "lp_all (f # fs) = (case key_lp f of Inl e \<Rightarrow> Inl e | Inr b \<Rightarrow>
     (case lp_all fs of Inl e \<Rightarrow> Inl e | Inr r \<Rightarrow> Inr (b @ r)))"

definition key_prf :: "crypto \<Rightarrow> bytes \<Rightarrow> string \<Rightarrow> string list \<Rightarrow> key_error + bytes" where
  "key_prf C seed purpose fs =
     (if length seed \<noteq> 32 then Inl (BadSeed (length seed))
      else map_sum id (hmac C seed) (lp_all (KEYS_DOMAIN # purpose # fs)))"

fun hex_text_of :: "nat \<Rightarrow> string" where
  "hex_text_of n = (if n < 16 then [hex_digit n] else hex_text_of (n div 16) @ [hex_digit (n mod 16)])"

declare hex_text_of.simps [simp del]

definition padStart :: "nat \<Rightarrow> char \<Rightarrow> string \<Rightarrow> string" where
  "padStart n c s = replicate (n - length s) c @ s"

definition be_val :: "bytes \<Rightarrow> nat" where
  "be_val bs = foldl (\<lambda>v b. 256 * v + unat b) 0 bs"

definition scalar :: "crypto \<Rightarrow> bytes \<Rightarrow> string \<Rightarrow> string list \<Rightarrow> key_error + bytes" where
  "scalar C seed purpose fs = (case key_prf C seed purpose fs of Inl e \<Rightarrow> Inl e | Inr out \<Rightarrow>
     (let d = int (be_val out) mod curve_n C in
      if d = 0 then Inl (ZeroKey purpose)
      else Inr (fromHex (padStart 64 (CHR ''0'') (hex_text_of (nat d))))))"

definition walletKey :: "crypto \<Rightarrow> bytes \<Rightarrow> chain \<Rightarrow> net \<Rightarrow> key_error + bytes" where
  "walletKey C seed c n = scalar C seed ''wallet'' [chain_text c, net_text n]"

definition swapKey :: "crypto \<Rightarrow> bytes \<Rightarrow> string \<Rightarrow> chain \<Rightarrow> swap_role \<Rightarrow> key_error + bytes" where
  "swapKey C seed swapId c r =
     (if swapId = [] then Inl EmptySwapId else scalar C seed ''swap-key'' [swapId, chain_text c, role_text r])"

definition swapSecret :: "crypto \<Rightarrow> bytes \<Rightarrow> string \<Rightarrow> key_error + bytes" where
  "swapSecret C seed swapId = (if swapId = [] then Inl EmptySwapId else key_prf C seed ''swap-secret'' [swapId])"

definition swapSecretHash :: "crypto \<Rightarrow> bytes \<Rightarrow> string \<Rightarrow> key_error + bytes" where
  "swapSecretHash C seed swapId = map_sum id (sha C) (swapSecret C seed swapId)"

definition takeSwapId :: "string \<Rightarrow> string \<Rightarrow> int \<Rightarrow> key_error + string" where
  "takeSwapId offerId takerPub takeSeq =
     (if offerId = [] \<or> takerPub = [] then Inl NoTakeParty
      else if takeSeq < 0 \<or> takeSeq > 2 ^ 53 - 1 then Inl (BadTakeSeq takeSeq)
      else Inr (offerId @ CHR '':'' # takerPub @ CHR '':'' # show_int takeSeq))"

definition xOnly :: "crypto \<Rightarrow> bytes \<Rightarrow> bytes" where
  "xOnly C secretKey = pub_of C secretKey"

section \<open>Keys are curve scalars\<close>

lemma hex_text_of_lower: "list_all is_hex_lower (hex_text_of n)"
  by (induction n rule: hex_text_of.induct)
    (subst hex_text_of.simps, auto simp: is_hex_lower_hex_digit)

definition hex_value :: "string \<Rightarrow> nat" where
  "hex_value s = foldl (\<lambda>v c. 16 * v + base_digit c) 0 s"

lemma hex_value_snoc: "hex_value (s @ [c]) = 16 * hex_value s + base_digit c"
  by (simp add: hex_value_def)

lemma hex_value_text: "hex_value (hex_text_of n) = n"
proof (induction n rule: hex_text_of.induct)
  case (1 n)
  then show ?case
    by (subst hex_text_of.simps)
      (auto simp: hex_value_snoc base_digit_hex_digit hex_value_def[of "[_]"])
qed

lemma length_hex_text_of: "n < 16 ^ k \<Longrightarrow> 0 < k \<Longrightarrow> length (hex_text_of n) \<le> k"
proof (induction k arbitrary: n)
  case (Suc k)
  show ?case
  proof (cases "n < 16")
    case False
    then have "n div 16 < 16 ^ k" "0 < k" using Suc.prems by (auto intro: Nat.gr0I)
    then have "length (hex_text_of (n div 16)) \<le> k" by (rule Suc.IH)
    then show ?thesis using False by (subst hex_text_of.simps) simp
  qed (subst hex_text_of.simps, simp)
qed simp

lemma is_hex_lower_0: "is_hex_lower (CHR ''0'')"
  by code_simp

lemma hex_value_pad: "hex_value (padStart k (CHR ''0'') s) = hex_value s"
proof -
  have "foldl (\<lambda>v c. 16 * v + base_digit c) 0 (replicate n (CHR ''0'')) = 0" for n
    by (induction n) (auto simp: base_digit_def)
  then show ?thesis by (simp add: hex_value_def padStart_def)
qed

lemma be_val_fromHex:
  "list_all is_hex_lower s \<Longrightarrow> even (length s) \<Longrightarrow>
   foldl (\<lambda>v b. 256 * v + unat b) a (fromHex s) = foldl (\<lambda>v c. 16 * v + base_digit c) a s"
proof (induction s arbitrary: a rule: fromHex.induct)
  case (1 c d r)
  then have b: "base_digit c < 16" "base_digit d < 16"
    and h: "hex_val c = Some (base_digit c)" "hex_val d = Some (base_digit d)"
    using hex_digit_base[of c] hex_digit_base[of d] hex_val_hex_digit by (auto, metis+)
  then have "unat (of_nat (16 * base_digit c + base_digit d) :: 8 word) = 16 * base_digit c + base_digit d"
    by (simp add: unat_of_nat take_bit_nat_eq_self del: of_nat_add of_nat_mult)
  moreover have "foldl (\<lambda>v b. 256 * v + unat b) x (fromHex r) = foldl (\<lambda>v c. 16 * v + base_digit c) x r" for x
    using 1 h by simp
  ultimately show ?case using h by (simp add: add.assoc del: of_nat_add of_nat_mult)
qed simp_all

text \<open>A derived key is 32 bytes and, read big-endian, a non-zero scalar below the curve order.\<close>

lemma scalar_range:
  assumes "scalar C seed purpose fs = Inr k" "0 < curve_n C" "curve_n C \<le> 2 ^ 256"
  shows "length k = 32 \<and> 0 < be_val k \<and> int (be_val k) < curve_n C"
proof -
  obtain out where "key_prf C seed purpose fs = Inr out" using assms(1) by (auto simp: scalar_def split: sum.splits)
  define d where "d = int (be_val out) mod curve_n C"
  define s where "s = padStart 64 (CHR ''0'') (hex_text_of (nat d))"
  have d: "d \<noteq> 0" "k = fromHex s" using assms(1) \<open>key_prf C seed purpose fs = Inr out\<close>
    by (auto simp: scalar_def d_def s_def Let_def split: if_splits)
  have r: "0 < d" "d < curve_n C" using d(1) assms(2) pos_mod_sign[of "curve_n C" "int (be_val out)"]
      pos_mod_bound[of "curve_n C" "int (be_val out)"] unfolding d_def by linarith+
  have "nat d < 16 ^ 64" using r assms(3) by (simp add: nat_less_iff)
  then have len: "length (hex_text_of (nat d)) \<le> 64" by (rule length_hex_text_of) simp
  have s: "list_all is_hex_lower s" "length s = 64"
    using len hex_text_of_lower[of "nat d"] 
    by (auto simp: s_def padStart_def list_all_iff is_hex_lower_0)
  have "be_val k = nat d"
    using be_val_fromHex[of s 0] s hex_value_pad[of 64 "hex_text_of (nat d)"] hex_value_text[of "nat d"]
    unfolding d(2) be_val_def hex_value_def s_def by simp
  moreover have "length k = 32" using toHex_fromHex[of s] s d(2) by simp
  ultimately show ?thesis using r by simp
qed

section \<open>No message serves two purposes\<close>

text \<open>What can be asked of a seed, and the message HMAC is applied to.\<close>

datatype key_request = WalletKey chain net | SwapKey string chain swap_role | SwapSecret string

fun request_fields :: "key_request \<Rightarrow> string list" where
  "request_fields (WalletKey c n) = [''wallet'', chain_text c, net_text n]"
| "request_fields (SwapKey i c r) = [''swap-key'', i, chain_text c, role_text r]"
| "request_fields (SwapSecret i) = [''swap-secret'', i]"

definition request_msg :: "key_request \<Rightarrow> key_error + bytes" where
  "request_msg q = lp_all (KEYS_DOMAIN # request_fields q)"

lemma key_lp_lp: "key_lp s = Inr b \<longleftrightarrow> lp s = Inr b"
  by (simp add: key_lp_def lp_def Let_def)

lemma lp_all_inj: "lp_all fs = Inr m \<Longrightarrow> lp_all gs = Inr m \<Longrightarrow> fs = gs"
proof (induction fs arbitrary: gs m)
  case Nil
  show ?case
  proof (cases gs)
    case (Cons g gs')
    with Nil show ?thesis by (auto simp: key_lp_def Let_def concatBytes_def split: sum.splits if_splits)
  qed simp
next
  case (Cons f fs)
  then obtain b r where f: "key_lp f = Inr b" "lp_all fs = Inr r" "m = b @ r" by (auto split: sum.splits)
  show ?case
  proof (cases gs)
    case Nil
    with Cons.prems f show ?thesis by (auto simp: key_lp_def Let_def concatBytes_def split: if_splits)
  next
    case (Cons g gs')
    with Cons.prems obtain c q where g: "key_lp g = Inr c" "lp_all gs' = Inr q" "m = c @ q" by (auto split: sum.splits)
    have "f = g \<and> r = q" using lp_prefix f(1,3) g(1,3) unfolding key_lp_lp by metis
    then show ?thesis using Cons Cons.IH[OF f(2)] g(2) by simp
  qed
qed

lemma lp_all_short: "list_all (\<lambda>f. length f \<le> 32767) fs \<Longrightarrow> \<exists>m. lp_all fs = Inr m"
proof (induction fs)
  case (Cons f fs)
  then have "length (utf8 f) \<le> 65535" using length_utf8_le[of f] by simp
  then have "\<exists>b. key_lp f = Inr b" by (simp add: key_lp_def Let_def)
  then show ?case using Cons by auto
qed simp

lemma role_text_inj: "role_text a = role_text b \<longleftrightarrow> a = b"
  by (cases a; cases b) simp_all

lemma request_fields_inj: "request_fields a = request_fields b \<longleftrightarrow> a = b"
  by (cases a; cases b) (auto simp: chain_text_inj net_text_inj role_text_inj)

text \<open>The three derivations answer these requests: the requests differ, so do the HMAC messages.\<close>

lemma walletKey_request:
  "length seed = 32 \<Longrightarrow> request_msg (WalletKey c n) = Inr m \<Longrightarrow>
   walletKey C seed c n = (let d = int (be_val (hmac C seed m)) mod curve_n C in
     if d = 0 then Inl (ZeroKey ''wallet'') else Inr (fromHex (padStart 64 (CHR ''0'') (hex_text_of (nat d)))))"
  by (simp add: walletKey_def scalar_def key_prf_def request_msg_def)

lemma swapKey_request:
  "length seed = 32 \<Longrightarrow> i \<noteq> [] \<Longrightarrow> request_msg (SwapKey i c r) = Inr m \<Longrightarrow>
   swapKey C seed i c r = (let d = int (be_val (hmac C seed m)) mod curve_n C in
     if d = 0 then Inl (ZeroKey ''swap-key'') else Inr (fromHex (padStart 64 (CHR ''0'') (hex_text_of (nat d)))))"
  by (simp add: swapKey_def scalar_def key_prf_def request_msg_def)

lemma swapSecret_request:
  "length seed = 32 \<Longrightarrow> i \<noteq> [] \<Longrightarrow> request_msg (SwapSecret i) = Inr m \<Longrightarrow> swapSecret C seed i = Inr (hmac C seed m)"
  by (simp add: swapSecret_def key_prf_def request_msg_def)

text \<open>The taker's swap id determines the take.\<close>

lemma colon_split: "CHR '':'' \<notin> set a \<Longrightarrow> CHR '':'' \<notin> set b \<Longrightarrow> a @ CHR '':'' # r = b @ CHR '':'' # q \<Longrightarrow> a = b \<and> r = q"
proof (induction a arbitrary: b)
  case Nil
  then show ?case by (cases b) auto
next
  case (Cons x a)
  then show ?case by (cases b) auto
qed

lemma takeSwapId_inj:
  assumes "takeSwapId x p n = Inr i" "takeSwapId y q m = Inr i"
    and "CHR '':'' \<notin> set x" "CHR '':'' \<notin> set y" "CHR '':'' \<notin> set p" "CHR '':'' \<notin> set q"
  shows "x = y \<and> p = q \<and> n = m"
proof -
  have "x @ CHR '':'' # p @ CHR '':'' # show_int n = y @ CHR '':'' # q @ CHR '':'' # show_int m"
    using assms(1,2) by (auto simp: takeSwapId_def split: if_splits)
  from colon_split[OF assms(3,4) this] have "x = y" "p @ CHR '':'' # show_int n = q @ CHR '':'' # show_int m" by auto
  with colon_split[OF assms(5,6) this(2)] show ?thesis by (simp add: show_int_inj)
qed

text \<open>No derived key is reused. Two different requests (a wallet key of another chain or network, a
  swap key of another swap, chain or role, a secret of another swap) never hash the same message, and a
  taker's swap id determines offer, taker and take, so two takes never share key or secret material.\<close>

theorem key_messages_separate:
  assumes "a \<noteq> b" "request_msg a = Inr m"
  shows "request_msg b \<noteq> Inr m
    \<and> (\<forall>x p n y q k i. takeSwapId x p n = Inr i \<and> takeSwapId y q k = Inr i
        \<and> CHR '':'' \<notin> set (x @ p @ y @ q) \<longrightarrow> (x, p, n) = (y, q, k))"
proof (intro conjI allI impI notI; (elim conjE)?)
  assume "request_msg b = Inr m"
  with assms lp_all_inj[of "KEYS_DOMAIN # request_fields a" m "KEYS_DOMAIN # request_fields b"]
  show False by (simp add: request_msg_def request_fields_inj)
next
  fix x p n y q k i
  assume "takeSwapId x p n = Inr i" "takeSwapId y q k = Inr i" "CHR '':'' \<notin> set (x @ p @ y @ q)"
  then show "(x, p, n) = (y, q, k)" using takeSwapId_inj[of x p n i y q k] by simp
qed

theorem key_messages_separate_witness:
  "\<exists>m. request_msg (SwapSecret ''ab:cd:7'') = Inr m \<and> request_msg (SwapKey ''ab:cd:7'' Bitcoin Taker) \<noteq> Inr m"
proof -
  have "list_all (\<lambda>f. length f \<le> 32767) (KEYS_DOMAIN # request_fields (SwapSecret ''ab:cd:7''))"
    by (simp add: KEYS_DOMAIN_def)
  from lp_all_short[OF this] obtain m where m: "request_msg (SwapSecret ''ab:cd:7'') = Inr m"
    unfolding request_msg_def by blast
  have "request_msg (SwapKey ''ab:cd:7'' Bitcoin Taker) \<noteq> Inr m"
    by (rule conjunct1[OF key_messages_separate[OF _ m]]) simp
  with m show ?thesis by blast
qed

end
