(* ===== verification/Htlc.thy ===== *)
theory Htlc
  imports Keys
begin

text \<open>
  \<open>src/swap/htlc.ts\<close>: the Taproot output both sides of a swap lock coins in, and the transactions that
  claim and refund it (the refund windows of that file are in \<open>Networks\<close>). The record \<open>signer\<close> holds
  what the code takes from \<open>@scure/btc-signer\<close>: script and address encoding, the size, id, hash to sign
  and raw form of a transaction, and which transactions the library builds without throwing. A \<open>bigint\<close>
  is an \<open>int\<close>; a fee rate is an IEEE double, whose product with a size is rounded as JavaScript does.
\<close>

section \<open>Fees\<close>

text \<open>A finite double is an integer times a power of two.\<close>

datatype js_number = Double int int | NotFinite

fun bit_length :: "nat \<Rightarrow> nat" where
  "bit_length n = (if n = 0 then 0 else Suc (bit_length (n div 2)))"

declare bit_length.simps [simp del]

text \<open>\<open>n / 2^k\<close> rounded to the nearest integer, ties to even.\<close>

definition half_even :: "nat \<Rightarrow> nat \<Rightarrow> nat" where
  "half_even n k = (let q = n div 2 ^ k; r = n mod 2 ^ k in
     if 2 * r < 2 ^ k \<or> (2 * r = 2 ^ k \<and> even q) then q else q + 1)"

definition double_mul :: "int \<Rightarrow> int \<Rightarrow> int \<Rightarrow> int \<times> int" where
  "double_mul m e n = (let p = m * n; a = nat \<bar>p\<bar>; k = bit_length a - 53 in
     (sgn p * int (half_even a k), e + int k))"

definition ceil_scaled :: "int \<Rightarrow> int \<Rightarrow> int" where
  "ceil_scaled q e = (if e \<ge> 0 then q * 2 ^ nat e else ceil_div q (2 ^ nat (- e)))"

text \<open>\<open>BigInt(Math.ceil(feeRate * n))\<close>; \<open>None\<close> is the \<open>RangeError\<close> of a rate that is not finite.\<close>

definition fee_ceil :: "js_number \<Rightarrow> int \<Rightarrow> int option" where
  "fee_ceil rate n = (case rate of NotFinite \<Rightarrow> None
     | Double m e \<Rightarrow> (case double_mul m e n of (q, e') \<Rightarrow> Some (ceil_scaled q e')))"

definition rate_ok :: "js_number \<Rightarrow> bool" where
  "rate_ok rate = (case rate of NotFinite \<Rightarrow> False | Double m e \<Rightarrow> m > 0)"

section \<open>Transactions\<close>

record tx_in =
  ti_txid :: string
  ti_index :: int
  ti_sequence :: int
  ti_script :: bytes
  ti_amount :: int
  ti_witness :: "bytes list option"

record tx_out =
  to_script :: bytes
  to_amount :: int

record tx =
  tx_version :: int
  tx_lockTime :: int
  tx_ins :: "tx_in list"
  tx_outs :: "tx_out list"

datatype script_item = Opcode string | Push bytes | Num int

record signer =
  script_encode :: "script_item list \<Rightarrow> bytes"
  p2tr_script :: "bytes \<Rightarrow> bytes"
  p2tr_address :: "swap_network \<Rightarrow> bytes \<Rightarrow> string"
  decode_address :: "swap_network \<Rightarrow> string \<Rightarrow> (string \<times> bytes) option"
  builds :: "tx \<Rightarrow> bool"
  vsize_of :: "tx \<Rightarrow> int"
  hex_of :: "tx \<Rightarrow> string"
  id_of :: "tx \<Rightarrow> string"
  sighash_of :: "tx \<Rightarrow> nat \<Rightarrow> bytes list \<Rightarrow> int list \<Rightarrow> (bytes \<times> 8 word) option \<Rightarrow> bytes"
  raw_witnesses :: "string \<Rightarrow> bytes list list option"

section \<open>The output\<close>

datatype htlc_error =
    BadHashLength nat | BadKeyLength string nat | NotOnCurve string | BadRefundBlocks int
  | SecretMismatch | ReceiverKeyMismatch | SenderKeyMismatch
  | BadFeeRate | NotAnAddress string | BelowDust int int | LibraryThrew | NoPreimage

definition NUMS_INTERNAL_KEY :: bytes where
  "NUMS_INTERNAL_KEY = fromHex ''50929b74c1a04954b78b4b6035e97a5e078a5a0f28ec96d547bfee9ace803ac0''"

definition TAPSCRIPT_LEAF_VERSION :: "8 word" where "TAPSCRIPT_LEAF_VERSION = 0xc0"
definition CLAIM_SEQUENCE :: int where "CLAIM_SEQUENCE = 0xfffffffd"
definition AUX_ZERO :: bytes where "AUX_ZERO = replicate 32 0"

record htlc_params =
  h_hash :: bytes
  h_receiver :: bytes
  h_sender :: bytes
  h_refundBlocks :: int

record htlc =
  claimLeaf :: bytes
  refundLeaf :: bytes
  claimControlBlock :: bytes
  refundControlBlock :: bytes
  merkleRoot :: bytes
  outputKey :: bytes
  scriptPubKey :: bytes

definition newSecret :: "(nat \<Rightarrow> bytes) \<Rightarrow> bytes" where
  "newSecret randomBytes = randomBytes 32"

definition hashOf :: "crypto \<Rightarrow> bytes \<Rightarrow> bytes" where
  "hashOf C secret = sha C secret"

definition check_xonly :: "crypto \<Rightarrow> string \<Rightarrow> bytes \<Rightarrow> htlc_error option" where
  "check_xonly C name key =
     (if length key \<noteq> 32 then Some (BadKeyLength name (length key))
      else if \<not> on_curve C (the (BigInt_of (''0x'' @ toHex key))) then Some (NotOnCurve name)
      else None)"

definition claim_items :: "htlc_params \<Rightarrow> script_item list" where
  "claim_items p = [Opcode ''SHA256'', Push (h_hash p), Opcode ''EQUALVERIFY'', Push (h_receiver p), Opcode ''CHECKSIG'']"

definition refund_items :: "htlc_params \<Rightarrow> script_item list" where
  "refund_items p = [Num (h_refundBlocks p), Opcode ''CHECKSEQUENCEVERIFY'', Opcode ''DROP'',
     Push (h_sender p), Opcode ''CHECKSIG'']"

definition htlcScript :: "crypto \<Rightarrow> signer \<Rightarrow> htlc_params \<Rightarrow> htlc_error + htlc" where
  "htlcScript C S p =
     (if length (h_hash p) \<noteq> 32 then Inl (BadHashLength (length (h_hash p)))
      else case check_xonly C ''receiver'' (h_receiver p) of Some e \<Rightarrow> Inl e | None \<Rightarrow>
        (case check_xonly C ''sender'' (h_sender p) of Some e \<Rightarrow> Inl e | None \<Rightarrow>
          if h_refundBlocks p < 1 \<or> h_refundBlocks p > MAX_REFUND_BLOCKS then Inl (BadRefundBlocks (h_refundBlocks p))
          else let claim = script_encode S (claim_items p);
                   refund = script_encode S (refund_items p);
                   claimHash = leaf_hash C claim;
                   refundHash = leaf_hash C refund;
                   (lo, hi) = (if cmpBytes claimHash refundHash \<le> 0 then (claimHash, refundHash) else (refundHash, claimHash));
                   root = tagged C ''TapBranch'' (lo @ hi);
                   (q, parity) = tweak_pub C NUMS_INTERNAL_KEY root;
                   header = [or TAPSCRIPT_LEAF_VERSION parity]
            in Inr \<lparr>claimLeaf = claim, refundLeaf = refund,
                  claimControlBlock = concatBytes [header, NUMS_INTERNAL_KEY, refundHash],
                  refundControlBlock = concatBytes [header, NUMS_INTERNAL_KEY, claimHash],
                  merkleRoot = root, outputKey = q, scriptPubKey = p2tr_script S q\<rparr>))"

definition htlc_address :: "signer \<Rightarrow> htlc \<Rightarrow> swap_network \<Rightarrow> string" where
  "htlc_address S h network = p2tr_address S network (outputKey h)"

section \<open>Spending it\<close>

record htlc_utxo =
  hu_txid :: string
  hu_vout :: int
  hu_amount :: int

record spend_common =
  sc_utxo :: htlc_utxo
  sc_params :: htlc_params
  sc_to :: string
  sc_feeRate :: js_number
  sc_network :: swap_network

record claim_args = spend_common +
  ca_secret :: bytes
  ca_receiverKey :: bytes

record refund_args = spend_common +
  ra_senderKey :: bytes

record signed_spend =
  ss_hex :: string
  ss_txid :: string
  ss_vsize :: int
  ss_fee :: int
  ss_value :: int

definition spend_build :: "htlc_utxo \<Rightarrow> htlc \<Rightarrow> int \<Rightarrow> bytes \<Rightarrow> bytes list option \<Rightarrow> int \<Rightarrow> tx" where
  "spend_build u h sequence outScript witness value =
     \<lparr>tx_version = 2, tx_lockTime = 0,
      tx_ins = [\<lparr>ti_txid = hu_txid u, ti_index = hu_vout u, ti_sequence = sequence, ti_script = scriptPubKey h,
        ti_amount = hu_amount u, ti_witness = witness\<rparr>],
      tx_outs = [\<lparr>to_script = outScript, to_amount = value\<rparr>]\<rparr>"

definition spend ::
  "crypto \<Rightarrow> signer \<Rightarrow> 'a spend_common_scheme \<Rightarrow> htlc \<Rightarrow> bytes \<Rightarrow> int \<Rightarrow> bytes \<Rightarrow> (bytes \<Rightarrow> bytes list) \<Rightarrow>
   htlc_error + signed_spend" where
  "spend C S a h leaf sequence key witness =
     (if \<not> rate_ok (sc_feeRate a) then Inl BadFeeRate
      else case decode_address S (sc_network a) (sc_to a) of None \<Rightarrow> Inl (NotAnAddress (sc_to a))
      | Some (_, outScript) \<Rightarrow>
        let u = sc_utxo a;
            build = spend_build u h sequence outScript;
            probe = build (Some (witness (replicate 64 0))) (hu_amount u);
            vsize = vsize_of S probe
        in if \<not> builds S probe then Inl LibraryThrew
        else case fee_ceil (sc_feeRate a) vsize of None \<Rightarrow> Inl BadFeeRate
        | Some fee \<Rightarrow>
          let value = hu_amount u - fee;
              dust = dustThreshold (sc_network a) outScript
          in if value < dust then Inl (BelowDust value dust)
          else let sighash = sighash_of S (build None value) 0 [scriptPubKey h] [hu_amount u] (Some (leaf, TAPSCRIPT_LEAF_VERSION));
                   done = build (Some (witness (sign_with C sighash key AUX_ZERO))) value
          in if \<not> builds S done then Inl LibraryThrew
          else Inr \<lparr>ss_hex = hex_of S done, ss_txid = id_of S done, ss_vsize = vsize, ss_fee = fee, ss_value = value\<rparr>)"

definition buildClaimTx :: "crypto \<Rightarrow> signer \<Rightarrow> claim_args \<Rightarrow> htlc_error + signed_spend" where
  "buildClaimTx C S a =
     (if hashOf C (ca_secret a) \<noteq> h_hash (sc_params a) then Inl SecretMismatch
      else if pub_of C (ca_receiverKey a) \<noteq> h_receiver (sc_params a) then Inl ReceiverKeyMismatch
      else case htlcScript C S (sc_params a) of Inl e \<Rightarrow> Inl e
      | Inr h \<Rightarrow> spend C S a h (claimLeaf h) CLAIM_SEQUENCE (ca_receiverKey a)
          (\<lambda>sig. [sig, ca_secret a, claimLeaf h, claimControlBlock h]))"

definition buildRefundTx :: "crypto \<Rightarrow> signer \<Rightarrow> refund_args \<Rightarrow> htlc_error + signed_spend" where
  "buildRefundTx C S a =
     (if pub_of C (ra_senderKey a) \<noteq> h_sender (sc_params a) then Inl SenderKeyMismatch
      else case htlcScript C S (sc_params a) of Inl e \<Rightarrow> Inl e
      | Inr h \<Rightarrow> spend C S a h (refundLeaf h) (h_refundBlocks (sc_params a)) (ra_senderKey a)
          (\<lambda>sig. [sig, refundLeaf h, refundControlBlock h]))"

definition preimage_in :: "crypto \<Rightarrow> bytes \<Rightarrow> bytes list \<Rightarrow> bool" where
  "preimage_in C hash w \<longleftrightarrow> length w = 4 \<and> length (w ! 1) = 32 \<and> sha C (w ! 1) = hash"

definition extractSecret :: "crypto \<Rightarrow> signer \<Rightarrow> string \<Rightarrow> bytes \<Rightarrow> htlc_error + bytes" where
  "extractSecret C S claimTxHex hash = (case raw_witnesses S claimTxHex of None \<Rightarrow> Inl LibraryThrew
     | Some ws \<Rightarrow> (case List.find (preimage_in C hash) ws of None \<Rightarrow> Inl NoPreimage | Some w \<Rightarrow> Inr (w ! 1)))"

section \<open>What the leaves demand\<close>

text \<open>
  The part of tapscript (BIP342, BIP112) the two leaves use, as the specification the builders are
  checked against. \<open>sig_ok key sig\<close> says that \<open>sig\<close> signs the spending transaction under \<open>key\<close>;
  \<open>sequence\<close> is the \<open>nSequence\<close> of the spending input.
\<close>

datatype stack_value = Bs bytes | Nm int

definition csv_ok :: "int \<Rightarrow> int \<Rightarrow> bool" where
  "csv_ok n sequence \<longleftrightarrow> 0 \<le> n \<and> sequence < 2 ^ 31 \<and> (sequence div 2 ^ 22) mod 2 = 0 \<and> n \<le> sequence mod 2 ^ 16"

fun run_op :: "(bytes \<Rightarrow> bytes) \<Rightarrow> (bytes \<Rightarrow> bytes \<Rightarrow> bool) \<Rightarrow> int \<Rightarrow> string \<Rightarrow> stack_value list \<Rightarrow> stack_value list option" where
  "run_op H sig_ok sequence op [] = None"
| "run_op H sig_ok sequence op (x # st) =
     (if op = ''SHA256'' then (case x of Bs b \<Rightarrow> Some (Bs (H b) # st) | Nm _ \<Rightarrow> None)
      else if op = ''DROP'' then Some st
      else if op = ''CHECKSEQUENCEVERIFY'' then (case x of Nm n \<Rightarrow> if csv_ok n sequence then Some (x # st) else None | Bs _ \<Rightarrow> None)
      else (case st of [] \<Rightarrow> None | y # st' \<Rightarrow>
        if op = ''EQUALVERIFY'' then (if x = y then Some st' else None)
        else if op = ''CHECKSIG'' then
          (case (x, y) of (Bs key, Bs sig) \<Rightarrow> Some (Nm (if sig_ok key sig then 1 else 0) # st') | _ \<Rightarrow> None)
        else None))"

fun run_script :: "(bytes \<Rightarrow> bytes) \<Rightarrow> (bytes \<Rightarrow> bytes \<Rightarrow> bool) \<Rightarrow> int \<Rightarrow> script_item list \<Rightarrow> stack_value list \<Rightarrow> stack_value list option" where
  "run_script H sig_ok sequence [] st = Some st"
| "run_script H sig_ok sequence (Push b # r) st = run_script H sig_ok sequence r (Bs b # st)"
| "run_script H sig_ok sequence (Num n # r) st = run_script H sig_ok sequence r (Nm n # st)"
| "run_script H sig_ok sequence (Opcode q # r) st = (case run_op H sig_ok sequence q st of
     None \<Rightarrow> None | Some st' \<Rightarrow> run_script H sig_ok sequence r st')"

text \<open>The witness elements below the leaf and the control block are the initial stack, the last on top.\<close>

definition accepts :: "(bytes \<Rightarrow> bytes) \<Rightarrow> (bytes \<Rightarrow> bytes \<Rightarrow> bool) \<Rightarrow> int \<Rightarrow> script_item list \<Rightarrow> bytes list \<Rightarrow> bool" where
  "accepts H sig_ok sequence items args \<longleftrightarrow>
     run_script H sig_ok sequence items (rev (map Bs args)) = Some [Nm 1]"

lemma claim_leaf_spec:
  "accepts H sig_ok sequence (claim_items p) [sig, secret] \<longleftrightarrow> H secret = h_hash p \<and> sig_ok (h_receiver p) sig"
  by (auto simp: accepts_def claim_items_def)

lemma refund_leaf_spec:
  "accepts H sig_ok sequence (refund_items p) [sig] \<longleftrightarrow> csv_ok (h_refundBlocks p) sequence \<and> sig_ok (h_sender p) sig"
  by (auto simp: accepts_def refund_items_def)

lemma csv_own_sequence: "1 \<le> n \<Longrightarrow> n \<le> MAX_REFUND_BLOCKS \<Longrightarrow> csv_ok n n"
  by (simp add: csv_ok_def MAX_REFUND_BLOCKS_def)

lemma csv_claim_sequence: "\<not> csv_ok n CLAIM_SEQUENCE"
  by (simp add: csv_ok_def CLAIM_SEQUENCE_def)

section \<open>What the builders make\<close>

lemma htlcScript_Inr:
  assumes "htlcScript C S p = Inr h"
  shows "length (h_hash p) = 32 \<and> length (h_receiver p) = 32 \<and> length (h_sender p) = 32
    \<and> 1 \<le> h_refundBlocks p \<and> h_refundBlocks p \<le> MAX_REFUND_BLOCKS
    \<and> claimLeaf h = script_encode S (claim_items p) \<and> refundLeaf h = script_encode S (refund_items p)
    \<and> outputKey h = fst (tweak_pub C NUMS_INTERNAL_KEY (merkleRoot h)) \<and> scriptPubKey h = p2tr_script S (outputKey h)"
  using assms by (auto simp: htlcScript_def check_xonly_def Let_def split: option.splits if_splits prod.splits)

text \<open>The single input and output of a spend, its fee and value.\<close>

definition spend_ok :: "crypto \<Rightarrow> signer \<Rightarrow> 'a spend_common_scheme \<Rightarrow> htlc \<Rightarrow> int \<Rightarrow> bytes list \<Rightarrow> signed_spend \<Rightarrow> tx \<Rightarrow> bool" where
  "spend_ok C S a h sequence wit s t \<longleftrightarrow>
     (\<exists>out kind. decode_address S (sc_network a) (sc_to a) = Some (kind, out)
        \<and> t = spend_build (sc_utxo a) h sequence out (Some wit) (ss_value s)
        \<and> dustThreshold (sc_network a) out \<le> ss_value s)
     \<and> fee_ceil (sc_feeRate a) (ss_vsize s) = Some (ss_fee s)
     \<and> ss_value s + ss_fee s = hu_amount (sc_utxo a)
     \<and> ss_hex s = hex_of S t \<and> ss_txid s = id_of S t \<and> builds S t"

lemma spend_Inr:
  assumes "spend C S a h leaf sequence key witness = Inr s"
  shows "\<exists>t sig. spend_ok C S a h sequence (witness sig) s t
    \<and> sig = sign_with C (sighash_of S (t\<lparr>tx_ins := map (\<lambda>i. i\<lparr>ti_witness := None\<rparr>) (tx_ins t)\<rparr>) 0
        [scriptPubKey h] [hu_amount (sc_utxo a)] (Some (leaf, TAPSCRIPT_LEAF_VERSION))) key AUX_ZERO"
proof -
  obtain kind out where dec: "decode_address S (sc_network a) (sc_to a) = Some (kind, out)"
    using assms by (auto simp: spend_def Let_def split: option.splits if_splits)
  define sig where "sig = sign_with C (sighash_of S (spend_build (sc_utxo a) h sequence out None (ss_value s)) 0
        [scriptPubKey h] [hu_amount (sc_utxo a)] (Some (leaf, TAPSCRIPT_LEAF_VERSION))) key AUX_ZERO"
  define t where "t = spend_build (sc_utxo a) h sequence out (Some (witness sig)) (ss_value s)"
  have "spend_ok C S a h sequence (witness sig) s t"
    using assms dec by (auto simp: spend_ok_def spend_def Let_def t_def sig_def split: option.splits if_splits)
  moreover have "t\<lparr>tx_ins := map (\<lambda>i. i\<lparr>ti_witness := None\<rparr>) (tx_ins t)\<rparr>
      = spend_build (sc_utxo a) h sequence out None (ss_value s)"
    by (simp add: t_def spend_build_def)
  ultimately show ?thesis unfolding sig_def by metis
qed

definition unsigned :: "tx \<Rightarrow> tx" where
  "unsigned t = t\<lparr>tx_ins := map (\<lambda>i. i\<lparr>ti_witness := None\<rparr>) (tx_ins t)\<rparr>"

definition spend_sighash :: "signer \<Rightarrow> htlc \<Rightarrow> 'a spend_common_scheme \<Rightarrow> bytes \<Rightarrow> tx \<Rightarrow> bytes" where
  "spend_sighash S h a leaf t =
     sighash_of S (unsigned t) 0 [scriptPubKey h] [hu_amount (sc_utxo a)] (Some (leaf, TAPSCRIPT_LEAF_VERSION))"

lemmas spend_InrD = spend_Inr[folded unsigned_def spend_sighash_def]

definition tx_witnesses :: "tx \<Rightarrow> bytes list list" where
  "tx_witnesses t = map (\<lambda>i. case ti_witness i of None \<Rightarrow> [] | Some w \<Rightarrow> w) (tx_ins t)"

lemma spend_ok_witnesses: "spend_ok C S a h q w s t \<Longrightarrow> tx_witnesses t = [w]"
  by (auto simp: spend_ok_def tx_witnesses_def spend_build_def)

section \<open>Examples\<close>

definition ex_crypto :: crypto where
  "ex_crypto = \<lparr>hmac = \<lambda>_ _. replicate 31 0 @ [1], sha = \<lambda>b. take 32 (b @ replicate 32 0), curve_n = 2,
     pub_of = id, sign_with = \<lambda>m k a. k, on_curve = \<lambda>_. True, tagged = \<lambda>_ b. take 32 b, leaf_hash = id,
     tweak_pub = \<lambda>k r. (k, 0), tweak_priv = id\<rparr>"

definition ex_key :: bytes where "ex_key = replicate 31 0 @ [1]"

definition ex_witness :: "bytes list" where
  "ex_witness = [ex_key, ex_key, [], concatBytes [[0xc0], NUMS_INTERNAL_KEY, []]]"

definition ex_signer :: signer where
  "ex_signer = \<lparr>script_encode = \<lambda>_. [], p2tr_script = \<lambda>q. [0x51, 0x20] @ q, p2tr_address = \<lambda>_ _. ''tb1'',
     decode_address = \<lambda>_ _. Some (''tr'', P2TR_SCRIPT), builds = \<lambda>t. True,
     vsize_of = \<lambda>_. 140, hex_of = \<lambda>t. concat (map (\<lambda>w. if w = ex_witness then ''a'' else ''b'') (tx_witnesses t)),
     id_of = \<lambda>_. ''id'', sighash_of = \<lambda>_ _ _ _ _. replicate 32 0,
     raw_witnesses = \<lambda>s. if s = ''a'' then Some [ex_witness] else None\<rparr>"

definition ex_params_htlc :: htlc_params where
  "ex_params_htlc = \<lparr>h_hash = ex_key, h_receiver = ex_key, h_sender = ex_key, h_refundBlocks = 72\<rparr>"

definition ex_claim :: claim_args where
  "ex_claim = \<lparr>sc_utxo = \<lparr>hu_txid = ''tx'', hu_vout = 0, hu_amount = 100000\<rparr>, sc_params = ex_params_htlc,
     sc_to = ''tb1'', sc_feeRate = Double 3 (- 1), sc_network = NETWORKS Bitcoin Testnet,
     ca_secret = ex_key, ca_receiverKey = ex_key\<rparr>"

definition ex_refund :: refund_args where
  "ex_refund = \<lparr>sc_utxo = \<lparr>hu_txid = ''tx'', hu_vout = 0, hu_amount = 100000\<rparr>, sc_params = ex_params_htlc,
     sc_to = ''tb1'', sc_feeRate = Double 3 (- 1), sc_network = NETWORKS Bitcoin Testnet, ra_senderKey = ex_key\<rparr>"

definition ex_spend :: signed_spend where
  "ex_spend = \<lparr>ss_hex = ''a'', ss_txid = ''id'', ss_vsize = 140, ss_fee = 210, ss_value = 99790\<rparr>"

definition ex_htlc :: htlc where
  "ex_htlc = \<lparr>claimLeaf = [], refundLeaf = [], claimControlBlock = 0xc0 # NUMS_INTERNAL_KEY,
     refundControlBlock = 0xc0 # NUMS_INTERNAL_KEY, merkleRoot = [], outputKey = NUMS_INTERNAL_KEY,
     scriptPubKey = [0x51, 0x20] @ NUMS_INTERNAL_KEY\<rparr>"

lemma ex_htlcScript:
  "1 \<le> n \<Longrightarrow> n \<le> 65535 \<Longrightarrow> htlcScript ex_crypto ex_signer \<lparr>h_hash = ex_key, h_receiver = ex_key, h_sender = ex_key, h_refundBlocks = n\<rparr> = Inr ex_htlc"
  by (simp add: htlcScript_def check_xonly_def ex_crypto_def ex_signer_def ex_htlc_def ex_key_def MAX_REFUND_BLOCKS_def
      Let_def concatBytes_def TAPSCRIPT_LEAF_VERSION_def)

lemma ex_sha: "sha ex_crypto ex_key = ex_key" by (simp add: ex_crypto_def ex_key_def)

lemma ex_spends:
  shows ex_claim_built: "buildClaimTx ex_crypto ex_signer ex_claim = Inr ex_spend"
    and ex_refund_built: "buildRefundTx ex_crypto ex_signer ex_refund = Inr (ex_spend\<lparr>ss_hex := ''b''\<rparr>)"
proof -
  have f: "fee_ceil (Double 3 (- 1)) 140 = Some 210" by code_simp
  have d: "dustThreshold (NETWORKS Bitcoin Testnet) P2TR_SCRIPT \<le> 99790" by code_simp
  have k: "pub_of ex_crypto ex_key = ex_key" "hashOf ex_crypto ex_key = ex_key"
    using ex_sha by (simp_all add: ex_crypto_def hashOf_def)
  have c: "concatBytes [[0xc0], NUMS_INTERNAL_KEY, []] = 0xc0 # NUMS_INTERNAL_KEY" by code_simp
  have ne: "ex_key \<noteq> []" by (simp add: ex_key_def)
  show "buildClaimTx ex_crypto ex_signer ex_claim = Inr ex_spend"
    using f d ex_htlcScript[of 72]
    by (simp add: buildClaimTx_def ex_claim_def ex_params_htlc_def k spend_def Let_def ex_htlc_def)
      (simp add: ex_signer_def rate_ok_def spend_build_def tx_witnesses_def ex_witness_def ex_spend_def ex_crypto_def c)
  show "buildRefundTx ex_crypto ex_signer ex_refund = Inr (ex_spend\<lparr>ss_hex := ''b''\<rparr>)"
    using f d ex_htlcScript[of 72]
    by (simp add: buildRefundTx_def ex_refund_def ex_params_htlc_def k spend_def Let_def ex_htlc_def)
      (simp add: ex_signer_def rate_ok_def spend_build_def tx_witnesses_def ex_witness_def ex_spend_def ex_crypto_def c ne)
qed

section \<open>Properties\<close>





text \<open>C27: the counterparty reads the secret off the claim: from the raw form of any claim built with a
  32-byte secret, \<open>extractSecret\<close> returns exactly that secret. The hypothesis on the library is that
  decoding the raw form of a transaction gives its witnesses back.\<close>

theorem claim_reveals:
  assumes "buildClaimTx C S a = Inr s" "length (ca_secret a) = 32"
    and "\<And>t. builds S t \<Longrightarrow> hex_of S t = ss_hex s \<Longrightarrow> raw_witnesses S (hex_of S t) = Some (tx_witnesses t)"
  shows "extractSecret C S (ss_hex s) (h_hash (sc_params a)) = Inr (ca_secret a)"
proof -
  obtain h where h: "sha C (ca_secret a) = h_hash (sc_params a)"
    and sp: "spend C S a h (claimLeaf h) CLAIM_SEQUENCE (ca_receiverKey a)
          (\<lambda>sig. [sig, ca_secret a, claimLeaf h, claimControlBlock h]) = Inr s"
    using assms(1) by (auto simp: buildClaimTx_def hashOf_def split: if_splits sum.splits)
  from spend_InrD[OF sp] obtain t sig where
    t: "spend_ok C S a h CLAIM_SEQUENCE [sig, ca_secret a, claimLeaf h, claimControlBlock h] s t" by blast
  have "raw_witnesses S (ss_hex s) = Some [[sig, ca_secret a, claimLeaf h, claimControlBlock h]]"
    using assms(3)[of t] t spend_ok_witnesses[OF t] by (simp add: spend_ok_def)
  then show ?thesis using h assms(2) by (simp add: extractSecret_def preimage_in_def)
qed

theorem claim_reveals_witness: "extractSecret ex_crypto ex_signer (ss_hex ex_spend) ex_key = Inr ex_key"
proof -
  have len: "length (concat (map (\<lambda>w. if w = ex_witness then ''a'' else ''b'') ws)) = length ws" for ws
    by (induction ws) auto
  have one: "ws = [ex_witness]" if "concat (map (\<lambda>w. if w = ex_witness then ''a'' else ''b'') ws) = ''a''" for ws
  proof -
    have "length ws = 1" using len[of ws] unfolding that by simp
    then obtain w where "ws = [w]" by (auto simp: length_Suc_conv)
    with that show ?thesis by (cases "w = ex_witness") simp_all
  qed
  have "raw_witnesses ex_signer (hex_of ex_signer t) = Some (tx_witnesses t)"
    if "hex_of ex_signer t = ss_hex ex_spend" for t
  proof -
    have "concat (map (\<lambda>w. if w = ex_witness then ''a'' else ''b'') (tx_witnesses t)) = ''a''"
      using that by (simp add: ex_signer_def ex_spend_def)
    then have "tx_witnesses t = [ex_witness]" by (rule one)
    then show ?thesis by (simp add: ex_signer_def)
  qed
  moreover have "length (ca_secret ex_claim) = 32" "ca_secret ex_claim = ex_key" "h_hash (sc_params ex_claim) = ex_key"
    by (simp_all add: ex_claim_def ex_key_def ex_params_htlc_def)
  ultimately show ?thesis using claim_reveals[OF ex_claim_built] by metis
qed

end
