(* ===== verification/Esplora.thy ===== *)
theory Esplora
  imports Networks Decimal
begin

text \<open>
  \<open>src/chains/esplora.ts\<close>: the explorer client of a swap daemon. Its state is the list of endpoints and
  the index of the one that answered last. \<open>fetch\<close> is the outside world: \<open>answers i url\<close> is what the
  \<open>i\<close>-th attempt of a request gets, a reply with its status and body or a network error (a refused
  connection, an abort on timeout). \<open>JSON.parse\<close> with the unchecked cast to a response type is the
  parameter \<open>decode\<close> of the calls that use it.
\<close>

section \<open>Configuration\<close>

definition netFromEnv :: "string option \<Rightarrow> net" where
  "netFromEnv v = (if v = Some ''mainnet'' then Mainnet else if v = Some ''regtest'' then Regtest else Testnet)"

fun split_comma :: "string \<Rightarrow> string list" where
  "split_comma [] = [[]]"
| "split_comma (c # s) = (if c = CHR '','' then [] # split_comma s
     else (case split_comma s of [] \<Rightarrow> [[c]] | w # ws \<Rightarrow> (c # w) # ws))"

definition strip_slashes :: "string \<Rightarrow> string" where
  "strip_slashes s = rev (dropWhile (\<lambda>c. c = CHR ''/'') (rev s))"

definition esploraBasesFromEnv :: "string option \<Rightarrow> string list option" where
  "esploraBasesFromEnv v =
     (let bases = filter (\<lambda>b. b \<noteq> []) (map (strip_slashes \<circ> trim) (split_comma (case v of None \<Rightarrow> [] | Some s \<Rightarrow> s)))
      in if bases \<noteq> [] then Some bases else None)"

fun DEFAULT_BASES :: "chain \<Rightarrow> net \<Rightarrow> string list" where
  "DEFAULT_BASES Bitcoin Mainnet = [''https://mempool.space/api'', ''https://blockstream.info/api'']"
| "DEFAULT_BASES Bitcoin Testnet = [''https://mempool.space/testnet4/api'', ''https://blockstream.info/testnet4/api'']"
| "DEFAULT_BASES Bitcoin Regtest = []"
| "DEFAULT_BASES Litecoin Mainnet = [''https://litecoinspace.org/api'']"
| "DEFAULT_BASES Litecoin Testnet = [''https://litecoinspace.org/testnet/api'']"
| "DEFAULT_BASES Litecoin Regtest = []"

section \<open>Responses\<close>

record etx_vout =
  eo_script :: "string option"
  eo_value :: int

record etx_vin =
  ei_txid :: "string option"
  ei_vout :: "int option"
  ei_witness :: "string list"

record etx =
  et_txid :: string
  et_vin :: "etx_vin list"
  et_vout :: "etx_vout list"
  et_confirmed :: bool
  et_height :: "int option"

record eutxo =
  eu_txid :: string
  eu_vout :: int
  eu_value :: int
  eu_confirmed :: bool

section \<open>The client\<close>

record esplora_options =
  eo_chain :: "chain option"
  eo_net :: "net option"
  eo_base :: "string option"
  eo_bases :: "string list option"
  eo_timeoutMs :: "int option"

record esplora =
  ec_chain :: chain
  ec_net :: net
  ec_bases :: "string list"
  ec_preferred :: nat
  ec_timeoutMs :: int

definition newEsplora :: "esplora_options \<Rightarrow> esplora" where
  "newEsplora opts = (let c = or_else (eo_chain opts) Bitcoin; n = or_else (eo_net opts) Testnet in
     \<lparr>ec_chain = c, ec_net = n,
      ec_bases = (if eo_base opts \<noteq> None \<and> eo_base opts \<noteq> Some [] then [the (eo_base opts)]
        else case eo_bases opts of Some (b # bs) \<Rightarrow> b # bs | _ \<Rightarrow> DEFAULT_BASES c n),
      ec_preferred = 0, ec_timeoutMs = or_else (eo_timeoutMs opts) 10000\<rparr>)"

definition esploraFromEnv :: "(chain \<Rightarrow> string option) \<Rightarrow> (chain \<Rightarrow> string option) \<Rightarrow> chain \<Rightarrow> int option \<Rightarrow> esplora" where
  "esploraFromEnv netEnv urlEnv c timeoutMs =
     newEsplora \<lparr>eo_chain = Some c, eo_net = Some (netFromEnv (netEnv c)), eo_base = None,
       eo_bases = esploraBasesFromEnv (urlEnv c), eo_timeoutMs = timeoutMs\<rparr>"

datatype reply = Reply int string | NetError string

datatype esplora_error =
    NoEndpoint chain net | AllFailed "string list" string
  | HttpError string int | Rejected_tx string

text \<open>The loop over \<open>i\<close>: \<open>left\<close> counts the attempts that remain.\<close>

fun try_bases ::
  "esplora \<Rightarrow> (nat \<Rightarrow> string \<Rightarrow> reply) \<Rightarrow> string \<Rightarrow> nat \<Rightarrow> nat \<Rightarrow> string \<Rightarrow> esplora \<times> (esplora_error + int \<times> string)" where
  "try_bases e answers path i 0 lastErr = (e, Inl (AllFailed (ec_bases e) lastErr))"
| "try_bases e answers path i (Suc left) lastErr =
     (let j = (ec_preferred e + i) mod length (ec_bases e);
          base = ec_bases e ! j
      in case answers i (base @ path) of
        NetError x \<Rightarrow> try_bases e answers path (Suc i) left x
      | Reply status body \<Rightarrow>
          if status \<ge> 500 then try_bases e answers path (Suc i) left (''esplora '' @ base @ '': HTTP '' @ show_int status)
          else (e\<lparr>ec_preferred := j\<rparr>, Inr (status, body)))"

definition req :: "esplora \<Rightarrow> (nat \<Rightarrow> string \<Rightarrow> reply) \<Rightarrow> string \<Rightarrow> esplora \<times> (esplora_error + int \<times> string)" where
  "req e answers path =
     (if ec_bases e = [] then (e, Inl (NoEndpoint (ec_chain e) (ec_net e)))
      else try_bases e answers path 0 (length (ec_bases e)) ''null'')"

definition http_ok :: "int \<Rightarrow> bool" where
  "http_ok status \<longleftrightarrow> 200 \<le> status \<and> status < 300"

definition on_reply ::
  "esplora \<times> (esplora_error + int \<times> string) \<Rightarrow> (int \<Rightarrow> string \<Rightarrow> esplora_error + 'a) \<Rightarrow> esplora \<times> (esplora_error + 'a)" where
  "on_reply r f = (case r of (e, Inl x) \<Rightarrow> (e, Inl x) | (e, Inr (status, body)) \<Rightarrow> (e, f status body))"

text \<open>\<open>Number(text.trim())\<close>: \<open>None\<close> is \<open>NaN\<close>.\<close>

definition tipHeight :: "esplora \<Rightarrow> (nat \<Rightarrow> string \<Rightarrow> reply) \<Rightarrow> esplora \<times> (esplora_error + int option)" where
  "tipHeight e answers = on_reply (req e answers ''/blocks/tip/height'') (\<lambda>status body.
     if \<not> http_ok status then Inl (HttpError ''tip'' status) else Inr (BigInt_of body))"

definition getTx ::
  "(string \<Rightarrow> esplora_error + 'tx) \<Rightarrow> esplora \<Rightarrow> (nat \<Rightarrow> string \<Rightarrow> reply) \<Rightarrow> string \<Rightarrow> esplora \<times> (esplora_error + 'tx option)" where
  "getTx decode e answers txid = on_reply (req e answers (''/tx/'' @ txid)) (\<lambda>status body.
     if status = 404 then Inr None
     else if \<not> http_ok status then Inl (HttpError ''tx'' status)
     else map_sum id Some (decode body))"

definition utxos ::
  "(string \<Rightarrow> esplora_error + 'u) \<Rightarrow> esplora \<Rightarrow> (nat \<Rightarrow> string \<Rightarrow> reply) \<Rightarrow> string \<Rightarrow> esplora \<times> (esplora_error + 'u)" where
  "utxos decode e answers address = on_reply (req e answers (''/address/'' @ address @ ''/utxo'')) (\<lambda>status body.
     if \<not> http_ok status then Inl (HttpError ''utxo'' status) else decode body)"

definition addressTxs ::
  "(string \<Rightarrow> esplora_error + 't) \<Rightarrow> esplora \<Rightarrow> (nat \<Rightarrow> string \<Rightarrow> reply) \<Rightarrow> string \<Rightarrow> esplora \<times> (esplora_error + 't)" where
  "addressTxs decode e answers address = on_reply (req e answers (''/address/'' @ address @ ''/txs'')) (\<lambda>status body.
     if \<not> http_ok status then Inl (HttpError ''txs'' status) else decode body)"

definition broadcast_tx :: "esplora \<Rightarrow> (nat \<Rightarrow> string \<Rightarrow> reply) \<Rightarrow> esplora \<times> (esplora_error + string)" where
  "broadcast_tx e answers = on_reply (req e answers ''/tx'') (\<lambda>status body.
     let b = trim body in
     if \<not> http_ok status then Inl (Rejected_tx (if b \<noteq> [] then b else show_int status)) else Inr b)"

section \<open>Failover\<close>

definition healthy :: "reply \<Rightarrow> bool" where
  "healthy r \<longleftrightarrow> (\<exists>status body. r = Reply status body \<and> status < 500)"

definition attempt_base :: "esplora \<Rightarrow> nat \<Rightarrow> nat" where
  "attempt_base e i = (ec_preferred e + i) mod length (ec_bases e)"

lemma try_bases_found:
  assumes "i \<le> k" "k < i + left" "answers k (ec_bases e ! attempt_base e k @ path) = Reply status body" "status < 500"
    and "\<forall>j. i \<le> j \<longrightarrow> j < k \<longrightarrow> \<not> healthy (answers j (ec_bases e ! attempt_base e j @ path))"
  shows "try_bases e answers path i left x = (e\<lparr>ec_preferred := attempt_base e k\<rparr>, Inr (status, body))"
  using assms
proof (induction left arbitrary: i x)
  case (Suc left)
  show ?case
  proof (cases "i = k")
    case True
    then show ?thesis using Suc.prems by (simp add: attempt_base_def Let_def)
  next
    case False
    then have "i < k" using Suc.prems(1) by simp
    then have "\<not> healthy (answers i (ec_bases e ! attempt_base e i @ path))" using Suc.prems(5) by blast
    moreover have "try_bases e answers path (Suc i) left y = (e\<lparr>ec_preferred := attempt_base e k\<rparr>, Inr (status, body))" for y
      by (rule Suc.IH) (use Suc.prems \<open>i < k\<close> in auto)
    ultimately show ?thesis
      by (cases "answers i (ec_bases e ! attempt_base e i @ path)") (auto simp: healthy_def attempt_base_def Let_def)
  qed
qed simp

lemma try_bases_none:
  assumes "\<forall>j. i \<le> j \<longrightarrow> j < i + left \<longrightarrow> \<not> healthy (answers j (ec_bases e ! attempt_base e j @ path))"
  shows "\<exists>y. try_bases e answers path i left x = (e, Inl (AllFailed (ec_bases e) y))"
  using assms
proof (induction left arbitrary: i x)
  case (Suc left)
  have "\<not> healthy (answers i (ec_bases e ! attempt_base e i @ path))" using Suc.prems by simp
  moreover have "\<exists>y. try_bases e answers path (Suc i) left z = (e, Inl (AllFailed (ec_bases e) y))" for z
    by (rule Suc.IH) (use Suc.prems in auto)
  ultimately show ?case
    by (cases "answers i (ec_bases e ! attempt_base e i @ path)") (auto simp: healthy_def attempt_base_def Let_def)
qed simp

lemma attempt_bases_all:
  assumes "ec_bases e \<noteq> []" "b < length (ec_bases e)"
  shows "\<exists>i < length (ec_bases e). attempt_base e i = b"
proof -
  let ?n = "length (ec_bases e)"
  define i where "i = (b + ?n - ec_preferred e mod ?n) mod ?n"
  have lt: "ec_preferred e mod ?n < ?n" using assms(1) by simp
  have "attempt_base e i = (ec_preferred e mod ?n + (b + ?n - ec_preferred e mod ?n)) mod ?n"
    unfolding attempt_base_def i_def by (simp add: mod_simps)
  also have "\<dots> = (b + ?n) mod ?n" using lt by simp
  finally have "attempt_base e i = b" using assms(2) by simp
  moreover have "i < ?n" using assms(1) by (simp add: i_def)
  ultimately show ?thesis by blast
qed

text \<open>C28: a request fails only when every endpoint fails, and never skips a healthy one. The reply is the
  first one below 500 in the order that starts at the endpoint that answered last, a 4xx included, and
  that endpoint is where the next request starts; without one every endpoint has been asked and the
  client is unchanged.\<close>

theorem req_failover:
  assumes "ec_bases e \<noteq> []"
  shows "case req e answers path of
      (e', Inr (status, body)) \<Rightarrow> \<exists>k < length (ec_bases e).
        answers k (ec_bases e ! attempt_base e k @ path) = Reply status body \<and> status < 500
        \<and> (\<forall>j < k. \<not> healthy (answers j (ec_bases e ! attempt_base e j @ path)))
        \<and> e' = e\<lparr>ec_preferred := attempt_base e k\<rparr> \<and> attempt_base e k < length (ec_bases e)
    | (e', Inl _) \<Rightarrow> e' = e \<and> (\<forall>b < length (ec_bases e). \<exists>i < length (ec_bases e).
        attempt_base e i = b \<and> \<not> healthy (answers i (ec_bases e ! b @ path)))"
proof (cases "\<exists>k. k < length (ec_bases e) \<and> healthy (answers k (ec_bases e ! attempt_base e k @ path))")
  case True
  define P where "P k \<longleftrightarrow> k < length (ec_bases e) \<and> healthy (answers k (ec_bases e ! attempt_base e k @ path))" for k
  define k where "k = (LEAST k. P k)"
  have k: "P k" unfolding k_def using True P_def by (metis LeastI_ex)
  have before: "\<not> P j" if "j < k" for j using that not_less_Least unfolding k_def by blast
  from k obtain status body where r: "answers k (ec_bases e ! attempt_base e k @ path) = Reply status body" "status < 500"
    by (auto simp: P_def healthy_def)
  have early: "\<forall>j. j < k \<longrightarrow> \<not> healthy (answers j (ec_bases e ! attempt_base e j @ path))"
    using before k unfolding P_def by auto
  have "req e answers path = (e\<lparr>ec_preferred := attempt_base e k\<rparr>, Inr (status, body))"
    using try_bases_found[of 0 k "length (ec_bases e)" answers e path status body] k r early assms
    by (simp add: req_def P_def)
  moreover have "attempt_base e k < length (ec_bases e)" using assms by (simp add: attempt_base_def)
  ultimately show ?thesis using r early k unfolding P_def by auto
next
  case False
  then obtain y where "req e answers path = (e, Inl (AllFailed (ec_bases e) y))"
    using try_bases_none[of 0 "length (ec_bases e)" answers e path] assms by (auto simp: req_def)
  moreover have "\<exists>i < length (ec_bases e). attempt_base e i = b \<and> \<not> healthy (answers i (ec_bases e ! b @ path))"
    if "b < length (ec_bases e)" for b
    using attempt_bases_all[OF assms that] False by blast
  ultimately show ?thesis by simp
qed

definition ex_client :: esplora where
  "ex_client = \<lparr>ec_chain = Bitcoin, ec_net = Testnet, ec_bases = [''a'', ''b''], ec_preferred = 1, ec_timeoutMs = 10000\<rparr>"

theorem req_failover_witness:
  "req ex_client (\<lambda>i url. if url = ''b/tip'' then Reply 503 ''busy'' else Reply 404 ''none'') ''/tip''
     = (ex_client\<lparr>ec_preferred := 0\<rparr>, Inr (404, ''none''))"
proof -
  let ?w = "\<lambda>i url. if url = ''b/tip'' then Reply 503 ''busy'' else Reply 404 ''none''"
  have "req ex_client ?w ''/tip'' = (ex_client\<lparr>ec_preferred := 0\<rparr>, Inr (404, ''none''))" by code_simp
  moreover have "ec_bases ex_client \<noteq> []" by (simp add: ex_client_def)
  from req_failover[OF this, of ?w "''/tip''"] have "fst (req ex_client ?w ''/tip'') = ex_client\<lparr>ec_preferred := 0\<rparr>"
    unfolding calculation by auto
  ultimately show ?thesis by simp
qed

end
