(* ===== verification/Effects.thy ===== *)
theory Effects
  imports Fold Htlc Esplora
begin

text \<open>
  The swap daemon's data (\<open>src/swap/engine.ts\<close>: stages, persisted sides, live observations, policy) and
  the effects its asynchronous code has. A program over this state is a function \<open>'a prog\<close>: it changes
  the run state, and ends with a value, with the \<open>return\<close> of the enclosing method, or with a throw; what
  was changed before a throw stays changed, as it does in the code.

  The outside world answers every call to an explorer. \<open>world\<close> maps the number of events so far and the
  request to the answer, so it may answer the same request differently each time. The run state's log
  lists the calls and the writes to disk in order: a crash after any of its prefixes is a possible run.
\<close>

section \<open>Data\<close>

datatype stage = Proofs | WaitingTakerLock | WaitingMakerLock | Claiming | WaitingCounterClaim
  | RefundPending | Refunded | Finished | CancelledSwap | Failed

definition TERMINAL :: "stage list" where
  "TERMINAL = [Refunded, Finished, CancelledSwap, Failed]"

datatype pay_error =
    PayBadRate | PayNotAddress string | PayNotHtlcAddress string | PayBelowDust int int | InsufficientFunds int int
  | ProofShort int int | WrongTxid string string | PayLibraryThrew

datatype fault =
    KeyFault key_error | HtlcFault htlc_error | DigestFault digest_error | CheckFault check_error
  | PayFault pay_error | ExplorerFault string | UnknownIdentity string | BadAmount | NoHeight

text \<open>The texts a side's note can hold, one constructor per message of the code.\<close>

datatype side_note =
    NFault fault | NPosting string fault | NBroadcast chain fault | NVerifying fault
  | NNoIdentity | NNotDerivedTaker | NNotDerivedMaker
  | NMakerNeverProved | NMatchCancelled | NMakerAborted | NProofsMissed | NMatchGone
  | NVerifyingMaker | NMakerProofInvalid bad_proof | NLockWindowClosed | NFundingDisabled
  | NMakerHolds int int | NTakerHolds int int | NLateInWindow int int
  | NMakerNeverClaimed | NMakerRefunded | NMakerWillNotLock
  | NTakerSpent | NTakerProofInvalid bad_proof | NTakerNeverLocked | NConfirmations int int
  | NTakerNeverConfirmed | NWindowTooShort int int | NTakerRefunded | NTakerNeverClaimed
  | NSpentWithoutSecret | NTheirLockSpent | NWaitTheirLock | NLockInFlight

record outpoint =
  op_tx :: string
  op_out :: int

record stored_tx =
  st_txid :: string
  st_hex :: string

record lock_info =
  li_point :: outpoint
  li_confs :: "int option"

record swap_terms =
  t_offerId :: string
  t_maker :: string
  t_taker :: string
  t_takeSeq :: int
  t_makerChain :: chain
  t_makerAmount :: string
  t_makerRefundBlocks :: int
  t_takerChain :: chain
  t_takerAmount :: string
  t_takerRefundBlocks :: int
  t_hash :: string
  t_takerKey :: string
  t_makerKey :: "string option"
  t_takenAt :: int
  t_proofDeadline :: int
  t_pruneAt :: int

record side =
  s_role :: swap_role
  s_identity :: string
  s_stage :: stage
  s_note :: "side_note option"
  s_theirProof :: "proof_check option"
  s_lockIntentAt :: "int option"
  s_myLock :: "outpoint option"
  s_theirLock :: "outpoint option"
  s_claim :: "stored_tx option"
  s_refund :: "stored_tx option"
  s_abort :: "side_note option"
  s_lockPosted :: bool

datatype deadline = ProofsLeft int | TakerLockLeft int

record live =
  lv_myLock :: "lock_info option"
  lv_theirLock :: "lock_info option"
  lv_refundIn :: "int option option"
  lv_deadline :: "deadline option"

definition no_live :: live where
  "no_live = \<lparr>lv_myLock = None, lv_theirLock = None, lv_refundIn = None, lv_deadline = None\<rparr>"

record swap_policy =
  sp_confirmations :: "chain \<Rightarrow> int"
  sp_feeRate :: "chain \<Rightarrow> js_number"
  sp_windowMarginSecs :: int
  sp_lockMarginAnchors :: int

datatype engine_mode = ModeOn | NoLock

record wallet =
  wl_chain :: chain
  wl_net :: net
  wl_key :: bytes
  wl_own :: "string list"
  wl_spent :: "string list"

section \<open>The outside world\<close>

text \<open>What the explorers answer (\<open>Inl\<close> is the message of a throw; a tip of \<open>None\<close> is \<open>NaN\<close>), and the
  wall clock.\<close>

record world =
  w_txs :: "nat \<Rightarrow> chain \<Rightarrow> string \<Rightarrow> string + etx list"
  w_tip :: "nat \<Rightarrow> chain \<Rightarrow> string + int option"
  w_tx :: "nat \<Rightarrow> chain \<Rightarrow> string \<Rightarrow> string + etx option"
  w_utxos :: "nat \<Rightarrow> chain \<Rightarrow> string \<Rightarrow> string + eutxo list"
  w_send :: "nat \<Rightarrow> chain \<Rightarrow> string \<Rightarrow> string + string"
  w_now :: "nat \<Rightarrow> int"

text \<open>The work a posted operation does in the background: prove funds and submit, or submit.\<close>

datatype post_job = ProofJob chain int "string option" | OpJob op

datatype swap_event =
    AskTxs chain string | AskTip chain | AskTx chain string | AskUtxos chain string | CheckProof chain
  | Sent chain string | Funding chain string int | Posted post_job
  | Saved side | SavedFile string | DroppedFile string

record post =
  ps_pending :: bool
  ps_at :: "int option"

record run =
  r_side :: side
  r_live :: live
  r_posts :: "(string, post) jsmap"
  r_wallets :: "(string, wallet) jsmap"
  r_log :: "swap_event list"

section \<open>Programs\<close>

datatype 'a outcome = Done 'a | Returned | Threw fault

type_synonym 'a prog = "run \<Rightarrow> run \<times> 'a outcome"

definition ret :: "'a \<Rightarrow> 'a prog" where
  "ret a = (\<lambda>r. (r, Done a))"

definition bnd :: "'a prog \<Rightarrow> ('a \<Rightarrow> 'b prog) \<Rightarrow> 'b prog" where
  "bnd m f = (\<lambda>r. case m r of (r', Done a) \<Rightarrow> f a r' | (r', Returned) \<Rightarrow> (r', Returned) | (r', Threw e) \<Rightarrow> (r', Threw e))"

definition andthen :: "unit prog \<Rightarrow> 'a prog \<Rightarrow> 'a prog" where
  "andthen m k = bnd m (\<lambda>_. k)"

definition leave :: "'a prog" where
  "leave = (\<lambda>r. (r, Returned))"

definition throw :: "fault \<Rightarrow> 'a prog" where
  "throw e = (\<lambda>r. (r, Threw e))"

definition in_method :: "unit prog \<Rightarrow> unit prog" where
  "in_method m = (\<lambda>r. case m r of (r', Returned) \<Rightarrow> (r', Done ()) | x \<Rightarrow> x)"

definition catch :: "'a prog \<Rightarrow> (fault \<Rightarrow> 'a prog) \<Rightarrow> 'a prog" where
  "catch m h = (\<lambda>r. case m r of (r', Threw e) \<Rightarrow> h e r' | x \<Rightarrow> x)"

definition getr :: "run prog" where
  "getr = (\<lambda>r. (r, Done r))"

definition upd_side :: "(side \<Rightarrow> side) \<Rightarrow> unit prog" where
  "upd_side f = (\<lambda>r. (r\<lparr>r_side := f (r_side r)\<rparr>, Done ()))"

definition upd_live :: "(live \<Rightarrow> live) \<Rightarrow> unit prog" where
  "upd_live f = (\<lambda>r. (r\<lparr>r_live := f (r_live r)\<rparr>, Done ()))"

definition upd_posts :: "((string, post) jsmap \<Rightarrow> (string, post) jsmap) \<Rightarrow> unit prog" where
  "upd_posts f = (\<lambda>r. (r\<lparr>r_posts := f (r_posts r)\<rparr>, Done ()))"

definition upd_wallets :: "((string, wallet) jsmap \<Rightarrow> (string, wallet) jsmap) \<Rightarrow> unit prog" where
  "upd_wallets f = (\<lambda>r. (r\<lparr>r_wallets := f (r_wallets r)\<rparr>, Done ()))"

definition emit :: "swap_event \<Rightarrow> unit prog" where
  "emit ev = (\<lambda>r. (r\<lparr>r_log := r_log r @ [ev]\<rparr>, Done ()))"

definition ask :: "swap_event \<Rightarrow> (nat \<Rightarrow> string + 'a) \<Rightarrow> 'a prog" where
  "ask ev answer = (\<lambda>r. (r\<lparr>r_log := r_log r @ [ev]\<rparr>,
     case answer (length (r_log r)) of Inl msg \<Rightarrow> Threw (ExplorerFault msg) | Inr a \<Rightarrow> Done a))"

definition of_sum :: "('e \<Rightarrow> fault) \<Rightarrow> 'e + 'a \<Rightarrow> 'a prog" where
  "of_sum f x = (case x of Inl e \<Rightarrow> throw (f e) | Inr a \<Rightarrow> ret a)"

definition when_p :: "bool \<Rightarrow> unit prog \<Rightarrow> unit prog" where
  "when_p b m = (if b then m else ret ())"

section \<open>Conditions on programs\<close>

text \<open>
  \<open>wp m Q R E r\<close>: run from \<open>r\<close>, the program ends with a value in \<open>Q\<close>, with a return in \<open>R\<close>, or with a
  throw in \<open>E\<close>.
\<close>

definition wp :: "'a prog \<Rightarrow> ('a \<Rightarrow> run \<Rightarrow> bool) \<Rightarrow> (run \<Rightarrow> bool) \<Rightarrow> (fault \<Rightarrow> run \<Rightarrow> bool) \<Rightarrow> run \<Rightarrow> bool" where
  "wp m Q R E r = (case m r of (r', Done a) \<Rightarrow> Q a r' | (r', Returned) \<Rightarrow> R r' | (r', Threw e) \<Rightarrow> E e r')"

named_theorems wps \<open>weakest preconditions of the program combinators\<close>

lemma wp_ret [wps]: "wp (ret a) Q R E r = Q a r" by (simp add: wp_def ret_def)
lemma wp_bnd [wps]: "wp (bnd m f) Q R E r = wp m (\<lambda>a. wp (f a) Q R E) R E r"
  by (auto simp: wp_def bnd_def split: prod.splits outcome.splits)
lemma wp_andthen [wps]: "wp (andthen m k) Q R E r = wp m (\<lambda>_. wp k Q R E) R E r"
  by (simp add: andthen_def wps)
lemma wp_leave [wps]: "wp leave Q R E r = R r" by (simp add: wp_def leave_def)
lemma wp_throw [wps]: "wp (throw e) Q R E r = E e r" by (simp add: wp_def throw_def)
lemma wp_in_method [wps]: "wp (in_method m) Q R E r = wp m Q (Q ()) E r"
  by (auto simp: wp_def in_method_def split: prod.splits outcome.splits)
lemma wp_catch [wps]: "wp (catch m h) Q R E r = wp m Q R (\<lambda>e. wp (h e) Q R E) r"
  by (auto simp: wp_def catch_def split: prod.splits outcome.splits)
lemma wp_getr [wps]: "wp getr Q R E r = Q r r" by (simp add: wp_def getr_def)
lemma wp_upd_side [wps]: "wp (upd_side f) Q R E r = Q () (r\<lparr>r_side := f (r_side r)\<rparr>)"
  by (simp add: wp_def upd_side_def)
lemma wp_upd_live [wps]: "wp (upd_live f) Q R E r = Q () (r\<lparr>r_live := f (r_live r)\<rparr>)"
  by (simp add: wp_def upd_live_def)
lemma wp_upd_posts [wps]: "wp (upd_posts f) Q R E r = Q () (r\<lparr>r_posts := f (r_posts r)\<rparr>)"
  by (simp add: wp_def upd_posts_def)
lemma wp_upd_wallets [wps]: "wp (upd_wallets f) Q R E r = Q () (r\<lparr>r_wallets := f (r_wallets r)\<rparr>)"
  by (simp add: wp_def upd_wallets_def)
lemma wp_emit [wps]: "wp (emit ev) Q R E r = Q () (r\<lparr>r_log := r_log r @ [ev]\<rparr>)"
  by (simp add: wp_def emit_def)
lemma wp_ask [wps]: "wp (ask ev ans) Q R E r =
    (case ans (length (r_log r)) of Inl msg \<Rightarrow> E (ExplorerFault msg) (r\<lparr>r_log := r_log r @ [ev]\<rparr>)
     | Inr a \<Rightarrow> Q a (r\<lparr>r_log := r_log r @ [ev]\<rparr>))"
  by (simp add: wp_def ask_def split: sum.splits)
lemma wp_of_sum [wps]: "wp (of_sum f x) Q R E r = (case x of Inl e \<Rightarrow> E (f e) r | Inr a \<Rightarrow> Q a r)"
  by (simp add: of_sum_def wps split: sum.splits)
lemma wp_when [wps]: "wp (when_p b m) Q R E r = (if b then wp m Q R E r else Q () r)"
  by (simp add: when_p_def wps)
lemma wp_if [wps]: "wp (if b then m else k) Q R E r = (if b then wp m Q R E r else wp k Q R E r)"
  by simp

lemma wp_Let [wps]: "wp (Let a f) Q R E r = wp (f a) Q R E r"
  by simp
lemma wp_case_option [wps]: "wp (case x of None \<Rightarrow> m | Some a \<Rightarrow> f a) Q R E r =
    (case x of None \<Rightarrow> wp m Q R E r | Some a \<Rightarrow> wp (f a) Q R E r)"
  by (simp split: option.splits)
lemma wp_case_sum [wps]: "wp (case x of Inl a \<Rightarrow> m a | Inr b \<Rightarrow> f b) Q R E r =
    (case x of Inl a \<Rightarrow> wp (m a) Q R E r | Inr b \<Rightarrow> wp (f b) Q R E r)"
  by (simp split: sum.splits)
lemma wp_case_prod [wps]: "wp (case x of (a, b) \<Rightarrow> f a b) Q R E r = (case x of (a, b) \<Rightarrow> wp (f a b) Q R E r)"
  by (simp split: prod.splits)

lemma wp_mono:
  assumes "wp m Q R E r" "\<And>a r'. Q a r' \<Longrightarrow> Q' a r'" "\<And>r'. R r' \<Longrightarrow> R' r'" "\<And>e r'. E e r' \<Longrightarrow> E' e r'"
  shows "wp m Q' R' E' r"
  using assms by (auto simp: wp_def split: prod.splits outcome.splits)

text \<open>
  \<open>keeps P m\<close>: wherever \<open>m\<close> ends, \<open>P\<close> relates the state it started in to the one it ended in.
  \<open>keeps_if N P m\<close> asks for it only from states in \<open>N\<close>.
\<close>

lemma bnd_Done: "snd (m r) = Done a \<Longrightarrow> bnd m f r = f a (fst (m r))"
  by (auto simp: bnd_def split: prod.splits outcome.splits)

lemma bnd_stop: "snd (m r) = Returned \<or> snd (m r) = Threw e \<Longrightarrow> fst (bnd m f r) = fst (m r)"
  by (auto simp: bnd_def split: prod.splits)

definition keeps :: "(run \<Rightarrow> run \<Rightarrow> bool) \<Rightarrow> 'a prog \<Rightarrow> bool" where
  "keeps P m \<longleftrightarrow> (\<forall>r. P r (fst (m r)))"

definition keeps_if :: "(run \<Rightarrow> bool) \<Rightarrow> (run \<Rightarrow> run \<Rightarrow> bool) \<Rightarrow> 'a prog \<Rightarrow> bool" where
  "keeps_if N P m \<longleftrightarrow> (\<forall>r. N r \<longrightarrow> P r (fst (m r)))"

lemma keepsD: "keeps P m \<Longrightarrow> P r (fst (m r))"
  by (simp add: keeps_def)

lemma keeps_ifD: "keeps_if N P m \<Longrightarrow> N r \<Longrightarrow> P r (fst (m r))"
  by (simp add: keeps_if_def)

text \<open>
  An effect: \<open>P\<close> is what a program may do to the state, \<open>calm\<close> what it may do outside its critical
  section, \<open>N\<close> the states from which the critical section may be entered. The rules take a property of a
  step apart along its text.
\<close>

locale effect =
  fixes calm P :: "run \<Rightarrow> run \<Rightarrow> bool" and N :: "run \<Rightarrow> bool"
  assumes calm_refl: "calm r r"
    and calm_trans: "calm r s \<Longrightarrow> calm s t \<Longrightarrow> calm r t"
    and P_trans: "P r s \<Longrightarrow> P s t \<Longrightarrow> P r t"
    and calm_P: "calm r s \<Longrightarrow> P r s"
    and calm_N: "calm r s \<Longrightarrow> N r \<Longrightarrow> N s"
begin

lemma calm_ret: "keeps calm (ret a)" and calm_leave: "keeps calm leave" and calm_throw: "keeps calm (throw e)"
  and calm_getr: "keeps calm getr"
  by (simp_all add: keeps_def ret_def leave_def throw_def getr_def calm_refl)

lemma calm_bnd:
  assumes "keeps calm m" "\<And>a. keeps calm (f a)"
  shows "keeps calm (bnd m f)"
  unfolding keeps_def
proof
  fix r
  show "calm r (fst (bnd m f r))"
    using keepsD[OF assms(1), of r] keepsD[OF assms(2)] calm_trans[of r "fst (m r)"]
    by (auto simp: bnd_def split: prod.splits outcome.splits)
qed

lemma calm_andthen: "keeps calm m \<Longrightarrow> keeps calm k \<Longrightarrow> keeps calm (andthen m k)"
  unfolding andthen_def by (rule calm_bnd)

lemma calm_in_method: "keeps calm m \<Longrightarrow> keeps calm (in_method m)"
  unfolding keeps_def in_method_def by (auto split: prod.splits outcome.splits) (metis fst_conv)+

lemma calm_catch: "keeps calm m \<Longrightarrow> (\<And>e. keeps calm (h e)) \<Longrightarrow> keeps calm (catch m h)"
  unfolding keeps_def catch_def by (auto split: prod.splits outcome.splits) (metis calm_trans fst_conv)+

lemma calm_when: "(b \<Longrightarrow> keeps calm m) \<Longrightarrow> keeps calm (when_p b m)"
  by (simp add: when_p_def calm_ret)

lemma calm_if: "(b \<Longrightarrow> keeps calm m) \<Longrightarrow> (\<not> b \<Longrightarrow> keeps calm k) \<Longrightarrow> keeps calm (if b then m else k)"
  by simp

lemma calm_of_sum: "keeps calm (of_sum f x)"
  by (cases x) (simp_all add: of_sum_def calm_ret calm_throw)

lemma calm_option:
  "(x = None \<Longrightarrow> keeps calm m) \<Longrightarrow> (\<And>a. x = Some a \<Longrightarrow> keeps calm (f a)) \<Longrightarrow>
   keeps calm (case x of None \<Rightarrow> m | Some a \<Rightarrow> f a)"
  by (cases x) simp_all

lemma calm_prod: "(\<And>a b. x = (a, b) \<Longrightarrow> keeps calm (f a b)) \<Longrightarrow> keeps calm (case x of (a, b) \<Rightarrow> f a b)"
  by (cases x) simp

lemma calm_sum:
  "(\<And>a. x = Inl a \<Longrightarrow> keeps calm (f a)) \<Longrightarrow> (\<And>b. x = Inr b \<Longrightarrow> keeps calm (g b)) \<Longrightarrow>
   keeps calm (case x of Inl a \<Rightarrow> f a | Inr b \<Rightarrow> g b)"
  by (cases x) simp_all

lemma calm_Let: "keeps calm (f a) \<Longrightarrow> keeps calm (Let a f)"
  by simp

lemmas calm_rules = calm_ret calm_leave calm_throw calm_getr calm_of_sum calm_in_method calm_catch calm_when calm_if
  calm_option calm_prod calm_sum calm_Let calm_andthen calm_bnd

lemma P_calm: "keeps calm m \<Longrightarrow> keeps P m"
  by (auto simp: keeps_def intro: calm_P)

lemma P_result:
  assumes "keeps P m" "\<And>a r s. m r = (s, Done a) \<Longrightarrow> keeps P (f a)"
  shows "keeps P (bnd m f)"
  unfolding keeps_def
proof
  fix r
  show "P r (fst (bnd m f r))"
  proof (cases "snd (m r)")
    case (Done a)
    then have "m r = (fst (m r), Done a)" by (metis prod.collapse)
    from keepsD[OF assms(2)[OF this]] show ?thesis
      using P_trans[OF keepsD[OF assms(1), of r]] by (simp add: bnd_Done[of m r a f] Done)
  qed (use keepsD[OF assms(1), of r] in \<open>simp_all add: bnd_stop\<close>)
qed

lemma P_bnd: "keeps P m \<Longrightarrow> (\<And>a. keeps P (f a)) \<Longrightarrow> keeps P (bnd m f)"
  by (rule P_result)

lemma P_andthen: "keeps P m \<Longrightarrow> keeps P k \<Longrightarrow> keeps P (andthen m k)"
  unfolding andthen_def by (rule P_bnd)

lemma P_in_method: "keeps P m \<Longrightarrow> keeps P (in_method m)"
  unfolding keeps_def in_method_def by (auto split: prod.splits outcome.splits) (metis fst_conv)+

lemma P_if: "(b \<Longrightarrow> keeps P m) \<Longrightarrow> (\<not> b \<Longrightarrow> keeps P k) \<Longrightarrow> keeps P (if b then m else k)"
  by simp

lemma P_option:
  "(x = None \<Longrightarrow> keeps P m) \<Longrightarrow> (\<And>a. x = Some a \<Longrightarrow> keeps P (f a)) \<Longrightarrow>
   keeps P (case x of None \<Rightarrow> m | Some a \<Rightarrow> f a)"
  by (cases x) simp_all

lemma P_prod: "(\<And>a b. x = (a, b) \<Longrightarrow> keeps P (f a b)) \<Longrightarrow> keeps P (case x of (a, b) \<Rightarrow> f a b)"
  by (cases x) simp

lemma P_Let: "keeps P (f a) \<Longrightarrow> keeps P (Let a f)"
  by simp

lemma N_calm: "keeps calm m \<Longrightarrow> keeps_if N P m"
  by (auto simp: keeps_def keeps_if_def intro: calm_P)

text \<open>Calm before the critical section, calm after it.\<close>

lemma N_result:
  assumes "keeps calm m" "\<And>a r s. m r = (s, Done a) \<Longrightarrow> keeps_if N P (f a)"
  shows "keeps_if N P (bnd m f)"
  unfolding keeps_if_def
proof (intro allI impI)
  fix r assume "N r"
  then have c: "calm r (fst (m r))" "N (fst (m r))" using keepsD[OF assms(1), of r] calm_N by blast+
  show "P r (fst (bnd m f r))"
  proof (cases "snd (m r)")
    case (Done a)
    then have "m r = (fst (m r), Done a)" by (metis prod.collapse)
    from keeps_ifD[OF assms(2)[OF this] c(2)] show ?thesis
      using P_trans[OF calm_P[OF c(1)]] by (simp add: bnd_Done[of m r a f] Done)
  qed (use calm_P[OF c(1)] in \<open>simp_all add: bnd_stop\<close>)
qed

lemma N_bnd: "keeps calm m \<Longrightarrow> (\<And>a. keeps_if N P (f a)) \<Longrightarrow> keeps_if N P (bnd m f)"
  by (rule N_result)

lemma N_andthen: "keeps calm m \<Longrightarrow> keeps_if N P k \<Longrightarrow> keeps_if N P (andthen m k)"
  unfolding andthen_def by (rule N_bnd)

lemma N_then:
  assumes "keeps_if N P m" "\<And>a. keeps calm (f a)"
  shows "keeps_if N P (bnd m f)"
  unfolding keeps_if_def
proof (intro allI impI)
  fix r assume "N r"
  then have "P r (fst (m r))" by (rule keeps_ifD[OF assms(1)])
  then show "P r (fst (bnd m f r))"
    using calm_P[OF keepsD[OF assms(2)]] P_trans[of r "fst (m r)"]
    by (auto simp: bnd_def split: prod.splits outcome.splits)
qed

lemma N_if: "(b \<Longrightarrow> keeps_if N P m) \<Longrightarrow> (\<not> b \<Longrightarrow> keeps_if N P k) \<Longrightarrow> keeps_if N P (if b then m else k)"
  by simp

lemma N_option:
  "(x = None \<Longrightarrow> keeps_if N P m) \<Longrightarrow> (\<And>a. x = Some a \<Longrightarrow> keeps_if N P (f a)) \<Longrightarrow>
   keeps_if N P (case x of None \<Rightarrow> m | Some a \<Rightarrow> f a)"
  by (cases x) simp_all

lemma N_Let: "keeps_if N P (f a) \<Longrightarrow> keeps_if N P (Let a f)"
  by simp

lemma N_prod: "(\<And>a b. x = (a, b) \<Longrightarrow> keeps_if N P (f a b)) \<Longrightarrow> keeps_if N P (case x of (a, b) \<Rightarrow> f a b)"
  by (cases x) simp

lemma N_in_method: "keeps_if N P m \<Longrightarrow> keeps_if N P (in_method m)"
  unfolding keeps_if_def in_method_def by (auto split: prod.splits outcome.splits)

lemma N_getr: "(\<And>r. N r \<Longrightarrow> keeps_if N P (f r)) \<Longrightarrow> keeps_if N P (bnd getr f)"
  by (simp add: keeps_if_def bnd_def getr_def)

text \<open>Entering the section: the state read decides whether it is one of \<open>N\<close>.\<close>

lemma P_enter:
  assumes "\<And>r. \<not> N r \<Longrightarrow> P r (fst (f r r))" "\<And>r. N r \<Longrightarrow> keeps_if N P (f r)"
  shows "keeps P (bnd getr f)"
  unfolding keeps_def
proof
  fix r
  show "P r (fst (bnd getr f r))"
    using assms(1)[of r] keeps_ifD[OF assms(2), of r r] by (cases "N r") (simp_all add: bnd_def getr_def)
qed

end

end
