(* ===== verification/Wallet.thy ===== *)
theory Wallet
  imports Effects
begin

text \<open>
  \<open>src/wallet/chainwallet.ts\<close>: the hot wallet of one chain and network. Its state is the outpoints this
  instance spent and the transactions it broadcast; it lives in the run state under the key the engine
  caches it by. \<open>engine\<close> gathers what the swap daemon is configured with, the primitives and the world.
\<close>

record engine =
  en_C :: crypto
  en_S :: signer
  en_verify :: "bytes \<Rightarrow> bytes \<Rightarrow> bytes \<Rightarrow> bool option"
  en_keyAddress :: "bytes \<Rightarrow> swap_network \<Rightarrow> string"
  en_keyScript :: "bytes \<Rightarrow> bytes"
  en_net :: "chain \<Rightarrow> net"
  en_policy :: swap_policy
  en_mode :: engine_mode
  en_identities :: "(string \<times> bytes) list"
  en_world :: world

section \<open>The wallet\<close>

definition WALLET_SEQUENCE :: int where "WALLET_SEQUENCE = 0xfffffffd"

definition newWallet :: "engine \<Rightarrow> bytes \<Rightarrow> chain \<Rightarrow> key_error + wallet" where
  "newWallet E seed c = map_sum id
     (\<lambda>k. \<lparr>wl_chain = c, wl_net = en_net E c, wl_key = k, wl_own = [], wl_spent = []\<rparr>)
     (walletKey (en_C E) seed c (en_net E c))"

definition wallet_network :: "wallet \<Rightarrow> swap_network" where
  "wallet_network w = swapNetwork (wl_chain w) (wl_net w)"

definition wallet_script :: "engine \<Rightarrow> wallet \<Rightarrow> bytes" where
  "wallet_script E w = en_keyScript E (pub_of (en_C E) (wl_key w))"

definition wallet_address :: "engine \<Rightarrow> wallet \<Rightarrow> string" where
  "wallet_address E w = en_keyAddress E (pub_of (en_C E) (wl_key w)) (wallet_network w)"

definition the_wallet :: "string \<Rightarrow> run \<Rightarrow> wallet" where
  "the_wallet k r = the (map_of (r_wallets r) k)"

definition set_wallet :: "string \<Rightarrow> (wallet \<Rightarrow> wallet) \<Rightarrow> unit prog" where
  "set_wallet k f = bnd getr (\<lambda>r. upd_wallets (map_set k (f (the_wallet k r))))"

definition wallet_utxos :: "engine \<Rightarrow> wallet \<Rightarrow> eutxo list prog" where
  "wallet_utxos E w = ask (AskUtxos (wl_chain w) (wallet_address E w))
     (\<lambda>n. w_utxos (en_world E) n (wl_chain w) (wallet_address E w))"

record balance =
  confirmed_bal :: int
  unconfirmed_bal :: int

definition wallet_balance :: "engine \<Rightarrow> wallet \<Rightarrow> balance prog" where
  "wallet_balance E w = bnd (wallet_utxos E w) (\<lambda>us. ret (fold (\<lambda>u b.
     if eu_confirmed u then b\<lparr>confirmed_bal := confirmed_bal b + eu_value u\<rparr>
     else b\<lparr>unconfirmed_bal := unconfirmed_bal b + eu_value u\<rparr>) us \<lparr>confirmed_bal = 0, unconfirmed_bal = 0\<rparr>))"

definition by_value_desc :: "eutxo \<Rightarrow> eutxo \<Rightarrow> int" where
  "by_value_desc a b = (if eu_value b > eu_value a then 1 else if eu_value b < eu_value a then - 1 else 0)"

definition utxo_key :: "eutxo \<Rightarrow> string" where
  "utxo_key u = eu_txid u @ CHR '':'' # show_int (eu_vout u)"

section \<open>Proving funds\<close>

fun pick_proof :: "int \<Rightarrow> eutxo list \<Rightarrow> int \<Rightarrow> eutxo list \<Rightarrow> eutxo list \<times> int" where
  "pick_proof required picked s [] = (picked, s)"
| "pick_proof required picked s (u # us) =
     (if (s \<ge> required \<and> picked \<noteq> []) \<or> length picked = MAX_PROOF_UTXOS then (picked, s)
      else pick_proof required (picked @ [u]) (s + eu_value u) us)"

definition proof_utxo_of :: "eutxo \<Rightarrow> proof_utxo" where
  "proof_utxo_of u = \<lparr>u_txid = eu_txid u, u_vout = eu_vout u, u_value = show_int (eu_value u)\<rparr>"

definition proveFunds :: "engine \<Rightarrow> wallet \<Rightarrow> string \<Rightarrow> int \<Rightarrow> funds_proof prog" where
  "proveFunds E w matchId required = bnd (wallet_utxos E w) (\<lambda>us.
     let confirmed = sort_by by_value_desc (filter eu_confirmed us);
         (picked, s) = pick_proof required [] 0 confirmed
     in if s < required \<or> picked = [] then throw (PayFault (ProofShort s required))
     else of_sum DigestFault (signFundsProof (tagged (en_C E)) (pub_of (en_C E))
            (\<lambda>d k. sign_with (en_C E) d k AUX_ZERO) (wl_key w) matchId (wl_chain w) (wl_net w) (map proof_utxo_of picked)))"

section \<open>Paying\<close>

record pay_args =
  pa_to :: string
  pa_amount :: int
  pa_feeRate :: js_number

record payment =
  pm_txid :: string
  pm_vout :: int
  pm_fee :: int
  pm_vsize :: int
  pm_hex :: string

text \<open>Target output at index 0, change (if any) at index 1; the witnesses are one per input.\<close>

definition pay_build ::
  "engine \<Rightarrow> wallet \<Rightarrow> eutxo list \<Rightarrow> bytes \<Rightarrow> int \<Rightarrow> int option \<Rightarrow> tx" where
  "pay_build E w inputs outScript amount change =
     \<lparr>tx_version = 2, tx_lockTime = 0,
      tx_ins = map (\<lambda>u. \<lparr>ti_txid = eu_txid u, ti_index = eu_vout u, ti_sequence = WALLET_SEQUENCE,
        ti_script = wallet_script E w, ti_amount = eu_value u, ti_witness = None\<rparr>) inputs,
      tx_outs = \<lparr>to_script = outScript, to_amount = amount\<rparr>
        # (case change of None \<Rightarrow> [] | Some c \<Rightarrow> [\<lparr>to_script = wallet_script E w, to_amount = c\<rparr>])\<rparr>"

definition pay_vsize :: "engine \<Rightarrow> wallet \<Rightarrow> eutxo list \<Rightarrow> bytes \<Rightarrow> bool \<Rightarrow> int" where
  "pay_vsize E w inputs outScript withChange =
     (let t = pay_build E w inputs outScript 0 (if withChange then Some 0 else None)
      in vsize_of (en_S E) (t\<lparr>tx_ins := map (\<lambda>i. i\<lparr>ti_witness := Some [replicate 64 0]\<rparr>) (tx_ins t)\<rparr>))"

text \<open>The loop over the spendable outputs: the chosen inputs, the change and the size.\<close>

fun select_inputs ::
  "engine \<Rightarrow> wallet \<Rightarrow> bytes \<Rightarrow> int \<Rightarrow> js_number \<Rightarrow> int \<Rightarrow> eutxo list \<Rightarrow> int \<Rightarrow> eutxo list \<Rightarrow>
   (eutxo list \<times> int option \<times> int) option" where
  "select_inputs E w outScript amount rate changeDust inputs inSum [] = None"
| "select_inputs E w outScript amount rate changeDust inputs inSum (u # us) =
     (let inputs' = inputs @ [u]; inSum' = inSum + eu_value u in
      if inSum' < amount then select_inputs E w outScript amount rate changeDust inputs' inSum' us
      else let withChange = pay_vsize E w inputs' outScript True;
               change = inSum' - amount - the (fee_ceil rate withChange)
      in if change \<ge> changeDust then Some (inputs', Some change, withChange)
      else let noChange = pay_vsize E w inputs' outScript False
      in if inSum' - amount \<ge> the (fee_ceil rate noChange) then Some (inputs', None, noChange)
      else select_inputs E w outScript amount rate changeDust inputs' inSum' us)"

definition sign_input :: "engine \<Rightarrow> wallet \<Rightarrow> bytes list \<Rightarrow> int list \<Rightarrow> nat \<Rightarrow> tx \<Rightarrow> tx" where
  "sign_input E w scripts amounts i t =
     (let sg = sign_with (en_C E) (sighash_of (en_S E) t i scripts amounts None) (tweak_priv (en_C E) (wl_key w)) AUX_ZERO
      in t\<lparr>tx_ins := (tx_ins t)[i := (tx_ins t ! i)\<lparr>ti_witness := Some [sg]\<rparr>]\<rparr>)"

definition pay_sign :: "engine \<Rightarrow> wallet \<Rightarrow> eutxo list \<Rightarrow> bytes \<Rightarrow> int \<Rightarrow> int option \<Rightarrow> tx" where
  "pay_sign E w inputs outScript amount change =
     fold (sign_input E w (map (\<lambda>_. wallet_script E w) inputs) (map eu_value inputs)) [0..<length inputs]
       (pay_build E w inputs outScript amount change)"

definition value_sum :: "eutxo list \<Rightarrow> int" where
  "value_sum us = (\<Sum>u \<leftarrow> us. eu_value u)"

definition signAndBroadcast ::
  "engine \<Rightarrow> string \<Rightarrow> wallet \<Rightarrow> eutxo list \<Rightarrow> bytes \<Rightarrow> int \<Rightarrow> int option \<Rightarrow> int \<Rightarrow> payment prog" where
  "signAndBroadcast E k w inputs outScript amount change vsize =
     (let t = pay_sign E w inputs outScript amount change; hex = hex_of (en_S E) t in
      if \<not> builds (en_S E) t then throw (PayFault PayLibraryThrew)
      else bnd (ask (Sent (wl_chain w) hex) (\<lambda>n. w_send (en_world E) n (wl_chain w) hex)) (\<lambda>txid.
        if txid \<noteq> id_of (en_S E) t then throw (PayFault (WrongTxid txid (id_of (en_S E) t)))
        else andthen (set_wallet k (\<lambda>w. w\<lparr>wl_own := List.insert txid (wl_own w),
                 wl_spent := fold List.insert (map utxo_key inputs) (wl_spent w)\<rparr>))
          (ret \<lparr>pm_txid = txid, pm_vout = 0, pm_fee = value_sum inputs - amount - or_else change 0,
             pm_vsize = vsize, pm_hex = hex\<rparr>)))"

definition spendable :: "wallet \<Rightarrow> eutxo list \<Rightarrow> eutxo list" where
  "spendable w listed = sort_by by_value_desc
     (filter (\<lambda>u. utxo_key u \<notin> set (wl_spent w) \<and> (eu_confirmed u \<or> eu_txid u \<in> set (wl_own w))) listed)"

definition payNow :: "engine \<Rightarrow> string \<Rightarrow> pay_args \<Rightarrow> payment prog" where
  "payNow E k a = bnd getr (\<lambda>r0. let w = the_wallet k r0 in
     if \<not> rate_ok (pa_feeRate a) then throw (PayFault PayBadRate)
     else case decode_address (en_S E) (wallet_network w) (pa_to a) of
       None \<Rightarrow> throw (PayFault (PayNotAddress (pa_to a)))
     | Some (_, outScript) \<Rightarrow>
       let minOut = dustThreshold (wallet_network w) outScript in
       if pa_amount a < minOut then throw (PayFault (PayBelowDust (pa_amount a) minOut))
       else let changeDust = dustThreshold (wallet_network w) (wallet_script E w) in
       bnd (wallet_utxos E w) (\<lambda>listed.
         andthen (set_wallet k (\<lambda>w. w\<lparr>wl_spent := filter (\<lambda>p. p \<in> set (map utxo_key listed)) (wl_spent w)\<rparr>))
         (bnd getr (\<lambda>r1. let us = spendable (the_wallet k r1) listed in
           case select_inputs E w outScript (pa_amount a) (pa_feeRate a) changeDust [] 0 us of
             None \<Rightarrow> throw (PayFault (InsufficientFunds (value_sum us) (pa_amount a)))
           | Some (inputs, change, vsize) \<Rightarrow>
               signAndBroadcast E k w inputs outScript (pa_amount a) change vsize))))"

definition fundHtlc :: "engine \<Rightarrow> string \<Rightarrow> pay_args \<Rightarrow> payment prog" where
  "fundHtlc E k a = bnd getr (\<lambda>r0.
     case decode_address (en_S E) (wallet_network (the_wallet k r0)) (pa_to a) of
       Some (ty, _) \<Rightarrow> if ty = ''tr'' then payNow E k a else throw (PayFault (PayNotHtlcAddress (pa_to a)))
     | None \<Rightarrow> throw (PayFault (PayNotHtlcAddress (pa_to a))))"

text \<open>The engine's cache: one wallet per identity and chain.\<close>

definition wallet_key_of :: "string \<Rightarrow> chain \<Rightarrow> string" where
  "wallet_key_of pubHex c = pubHex @ CHR '':'' # chain_text c"

definition wallet_for :: "engine \<Rightarrow> string \<Rightarrow> chain \<Rightarrow> string prog" where
  "wallet_for E pubHex c = bnd getr (\<lambda>r. let k = wallet_key_of pubHex c in
     case map_of (r_wallets r) k of Some _ \<Rightarrow> ret k
     | None \<Rightarrow> (case map_of (en_identities E) pubHex of
         None \<Rightarrow> throw (UnknownIdentity pubHex)
       | Some seed \<Rightarrow> bnd (of_sum KeyFault (newWallet E seed c)) (\<lambda>w. andthen (upd_wallets (map_set k w)) (ret k))))"

section \<open>What a payment spends\<close>

lemma value_sum_append [simp]: "value_sum (us @ vs) = value_sum us + value_sum vs"
  by (simp add: value_sum_def)

lemma value_sum_Nil [simp]: "value_sum [] = 0" and value_sum_Cons [simp]: "value_sum (u # us) = eu_value u + value_sum us"
  by (simp_all add: value_sum_def)

text \<open>What selection promises: inputs from the list, the amount covered, and the rule for the change.\<close>

definition selected ::
  "engine \<Rightarrow> wallet \<Rightarrow> bytes \<Rightarrow> int \<Rightarrow> js_number \<Rightarrow> int \<Rightarrow> eutxo list \<Rightarrow> int option \<Rightarrow> int \<Rightarrow> bool" where
  "selected E w outScript amount rate changeDust ins change v \<longleftrightarrow>
     v = pay_vsize E w ins outScript (change \<noteq> None)
     \<and> (case change of
          Some c \<Rightarrow> changeDust \<le> c \<and> value_sum ins = amount + c + the (fee_ceil rate v)
        | None \<Rightarrow> amount + the (fee_ceil rate v) \<le> value_sum ins
            \<and> value_sum ins < amount + changeDust + the (fee_ceil rate (pay_vsize E w ins outScript True)))"

lemma select_inputs_selected:
  "select_inputs E w outScript amount rate changeDust inputs inSum us = Some (ins, change, v) \<Longrightarrow>
   inSum = value_sum inputs \<Longrightarrow>
   (\<exists>vs ws. ins = inputs @ vs \<and> us = vs @ ws) \<and> selected E w outScript amount rate changeDust ins change v"
proof (induction us arbitrary: inputs inSum)
  case (Cons u us)
  let ?i = "inputs @ [u]"
  have s: "inSum + eu_value u = value_sum ?i" using Cons.prems(2) by simp
  show ?case
  proof (cases "select_inputs E w outScript amount rate changeDust ?i (inSum + eu_value u) us = Some (ins, change, v)")
    case True
    from Cons.IH[OF True s] show ?thesis by auto
  next
    case False
    then have "ins = ?i" "selected E w outScript amount rate changeDust ins change v"
      using Cons.prems by (auto simp: Let_def selected_def split: if_splits)
    then show ?thesis by auto
  qed
qed simp

lemma set_fold_insert [simp]: "set (fold List.insert xs ys) = set xs \<union> set ys"
  by (induction xs arbitrary: ys) auto

text \<open>The effect of a payment that returns.\<close>

definition paid :: "engine \<Rightarrow> string \<Rightarrow> pay_args \<Rightarrow> run \<Rightarrow> run \<Rightarrow> payment \<Rightarrow> eutxo list \<Rightarrow> int option \<Rightarrow> bool" where
  "paid E k a r r' p ins change \<longleftrightarrow> (let w = the_wallet k r in
     \<exists>ty outScript listed. decode_address (en_S E) (wallet_network w) (pa_to a) = Some (ty, outScript)
       \<and> w_utxos (en_world E) (length (r_log r)) (wl_chain w) (wallet_address E w) = Inr listed
       \<and> set ins \<subseteq> set listed
       \<and> (\<forall>u \<in> set ins. utxo_key u \<notin> set (wl_spent w) \<and> (eu_confirmed u \<or> eu_txid u \<in> set (wl_own w)))
       \<and> selected E w outScript (pa_amount a) (pa_feeRate a) (dustThreshold (wallet_network w) (wallet_script E w)) ins change (pm_vsize p)
       \<and> value_sum ins = pa_amount a + or_else change 0 + pm_fee p
       \<and> dustThreshold (wallet_network w) outScript \<le> pa_amount a
       \<and> pm_hex p = hex_of (en_S E) (pay_sign E w ins outScript (pa_amount a) change) \<and> pm_vout p = 0
       \<and> (\<exists>w'. map_of (r_wallets r') k = Some w' \<and> utxo_key ` set ins \<subseteq> set (wl_spent w')
            \<and> (\<forall>q \<in> set (wl_spent w). q \<in> utxo_key ` set listed \<longrightarrow> q \<in> set (wl_spent w'))))"

lemma pay_wallet_same:
  "wallet_script E (w\<lparr>wl_spent := x\<rparr>) = wallet_script E w" "wallet_address E (w\<lparr>wl_spent := x\<rparr>) = wallet_address E w"
  "wallet_network (w\<lparr>wl_spent := x\<rparr>) = wallet_network w"
  by (simp_all add: wallet_script_def wallet_address_def wallet_network_def)

lemma spendable_pruned:
  "set (spendable (w\<lparr>wl_spent := filter (\<lambda>p. p \<in> utxo_key ` set listed) (wl_spent w)\<rparr>) listed)
   = {u \<in> set listed. utxo_key u \<notin> set (wl_spent w) \<and> (eu_confirmed u \<or> eu_txid u \<in> set (wl_own w))}"
  by (auto simp: spendable_def)

lemma the_wallet_upd [simp]:
  "the_wallet k (r\<lparr>r_log := l\<rparr>) = the_wallet k r" "the_wallet k (r\<lparr>r_wallets := map_set k w m\<rparr>) = w"
  by (simp_all add: the_wallet_def map_of_set)

lemma signAndBroadcast_wp:
  "wp (signAndBroadcast E k w ins out amount change v) Q R T r =
     (let t = pay_sign E w ins out amount change; hex = hex_of (en_S E) t; r1 = r\<lparr>r_log := r_log r @ [Sent (wl_chain w) hex]\<rparr> in
      if \<not> builds (en_S E) t then T (PayFault PayLibraryThrew) r
      else case w_send (en_world E) (length (r_log r)) (wl_chain w) hex of
        Inl m \<Rightarrow> T (ExplorerFault m) r1
      | Inr txid \<Rightarrow> if txid \<noteq> id_of (en_S E) t then T (PayFault (WrongTxid txid (id_of (en_S E) t))) r1
          else Q \<lparr>pm_txid = txid, pm_vout = 0, pm_fee = value_sum ins - amount - or_else change 0, pm_vsize = v, pm_hex = hex\<rparr>
            (r1\<lparr>r_wallets := map_set k (let w0 = the_wallet k r in w0\<lparr>wl_own := List.insert txid (wl_own w0),
                 wl_spent := fold List.insert (map utxo_key ins) (wl_spent w0)\<rparr>) (r_wallets r)\<rparr>))"
  by (simp add: signAndBroadcast_def set_wallet_def wps Let_def the_wallet_def split: sum.splits)

lemma payNow_paid:
  assumes "map_of (r_wallets r) k = Some w" "payNow E k a r = (r', Done p)"
  shows "\<exists>ins change. paid E k a r r' p ins change"
proof -
  have tw: "the_wallet k r = w" using assms(1) by (simp add: the_wallet_def)
  have "wp (payNow E k a) (\<lambda>p r'. \<exists>ins change. paid E k a r r' p ins change) (\<lambda>_. True) (\<lambda>_ _. True) r"
    unfolding payNow_def wallet_utxos_def set_wallet_def wps tw signAndBroadcast_wp Let_def
  proof (simp add: tw split: option.splits sum.splits prod.splits, intro allI impI conjI, goal_cases)
    case (1 ty out listed ins change v)
    note facts = 1
    have "0 = value_sum []" by simp
    from select_inputs_selected[OF facts(6) this] obtain vs ws where
      v: "ins = [] @ vs" "spendable (w\<lparr>wl_spent := filter (\<lambda>p. p \<in> utxo_key ` set listed) (wl_spent w)\<rparr>) listed = vs @ ws"
      and sel: "selected E w out (pa_amount a) (pa_feeRate a) (dustThreshold (wallet_network w) (wallet_script E w)) ins change v"
      by blast
    have "set vs \<subseteq> set (vs @ ws)" by simp
    from this[folded v(2), unfolded spendable_pruned] v(1) have sub: "set ins \<subseteq> {u \<in> set listed. utxo_key u \<notin> set (wl_spent w)
        \<and> (eu_confirmed u \<or> eu_txid u \<in> set (wl_own w))}" by simp
    with sel show ?case using facts(1,2,4)
      by (intro exI[of _ ins] exI[of _ change])
        (auto simp: paid_def Let_def tw map_of_set selected_def split: option.splits)
  qed
  then show ?thesis using assms(2) by (simp add: wp_def)
qed

section \<open>Examples\<close>

definition ex_world :: world where
  "ex_world = \<lparr>w_txs = \<lambda>_ _ _. Inr [], w_tip = \<lambda>_ _. Inr (Some 100), w_tx = \<lambda>_ _ _. Inr None,
     w_utxos = \<lambda>_ _ _. Inr [\<lparr>eu_txid = ''t1'', eu_vout = 0, eu_value = 90000, eu_confirmed = True\<rparr>,
       \<lparr>eu_txid = ''t2'', eu_vout = 1, eu_value = 100000, eu_confirmed = True\<rparr>],
     w_send = \<lambda>_ _ _. Inr ''id'', w_now = \<lambda>_. 1000000\<rparr>"

definition ex_policy :: swap_policy where
  "ex_policy = \<lparr>sp_confirmations = (\<lambda>c. case c of Bitcoin \<Rightarrow> 1 | Litecoin \<Rightarrow> 3), sp_feeRate = \<lambda>_. Double 2 0,
     sp_windowMarginSecs = 14400, sp_lockMarginAnchors = 5\<rparr>"

definition ex_engine :: engine where
  "ex_engine = \<lparr>en_C = ex_crypto, en_S = ex_signer, en_verify = \<lambda>_ _ _. Some True, en_keyAddress = \<lambda>_ _. ''tb1w'',
     en_keyScript = \<lambda>_. P2TR_SCRIPT, en_net = \<lambda>_. Testnet, en_policy = ex_policy, en_mode = ModeOn,
     en_identities = [(''me'', replicate 32 7)], en_world = ex_world\<rparr>"

definition ex_wallet :: wallet where
  "ex_wallet = \<lparr>wl_chain = Bitcoin, wl_net = Testnet, wl_key = ex_key, wl_own = [], wl_spent = []\<rparr>"

definition ex_side :: "swap_role \<Rightarrow> side" where
  "ex_side r = \<lparr>s_role = r, s_identity = ''me'', s_stage = Proofs, s_note = None, s_theirProof = None, s_lockIntentAt = None,
     s_myLock = None, s_theirLock = None, s_claim = None, s_refund = None, s_abort = None, s_lockPosted = False\<rparr>"

definition ex_wallet_run :: run where
  "ex_wallet_run = \<lparr>r_side = ex_side Taker, r_live = no_live, r_posts = [], r_wallets = [(''w'', ex_wallet)], r_log = []\<rparr>"

definition ex_pay :: "int \<Rightarrow> pay_args" where
  "ex_pay n = \<lparr>pa_to = ''tb1'', pa_amount = n, pa_feeRate = Double 2 0\<rparr>"

definition ex_payment :: "int \<Rightarrow> int \<Rightarrow> string \<Rightarrow> payment" where
  "ex_payment v f h = \<lparr>pm_txid = ''id'', pm_vout = 0, pm_fee = f, pm_vsize = v, pm_hex = h\<rparr>"

section \<open>Properties\<close>

text \<open>C23: a payment is exact and never spends an output twice. What the inputs hold is the amount paid, the
  change (which is not dust and costs exactly the fee of its size) and the fee; the inputs are outputs the
  explorer lists, confirmed or this wallet's own change; and two payments in a row share no input, even
  while the explorer still lists what the first one spent.\<close>

theorem payments_sound:
  assumes "map_of (r_wallets r) k = Some w" "payNow E k a r = (r1, Done p)"
    and "map_of (r_wallets r2) k = map_of (r_wallets r1) k" "payNow E k b r2 = (r3, Done q)"
  shows "\<exists>ins change ins' change'. paid E k a r r1 p ins change \<and> paid E k b r2 r3 q ins' change'
    \<and> utxo_key ` set ins \<inter> utxo_key ` set ins' = {}"
proof -
  obtain ins change where p: "paid E k a r r1 p ins change" using payNow_paid[OF assms(1,2)] by blast
  then obtain w' where w': "map_of (r_wallets r1) k = Some w'" "utxo_key ` set ins \<subseteq> set (wl_spent w')"
    unfolding paid_def Let_def by blast
  have tw: "the_wallet k r2 = w'" using w'(1) assms(3) by (simp add: the_wallet_def)
  obtain ins' change' where q: "paid E k b r2 r3 q ins' change'"
    using payNow_paid[OF _ assms(4)] assms(3) w'(1) by metis
  then have "\<forall>u \<in> set ins'. utxo_key u \<notin> set (wl_spent w')" unfolding paid_def tw Let_def by blast
  with w'(2) have "utxo_key ` set ins \<inter> utxo_key ` set ins' = {}" by auto
  with p q show ?thesis by blast
qed

lemma ex_two_payments:
  "case payNow ex_engine ''w'' (ex_pay 50000) ex_wallet_run of (r1, Done p) \<Rightarrow>
     p = ex_payment 140 280 ''b'' \<and> (case payNow ex_engine ''w'' (ex_pay 40000) r1 of (r3, Done q) \<Rightarrow>
       q = ex_payment 140 280 ''b'' \<and> r_log r3 \<noteq> [] | _ \<Rightarrow> False)
   | _ \<Rightarrow> False"
  by code_simp

theorem payments_sound_witness:
  "\<exists>r1 r3 ins change ins' change'. paid ex_engine ''w'' (ex_pay 50000) ex_wallet_run r1 (ex_payment 140 280 ''b'') ins change
    \<and> paid ex_engine ''w'' (ex_pay 40000) r1 r3 (ex_payment 140 280 ''b'') ins' change'
    \<and> utxo_key ` set ins \<inter> utxo_key ` set ins' = {}"
proof -
  obtain r1 r3 where a: "payNow ex_engine ''w'' (ex_pay 50000) ex_wallet_run = (r1, Done (ex_payment 140 280 ''b''))"
      and b: "payNow ex_engine ''w'' (ex_pay 40000) r1 = (r3, Done (ex_payment 140 280 ''b''))"
    using ex_two_payments by (auto split: prod.splits outcome.splits)
  have w: "map_of (r_wallets ex_wallet_run) ''w'' = Some ex_wallet" by (simp add: ex_wallet_run_def)
  from payments_sound[OF w a refl b] show ?thesis by blast
qed

section \<open>A proof the wallet makes\<close>

lemma pick_proof_spec:
  "pick_proof required picked s us = (ps, t) \<Longrightarrow> s = value_sum picked \<Longrightarrow> length picked \<le> MAX_PROOF_UTXOS \<Longrightarrow>
   t = value_sum ps \<and> set ps \<subseteq> set picked \<union> set us \<and> length ps \<le> MAX_PROOF_UTXOS"
proof (induction us arbitrary: picked s)
  case (Cons u us)
  show ?case
  proof (cases "(s \<ge> required \<and> picked \<noteq> []) \<or> length picked = MAX_PROOF_UTXOS")
    case False
    then have "pick_proof required (picked @ [u]) (s + eu_value u) us = (ps, t)"
      using Cons.prems(1) by (auto split: if_splits)
    from Cons.IH[OF this] Cons.prems(2,3) False show ?thesis by auto
  qed (use Cons.prems in auto)
qed simp

lemma proof_sum_of: "proof_sum (map proof_utxo_of us) = value_sum us"
  by (induction us) (simp_all add: proof_sum_def proof_utxo_of_def)

lemma outpoint_key_of: "outpoint_key (proof_utxo_of u) = utxo_key u"
  by (simp add: outpoint_key_def proof_utxo_of_def utxo_key_def)

lemma proveFunds_Done:
  assumes "proveFunds E w matchId required r = (r', Done p)"
  shows "\<exists>listed ps. w_utxos (en_world E) (length (r_log r)) (wl_chain w) (wallet_address E w) = Inr listed
    \<and> set ps \<subseteq> {u \<in> set listed. eu_confirmed u} \<and> required \<le> value_sum ps \<and> length ps \<le> MAX_PROOF_UTXOS
    \<and> signFundsProof (tagged (en_C E)) (pub_of (en_C E)) (\<lambda>d k. sign_with (en_C E) d k AUX_ZERO) (wl_key w) matchId
        (wl_chain w) (wl_net w) (map proof_utxo_of ps) = Inr p"
proof -
  obtain listed where l: "w_utxos (en_world E) (length (r_log r)) (wl_chain w) (wallet_address E w) = Inr listed"
    using assms by (auto simp: proveFunds_def wallet_utxos_def bnd_def ask_def split: sum.splits)
  obtain ps s where pk: "pick_proof required [] 0 (sort_by by_value_desc (filter eu_confirmed listed)) = (ps, s)" by fastforce
  from pick_proof_spec[OF this] have ps: "s = value_sum ps" "set ps \<subseteq> {u \<in> set listed. eu_confirmed u}" "length ps \<le> MAX_PROOF_UTXOS"
    by auto
  have "\<not> s < required" "signFundsProof (tagged (en_C E)) (pub_of (en_C E)) (\<lambda>d k. sign_with (en_C E) d k AUX_ZERO) (wl_key w) matchId
        (wl_chain w) (wl_net w) (map proof_utxo_of ps) = Inr p"
    using assms l pk by (auto simp: proveFunds_def wallet_utxos_def bnd_def ask_def of_sum_def throw_def ret_def Let_def
        split: sum.splits if_splits)
  with l ps show ?thesis by (intro exI[of _ listed] exI[of _ ps]) simp
qed

text \<open>C24: the counterparty accepts the proof of funds a wallet posts. A proof \<open>proveFunds\<close> returns for at
  least \<open>required\<close> passes \<open>verifyFundsProof\<close> for that amount at any explorer of the network that lists the
  outputs this wallet's explorer listed.\<close>

theorem proveFunds_accepted:
  assumes posted: "proveFunds E w matchId required r = (r', Done p)" "0 \<le> required"
    and schnorr: "\<And>d k. ver (sign_with (en_C E) d k AUX_ZERO) d (pub_of (en_C E) k) = Some True"
      "\<And>d k. length (sign_with (en_C E) d k AUX_ZERO) = 64"
    and net: "x_chain es = wl_chain w" "x_net es = wl_net w" "x_utxos es (wallet_address E w) = Some ls"
    and seen: "\<And>listed u. w_utxos (en_world E) (length (r_log r)) (wl_chain w) (wallet_address E w) = Inr listed \<Longrightarrow>
      u \<in> set listed \<Longrightarrow> map_of (live_map ls) (utxo_key u) = Some (eu_value u)"
  shows "verifyFundsProof (tagged (en_C E)) ver (en_keyAddress E) (proof_json p) matchId required es = Inr CheckOk"
proof -
  obtain listed ps where l: "w_utxos (en_world E) (length (r_log r)) (wl_chain w) (wallet_address E w) = Inr listed"
    and ps: "set ps \<subseteq> {u \<in> set listed. eu_confirmed u}" "required \<le> value_sum ps"
    and sg: "signFundsProof (tagged (en_C E)) (pub_of (en_C E)) (\<lambda>d k. sign_with (en_C E) d k AUX_ZERO) (wl_key w) matchId
        (wl_chain w) (wl_net w) (map proof_utxo_of ps) = Inr p"
    using proveFunds_Done[OF posted(1)] by blast
  have "map_of (live_map ls) (utxo_key u) = Some (eu_value u)" if "u \<in> set ps" for u
    using seen[OF l, of u] ps(1) that by auto
  then have "backed_by ls (map proof_utxo_of ps)"
    unfolding backed_by_def by (auto simp: outpoint_key_of) (simp add: proof_utxo_of_def)
  with sg net ps(2) posted(2) show ?thesis
    by (intro signed_proof_verifies[where sign = "\<lambda>d k. sign_with (en_C E) d k AUX_ZERO" and pub = "pub_of (en_C E)"
          and priv = "wl_key w" and us = "map proof_utxo_of ps" and ls = ls])
      (simp_all add: schnorr proof_sum_of wallet_address_def wallet_network_def)
qed

text \<open>The example engine's wallet proves 40000 with a listing of well-formed transaction ids.\<close>

definition ex_listing :: "eutxo list" where
  "ex_listing = [\<lparr>eu_txid = replicate 64 CHR ''a'', eu_vout = 1, eu_value = 50000, eu_confirmed = True\<rparr>]"

definition ex_prover_engine :: engine where
  "ex_prover_engine = ex_engine\<lparr>en_C := ex_crypto\<lparr>sign_with := \<lambda>m k a. replicate 64 0, pub_of := \<lambda>_. replicate 32 0x77,
     tagged := \<lambda>_ b. b\<rparr>, en_world := ex_world\<lparr>w_utxos := \<lambda>_ _ _. Inr ex_listing\<rparr>\<rparr>"

lemma ex_listing_utxo: "map proof_utxo_of ex_listing = [ex_utxo]"
proof -
  have "show_int 50000 = ''50000''"
    using show_nat_digits_val[of "''50000''"]
    by (simp add: show_int_nonneg canon_digits_def is_digit_def digits_val_def digit_val_def)
  then show ?thesis by (simp add: ex_listing_def proof_utxo_of_def ex_utxo_def)
qed

lemma ex_proves: "\<exists>r' p. proveFunds ex_prover_engine ex_wallet ''m1'' 40000 ex_wallet_run = (r', Done p)"
proof -
  have hex: "hex_text 64 (toHex (replicate 32 0x77))" by (simp add: hex_text_def toHex_lower)
  have "\<exists>d. proofDigest (\<lambda>_ b. b) ''m1'' Bitcoin Testnet (toHex (replicate 32 0x77)) [ex_utxo] = Inr d"
    using proofBody_ok[of "''m1''"] hex ex_utxos_ok by (auto simp: proofDigest_ok)
  then obtain p where p: "signFundsProof (\<lambda>_ b. b) (\<lambda>_. replicate 32 0x77) (\<lambda>d k. replicate 64 0) ex_key ''m1'' Bitcoin Testnet [ex_utxo] = Inr p"
    by (auto simp: signFundsProof_def Let_def)
  have C: "tagged (en_C ex_prover_engine) = (\<lambda>_ b. b)" "pub_of (en_C ex_prover_engine) = (\<lambda>_. replicate 32 0x77)"
    "sign_with (en_C ex_prover_engine) = (\<lambda>m k a. replicate 64 0)" "\<And>n c s. w_utxos (en_world ex_prover_engine) n c s = Inr ex_listing"
    by (simp_all add: ex_prover_engine_def)
  have w: "wl_key ex_wallet = ex_key" "wl_chain ex_wallet = Bitcoin" "wl_net ex_wallet = Testnet" by (simp_all add: ex_wallet_def)
  have "pick_proof 40000 [] 0 (sort_by by_value_desc (filter eu_confirmed ex_listing)) = (ex_listing, 50000)"
    by (simp add: ex_listing_def MAX_PROOF_UTXOS_def)
  then show ?thesis using p
    by (simp add: proveFunds_def wallet_utxos_def bnd_def ask_def of_sum_def ret_def throw_def C w ex_listing_utxo)
      (simp add: ex_listing_def)
qed

theorem proveFunds_accepted_witness:
  "\<exists>p. verifyFundsProof (\<lambda>_ b. b) (\<lambda>_ _ _. Some True) (\<lambda>_ _. ''tb1w'') (proof_json p) ''m1'' 40000
     \<lparr>x_chain = Bitcoin, x_net = Testnet, x_utxos = \<lambda>_. Some [\<lparr>l_txid = replicate 64 CHR ''a'', l_vout = 1, l_value = 50000\<rparr>]\<rparr>
   = Inr CheckOk"
proof -
  obtain r' p where p: "proveFunds ex_prover_engine ex_wallet ''m1'' 40000 ex_wallet_run = (r', Done p)" using ex_proves by blast
  have live: "map_of (live_map [\<lparr>l_txid = replicate 64 CHR ''a'', l_vout = 1, l_value = 50000\<rparr>]) (utxo_key u) = Some (eu_value u)"
    if "u \<in> set ex_listing" for u
    using that by (simp add: ex_listing_def live_map_def utxo_key_def)
  have C: "tagged (en_C ex_prover_engine) = (\<lambda>_ b. b)" "en_keyAddress ex_prover_engine = (\<lambda>_ _. ''tb1w'')"
    "sign_with (en_C ex_prover_engine) = (\<lambda>m k a. replicate 64 0)" "\<And>n c s. w_utxos (en_world ex_prover_engine) n c s = Inr ex_listing"
    by (simp_all add: ex_prover_engine_def ex_engine_def)
  from proveFunds_accepted[OF p, where ver = "\<lambda>_ _ _. Some True" and es = "\<lparr>x_chain = Bitcoin, x_net = Testnet,
      x_utxos = \<lambda>_. Some [\<lparr>l_txid = replicate 64 CHR ''a'', l_vout = 1, l_value = 50000\<rparr>]\<rparr>"
      and ls = "[\<lparr>l_txid = replicate 64 CHR ''a'', l_vout = 1, l_value = 50000\<rparr>]"]
  show ?thesis using live by (auto simp: C ex_wallet_def)
qed

end
