(* ===== verification/Engine.thy ===== *)
theory Engine
  imports Wallet
begin

text \<open>
  \<open>src/swap/engine.ts\<close>: one step of one side of a match, as the engine runs it on every tick. \<open>stepTaker\<close>
  and \<open>stepMaker\<close> are split where the code has its sections (preparation, before the lock, claim, refund,
  stage); a \<open>return\<close> in any section ends the method, as \<open>leave\<close> does. \<open>null\<close> and \<open>undefined\<close> are \<open>None\<close>;
  a number that may be \<open>NaN\<close> (everything computed from an explorer's tip) is an \<open>int option\<close> whose \<open>None\<close>
  makes every comparison false.
\<close>

definition FUNDING_VSIZE_BUDGET :: int where "FUNDING_VSIZE_BUDGET = 500"
definition LOCK_INTENT_GRACE_MS :: int where "LOCK_INTENT_GRACE_MS = 30000"
definition REPOST_AFTER :: int where "REPOST_AFTER = 8"

section \<open>Chain observation\<close>

record spend_info =
  si_txid :: string
  si_height :: "int option"
  si_witness :: "string list"

record htlc_out =
  ho_txid :: string
  ho_vout :: int
  ho_value :: int
  ho_height :: "int option"
  ho_spend :: "spend_info option"

record scan =
  sn_address :: string
  sn_outs :: "htlc_out list"
  sn_tip :: "int option"

definition num_lt :: "int option \<Rightarrow> int \<Rightarrow> bool" where
  "num_lt x n = (case x of None \<Rightarrow> False | Some a \<Rightarrow> a < n)"

definition num_gt :: "int option \<Rightarrow> int \<Rightarrow> bool" where
  "num_gt x n = (case x of None \<Rightarrow> False | Some a \<Rightarrow> a > n)"

definition num_ge :: "int option \<Rightarrow> int \<Rightarrow> bool" where
  "num_ge x n = (case x of None \<Rightarrow> False | Some a \<Rightarrow> a \<ge> n)"

definition tx_height :: "etx \<Rightarrow> int option" where
  "tx_height t = (if et_confirmed t then et_height t else None)"

definition confsOf :: "int option \<Rightarrow> int option \<Rightarrow> int option" where
  "confsOf height tip = (case height of None \<Rightarrow> Some 0 | Some h \<Rightarrow> map_option (\<lambda>n. max 0 (n - h + 1)) tip)"

definition outpoint_of :: "htlc_out \<Rightarrow> outpoint" where
  "outpoint_of x = \<lparr>op_tx = ho_txid x, op_out = ho_vout x\<rparr>"

definition sameOutpoint :: "htlc_out \<Rightarrow> outpoint \<Rightarrow> bool" where
  "sameOutpoint x p \<longleftrightarrow> ho_txid x = op_tx p \<and> ho_vout x = op_out p"

definition out_rank :: "htlc_out \<Rightarrow> int" where
  "out_rank x = (if ho_spend x \<noteq> None then 2 else if ho_height x = None then 1 else 0)"

text \<open>The sign of \<open>(a.height ?? Infinity) - (b.height ?? Infinity)\<close>; \<open>Infinity - Infinity\<close> is \<open>NaN\<close>, which a
  sort reads as 0.\<close>

definition by_rank :: "htlc_out \<Rightarrow> htlc_out \<Rightarrow> int" where
  "by_rank a b = (if out_rank a \<noteq> out_rank b then out_rank a - out_rank b
     else case (ho_height a, ho_height b) of
       (Some x, Some y) \<Rightarrow> x - y | (None, Some _) \<Rightarrow> 1 | (Some _, None) \<Rightarrow> - 1 | (None, None) \<Rightarrow> 0)"

definition pickExact :: "htlc_out list \<Rightarrow> int \<Rightarrow> bool \<Rightarrow> htlc_out option" where
  "pickExact outs amount unspentOnly =
     (case sort_by by_rank (filter (\<lambda>x. ho_value x = amount \<and> (\<not> unspentOnly \<or> ho_spend x = None)) outs) of
        [] \<Rightarrow> None | x # _ \<Rightarrow> Some x)"

definition is_hex_any :: "char \<Rightarrow> bool" where
  "is_hex_any c \<longleftrightarrow> base_digit c < 16"

definition to_lower :: "char \<Rightarrow> char" where
  "to_lower c = (let n = of_char c :: nat in if 65 \<le> n \<and> n \<le> 90 then char_of (n + 32) else c)"

definition secretFromWitness :: "crypto \<Rightarrow> string list option \<Rightarrow> bytes \<Rightarrow> bytes option" where
  "secretFromWitness C witness hash = (case witness of
     Some [_, w, _, _] \<Rightarrow>
       if length w = 64 \<and> list_all is_hex_any w then
         (let s = fromHex (map to_lower w) in if sha C s = hash then Some s else None)
       else None
   | _ \<Rightarrow> None)"

definition claimSafetyBlocks :: "int \<Rightarrow> int" where
  "claimSafetyBlocks makerRefundBlocks = ceil_div makerRefundBlocks 4"

definition termsOf :: "match \<Rightarrow> swap_terms" where
  "termsOf m = \<lparr>t_offerId = m_offerId m, t_maker = m_maker m, t_taker = m_taker m, t_takeSeq = m_takeSeq m,
     t_makerChain = m_makerChain m, t_makerAmount = show_int (m_makerAmount m), t_makerRefundBlocks = m_makerRefundBlocks m,
     t_takerChain = m_takerChain m, t_takerAmount = show_int (m_takerAmount m), t_takerRefundBlocks = m_takerRefundBlocks m,
     t_hash = m_hash m, t_takerKey = m_takerKey m, t_makerKey = m_makerKey m, t_takenAt = m_takenAt m,
     t_proofDeadline = m_proofDeadline m, t_pruneAt = m_pruneAt m\<rparr>"

record ctx =
  c_matchId :: string
  c_t :: swap_terms
  c_m :: "match option"
  c_h :: "int option"
  c_seed :: bytes
  c_hash :: bytes

section \<open>Shared steps\<close>

definition set_stage :: "stage \<Rightarrow> unit prog" where
  "set_stage st = upd_side (\<lambda>s. s\<lparr>s_stage := st\<rparr>)"

definition set_note :: "side_note option \<Rightarrow> unit prog" where
  "set_note n = upd_side (\<lambda>s. s\<lparr>s_note := n\<rparr>)"

definition finish :: "stage \<Rightarrow> side_note option \<Rightarrow> unit prog" where
  "finish st n = upd_side (\<lambda>s. s\<lparr>s_stage := st, s_note := n\<rparr>)"

definition refund_pending :: "side_note option \<Rightarrow> unit prog" where
  "refund_pending n = finish RefundPending n"

definition save :: "unit prog" where
  "save = bnd getr (\<lambda>r. emit (Saved (r_side r)))"

definition network :: "engine \<Rightarrow> chain \<Rightarrow> swap_network" where
  "network E c = swapNetwork c (en_net E c)"

definition pruned :: "ctx \<Rightarrow> bool" where
  "pruned c \<longleftrightarrow> (case c_h c of None \<Rightarrow> False | Some h \<Rightarrow> h \<ge> t_pruneAt (c_t c))"

definition m_is :: "ctx \<Rightarrow> match_status \<Rightarrow> bool" where
  "m_is c st \<longleftrightarrow> map_option m_status (c_m c) = Some st"

definition cancel_why :: "ctx \<Rightarrow> cancel_reason option" where
  "cancel_why c = Option.bind (c_m c) (\<lambda>m. map_option snd (m_cancelled m))"

definition out_key :: "string \<Rightarrow> int \<Rightarrow> string" where
  "out_key txid vout = txid @ CHR '':'' # show_int vout"

definition outs_of_tx :: "string \<Rightarrow> etx \<Rightarrow> (string, htlc_out) jsmap \<Rightarrow> (string, htlc_out) jsmap" where
  "outs_of_tx script t outs = fold (\<lambda>(i, v) m. if eo_script v = Some script then
       map_set (out_key (et_txid t) (int i)) \<lparr>ho_txid = et_txid t, ho_vout = int i, ho_value = eo_value v,
         ho_height = tx_height t, ho_spend = None\<rparr> m
     else m) (enumerate 0 (et_vout t)) outs"

definition spends_of_tx :: "etx \<Rightarrow> (string, htlc_out) jsmap \<Rightarrow> (string, htlc_out) jsmap" where
  "spends_of_tx t outs = fold (\<lambda>i m. case (ei_txid i, ei_vout i) of
       (Some x, Some v) \<Rightarrow> (case map_of m (out_key x v) of
          Some out \<Rightarrow> map_set (out_key x v)
            (out\<lparr>ho_spend := Some \<lparr>si_txid = et_txid t, si_height = tx_height t, si_witness = ei_witness i\<rparr>\<rparr>) m
        | None \<Rightarrow> m)
     | _ \<Rightarrow> m) (et_vin t) outs"

definition scan_outs :: "string \<Rightarrow> etx list \<Rightarrow> htlc_out list" where
  "scan_outs script txs = vals (fold spends_of_tx txs (fold (outs_of_tx script) txs []))"

text \<open>Both requests are sent at once; a failure of either fails the scan.\<close>

definition scan_chain :: "engine \<Rightarrow> chain \<Rightarrow> htlc_params \<Rightarrow> scan prog" where
  "scan_chain E ch p = bnd (of_sum HtlcFault (htlcScript (en_C E) (en_S E) p)) (\<lambda>htlc.
     let address = htlc_address (en_S E) htlc (network E ch); script = toHex (scriptPubKey htlc) in
     bnd (ask (AskTxs ch address) (\<lambda>n. Inr (w_txs (en_world E) n ch address))) (\<lambda>txs.
     bnd (ask (AskTip ch) (\<lambda>n. Inr (w_tip (en_world E) n ch))) (\<lambda>tip.
     bnd (of_sum ExplorerFault txs) (\<lambda>txs. bnd (of_sum ExplorerFault tip) (\<lambda>tip.
       ret \<lparr>sn_address = address, sn_outs = scan_outs script txs, sn_tip = tip\<rparr>)))))"

definition adoptLock :: "htlc_out \<Rightarrow> unit prog" where
  "adoptLock x = andthen (upd_side (\<lambda>s. s\<lparr>s_myLock := Some (outpoint_of x), s_lockIntentAt := None\<rparr>)) save"

definition lock_fund :: "engine \<Rightarrow> chain \<Rightarrow> string \<Rightarrow> int \<Rightarrow> int \<Rightarrow> unit prog" where
  "lock_fund E ch address amount now =
     andthen (upd_side (\<lambda>s. s\<lparr>s_lockIntentAt := Some now\<rparr>)) (andthen save (bnd getr (\<lambda>r.
     bnd (wallet_for E (s_identity (r_side r)) ch) (\<lambda>k. andthen (emit (Funding ch address amount))
     (bnd (fundHtlc E k \<lparr>pa_to = address, pa_amount = amount, pa_feeRate = sp_feeRate (en_policy E) ch\<rparr>) (\<lambda>pay.
       andthen (upd_side (\<lambda>s. s\<lparr>s_myLock := Some \<lparr>op_tx = pm_txid pay, op_out = pm_vout pay\<rparr>, s_lockIntentAt := None,
         s_note := None\<rparr>)) save))))))"

definition lock_htlc :: "engine \<Rightarrow> chain \<Rightarrow> string \<Rightarrow> int \<Rightarrow> unit prog" where
  "lock_htlc E ch address amount = bnd getr (\<lambda>r.
     let now = w_now (en_world E) (length (r_log r)) in
     if (case s_lockIntentAt (r_side r) of Some at \<Rightarrow> now - at < LOCK_INTENT_GRACE_MS | None \<Rightarrow> False)
     then set_note (Some NLockInFlight)
     else lock_fund E ch address amount now)"

definition broadcast_hex :: "engine \<Rightarrow> chain \<Rightarrow> string \<Rightarrow> unit prog" where
  "broadcast_hex E ch hex = catch (bnd (ask (Sent ch hex) (\<lambda>n. w_send (en_world E) n ch hex)) (\<lambda>_. ret ()))
     (\<lambda>e. set_note (Some (NBroadcast ch e)))"

text \<open>The address a spend pays to: the wallet's.\<close>

definition my_address :: "engine \<Rightarrow> chain \<Rightarrow> string prog" where
  "my_address E ch = bnd getr (\<lambda>r. bnd (wallet_for E (s_identity (r_side r)) ch) (\<lambda>k.
     bnd getr (\<lambda>r. ret (wallet_address E (the_wallet k r)))))"

definition utxo_of :: "htlc_out \<Rightarrow> htlc_utxo" where
  "utxo_of x = \<lparr>hu_txid = ho_txid x, hu_vout = ho_vout x, hu_amount = ho_value x\<rparr>"

definition stored_of :: "signed_spend \<Rightarrow> stored_tx" where
  "stored_of s = \<lparr>st_txid = ss_txid s, st_hex = ss_hex s\<rparr>"

definition maybeRefund :: "engine \<Rightarrow> chain \<Rightarrow> htlc_params \<Rightarrow> htlc_out option \<Rightarrow> int option \<Rightarrow> bytes \<Rightarrow> unit prog" where
  "maybeRefund E ch p myOut tip key = (case myOut of None \<Rightarrow> ret ()
     | Some x \<Rightarrow> if ho_spend x \<noteq> None then ret () else bnd getr (\<lambda>r. case s_refund (r_side r) of
         Some st \<Rightarrow> broadcast_hex E ch (st_hex st)
       | None \<Rightarrow> if num_lt (confsOf (ho_height x) tip) (h_refundBlocks p) then ret ()
           else bnd (my_address E ch) (\<lambda>to. bnd (of_sum HtlcFault (buildRefundTx (en_C E) (en_S E)
             \<lparr>sc_utxo = utxo_of x, sc_params = p, sc_to = to, sc_feeRate = sp_feeRate (en_policy E) ch,
              sc_network = network E ch, ra_senderKey = key\<rparr>)) (\<lambda>spend.
           andthen (upd_side (\<lambda>s. s\<lparr>s_refund := Some (stored_of spend)\<rparr>)) (andthen save
             (broadcast_hex E ch (ss_hex spend)))))))"

text \<open>The claim both roles make of the other's HTLC, from building it to sending it.\<close>

definition do_claim :: "engine \<Rightarrow> chain \<Rightarrow> htlc_params \<Rightarrow> htlc_out \<Rightarrow> bytes \<Rightarrow> bytes \<Rightarrow> unit prog" where
  "do_claim E ch p x secret key = bnd (my_address E ch) (\<lambda>to.
     bnd (of_sum HtlcFault (buildClaimTx (en_C E) (en_S E)
       \<lparr>sc_utxo = utxo_of x, sc_params = p, sc_to = to, sc_feeRate = sp_feeRate (en_policy E) ch,
        sc_network = network E ch, ca_secret = secret, ca_receiverKey = key\<rparr>)) (\<lambda>spend.
     andthen (upd_side (\<lambda>s. s\<lparr>s_claim := Some (stored_of spend)\<rparr>)) (andthen save
       (broadcast_hex E ch (ss_hex spend)))))"

definition explorer_of :: "engine \<Rightarrow> nat \<Rightarrow> chain \<Rightarrow> explorer" where
  "explorer_of E n ch = \<lparr>x_chain = ch, x_net = en_net E ch,
     x_utxos = \<lambda>a. (case w_utxos (en_world E) n ch a of Inl _ \<Rightarrow> None
       | Inr us \<Rightarrow> Some (map (\<lambda>u. \<lparr>l_txid = eu_txid u, l_vout = eu_vout u, l_value = eu_value u\<rparr>) us))\<rparr>"

definition verifyProof :: "engine \<Rightarrow> ctx \<Rightarrow> funds_proof \<Rightarrow> chain \<Rightarrow> int \<Rightarrow> proof_check option prog" where
  "verifyProof E c p ch amount = bnd getr (\<lambda>r. andthen (emit (CheckProof ch))
     (case verifyFundsProof (tagged (en_C E)) (en_verify E) (en_keyAddress E) (proof_json p) (c_matchId c) amount
         (explorer_of E (length (r_log r)) ch) of
       Inl e \<Rightarrow> andthen (set_note (Some (NVerifying (CheckFault e)))) (ret None)
     | Inr v \<Rightarrow> andthen (upd_side (\<lambda>s. s\<lparr>s_theirProof := Some v\<rparr>)) (ret (Some v))))"

section \<open>Posting operations\<close>

definition post_key :: "ctx \<Rightarrow> swap_role \<Rightarrow> string \<Rightarrow> string" where
  "post_key c r what = c_matchId c @ CHR '':'' # role_text r @ CHR '':'' # what"

definition may_post :: "post option \<Rightarrow> int option \<Rightarrow> bool" where
  "may_post prev h = (case prev of None \<Rightarrow> True
     | Some p \<Rightarrow> \<not> (ps_pending p \<or> h = None \<or> ps_at p = None \<or> the h \<le> the (ps_at p) + REPOST_AFTER))"

definition postOp :: "ctx \<Rightarrow> string \<Rightarrow> post_job \<Rightarrow> unit prog" where
  "postOp c what j = bnd getr (\<lambda>r. let k = post_key c (s_role (r_side r)) what in
     if may_post (map_of (r_posts r) k) (c_h c)
     then andthen (emit (Posted j)) (upd_posts (map_set k \<lparr>ps_pending = True, ps_at = c_h c\<rparr>))
     else ret ())"

text \<open>The background half of \<open>postOp\<close>: the job runs, and its end is recorded.\<close>

definition run_post :: "engine \<Rightarrow> (op \<Rightarrow> fault option) \<Rightarrow> string \<Rightarrow> post_job \<Rightarrow> unit prog" where
  "run_post E submitOp matchId j = (case j of
     OpJob q \<Rightarrow> (case submitOp q of None \<Rightarrow> ret () | Some e \<Rightarrow> throw e)
   | ProofJob ch required makerKey \<Rightarrow> bnd getr (\<lambda>r. bnd (wallet_for E (s_identity (r_side r)) ch) (\<lambda>k. bnd getr (\<lambda>r.
       bnd (proveFunds E (the_wallet k r) matchId required) (\<lambda>p.
         case submitOp (SwapProof matchId makerKey p) of None \<Rightarrow> ret () | Some e \<Rightarrow> throw e)))))"

definition end_post :: "string \<Rightarrow> (string, post) jsmap \<Rightarrow> (string, post) jsmap" where
  "end_post k ps = (case map_of ps k of None \<Rightarrow> ps | Some p \<Rightarrow> map_set k (p\<lparr>ps_pending := False\<rparr>) ps)"

definition complete_post :: "engine \<Rightarrow> (op \<Rightarrow> fault option) \<Rightarrow> ctx \<Rightarrow> string \<Rightarrow> post_job \<Rightarrow> unit prog" where
  "complete_post E submitOp c what j = bnd getr (\<lambda>r. let k = post_key c (s_role (r_side r)) what in
     andthen (catch (andthen (run_post E submitOp (c_matchId c) j)
         (when_p (what = ''locked'') (upd_side (\<lambda>s. s\<lparr>s_lockPosted := True\<rparr>))))
       (\<lambda>e. andthen (upd_posts (map_del k)) (set_note (Some (NPosting what e)))))
     (upd_posts (end_post k)))"

definition postProof :: "engine \<Rightarrow> ctx \<Rightarrow> chain \<Rightarrow> int \<Rightarrow> string option \<Rightarrow> unit prog" where
  "postProof E c ch amount makerKey =
     (case fee_ceil (sp_feeRate (en_policy E) ch) FUNDING_VSIZE_BUDGET of
        None \<Rightarrow> throw BadAmount
      | Some fee \<Rightarrow> postOp c ''proof'' (ProofJob ch (amount + fee) makerKey))"

definition post_locked :: "ctx \<Rightarrow> unit prog" where
  "post_locked c = bnd getr (\<lambda>r. case s_myLock (r_side r) of None \<Rightarrow> ret ()
     | Some l \<Rightarrow> postOp c ''locked'' (OpJob (SwapLocked (c_matchId c) (op_tx l) (op_out l))))"

definition abort_swap :: "ctx \<Rightarrow> side_note \<Rightarrow> unit prog" where
  "abort_swap c why = andthen (upd_side (\<lambda>s. s\<lparr>s_abort := Some why, s_stage := CancelledSwap, s_note := Some why\<rparr>))
     (postOp c ''abort'' (OpJob (SwapAbort (c_matchId c))))"

text \<open>\<open>BigInt\<close> of the terms' decimal amounts.\<close>

definition amount_of :: "string \<Rightarrow> int prog" where
  "amount_of s = (case BigInt_of s of None \<Rightarrow> throw BadAmount | Some n \<Rightarrow> ret n)"

end
