(* ===== verification/TakerStep.thy ===== *)
theory TakerStep
  imports Engine
begin

text \<open>
  \<open>SwapEngine.stepTaker\<close> (\<open>src/swap/engine.ts\<close>): the taker holds the secret, locks first and claims the
  maker's HTLC, which reveals the secret. The sections of the method are \<open>taker_keys\<close>, \<open>taker_no_maker\<close>,
  \<open>adopt_existing\<close>, \<open>taker_lock\<close>, \<open>taker_claim\<close> and \<open>taker_stage\<close>.
\<close>

section \<open>The step\<close>

definition taker_keys :: "engine \<Rightarrow> ctx \<Rightarrow> key_error + bytes \<times> bytes" where
  "taker_keys E c = (let t = c_t c in
     case takeSwapId (t_offerId t) (t_taker t) (t_takeSeq t) of Inl e \<Rightarrow> Inl e | Inr swapId \<Rightarrow>
       (case swapSecret (en_C E) (c_seed c) swapId of Inl e \<Rightarrow> Inl e | Inr secret \<Rightarrow>
         (case swapKey (en_C E) (c_seed c) swapId (t_takerChain t) Taker of Inl e \<Rightarrow> Inl e | Inr key \<Rightarrow> Inr (secret, key))))"

definition taker_no_maker :: "ctx \<Rightarrow> unit prog" where
  "taker_no_maker c =
     (if m_is c Cancelled \<or> pruned c
      then finish CancelledSwap (Some (if cancel_why c = Some NoProof then NMakerNeverProved else NMatchCancelled))
      else set_stage Proofs)"

text \<open>The HTLC I lock and the one the maker locks.\<close>

definition taker_mine :: "ctx \<Rightarrow> string \<Rightarrow> htlc_params" where
  "taker_mine c makerKey = \<lparr>h_hash = c_hash c, h_receiver = fromHex makerKey, h_sender = fromHex (t_takerKey (c_t c)),
     h_refundBlocks = t_takerRefundBlocks (c_t c)\<rparr>"

definition taker_theirs :: "ctx \<Rightarrow> string \<Rightarrow> htlc_params" where
  "taker_theirs c makerKey = \<lparr>h_hash = c_hash c, h_receiver = fromHex (t_takerKey (c_t c)), h_sender = fromHex makerKey,
     h_refundBlocks = t_makerRefundBlocks (c_t c)\<rparr>"

definition adopt_existing :: "scan \<Rightarrow> int \<Rightarrow> unit prog" where
  "adopt_existing mine amount = bnd getr (\<lambda>r.
     if s_myLock (r_side r) \<noteq> None then ret ()
     else case pickExact (sn_outs mine) amount False of None \<Rightarrow> ret () | Some x \<Rightarrow> adoptLock x)"

definition taker_lock :: "engine \<Rightarrow> ctx \<Rightarrow> scan \<Rightarrow> int \<Rightarrow> unit prog" where
  "taker_lock E c mine takerAmount = bnd getr (\<lambda>r.
     if s_myLock (r_side r) \<noteq> None then ret ()
     else if m_is c Cancelled \<or> pruned c then
       andthen (finish CancelledSwap (Some (case cancel_why c of Some Abort \<Rightarrow> NMakerAborted
         | Some NoProof \<Rightarrow> NProofsMissed | None \<Rightarrow> NMatchGone))) leave
     else case (c_m c, c_h c) of
       (Some m, Some h) \<Rightarrow>
         if m_status m = AwaitingProofs then andthen (set_stage Proofs) leave
         else let lockDeadline = t_proofDeadline (c_t c) + TAKER_LOCK_WINDOW in
         andthen (upd_live (\<lambda>l. l\<lparr>lv_deadline := Some (TakerLockLeft (max 0 (lockDeadline - h)))\<rparr>))
        (andthen (set_stage WaitingTakerLock)
        (case s_theirProof (r_side r) of
           None \<Rightarrow> andthen (upd_side (\<lambda>s. s\<lparr>s_note := Some (or_else (s_note s) NVerifyingMaker)\<rparr>)) leave
         | Some (CheckBad why) \<Rightarrow> andthen (finish Failed (Some (NMakerProofInvalid why))) leave
         | Some CheckOk \<Rightarrow>
             if h > lockDeadline - sp_lockMarginAnchors (en_policy E)
             then andthen (finish CancelledSwap (Some NLockWindowClosed)) leave
             else if en_mode E = NoLock then andthen (set_note (Some NFundingDisabled)) leave
             else andthen (lock_htlc E (t_takerChain (c_t c)) (sn_address mine) takerAmount)
               (bnd getr (\<lambda>r. if s_myLock (r_side r) = None then leave else ret ()))))
     | _ \<Rightarrow> leave)"

definition lock_confs :: "scan \<Rightarrow> htlc_out option \<Rightarrow> int option" where
  "lock_confs sn x = (case x of None \<Rightarrow> Some 0 | Some y \<Rightarrow> confsOf (ho_height y) (sn_tip sn))"

definition find_out :: "scan \<Rightarrow> outpoint \<Rightarrow> htlc_out option" where
  "find_out sn p = List.find (\<lambda>x. sameOutpoint x p) (sn_outs sn)"

definition show_my_lock :: "outpoint \<Rightarrow> int option \<Rightarrow> unit prog" where
  "show_my_lock p confs = upd_live (\<lambda>l. l\<lparr>lv_myLock := Some \<lparr>li_point = p, li_confs = confs\<rparr>\<rparr>)"

definition show_their_lock :: "scan \<Rightarrow> htlc_out \<Rightarrow> unit prog" where
  "show_their_lock sn x = upd_live (\<lambda>l. l\<lparr>lv_theirLock := Some \<lparr>li_point = outpoint_of x,
     li_confs = confsOf (ho_height x) (sn_tip sn)\<rparr>\<rparr>)"

text \<open>Claiming the maker's HTLC; the value says whether it is too late to reveal the secret.\<close>

definition taker_claim :: "engine \<Rightarrow> ctx \<Rightarrow> scan \<Rightarrow> htlc_out option \<Rightarrow> htlc_params \<Rightarrow> bytes \<Rightarrow> bytes \<Rightarrow> bool prog" where
  "taker_claim E c theirs theirOut theirP secret key = bnd getr (\<lambda>r. let side = r_side r; t = c_t c in
     case theirOut of None \<Rightarrow> ret False | Some x \<Rightarrow>
       if ho_spend x \<noteq> None then ret False
       else case s_claim side of
         Some st \<Rightarrow> andthen (broadcast_hex E (t_makerChain t) (st_hex st)) (ret False)
       | None \<Rightarrow> let confs = confsOf (ho_height x) (sn_tip theirs) in
           if \<not> num_ge confs (sp_confirmations (en_policy E) (t_makerChain t)) then ret False
           else if num_gt confs (t_makerRefundBlocks t - claimSafetyBlocks (t_makerRefundBlocks t))
           then andthen (set_note (Some (NLateInWindow (the confs) (t_makerRefundBlocks t)))) (ret True)
           else andthen (upd_side (\<lambda>s. s\<lparr>s_theirLock := Some (outpoint_of x)\<rparr>))
             (andthen (do_claim E (t_makerChain t) theirP x secret key) (ret False)))"

definition spent_by :: "htlc_out option \<Rightarrow> stored_tx option \<Rightarrow> bool" where
  "spent_by x st \<longleftrightarrow> (case (Option.bind x ho_spend, st) of (Some sp, Some s) \<Rightarrow> si_txid sp = st_txid s | _ \<Rightarrow> False)"

definition spend_confirmed :: "htlc_out option \<Rightarrow> bool" where
  "spend_confirmed x \<longleftrightarrow> (case Option.bind x ho_spend of Some sp \<Rightarrow> si_height sp \<noteq> None | None \<Rightarrow> False)"

definition is_spent :: "htlc_out option \<Rightarrow> bool" where
  "is_spent x \<longleftrightarrow> Option.bind x ho_spend \<noteq> None"

definition show_refund_in :: "htlc_out option \<Rightarrow> int \<Rightarrow> int option \<Rightarrow> unit prog" where
  "show_refund_in myOut blocks confs =
     when_p (myOut \<noteq> None \<and> \<not> is_spent myOut)
       (upd_live (\<lambda>l. l\<lparr>lv_refundIn := Some (map_option (\<lambda>n. max 0 (blocks - n)) confs)\<rparr>))"

definition taker_stage :: "ctx \<Rightarrow> htlc_out option \<Rightarrow> int option \<Rightarrow> htlc_out option \<Rightarrow> bool \<Rightarrow> bool \<Rightarrow> unit prog" where
  "taker_stage c myOut myConfs theirOut wrong tooLate = bnd getr (\<lambda>r. let side = r_side r;
       claimConfirmed = spent_by theirOut (s_claim side) \<and> spend_confirmed theirOut;
       claimLost = s_claim side \<noteq> None \<and> is_spent theirOut \<and> \<not> spent_by theirOut (s_claim side);
       refundConfirmed = spent_by myOut (s_refund side) \<and> spend_confirmed myOut;
       counterClaimed = is_spent myOut \<and> \<not> spent_by myOut (s_refund side)
     in andthen (show_refund_in myOut (t_takerRefundBlocks (c_t c)) myConfs)
       (if claimConfirmed \<and> (counterClaimed \<or> refundConfirmed)
        then finish Finished (if refundConfirmed then Some NMakerNeverClaimed else None)
        else if refundConfirmed then finish Refunded (s_note side)
        else if s_claim side \<noteq> None \<and> \<not> claimConfirmed \<and> \<not> claimLost then set_stage Claiming
        else if claimConfirmed then set_stage WaitingCounterClaim
        else if s_refund side \<noteq> None then set_stage RefundPending
        else if claimLost then refund_pending (Some NMakerRefunded)
        else if m_is c Cancelled \<or> pruned c \<or> wrong \<or> tooLate \<or> is_spent theirOut
        then refund_pending (Some (or_else (s_note side) NMakerWillNotLock))
        else set_stage WaitingMakerLock))"

definition taker_locked :: "engine \<Rightarrow> ctx \<Rightarrow> scan \<Rightarrow> htlc_params \<Rightarrow> htlc_params \<Rightarrow> int \<Rightarrow> bytes \<Rightarrow> bytes \<Rightarrow> unit prog" where
  "taker_locked E c mine mineP theirP makerAmount secret key = bnd getr (\<lambda>r. let t = c_t c in
     andthen (when_p (m_is c Escrow \<and> Option.bind (c_m c) m_takerLock = None \<and> \<not> s_lockPosted (r_side r)) (post_locked c))
     (case s_myLock (r_side r) of None \<Rightarrow> ret () | Some myLock \<Rightarrow>
       let myOut = find_out mine myLock; myConfs = lock_confs mine myOut in
       andthen (show_my_lock myLock myConfs)
       (bnd (scan_chain E (t_makerChain t) theirP) (\<lambda>theirs. bnd getr (\<lambda>r.
          let theirOut = (case s_theirLock (r_side r) of Some p \<Rightarrow> find_out theirs p
                          | None \<Rightarrow> pickExact (sn_outs theirs) makerAmount False);
              wrong = (if theirOut = None then List.find (\<lambda>x. ho_spend x = None \<and> ho_value x \<noteq> makerAmount) (sn_outs theirs) else None)
          in andthen (case theirOut of Some x \<Rightarrow> show_their_lock theirs x | None \<Rightarrow> ret ())
            (andthen (set_note (map_option (\<lambda>x. NMakerHolds (ho_value x) makerAmount) wrong))
            (bnd (taker_claim E c theirs theirOut theirP secret key) (\<lambda>tooLate.
             andthen (maybeRefund E (t_takerChain t) mineP myOut (sn_tip mine) key)
               (taker_stage c myOut myConfs theirOut (wrong \<noteq> None) tooLate)))))))))"

definition taker_proofs :: "engine \<Rightarrow> ctx \<Rightarrow> int \<Rightarrow> int \<Rightarrow> unit prog" where
  "taker_proofs E c takerAmount makerAmount =
     andthen (when_p (m_is c AwaitingProofs \<and> Option.bind (c_m c) m_takerProof = None)
       (postProof E c (t_takerChain (c_t c)) takerAmount None))
     (bnd getr (\<lambda>r. case Option.bind (c_m c) m_makerProof of
        Some p \<Rightarrow> if s_theirProof (r_side r) = None \<and> s_myLock (r_side r) = None
          then bnd (verifyProof E c p (t_makerChain (c_t c)) makerAmount) (\<lambda>_. ret ()) else ret ()
      | None \<Rightarrow> ret ()))"

definition stepTaker :: "engine \<Rightarrow> ctx \<Rightarrow> unit prog" where
  "stepTaker E c = in_method (bnd getr (\<lambda>r. let t = c_t c in
     bnd (of_sum KeyFault (taker_keys E c)) (\<lambda>(secret, key).
     if sha (en_C E) secret \<noteq> c_hash c \<or> toHex (xOnly (en_C E) key) \<noteq> t_takerKey t
     then finish Failed (Some NNotDerivedTaker)
     else if s_stage (r_side r) \<in> set TERMINAL \<and> s_myLock (r_side r) = None then leave
     else bnd (amount_of (t_takerAmount t)) (\<lambda>takerAmount. bnd (amount_of (t_makerAmount t)) (\<lambda>makerAmount.
       andthen (taker_proofs E c takerAmount makerAmount)
       (case t_makerKey t of None \<Rightarrow> taker_no_maker c
        | Some makerKey \<Rightarrow>
            bnd (scan_chain E (t_takerChain t) (taker_mine c makerKey)) (\<lambda>mine.
            andthen (adopt_existing mine takerAmount)
            (andthen (taker_lock E c mine takerAmount)
              (taker_locked E c mine (taker_mine c makerKey) (taker_theirs c makerKey) makerAmount secret key)))))))))"

end
