(* ===== verification/MakerStep.thy ===== *)
theory MakerStep
  imports TakerStep
begin

text \<open>
  \<open>SwapEngine.stepMaker\<close> (\<open>src/swap/engine.ts\<close>): the maker locks second, learns the secret from the
  taker's claim and claims the taker's HTLC with it. The sections of the method are \<open>maker_proofs\<close>,
  \<open>maker_wait\<close> (before its own lock), \<open>maker_secret\<close> and \<open>maker_stage\<close>.
\<close>

section \<open>The step\<close>

definition maker_mine :: "ctx \<Rightarrow> string \<Rightarrow> htlc_params" where
  "maker_mine c myKey = \<lparr>h_hash = c_hash c, h_receiver = fromHex (t_takerKey (c_t c)), h_sender = fromHex myKey,
     h_refundBlocks = t_makerRefundBlocks (c_t c)\<rparr>"

definition maker_theirs :: "ctx \<Rightarrow> string \<Rightarrow> htlc_params" where
  "maker_theirs c myKey = \<lparr>h_hash = c_hash c, h_receiver = fromHex myKey, h_sender = fromHex (t_takerKey (c_t c)),
     h_refundBlocks = t_takerRefundBlocks (c_t c)\<rparr>"

definition maker_proofs :: "engine \<Rightarrow> ctx \<Rightarrow> string \<Rightarrow> int \<Rightarrow> int \<Rightarrow> unit prog" where
  "maker_proofs E c myKey takerAmount makerAmount =
     andthen (when_p (m_is c AwaitingProofs \<and> Option.bind (c_m c) m_makerProof = None)
       (postProof E c (t_makerChain (c_t c)) makerAmount (Some myKey)))
     (bnd getr (\<lambda>r. case Option.bind (c_m c) m_takerProof of
        Some p \<Rightarrow> if s_myLock (r_side r) = None \<and> m_is c AwaitingProofs \<and> s_theirProof (r_side r) = None
          then bnd (verifyProof E c p (t_takerChain (c_t c)) takerAmount) (\<lambda>_. ret ()) else ret ()
      | None \<Rightarrow> ret ()))"

text \<open>The taker's lock in escrow: a second scan when its proof turns out bad, since a lock spends it.\<close>

definition maker_rescan :: "engine \<Rightarrow> ctx \<Rightarrow> match \<Rightarrow> htlc_params \<Rightarrow> int \<Rightarrow> scan \<Rightarrow> scan prog" where
  "maker_rescan E c m theirP takerAmount theirs = bnd getr (\<lambda>r.
     case m_takerProof m of None \<Rightarrow> ret theirs
     | Some p \<Rightarrow>
       if pickExact (sn_outs theirs) takerAmount True \<noteq> None \<or> s_theirProof (r_side r) \<noteq> None then ret theirs
       else bnd (verifyProof E c p (t_takerChain (c_t c)) takerAmount) (\<lambda>verdict.
         case verdict of Some (CheckBad _) \<Rightarrow> scan_chain E (t_takerChain (c_t c)) theirP | _ \<Rightarrow> ret theirs))"

definition js_round_div :: "int \<Rightarrow> int \<Rightarrow> int" where
  "js_round_div a b = (2 * a + b) div (2 * b)"

definition maker_no_lock_seen :: "ctx \<Rightarrow> scan \<Rightarrow> int \<Rightarrow> int \<Rightarrow> int \<Rightarrow> unit prog" where
  "maker_no_lock_seen c theirs takerAmount h lockDeadline =
     andthen (upd_side (\<lambda>s. s\<lparr>s_note := (case List.find (\<lambda>x. ho_spend x = None \<and> ho_value x \<noteq> takerAmount) (sn_outs theirs) of
         Some x \<Rightarrow> Some (NTakerHolds (ho_value x) takerAmount) | None \<Rightarrow> s_note s)\<rparr>))
     (bnd getr (\<lambda>r. case s_theirProof (r_side r) of
        Some (CheckBad why) \<Rightarrow> andthen (abort_swap c (NTakerProofInvalid why)) leave
      | _ \<Rightarrow> if h > lockDeadline then andthen (abort_swap c NTakerNeverLocked) leave else leave))"

text \<open>Seconds until the taker's refund opens (\<open>None\<close>: \<open>NaN\<close>) and the least the maker accepts.\<close>

definition their_refund_secs :: "ctx \<Rightarrow> scan \<Rightarrow> htlc_out \<Rightarrow> int option" where
  "their_refund_secs c theirs x = map_option (\<lambda>tip.
     (or_else (ho_height x) 0 + t_takerRefundBlocks (c_t c) - tip) * blockSeconds (NETWORKS (t_takerChain (c_t c)) Mainnet)) (sn_tip theirs)"

definition need_secs :: "engine \<Rightarrow> ctx \<Rightarrow> int" where
  "need_secs E c = (t_makerRefundBlocks (c_t c) + 1) * blockSeconds (NETWORKS (t_makerChain (c_t c)) Mainnet)
     + sp_windowMarginSecs (en_policy E)"

text \<open>Locking against a lock that is seen.\<close>

definition maker_lock_seen :: "engine \<Rightarrow> ctx \<Rightarrow> scan \<Rightarrow> scan \<Rightarrow> htlc_out \<Rightarrow> int \<Rightarrow> int \<Rightarrow> int \<Rightarrow> unit prog" where
  "maker_lock_seen E c mine theirs x makerAmount h lockDeadline =
     (let confs = confsOf (ho_height x) (sn_tip theirs);
          need = sp_confirmations (en_policy E) (t_takerChain (c_t c));
          theirRefundSecs = their_refund_secs c theirs x;
          needSecs = need_secs E c
      in andthen (upd_live (\<lambda>l. l\<lparr>lv_theirLock := Some \<lparr>li_point = outpoint_of x, li_confs = confs\<rparr>\<rparr>))
      (if num_lt confs need then
         andthen (set_note (Some (NConfirmations (the confs) need)))
           (if h > lockDeadline + TAKER_LOCK_WINDOW then andthen (abort_swap c NTakerNeverConfirmed) leave else leave)
       else if num_lt theirRefundSecs needSecs then
         andthen (abort_swap c (NWindowTooShort (js_round_div (the theirRefundSecs) 60) (js_round_div needSecs 60))) leave
       else andthen (upd_side (\<lambda>s. s\<lparr>s_stage := WaitingMakerLock, s_theirLock := Some (outpoint_of x), s_note := None\<rparr>))
         (if en_mode E = NoLock then andthen (set_note (Some NFundingDisabled)) leave
          else andthen (lock_htlc E (t_makerChain (c_t c)) (sn_address mine) makerAmount)
            (bnd getr (\<lambda>r. if s_myLock (r_side r) = None then leave else ret ())))))"

definition maker_wait :: "engine \<Rightarrow> ctx \<Rightarrow> scan \<Rightarrow> htlc_params \<Rightarrow> int \<Rightarrow> int \<Rightarrow> unit prog" where
  "maker_wait E c mine theirP takerAmount makerAmount = bnd getr (\<lambda>r. let side = r_side r in
     if s_myLock side \<noteq> None then ret ()
     else if m_is c Cancelled \<or> pruned c then
       andthen (finish CancelledSwap (Some (or_else (s_abort side)
         (if cancel_why c = Some NoProof then NProofsMissed else NMatchCancelled)))) leave
     else case (c_m c, c_h c) of
       (Some m, Some h) \<Rightarrow>
         if m_status m = AwaitingProofs then andthen (set_stage Proofs) leave
         else (case s_abort side of Some why \<Rightarrow> andthen (abort_swap c why) leave
         | None \<Rightarrow>
           let lockDeadline = t_proofDeadline (c_t c) + TAKER_LOCK_WINDOW in
           andthen (upd_live (\<lambda>l. l\<lparr>lv_deadline := Some (TakerLockLeft (max 0 (lockDeadline - h)))\<rparr>))
          (andthen (set_stage WaitingTakerLock)
          (bnd (scan_chain E (t_takerChain (c_t c)) theirP) (\<lambda>theirs.
             if pickExact (sn_outs theirs) takerAmount True = None \<and> pickExact (sn_outs theirs) takerAmount False \<noteq> None
             then andthen (abort_swap c NTakerSpent) leave
             else bnd (maker_rescan E c m theirP takerAmount theirs) (\<lambda>theirs.
               case pickExact (sn_outs theirs) takerAmount True of
                 None \<Rightarrow> maker_no_lock_seen c theirs takerAmount h lockDeadline
               | Some x \<Rightarrow> maker_lock_seen E c mine theirs x makerAmount h lockDeadline)))))
     | _ \<Rightarrow> leave)"

text \<open>The secret, from the witness of the spend or from the spending transaction.\<close>

definition maker_secret :: "engine \<Rightarrow> ctx \<Rightarrow> spend_info option \<Rightarrow> bytes option prog" where
  "maker_secret E c counterClaim = (case counterClaim of None \<Rightarrow> ret None
     | Some sp \<Rightarrow> (case secretFromWitness (en_C E) (Some (si_witness sp)) (c_hash c) of
         Some s \<Rightarrow> ret (Some s)
       | None \<Rightarrow> bnd (ask (AskTx (t_makerChain (c_t c)) (si_txid sp)) (\<lambda>n. w_tx (en_world E) n (t_makerChain (c_t c)) (si_txid sp)))
           (\<lambda>t. ret (fold (\<lambda>i acc. if acc = None then secretFromWitness (en_C E) (Some (ei_witness i)) (c_hash c) else acc)
             (case t of None \<Rightarrow> [] | Some tx \<Rightarrow> et_vin tx) None))))"

definition maker_stage :: "ctx \<Rightarrow> htlc_out option \<Rightarrow> int option \<Rightarrow> htlc_out option \<Rightarrow> spend_info option \<Rightarrow> bytes option \<Rightarrow> unit prog" where
  "maker_stage c myOut myConfs theirOut counterClaim secret = bnd getr (\<lambda>r. let side = r_side r;
       claimConfirmed = spent_by theirOut (s_claim side) \<and> spend_confirmed theirOut;
       claimLost = s_claim side \<noteq> None \<and> is_spent theirOut \<and> \<not> spent_by theirOut (s_claim side);
       refundConfirmed = spent_by myOut (s_refund side) \<and> spend_confirmed myOut
     in andthen (show_refund_in myOut (t_makerRefundBlocks (c_t c)) myConfs)
       (if claimConfirmed then finish Finished None
        else if claimLost then finish Failed (Some NTakerRefunded)
        else if s_claim side \<noteq> None then set_stage Claiming
        else if refundConfirmed then finish Refunded (Some NTakerNeverClaimed)
        else if s_refund side \<noteq> None then set_stage RefundPending
        else if counterClaim \<noteq> None \<and> secret = None then refund_pending (Some NSpentWithoutSecret)
        else if counterClaim \<noteq> None then finish Claiming (Some (if is_spent theirOut then NTheirLockSpent else NWaitTheirLock))
        else set_stage WaitingCounterClaim))"

definition maker_locked :: "engine \<Rightarrow> ctx \<Rightarrow> scan \<Rightarrow> htlc_params \<Rightarrow> htlc_params \<Rightarrow> int \<Rightarrow> bytes \<Rightarrow> unit prog" where
  "maker_locked E c mine mineP theirP takerAmount key = bnd getr (\<lambda>r. let t = c_t c in
     andthen (when_p (m_is c Escrow \<and> Option.bind (c_m c) m_makerLock = None \<and> \<not> s_lockPosted (r_side r)) (post_locked c))
     (case s_myLock (r_side r) of None \<Rightarrow> ret () | Some myLock \<Rightarrow>
       let myOut = find_out mine myLock; myConfs = lock_confs mine myOut in
       andthen (show_my_lock myLock myConfs)
       (bnd (scan_chain E (t_takerChain t) theirP) (\<lambda>theirs. bnd getr (\<lambda>r.
          let theirOut = (case s_theirLock (r_side r) of Some p \<Rightarrow> find_out theirs p
                          | None \<Rightarrow> pickExact (sn_outs theirs) takerAmount True);
              counterClaim = (if is_spent myOut \<and> \<not> spent_by myOut (s_refund (r_side r)) then Option.bind myOut ho_spend else None)
          in andthen (case theirOut of
                Some x \<Rightarrow> andthen (upd_side (\<lambda>s. s\<lparr>s_theirLock := Some (or_else (s_theirLock s) (outpoint_of x))\<rparr>))
                            (show_their_lock theirs x)
              | None \<Rightarrow> ret ())
            (bnd (maker_secret E c counterClaim) (\<lambda>secret. bnd getr (\<lambda>r.
              andthen (case theirOut of None \<Rightarrow> ret () | Some x \<Rightarrow>
                  if ho_spend x \<noteq> None then ret ()
                  else case s_claim (r_side r) of
                    Some st \<Rightarrow> broadcast_hex E (t_takerChain t) (st_hex st)
                  | None \<Rightarrow> (case secret of None \<Rightarrow> ret () | Some s \<Rightarrow> do_claim E (t_takerChain t) theirP x s key))
              (andthen (maybeRefund E (t_makerChain t) mineP myOut (sn_tip mine) key)
                (maker_stage c myOut myConfs theirOut counterClaim secret))))))))))"

definition stepMaker :: "engine \<Rightarrow> ctx \<Rightarrow> unit prog" where
  "stepMaker E c = in_method (bnd getr (\<lambda>r. let t = c_t c in
     bnd (of_sum KeyFault (swapKey (en_C E) (c_seed c) (c_matchId c) (t_makerChain t) Maker)) (\<lambda>key.
     let myKey = toHex (xOnly (en_C E) key) in
     if t_makerKey t \<noteq> None \<and> t_makerKey t \<noteq> Some myKey then finish Failed (Some NNotDerivedMaker)
     else if s_stage (r_side r) \<in> set TERMINAL \<and> s_myLock (r_side r) = None then leave
     else bnd (amount_of (t_takerAmount t)) (\<lambda>takerAmount. bnd (amount_of (t_makerAmount t)) (\<lambda>makerAmount.
       andthen (maker_proofs E c myKey takerAmount makerAmount)
       (bnd (scan_chain E (t_makerChain t) (maker_mine c myKey)) (\<lambda>mine.
        andthen (adopt_existing mine makerAmount)
        (andthen (maker_wait E c mine (maker_theirs c myKey) takerAmount makerAmount)
          (maker_locked E c mine (maker_mine c myKey) (maker_theirs c myKey) takerAmount key)))))))))"

text \<open>\<open>step\<close>: the deadline shown while proofs are awaited, then the role's step.\<close>

definition step :: "engine \<Rightarrow> ctx \<Rightarrow> unit prog" where
  "step E c = andthen (if c_h c \<noteq> None \<and> m_is c AwaitingProofs
       then upd_live (\<lambda>l. l\<lparr>lv_deadline := Some (ProofsLeft (max 0 (t_proofDeadline (c_t c) - the (c_h c))))\<rparr>)
       else ret ())
     (bnd getr (\<lambda>r. case s_role (r_side r) of Taker \<Rightarrow> stepTaker E c | Maker \<Rightarrow> stepMaker E c))"

section \<open>An example match\<close>

text \<open>The taker locks 50000 on Bitcoin, the maker 50000 on Litecoin; all keys are the example key.\<close>

definition ex_terms :: swap_terms where
  "ex_terms = \<lparr>t_offerId = ''o'', t_maker = ''me'', t_taker = ''me'', t_takeSeq = 1, t_makerChain = Litecoin,
     t_makerAmount = show_int 50000, t_makerRefundBlocks = 288, t_takerChain = Bitcoin, t_takerAmount = show_int 50000,
     t_takerRefundBlocks = 144, t_hash = toHex ex_key, t_takerKey = toHex ex_key, t_makerKey = Some (toHex ex_key),
     t_takenAt = 50, t_proofDeadline = 90, t_pruneAt = 5000\<rparr>"

definition ex_swap_match :: "match_status \<Rightarrow> match" where
  "ex_swap_match st = \<lparr>m_id = ''m'', m_offerId = ''o'', m_maker = ''me'', m_taker = ''me'', m_takeSeq = 1, m_makerChain = Litecoin,
     m_makerAmount = 50000, m_makerRefundBlocks = 288, m_takerChain = Bitcoin, m_takerAmount = 50000, m_takerRefundBlocks = 144,
     m_hash = toHex ex_key, m_takerKey = toHex ex_key, m_makerKey = Some (toHex ex_key), m_status = st, m_takenAt = 50,
     m_proofDeadline = 90, m_pruneAt = 5000, m_makerProof = None, m_takerProof = None, m_makerLock = None,
     m_takerLock = None, m_cancelled = None\<rparr>"

definition ex_ctx :: "match_status \<Rightarrow> int \<Rightarrow> ctx" where
  "ex_ctx st h = \<lparr>c_matchId = ''m'', c_t = ex_terms, c_m = Some (ex_swap_match st), c_h = Some h, c_seed = replicate 32 7, c_hash = ex_key\<rparr>"

definition ex_script :: string where
  "ex_script = toHex ([0x51, 0x20] @ NUMS_INTERNAL_KEY)"

definition ex_lock_tx :: "string \<Rightarrow> int \<Rightarrow> int \<Rightarrow> etx" where
  "ex_lock_tx i v h = \<lparr>et_txid = i, et_vin = [], et_vout = [\<lparr>eo_script = Some ex_script, eo_value = v\<rparr>], et_confirmed = True, et_height = Some h\<rparr>"

definition ex_spend_tx :: "string \<Rightarrow> string \<Rightarrow> string list \<Rightarrow> int \<Rightarrow> etx" where
  "ex_spend_tx i prev wit h = \<lparr>et_txid = i, et_vin = [\<lparr>ei_txid = Some prev, ei_vout = Some 0, ei_witness = wit\<rparr>], et_vout = [],
     et_confirmed = True, et_height = Some h\<rparr>"

text \<open>The engine of the example with explorers that list these transactions of the two HTLCs.\<close>

definition ex_seeing :: "etx list \<Rightarrow> etx list \<Rightarrow> int option \<Rightarrow> engine" where
  "ex_seeing btc ltc tip = ex_engine\<lparr>en_world := ex_world\<lparr>
     w_txs := \<lambda>_ ch _. Inr (case ch of Bitcoin \<Rightarrow> btc | Litecoin \<Rightarrow> ltc), w_tip := \<lambda>_ _. Inr tip\<rparr>\<rparr>"

definition ex_start :: "swap_role \<Rightarrow> (side \<Rightarrow> side) \<Rightarrow> run" where
  "ex_start r f = \<lparr>r_side = f (ex_side r), r_live = no_live, r_posts = [], r_wallets = [], r_log = []\<rparr>"

end
