(* ===== verification/Runs.thy ===== *)
theory Runs
  imports MakerStep
begin

text \<open>
  Running the engine's steps by rewriting: the rules that run a program from a run state, and what the
  example engine's keys, scans and wallet answer. The witnesses and the runs that end badly use them.
\<close>

section \<open>The example engine's answers\<close>

lemma ex_swapKey: "i \<noteq> [] \<Longrightarrow> length i \<le> 32767 \<Longrightarrow> swapKey ex_crypto (replicate 32 7) i ch r = Inr ex_key"
  and ex_secret: "i \<noteq> [] \<Longrightarrow> length i \<le> 32767 \<Longrightarrow> swapSecret ex_crypto (replicate 32 7) i = Inr ex_key"
  and ex_walletKey: "walletKey ex_crypto (replicate 32 7) ch n = Inr ex_key"
proof -
  have one: "fromHex (padStart 64 (CHR ''0'') (hex_text_of (nat (int (be_val (replicate 31 0 @ [1])) mod 2)))) = ex_key"
    by code_simp
  have odd: "int (be_val (replicate 31 0 @ [1])) mod 2 \<noteq> 0" by code_simp
  have sc: "scalar ex_crypto (replicate 32 7) p fs = Inr ex_key" if "list_all (\<lambda>f. length f \<le> 32767) (KEYS_DOMAIN # p # fs)" for p fs
    using lp_all_short[OF that] one odd by (auto simp: scalar_def key_prf_def ex_crypto_def Let_def)
  have ct: "length (chain_text ch) \<le> 32767" "length (role_text r) \<le> 32767" "length (net_text n) \<le> 32767" for ch r n
    by (cases ch; cases r; cases n; simp)+
  show "i \<noteq> [] \<Longrightarrow> length i \<le> 32767 \<Longrightarrow> swapKey ex_crypto (replicate 32 7) i ch r = Inr ex_key"
    using sc[of "''swap-key''" "[i, chain_text ch, role_text r]"] ct by (simp add: swapKey_def KEYS_DOMAIN_def)
  show "walletKey ex_crypto (replicate 32 7) ch n = Inr ex_key"
    using sc[of "''wallet''" "[chain_text ch, net_text n]"] ct by (simp add: walletKey_def KEYS_DOMAIN_def)
  show "swapSecret ex_crypto (replicate 32 7) i = Inr ex_key" if "i \<noteq> []" "length i \<le> 32767"
    using that lp_all_short[of "[KEYS_DOMAIN, ''swap-secret'', i]"]
    by (auto simp: swapSecret_def key_prf_def ex_crypto_def ex_key_def KEYS_DOMAIN_def)
qed

section \<open>Running a program\<close>

text \<open>Each combinator and each definition applied to a run: rewriting with them runs the program.\<close>

lemma exec_bnd: "bnd m f r = (case m r of (r', Done a) \<Rightarrow> f a r' | (r', Returned) \<Rightarrow> (r', Returned) | (r', Threw e) \<Rightarrow> (r', Threw e))"
  by (simp add: bnd_def)
lemma exec_andthen: "andthen m k r = (case m r of (r', Done a) \<Rightarrow> k r' | (r', Returned) \<Rightarrow> (r', Returned) | (r', Threw e) \<Rightarrow> (r', Threw e))"
  by (simp add: andthen_def bnd_def)
lemma exec_in_method: "in_method m r = (case m r of (r', Returned) \<Rightarrow> (r', Done ()) | x \<Rightarrow> x)"
  by (simp add: in_method_def split: prod.splits outcome.splits)
lemma exec_catch: "catch m h r = (case m r of (r', Threw e) \<Rightarrow> h e r' | x \<Rightarrow> x)"
  by (simp add: catch_def split: prod.splits outcome.splits)
lemma exec_if: "(if b then m else k) r = (if b then m r else k r)"
  by simp
lemma exec_Let: "Let a f r = f a r"
  by simp
lemma exec_prod: "(case (a, b) of (x, y) \<Rightarrow> f x y) r = f a b r"
  by simp

lemmas exec_base = exec_bnd exec_andthen exec_in_method exec_catch exec_if exec_Let exec_prod
  ret_def[THEN fun_cong] leave_def[THEN fun_cong] throw_def[THEN fun_cong] getr_def[THEN fun_cong] upd_side_def[THEN fun_cong]
  upd_live_def[THEN fun_cong] upd_posts_def[THEN fun_cong] upd_wallets_def[THEN fun_cong] emit_def[THEN fun_cong]
  ask_def[THEN fun_cong] of_sum_def[THEN fun_cong] when_p_def[THEN fun_cong]

lemmas exec_shared = set_stage_def[THEN fun_cong] set_note_def[THEN fun_cong] finish_def[THEN fun_cong] refund_pending_def[THEN fun_cong]
  save_def[THEN fun_cong] adoptLock_def[THEN fun_cong] lock_htlc_def[THEN fun_cong] lock_fund_def[THEN fun_cong]
  broadcast_hex_def[THEN fun_cong] my_address_def[THEN fun_cong] maybeRefund_def[THEN fun_cong] do_claim_def[THEN fun_cong]
  verifyProof_def[THEN fun_cong] postOp_def[THEN fun_cong] postProof_def[THEN fun_cong] post_locked_def[THEN fun_cong]
  abort_swap_def[THEN fun_cong] amount_of_def[THEN fun_cong] adopt_existing_def[THEN fun_cong] show_my_lock_def[THEN fun_cong]
  show_their_lock_def[THEN fun_cong] show_refund_in_def[THEN fun_cong] wallet_for_def[THEN fun_cong]

lemmas exec_taker = stepTaker_def[THEN fun_cong] taker_no_maker_def[THEN fun_cong] taker_lock_def[THEN fun_cong] taker_claim_def[THEN fun_cong]
  taker_stage_def[THEN fun_cong] taker_locked_def[THEN fun_cong] taker_proofs_def[THEN fun_cong]

lemmas exec_maker = stepMaker_def[THEN fun_cong] maker_proofs_def[THEN fun_cong] maker_rescan_def[THEN fun_cong]
  maker_no_lock_seen_def[THEN fun_cong] maker_lock_seen_def[THEN fun_cong] maker_wait_def[THEN fun_cong] maker_secret_def[THEN fun_cong]
  maker_stage_def[THEN fun_cong] maker_locked_def[THEN fun_cong]

lemmas exec_pure = pruned_def m_is_def cancel_why_def find_out_def lock_confs_def spent_by_def spend_confirmed_def is_spent_def
  sameOutpoint_def outpoint_of_def confsOf_def num_lt_def num_gt_def num_ge_def or_else_def may_post_def utxo_of_def
  taker_mine_def taker_theirs_def maker_mine_def maker_theirs_def claimSafetyBlocks_def

lemma ex_scan:
  assumes "1 \<le> n" "n \<le> 65535"
  shows "scan_chain (ex_seeing btc ltc tip) ch \<lparr>h_hash = ex_key, h_receiver = ex_key, h_sender = ex_key, h_refundBlocks = n\<rparr> r
   = (r\<lparr>r_log := r_log r @ [AskTxs ch ''tb1'', AskTip ch]\<rparr>,
      Done \<lparr>sn_address = ''tb1'', sn_outs = scan_outs ex_script (case ch of Bitcoin \<Rightarrow> btc | Litecoin \<Rightarrow> ltc), sn_tip = tip\<rparr>)"
  using ex_htlcScript[OF assms]
  by (simp add: scan_chain_def exec_base ex_seeing_def ex_engine_def ex_htlc_def htlc_address_def ex_script_def Let_def)
    (simp add: ex_signer_def)

lemma ex_outs: "scan_outs ex_script [ex_lock_tx i v h] = [\<lparr>ho_txid = i, ho_vout = 0, ho_value = v, ho_height = Some h, ho_spend = None\<rparr>]"
  by (simp add: scan_outs_def outs_of_tx_def spends_of_tx_def ex_lock_tx_def tx_height_def)

lemma ex_no_outs: "scan_outs ex_script [] = []"
  by (simp add: scan_outs_def)

definition ex_replying :: "string + string \<Rightarrow> engine \<Rightarrow> engine" where
  "ex_replying x E = E\<lparr>en_world := (en_world E)\<lparr>w_send := \<lambda>_ _ _. x\<rparr>\<rparr>"

definition ex_new_wallet :: "chain \<Rightarrow> wallet" where
  "ex_new_wallet ch = \<lparr>wl_chain = ch, wl_net = Testnet, wl_key = ex_key, wl_own = [], wl_spent = []\<rparr>"

lemma ex_select:
  assumes "en_S E = ex_signer"
  shows "select_inputs E (ex_new_wallet ch) P2TR_SCRIPT 50000 (Double 2 0)
     (dustThreshold (wallet_network (ex_new_wallet ch)) P2TR_SCRIPT) [] 0
     [\<lparr>eu_txid = ''t2'', eu_vout = 1, eu_value = 100000, eu_confirmed = True\<rparr>, \<lparr>eu_txid = ''t1'', eu_vout = 0, eu_value = 90000, eu_confirmed = True\<rparr>]
   = Some ([\<lparr>eu_txid = ''t2'', eu_vout = 1, eu_value = 100000, eu_confirmed = True\<rparr>], Some 49720, 140)"
proof -
  have f: "fee_ceil (Double 2 0) 140 = Some 280" by code_simp
  have v: "pay_vsize E w i x y = 140" for w i x y by (simp add: pay_vsize_def assms Let_def) (simp add: ex_signer_def)
  have d: "dustThreshold (wallet_network (ex_new_wallet ch)) P2TR_SCRIPT \<le> 49720"
    by (cases ch) (simp_all add: wallet_network_def ex_new_wallet_def swapNetwork_def, code_simp+)
  show ?thesis using d by (simp add: f v Let_def)
qed

lemma ex_fund:
  assumes "map_of (r_wallets r) k = Some (ex_new_wallet ch)"
  shows "fundHtlc (ex_replying (Inl e) (ex_seeing b l t)) k \<lparr>pa_to = ''tb1'', pa_amount = 50000, pa_feeRate = Double 2 0\<rparr> r =
    (r\<lparr>r_log := r_log r @ [AskUtxos ch ''tb1w'', Sent ch ''b''], r_wallets := map_set k (ex_new_wallet ch) (r_wallets r)\<rparr>,
     Threw (ExplorerFault e))"
proof -
  let ?E = "ex_replying (Inl e) (ex_seeing b l t)"
  let ?us = "[\<lparr>eu_txid = ''t1'', eu_vout = 0, eu_value = 90000, eu_confirmed = True\<rparr>,
       \<lparr>eu_txid = ''t2'', eu_vout = 1, eu_value = 100000, eu_confirmed = True\<rparr>]"
  have dec: "decode_address (en_S ?E) n s = Some (''tr'', P2TR_SCRIPT)" "builds (en_S ?E) t'" "wallet_script ?E w = P2TR_SCRIPT"
    "wallet_address ?E w = ''tb1w''" "rate_ok (Double 2 0)" "w_utxos (en_world ?E) m ch a = Inr ?us" "w_send (en_world ?E) m ch a = Inl e"
    for n s t' w m a
    by (simp_all add: ex_replying_def ex_seeing_def ex_engine_def ex_signer_def ex_world_def wallet_script_def wallet_address_def rate_ok_def)
  have d: "\<not> 50000 < dustThreshold (wallet_network (ex_new_wallet ch)) P2TR_SCRIPT"
    by (cases ch) (simp_all add: wallet_network_def ex_new_wallet_def swapNetwork_def, code_simp+)
  have sp: "spendable (ex_new_wallet ch) ?us = rev ?us"
    by (simp add: spendable_def ex_new_wallet_def by_value_desc_def)
  have S: "en_S ?E = ex_signer" by (simp add: ex_replying_def ex_seeing_def ex_engine_def)
  have hex: "hex_of (en_S ?E) (pay_sign ?E w [u] o' a c) = ''b''" for w u o' a c
  proof -
    have "\<exists>sg. tx_witnesses (pay_sign ?E w [u] o' a c) = [[sg]]"
      by (simp add: pay_sign_def sign_input_def pay_build_def tx_witnesses_def Let_def)
    then show ?thesis unfolding S by (auto simp: ex_signer_def ex_witness_def)
  qed
  have tw: "the_wallet k r = ex_new_wallet ch" using assms by (simp add: the_wallet_def)
  have wc: "wl_chain (ex_new_wallet ch) = ch" "(ex_new_wallet ch)\<lparr>wl_spent := []\<rparr> = ex_new_wallet ch" "wl_spent (ex_new_wallet ch) = []"
    by (simp_all add: ex_new_wallet_def)
  show ?thesis
    using ex_select[OF S, of ch]
    by (simp add: fundHtlc_def payNow_def wallet_utxos_def set_wallet_def signAndBroadcast_def exec_base Let_def dec tw d wc sp hex
        del: select_inputs.simps)
qed

lemma ex_taker_keys: "taker_keys (ex_seeing b l t) (ex_ctx st h) = Inr (ex_key, ex_key)"
  "taker_keys (ex_replying x E) c = taker_keys E c"
proof -
  have "takeSwapId ''o'' ''me'' 1 = Inr ''o:me:1''" by code_simp
  then show "taker_keys (ex_seeing b l t) (ex_ctx st h) = Inr (ex_key, ex_key)"
    using ex_swapKey[of "''o:me:1''" Bitcoin Taker] ex_secret[of "''o:me:1''"]
    by (simp add: taker_keys_def ex_ctx_def ex_terms_def ex_seeing_def ex_engine_def)
  have same: "en_C (ex_replying x E) = en_C E" by (simp add: ex_replying_def)
  show "taker_keys (ex_replying x E) c = taker_keys E c" unfolding taker_keys_def same ..
qed

lemma ex_ctx_sel: "c_t (ex_ctx st h) = ex_terms" "c_m (ex_ctx st h) = Some (ex_swap_match st)" "c_h (ex_ctx st h) = Some h"
  "c_matchId (ex_ctx st h) = ''m''" "c_seed (ex_ctx st h) = replicate 32 7" "c_hash (ex_ctx st h) = ex_key"
  by (simp_all add: ex_ctx_def)

lemma ex_terms_sel: "t_makerChain ex_terms = Litecoin" "t_takerChain ex_terms = Bitcoin" "t_makerAmount ex_terms = show_int 50000"
  "t_takerAmount ex_terms = show_int 50000" "t_makerRefundBlocks ex_terms = 288" "t_takerRefundBlocks ex_terms = 144"
  "t_takerKey ex_terms = toHex ex_key" "t_makerKey ex_terms = Some (toHex ex_key)" "t_proofDeadline ex_terms = 90"
  "t_pruneAt ex_terms = 5000"
  by (simp_all add: ex_terms_def)

lemma ex_match_sel: "m_status (ex_swap_match st) = st" "m_makerProof (ex_swap_match st) = None" "m_takerProof (ex_swap_match st) = None"
  "m_makerLock (ex_swap_match st) = None" "m_takerLock (ex_swap_match st) = None" "m_cancelled (ex_swap_match st) = None"
  by (simp_all add: ex_swap_match_def)

lemma ex_engine_sel: "en_C (ex_seeing b l t) = ex_crypto" "en_S (ex_seeing b l t) = ex_signer" "en_policy (ex_seeing b l t) = ex_policy"
  "en_mode (ex_seeing b l t) = ModeOn" "en_net (ex_seeing b l t) ch = Testnet"
  "w_now (en_world (ex_seeing b l t)) n = 1000000" "en_identities (ex_seeing b l t) = [(''me'', replicate 32 7)]"
  "en_C (ex_replying x E) = en_C E" "en_S (ex_replying x E) = en_S E" "en_policy (ex_replying x E) = en_policy E"
  "en_mode (ex_replying x E) = en_mode E" "en_net (ex_replying x E) = en_net E"
  "w_now (en_world (ex_replying x E)) = w_now (en_world E)" "en_identities (ex_replying x E) = en_identities E"
  by (simp_all add: ex_seeing_def ex_engine_def ex_world_def ex_replying_def)

lemma ex_xOnly: "xOnly ex_crypto ex_key = ex_key" by (simp add: xOnly_def ex_crypto_def ex_key_def)

lemma ex_from_hex: "fromHex (toHex ex_key) = ex_key" by (simp add: ex_key_def)

lemma ex_scan_replying: "scan_chain (ex_replying x E) ch p = scan_chain E ch p"
  by (simp add: scan_chain_def ex_replying_def network_def)

lemma ex_new: "newWallet (ex_seeing b l t) (replicate 32 7) ch = Inr (ex_new_wallet ch)"
  "newWallet (ex_replying x E) seed ch = newWallet E seed ch"
  by (simp_all add: newWallet_def ex_engine_sel ex_walletKey ex_new_wallet_def)

lemma ex_wallet_key: "wallet_key_of ''me'' ch = ''me:'' @ chain_text ch"
  by (simp add: wallet_key_of_def)

lemma ex_picks: "pickExact [] n u = None" "List.find P ([] :: htlc_out list) = None"
  by (simp_all add: pickExact_def)

lemmas ex_sel = ex_ctx_sel ex_terms_sel ex_match_sel ex_engine_sel ex_taker_keys ex_xOnly ex_from_hex ex_sha ex_scan ex_scan_replying

lemma ex_maker_key: "swapKey ex_crypto (replicate 32 7) ''m'' ch r = Inr ex_key"
  by (simp add: ex_swapKey)

lemmas ex_eval = ex_maker_key exec_taker exec_maker exec_base exec_shared exec_pure TERMINAL_def ex_sel ex_new ex_no_outs ex_picks ex_policy_def ex_fund
  ex_wallet_key TAKER_LOCK_WINDOW_def LOCK_INTENT_GRACE_MS_def map_of_set

lemma ex_picks_one:
  "pickExact [x] n u = (if ho_value x = n \<and> (\<not> u \<or> ho_spend x = None) then Some x else None)"
  "List.find P [x] = (if P x then Some x else None)"
  by (simp_all add: pickExact_def)

lemma ex_block_seconds: "blockSeconds (NETWORKS Bitcoin Mainnet) = 600" "blockSeconds (NETWORKS Litecoin Mainnet) = 150"
  by code_simp+

end
