(* ===== verification/LockSafety.thy ===== *)
theory LockSafety
  imports Runs
begin

text \<open>
  When a step funds an HTLC. \<open>locking V G\<close> is the effect of a step on the side's own lock: every funding
  event satisfies \<open>G\<close> and starts from no lock, and a lock once recorded stays the same. A program is calm
  when it funds nothing and leaves the lock alone.
\<close>

section \<open>The effect\<close>

fun is_funding :: "swap_event \<Rightarrow> bool" where
  "is_funding (Funding _ _ _) = True"
| "is_funding _ = False"

definition extends :: "(swap_event \<Rightarrow> bool) \<Rightarrow> run \<Rightarrow> run \<Rightarrow> bool" where
  "extends ok r s \<longleftrightarrow> (\<exists>evs. r_log s = r_log r @ evs \<and> (\<forall>ev \<in> set evs. ok ev))"

lemma extends_refl: "extends ok r r"
  by (simp add: extends_def)

lemma extends_trans: "extends ok r s \<Longrightarrow> extends ok s t \<Longrightarrow> extends ok r t"
  unfolding extends_def by (metis (no_types, lifting) append.assoc Un_iff set_append)

lemma extends_mono: "extends ok r s \<Longrightarrow> (\<And>ev. ok ev \<Longrightarrow> ok' ev) \<Longrightarrow> extends ok' r s"
  unfolding extends_def by blast

lemma extends_event: "extends ok r s \<Longrightarrow> ev \<in> set (drop (length (r_log r)) (r_log s)) \<Longrightarrow> ok ev"
  unfolding extends_def by auto

definition unlocked :: "run \<Rightarrow> bool" where
  "unlocked r \<longleftrightarrow> s_myLock (r_side r) = None"

text \<open>The recorded verdict on the counterparty's proof of funds is one of \<open>V\<close>.\<close>

definition verdict_in :: "(proof_check \<Rightarrow> bool) \<Rightarrow> run \<Rightarrow> bool" where
  "verdict_in V r \<longleftrightarrow> (\<forall>v. s_theirProof (r_side r) = Some v \<longrightarrow> V v)"

lemma verdict_in_same: "s_theirProof (r_side s) = s_theirProof (r_side r) \<Longrightarrow> verdict_in V s = verdict_in V r"
  by (simp add: verdict_in_def)

lemma verdict_in_log [simp]: "verdict_in V (r\<lparr>r_log := l\<rparr>) = verdict_in V r"
  by (rule verdict_in_same) simp

definition ready :: "(proof_check \<Rightarrow> bool) \<Rightarrow> run \<Rightarrow> bool" where
  "ready V r \<longleftrightarrow> unlocked r \<and> verdict_in V r"

definition lock_calm :: "(proof_check \<Rightarrow> bool) \<Rightarrow> run \<Rightarrow> run \<Rightarrow> bool" where
  "lock_calm V r s \<longleftrightarrow> extends (\<lambda>ev. \<not> is_funding ev) r s \<and> s_myLock (r_side s) = s_myLock (r_side r)
     \<and> (verdict_in V r \<longrightarrow> verdict_in V s)"

definition locking :: "(proof_check \<Rightarrow> bool) \<Rightarrow> (swap_event \<Rightarrow> bool) \<Rightarrow> run \<Rightarrow> run \<Rightarrow> bool" where
  "locking V G r s \<longleftrightarrow> (verdict_in V r \<longrightarrow> verdict_in V s
     \<and> extends (\<lambda>ev. is_funding ev \<longrightarrow> G ev \<and> unlocked r) r s
     \<and> (\<not> unlocked r \<longrightarrow> s_myLock (r_side s) = s_myLock (r_side r)))"

interpretation lk: effect "lock_calm V" "locking V G" "ready V" for V G
proof
  fix r s t
  show "lock_calm V r r" by (simp add: lock_calm_def extends_refl)
  show "lock_calm V r s \<Longrightarrow> lock_calm V s t \<Longrightarrow> lock_calm V r t" by (auto simp: lock_calm_def intro: extends_trans)
  show "lock_calm V r s \<Longrightarrow> locking V G r s" by (auto simp: lock_calm_def locking_def intro: extends_mono)
  show "lock_calm V r s \<Longrightarrow> ready V r \<Longrightarrow> ready V s" by (simp add: lock_calm_def ready_def unlocked_def)
  assume a: "locking V G r s" and b: "locking V G s t"
  show "locking V G r t"
  proof (cases "verdict_in V r")
    case True
    with a b have bk: "unlocked s \<Longrightarrow> unlocked r" and st: "extends (\<lambda>ev. is_funding ev \<longrightarrow> G ev \<and> unlocked s) s t"
      by (auto simp: locking_def unlocked_def)
    have "extends (\<lambda>ev. is_funding ev \<longrightarrow> G ev \<and> unlocked r) s t" by (rule extends_mono[OF st]) (use bk in auto)
    with True a b show ?thesis by (auto simp: locking_def unlocked_def intro: extends_trans)
  qed (simp add: locking_def)
qed

named_theorems calm_locks \<open>programs that leave the lock alone\<close>

lemma calm_upd_side [calm_locks]:
  "(\<And>s. s_myLock (f s) = s_myLock s \<and> s_theirProof (f s) = s_theirProof s) \<Longrightarrow> keeps (lock_calm V) (upd_side f)"
  by (simp add: keeps_def upd_side_def lock_calm_def extends_def verdict_in_def)

lemma calm_upds [calm_locks]: "keeps (lock_calm V) (upd_live g)" "keeps (lock_calm V) (upd_posts h)" "keeps (lock_calm V) (upd_wallets w)"
  by (simp_all add: keeps_def upd_live_def upd_posts_def upd_wallets_def lock_calm_def extends_def verdict_in_def)

lemma calm_emit [calm_locks]: "\<not> is_funding ev \<Longrightarrow> keeps (lock_calm V) (emit ev)"
  by (simp add: keeps_def emit_def lock_calm_def extends_def verdict_in_def)

lemma calm_ask [calm_locks]: "\<not> is_funding ev \<Longrightarrow> keeps (lock_calm V) (ask ev ans)"
  by (auto simp: keeps_def ask_def lock_calm_def extends_def verdict_in_def split: sum.splits)

lemma calm_scan [calm_locks]: "keeps (lock_calm V) (scan_chain E ch p)"
  unfolding scan_chain_def by (intro lk.calm_rules calm_locks) simp_all

lemma calm_save [calm_locks]: "keeps (lock_calm V) save"
  unfolding save_def by (intro lk.calm_rules calm_locks) simp

lemma calm_notes [calm_locks]:
  "keeps (lock_calm V) (set_stage st)" "keeps (lock_calm V) (set_note n)" "keeps (lock_calm V) (finish st n)" "keeps (lock_calm V) (refund_pending n)"
  unfolding set_stage_def set_note_def finish_def refund_pending_def by (intro calm_locks; simp)+

lemma calm_wallet_for [calm_locks]: "keeps (lock_calm V) (wallet_for E i ch)"
  unfolding wallet_for_def by (intro lk.calm_rules calm_locks)

lemma calm_my_address [calm_locks]: "keeps (lock_calm V) (my_address E ch)"
  unfolding my_address_def by (intro lk.calm_rules calm_locks)

lemma calm_broadcast [calm_locks]: "keeps (lock_calm V) (broadcast_hex E ch hex)"
  unfolding broadcast_hex_def by (intro lk.calm_rules calm_locks) simp

lemma calm_pay [calm_locks]: "keeps (lock_calm V) (fundHtlc E k a)"
  unfolding fundHtlc_def payNow_def signAndBroadcast_def wallet_utxos_def set_wallet_def
  by (intro lk.calm_rules calm_locks) simp_all

lemma calm_refund [calm_locks]: "keeps (lock_calm V) (maybeRefund E ch p x tip key)"
  unfolding maybeRefund_def by (intro lk.calm_rules calm_locks) simp

lemma calm_do_claim [calm_locks]: "keeps (lock_calm V) (do_claim E ch p x secret key)"
  unfolding do_claim_def by (intro lk.calm_rules calm_locks) simp

text \<open>The verdict an explorer could give on \<open>p\<close> at some time.\<close>

definition checked :: "engine \<Rightarrow> ctx \<Rightarrow> funds_proof \<Rightarrow> chain \<Rightarrow> int \<Rightarrow> proof_check \<Rightarrow> bool" where
  "checked E c p ch amount v \<longleftrightarrow> (\<exists>n. verifyFundsProof (tagged (en_C E)) (en_verify E) (en_keyAddress E) (proof_json p)
     (c_matchId c) amount (explorer_of E n ch) = Inr v)"

lemma calm_verify:
  assumes "\<And>v. checked E c p ch amount v \<Longrightarrow> V v"
  shows "keeps (lock_calm V) (verifyProof E c p ch amount)"
proof -
  have "keeps (lock_calm V) (upd_side (\<lambda>s. s\<lparr>s_theirProof := Some v\<rparr>))" if "V v" for v
    using that by (simp add: keeps_def upd_side_def lock_calm_def extends_def verdict_in_def)
  with assms show ?thesis
    unfolding verifyProof_def checked_def
    by (auto intro!: lk.calm_bnd lk.calm_getr lk.calm_andthen lk.calm_sum lk.calm_ret calm_emit calm_notes)
qed

lemma calm_post [calm_locks]: "keeps (lock_calm V) (postOp c what j)"
  unfolding postOp_def by (intro lk.calm_rules calm_locks) simp_all

lemma calm_posts [calm_locks]: "keeps (lock_calm V) (post_locked c)" "keeps (lock_calm V) (postProof E c ch n k)"
  unfolding post_locked_def postProof_def by (intro lk.calm_rules calm_locks)+

lemma calm_abort [calm_locks]: "keeps (lock_calm V) (abort_swap c why)"
  unfolding abort_swap_def by (intro lk.calm_rules calm_locks) simp

section \<open>Funding\<close>

lemma locking_ready:
  "ready V r \<Longrightarrow> locking V G r s \<longleftrightarrow> verdict_in V s \<and> extends (\<lambda>ev. is_funding ev \<longrightarrow> G ev) r s"
  by (simp add: locking_def ready_def)

lemma fund_section:
  assumes "G (Funding ch address amount)" and f: "\<And>pay s. s_theirProof (f pay s) = s_theirProof s"
  shows "keeps_if (ready V) (locking V G) (andthen (emit (Funding ch address amount))
    (bnd (fundHtlc E k a) (\<lambda>pay. andthen (upd_side (f pay)) save)))"
  unfolding keeps_if_def
proof (intro allI impI)
  fix r assume u: "ready V r"
  let ?r1 = "r\<lparr>r_log := r_log r @ [Funding ch address amount]\<rparr>"
  obtain r2 res where pay: "fundHtlc E k a ?r1 = (r2, res)" by (cases "fundHtlc E k a ?r1")
  have calm: "lock_calm V ?r1 r2" using keepsD[OF calm_pay[where V = V and E = E and k = k and a = a], of ?r1] pay by simp
  then obtain evs where evs: "r_log r2 = r_log r @ Funding ch address amount # evs" "\<forall>ev \<in> set evs. \<not> is_funding ev"
    by (auto simp: lock_calm_def extends_def)
  have "extends (\<lambda>ev. is_funding ev \<longrightarrow> G ev) r r2"
    unfolding extends_def using evs assms(1) by (intro exI[of _ "Funding ch address amount # evs"]) auto
  moreover have "extends (\<lambda>ev. is_funding ev \<longrightarrow> G ev) r (r2\<lparr>r_side := x, r_log := r_log r2 @ [Saved y]\<rparr>)" for x y
    unfolding extends_def using evs assms(1) by (intro exI[of _ "Funding ch address amount # evs @ [Saved y]"]) auto
  moreover have v2: "verdict_in V r2" using calm u by (simp add: lock_calm_def ready_def)
  moreover have "verdict_in V (r2\<lparr>r_side := f pay (r_side r2), r_log := l\<rparr>)" for pay l
    using v2 by (subst verdict_in_same[of _ r2]) (simp_all add: f)
  ultimately show "locking V G r (fst (andthen (emit (Funding ch address amount))
      (bnd (fundHtlc E k a) (\<lambda>pay. andthen (upd_side (f pay)) save)) r))"
    unfolding locking_ready[OF u]
    by (cases res) (simp_all add: andthen_def bnd_def emit_def pay upd_side_def save_def getr_def)
qed

lemma lock_section:
  assumes "G (Funding ch address amount)"
  shows "keeps_if (ready V) (locking V G) (lock_htlc E ch address amount)"
  unfolding lock_htlc_def lock_fund_def
  by (intro lk.N_bnd lk.N_andthen lk.N_if lk.N_Let lk.calm_rules fund_section[of G] calm_locks lk.N_calm assms) simp_all

lemma adopt_section: "keeps (locking V G) (adopt_existing mine amount)"
proof -
  have "locking V G r (fst (adoptLock x r))" if "ready V r" for r x
  proof -
    have "verdict_in V (r\<lparr>r_side := (r_side r)\<lparr>s_myLock := p, s_lockIntentAt := None\<rparr>, r_log := l\<rparr>)" for p l
      using that by (subst verdict_in_same[of _ r]) (simp_all add: ready_def)
    then show ?thesis
      unfolding locking_ready[OF that]
      by (simp add: adoptLock_def andthen_def bnd_def upd_side_def save_def getr_def emit_def) (simp add: extends_def)
  qed
  then have "keeps_if (ready V) (locking V G) (adoptLock x)" for x by (simp add: keeps_if_def)
  moreover have "locking V G r (fst ((if s_myLock (r_side r) \<noteq> None then ret () else k) r))" if "\<not> ready V r" for r k
    using that by (auto simp: ready_def unlocked_def locking_def ret_def extends_refl)
  ultimately show ?thesis
    unfolding adopt_existing_def
    by (auto intro!: lk.P_enter lk.N_if lk.N_option intro: lk.N_calm lk.calm_ret)
qed

section \<open>What was observed\<close>

text \<open>A scan of the HTLC of \<open>p\<close> on \<open>ch\<close> as the explorer answered it at some time of the run.\<close>

definition scanned :: "engine \<Rightarrow> chain \<Rightarrow> htlc_params \<Rightarrow> scan \<Rightarrow> bool" where
  "scanned E ch p sn \<longleftrightarrow> (\<exists>h n k txs. htlcScript (en_C E) (en_S E) p = Inr h
     \<and> sn_address sn = htlc_address (en_S E) h (network E ch)
     \<and> w_txs (en_world E) n ch (sn_address sn) = Inr txs \<and> sn_outs sn = scan_outs (toHex (scriptPubKey h)) txs
     \<and> w_tip (en_world E) k ch = Inr (sn_tip sn))"

lemma scan_Done:
  assumes "scan_chain E ch p r = (r', Done sn)"
  shows "scanned E ch p sn"
  using assms unfolding scan_chain_def scanned_def
  by (auto simp: bnd_def of_sum_def ask_def ret_def throw_def Let_def split: sum.splits) blast+

lemma locking_locked: "\<not> unlocked r \<Longrightarrow> locking V G r s \<longleftrightarrow> locking V G' r s"
  by (simp add: locking_def)

text \<open>An output that already holds the amount is adopted, so nothing is funded after it is seen.\<close>

lemma adopt_then:
  assumes "keeps (locking V G') k" "pickExact (sn_outs mine) amount False = None \<Longrightarrow> keeps (locking V G) k"
  shows "keeps (locking V G) (andthen (adopt_existing mine amount) k)"
proof (cases "pickExact (sn_outs mine) amount False")
  case None
  with assms(2) show ?thesis by (intro lk.P_andthen adopt_section) simp
next
  case (Some x)
  show ?thesis unfolding keeps_def
  proof
    fix r
    define r1 where "r1 = fst (adopt_existing mine amount r)"
    have done1: "snd (adopt_existing mine amount r) = Done ()" and locked: "\<not> unlocked r1"
      using Some by (auto simp: r1_def adopt_existing_def adoptLock_def andthen_def bnd_def upd_side_def save_def getr_def
          emit_def ret_def unlocked_def)
    have "locking V G r r1" unfolding r1_def by (rule keepsD[OF adopt_section])
    moreover have "locking V G r1 (fst (k r1))" using keepsD[OF assms(1), of r1] locking_locked[OF locked] by blast
    moreover have "andthen (adopt_existing mine amount) k r = k r1"
      unfolding andthen_def using bnd_Done[of "adopt_existing mine amount" r "()" "\<lambda>_. k"] done1 r1_def by simp
    ultimately show "locking V G r (fst (andthen (adopt_existing mine amount) k r))"
      using lk.P_trans by metis
  qed
qed

lemma pickExact_Some:
  assumes "pickExact outs n u = Some x"
  shows "x \<in> set outs \<and> ho_value x = n \<and> (u \<longrightarrow> ho_spend x = None)"
proof -
  obtain ys where ys: "sort_by by_rank (filter (\<lambda>x. ho_value x = n \<and> (\<not> u \<or> ho_spend x = None)) outs) = x # ys"
    using assms by (auto simp: pickExact_def split: list.splits)
  then have "x \<in> set (sort_by by_rank (filter (\<lambda>x. ho_value x = n \<and> (\<not> u \<or> ho_spend x = None)) outs))" by simp
  then show ?thesis by auto
qed

lemma pickExact_None: "pickExact outs n u = None \<longleftrightarrow> (\<forall>x \<in> set outs. ho_value x = n \<longrightarrow> u \<and> ho_spend x \<noteq> None)"
proof -
  have "pickExact outs n u = None \<longleftrightarrow> set (sort_by by_rank (filter (\<lambda>x. ho_value x = n \<and> (\<not> u \<or> ho_spend x = None)) outs)) = {}"
    unfolding pickExact_def by (cases "sort_by by_rank (filter (\<lambda>x. ho_value x = n \<and> (\<not> u \<or> ho_spend x = None)) outs)") auto
  then show ?thesis by auto
qed

section \<open>The maker\<close>

text \<open>The lock the maker acts on, confirmed and old enough (if the explorer's tip was a number).\<close>

definition good_lock :: "engine \<Rightarrow> ctx \<Rightarrow> scan \<Rightarrow> htlc_out \<Rightarrow> bool" where
  "good_lock E c theirs x \<longleftrightarrow> x \<in> set (sn_outs theirs) \<and> ho_spend x = None
     \<and> BigInt_of (t_takerAmount (c_t c)) = Some (ho_value x)
     \<and> (sn_tip theirs \<noteq> None \<longrightarrow>
          num_ge (confsOf (ho_height x) (sn_tip theirs)) (sp_confirmations (en_policy E) (t_takerChain (c_t c)))
          \<and> num_ge (their_refund_secs c theirs x) (need_secs E c))"

definition maker_may_lock :: "engine \<Rightarrow> ctx \<Rightarrow> swap_event \<Rightarrow> bool" where
  "maker_may_lock E c ev \<longleftrightarrow> m_is c Escrow \<and> \<not> pruned c \<and> en_mode E = ModeOn
     \<and> (\<exists>key amount mine theirs x.
          swapKey (en_C E) (c_seed c) (c_matchId c) (t_makerChain (c_t c)) Maker = Inr key
          \<and> BigInt_of (t_makerAmount (c_t c)) = Some amount
          \<and> scanned E (t_makerChain (c_t c)) (maker_mine c (toHex (xOnly (en_C E) key))) mine
          \<and> pickExact (sn_outs mine) amount False = None
          \<and> ev = Funding (t_makerChain (c_t c)) (sn_address mine) amount
          \<and> scanned E (t_takerChain (c_t c)) (maker_theirs c (toHex (xOnly (en_C E) key))) theirs
          \<and> good_lock E c theirs x)"

lemma mode_cases: "en_mode E \<noteq> NoLock \<Longrightarrow> en_mode E = ModeOn"
  by (cases "en_mode E") simp_all

lemma confs_known: "tip \<noteq> None \<Longrightarrow> \<not> num_lt (confsOf h tip) n \<Longrightarrow> num_ge (confsOf h tip) n"
  by (auto simp: num_lt_def num_ge_def confsOf_def split: option.splits)

lemma secs_known: "sn_tip theirs \<noteq> None \<Longrightarrow> \<not> num_lt (their_refund_secs c theirs x) n \<Longrightarrow> num_ge (their_refund_secs c theirs x) n"
  by (auto simp: num_lt_def num_ge_def their_refund_secs_def)

lemma lock_tail:
  assumes "en_mode E = ModeOn \<Longrightarrow> G (Funding ch address amount)"
  shows "keeps_if (ready V) (locking V G) (if en_mode E = NoLock then andthen (set_note n) leave
    else andthen (lock_htlc E ch address amount) (bnd getr (\<lambda>r. if s_myLock (r_side r) = None then leave else ret ())))"
proof (cases "en_mode E")
  case ModeOn
  then show ?thesis
    by (simp add: andthen_def) (intro lk.N_then lock_section assms lk.calm_rules; simp)
next
  case NoLock
  then show ?thesis by simp (intro lk.N_calm lk.calm_rules calm_locks)
qed

lemma maker_lock_seen_section:
  assumes "pickExact (sn_outs theirs) takerAmount True = Some x" "BigInt_of (t_takerAmount (c_t c)) = Some takerAmount"
    and "good_lock E c theirs x \<Longrightarrow> en_mode E = ModeOn \<Longrightarrow> G (Funding (t_makerChain (c_t c)) (sn_address mine) makerAmount)"
  shows "keeps_if (ready V) (locking V G) (maker_lock_seen E c mine theirs x makerAmount h lockDeadline)"
proof -
  have good: "good_lock E c theirs x"
    if "\<not> num_lt (confsOf (ho_height x) (sn_tip theirs)) (sp_confirmations (en_policy E) (t_takerChain (c_t c)))"
      "\<not> num_lt (their_refund_secs c theirs x) (need_secs E c)"
    using pickExact_Some[OF assms(1)] assms(2) that by (simp add: good_lock_def confs_known secs_known)
  show ?thesis
    unfolding maker_lock_seen_def Let_def
    by (rule lk.N_andthen, rule calm_locks, rule lk.N_if,
        rule lk.N_calm, (intro lk.calm_rules calm_locks; simp), rule lk.N_if,
        rule lk.N_calm, (intro lk.calm_rules calm_locks; simp), rule lk.N_andthen,
        rule calm_upd_side, simp, rule lock_tail, rule assms(3), erule (1) good)
qed

lemma rescan_Done:
  assumes "scanned E (t_takerChain (c_t c)) p theirs" "maker_rescan E c m p n theirs r = (r', Done sn)"
  shows "scanned E (t_takerChain (c_t c)) p sn"
  using assms scan_Done unfolding maker_rescan_def
  by (auto simp: bnd_def getr_def ret_def split: option.splits if_splits prod.splits outcome.splits proof_check.splits)

lemma calm_verify_any [calm_locks]: "keeps (lock_calm (\<lambda>_. True)) (verifyProof E c p ch amount)"
  by (rule calm_verify) simp

lemma calm_rescan [calm_locks]: "keeps (lock_calm (\<lambda>_. True)) (maker_rescan E c m p n theirs)"
  unfolding maker_rescan_def
  by (intro lk.calm_rules calm_locks) (auto split: option.splits proof_check.splits intro: lk.calm_ret calm_scan)

lemma calm_no_lock_seen [calm_locks]: "keeps (lock_calm V) (maker_no_lock_seen c theirs n h d)"
  unfolding maker_no_lock_seen_def
  by (intro lk.calm_rules calm_locks) (auto split: option.splits proof_check.splits intro!: lk.calm_rules calm_locks)

lemma escrow_left:
  "c_m c = Some m \<Longrightarrow> \<not> (m_is c Cancelled \<or> pruned c) \<Longrightarrow> m_status m \<noteq> AwaitingProofs \<Longrightarrow> m_is c Escrow"
  by (cases "m_status m") (auto simp: m_is_def)

lemma maker_wait_section:
  assumes "BigInt_of (t_takerAmount (c_t c)) = Some takerAmount"
    and G: "\<And>theirs x. scanned E (t_takerChain (c_t c)) p theirs \<Longrightarrow> good_lock E c theirs x \<Longrightarrow> en_mode E = ModeOn \<Longrightarrow>
      m_is c Escrow \<Longrightarrow> \<not> pruned c \<Longrightarrow> G (Funding (t_makerChain (c_t c)) (sn_address mine) makerAmount)"
  shows "keeps (locking (\<lambda>_. True) G) (maker_wait E c mine p takerAmount makerAmount)"
proof -
  have main: "keeps_if (ready (\<lambda>_. True)) (locking (\<lambda>_. True) G) (bnd (scan_chain E (t_takerChain (c_t c)) p) (\<lambda>theirs.
        if pickExact (sn_outs theirs) takerAmount True = None \<and> pickExact (sn_outs theirs) takerAmount False \<noteq> None
        then andthen (abort_swap c NTakerSpent) leave
        else bnd (maker_rescan E c m p takerAmount theirs) (\<lambda>theirs.
          case pickExact (sn_outs theirs) takerAmount True of
            None \<Rightarrow> maker_no_lock_seen c theirs takerAmount h d
          | Some x \<Rightarrow> maker_lock_seen E c mine theirs x makerAmount h d)))"
    if "m_is c Escrow" "\<not> pruned c" for m h d
    by (rule lk.N_result, rule calm_scan, drule scan_Done, rule lk.N_if,
        rule lk.N_calm, intro lk.calm_rules calm_locks, rule lk.N_result, rule calm_rescan, drule (1) rescan_Done[rotated],
        rule lk.N_option, rule lk.N_calm, rule calm_locks, rule maker_lock_seen_section, assumption, rule assms(1),
        rule G, assumption+, (rule that)+)
  show ?thesis
    unfolding maker_wait_def Let_def
  proof (rule lk.P_enter, goal_cases)
    case (1 r)
    then show ?case by (simp add: ready_def unlocked_def verdict_in_def locking_def ret_def extends_refl)
  next
    case (2 r)
    show ?case
    proof (rule lk.N_if, goal_cases)
      case 1
      show ?case by (intro lk.N_calm lk.calm_ret)
    next
      case 2
      show ?case
      proof (rule lk.N_if, goal_cases)
        case 1
        show ?case by (intro lk.N_calm lk.calm_rules calm_locks)
      next
        case 2
        note live = this
        show ?case
        proof (cases "c_m c = None \<or> c_h c = None")
          case True
          then show ?thesis by (cases "c_m c"; cases "c_h c") (simp_all add: lk.N_calm lk.calm_leave)
        next
          case False
          then obtain m h where mh: "c_m c = Some m" "c_h c = Some h" by auto
          show ?thesis unfolding mh prod.case option.case
          proof (rule lk.N_if, goal_cases)
            case 1
            show ?case by (intro lk.N_calm lk.calm_rules calm_locks)
          next
            case 2
            then have ok: "m_is c Escrow" "\<not> pruned c" using escrow_left[OF mh(1) live] live by auto
            show ?case
              by (rule lk.N_option, rule lk.N_andthen, rule calm_locks, rule lk.N_andthen, rule calm_locks, rule main[OF ok],
                  intro lk.N_calm lk.calm_rules calm_locks)
          qed
        qed
      qed
    qed
  qed
qed

lemma calm_maker_proofs [calm_locks]: "keeps (lock_calm (\<lambda>_. True)) (maker_proofs E c k a b)"
  unfolding maker_proofs_def by (intro lk.calm_rules calm_locks)

lemma calm_maker_secret [calm_locks]: "keeps (lock_calm V) (maker_secret E c sp)"
  unfolding maker_secret_def by (intro lk.calm_rules calm_locks) simp

lemma calm_shows [calm_locks]:
  "keeps (lock_calm V) (show_my_lock p n)" "keeps (lock_calm V) (show_their_lock sn x)" "keeps (lock_calm V) (show_refund_in y b m)"
  unfolding show_my_lock_def show_their_lock_def show_refund_in_def by (intro lk.calm_rules calm_locks)+

lemma calm_maker_stage [calm_locks]: "keeps (lock_calm V) (maker_stage c x n y sp s)"
  unfolding maker_stage_def by (intro lk.calm_rules calm_locks)

lemma calm_maker_locked [calm_locks]: "keeps (lock_calm V) (maker_locked E c mine p q n key)"
  unfolding maker_locked_def by (intro lk.calm_rules calm_locks) simp_all

lemma calm_amount [calm_locks]: "keeps (lock_calm V) (amount_of s)"
  unfolding amount_of_def by (intro lk.calm_rules)

lemma of_sum_Done: "of_sum f x r = (r', Done a) \<Longrightarrow> x = Inr a"
  by (cases x) (simp_all add: of_sum_def ret_def throw_def)

lemma amount_Done: "amount_of s r = (r', Done a) \<Longrightarrow> BigInt_of s = Some a"
  by (cases "BigInt_of s") (simp_all add: amount_of_def ret_def throw_def)

lemma stepMaker_locking: "keeps (locking (\<lambda>_. True) (maker_may_lock E c)) (stepMaker E c)"
proof -
  have wait: "keeps (locking (\<lambda>_. True) (maker_may_lock E c))
      (maker_wait E c mine (maker_theirs c (toHex (xOnly (en_C E) key))) takerAmount makerAmount)"
    if "swapKey (en_C E) (c_seed c) (c_matchId c) (t_makerChain (c_t c)) Maker = Inr key"
      "BigInt_of (t_takerAmount (c_t c)) = Some takerAmount" "BigInt_of (t_makerAmount (c_t c)) = Some makerAmount"
      "scanned E (t_makerChain (c_t c)) (maker_mine c (toHex (xOnly (en_C E) key))) mine"
      "pickExact (sn_outs mine) makerAmount False = None"
    for key takerAmount makerAmount mine
    by (rule maker_wait_section) (use that in \<open>auto simp: maker_may_lock_def\<close>)
  have wait_any: "keeps (locking (\<lambda>_. True) (\<lambda>_. True)) (maker_wait E c mine p takerAmount makerAmount)"
    if "BigInt_of (t_takerAmount (c_t c)) = Some takerAmount" for mine p takerAmount makerAmount
    by (rule maker_wait_section) (use that in auto)
  show ?thesis
    unfolding stepMaker_def Let_def
    apply (rule lk.P_in_method, rule lk.P_bnd, intro lk.P_calm lk.calm_rules)
    apply (rule lk.P_result, intro lk.P_calm lk.calm_rules, drule of_sum_Done)
    apply (rule lk.P_if, intro lk.P_calm calm_locks, rule lk.P_if, intro lk.P_calm lk.calm_rules)
    apply (rule lk.P_result, intro lk.P_calm calm_locks, drule amount_Done)
    apply (rule lk.P_result, intro lk.P_calm calm_locks, drule amount_Done)
    apply (rule lk.P_andthen, intro lk.P_calm calm_locks)
    apply (rule lk.P_result, intro lk.P_calm calm_locks, drule scan_Done)
    apply (rule adopt_then)
     apply (rule lk.P_andthen, rule wait_any, assumption, intro lk.P_calm calm_locks)
    apply (rule lk.P_andthen, rule wait; assumption?)
    apply (intro lk.P_calm calm_locks)
    done
qed

section \<open>The taker\<close>

text \<open>The verdict on the maker's proof of funds: the one recorded before the step, or one given during it.\<close>

definition maker_verdict :: "engine \<Rightarrow> ctx \<Rightarrow> side \<Rightarrow> proof_check \<Rightarrow> bool" where
  "maker_verdict E c side v \<longleftrightarrow> s_theirProof side = Some v
     \<or> (\<exists>p amount. Option.bind (c_m c) m_makerProof = Some p \<and> BigInt_of (t_makerAmount (c_t c)) = Some amount
          \<and> checked E c p (t_makerChain (c_t c)) amount v)"

definition taker_may_lock :: "engine \<Rightarrow> ctx \<Rightarrow> side \<Rightarrow> swap_event \<Rightarrow> bool" where
  "taker_may_lock E c side ev \<longleftrightarrow> m_is c Escrow \<and> \<not> pruned c \<and> en_mode E = ModeOn
     \<and> (\<exists>h. c_h c = Some h \<and> h \<le> t_proofDeadline (c_t c) + TAKER_LOCK_WINDOW - sp_lockMarginAnchors (en_policy E))
     \<and> maker_verdict E c side CheckOk
     \<and> (\<exists>secret key makerKey amount mine.
          taker_keys E c = Inr (secret, key) \<and> sha (en_C E) secret = c_hash c \<and> toHex (xOnly (en_C E) key) = t_takerKey (c_t c)
          \<and> t_makerKey (c_t c) = Some makerKey \<and> BigInt_of (t_takerAmount (c_t c)) = Some amount
          \<and> scanned E (t_takerChain (c_t c)) (taker_mine c makerKey) mine
          \<and> pickExact (sn_outs mine) amount False = None
          \<and> ev = Funding (t_takerChain (c_t c)) (sn_address mine) amount)"

lemma taker_lock_section:
  assumes G: "\<And>h. m_is c Escrow \<Longrightarrow> \<not> pruned c \<Longrightarrow> en_mode E = ModeOn \<Longrightarrow> c_h c = Some h \<Longrightarrow>
      h \<le> t_proofDeadline (c_t c) + TAKER_LOCK_WINDOW - sp_lockMarginAnchors (en_policy E) \<Longrightarrow> V CheckOk \<Longrightarrow>
      G (Funding (t_takerChain (c_t c)) (sn_address mine) takerAmount)"
  shows "keeps (locking V G) (taker_lock E c mine takerAmount)"
  unfolding taker_lock_def Let_def
proof (rule lk.P_enter, goal_cases)
  case (1 r)
  then show ?case by (auto simp: ready_def unlocked_def locking_def ret_def extends_refl)
next
  case (2 r)
  then have v: "s_theirProof (r_side r) = Some CheckOk \<Longrightarrow> V CheckOk" by (simp add: ready_def verdict_in_def)
  show ?case
  proof (rule lk.N_if, goal_cases)
    case 1
    show ?case by (intro lk.N_calm lk.calm_ret)
  next
    case 2
    show ?case
    proof (rule lk.N_if, goal_cases)
      case 1
      show ?case by (intro lk.N_calm lk.calm_rules calm_locks)
    next
      case 2
      note live = this
      show ?case
      proof (cases "c_m c = None \<or> c_h c = None")
        case True
        then show ?thesis by (cases "c_m c"; cases "c_h c") (simp_all add: lk.N_calm lk.calm_leave)
      next
        case False
        then obtain m h where mh: "c_m c = Some m" "c_h c = Some h" by auto
        show ?thesis unfolding mh prod.case option.case
        proof (rule lk.N_if, goal_cases)
          case 1
          show ?case by (intro lk.N_calm lk.calm_rules calm_locks)
        next
          case 2
          then have esc: "m_is c Escrow" "\<not> pruned c" using escrow_left[OF mh(1) live] live by auto
          note G' = G[OF esc _ mh(2)]
          show ?case
          proof (rule lk.N_andthen, rule calm_locks, rule lk.N_andthen, rule calm_locks,
              cases "s_theirProof (r_side r)", goal_cases)
            case 1
            then show ?case by (auto intro!: lk.N_calm lk.calm_andthen lk.calm_leave calm_upd_side)
          next
            case (2 verdict)
            show ?case
            proof (cases verdict)
              case CheckOk
              with 2 v have ok: "V CheckOk" by simp
              show ?thesis unfolding 2 CheckOk option.case proof_check.case
                by (rule lk.N_if, intro lk.N_calm lk.calm_rules calm_locks, rule lock_tail, rule G', assumption,
                    simp add: not_less, rule ok)
            next
              case (CheckBad why)
              show ?thesis unfolding 2 CheckBad option.case proof_check.case
                by (intro lk.N_calm lk.calm_rules calm_locks)
            qed
          qed
        qed
      qed
    qed
  qed
qed

lemma calm_taker_no_maker [calm_locks]: "keeps (lock_calm V) (taker_no_maker c)"
  unfolding taker_no_maker_def by (intro lk.calm_rules calm_locks)

lemma calm_taker_claim [calm_locks]: "keeps (lock_calm V) (taker_claim E c sn x p secret key)"
  unfolding taker_claim_def by (intro lk.calm_rules calm_locks) simp

lemma calm_taker_stage [calm_locks]: "keeps (lock_calm V) (taker_stage c x n y w l)"
  unfolding taker_stage_def by (intro lk.calm_rules calm_locks)

lemma calm_taker_locked [calm_locks]: "keeps (lock_calm V) (taker_locked E c mine p q n secret key)"
  unfolding taker_locked_def by (intro lk.calm_rules calm_locks)

lemma calm_taker_proofs:
  assumes "\<And>p v. Option.bind (c_m c) m_makerProof = Some p \<Longrightarrow> checked E c p (t_makerChain (c_t c)) makerAmount v \<Longrightarrow> V v"
  shows "keeps (lock_calm V) (taker_proofs E c takerAmount makerAmount)"
  unfolding taker_proofs_def
  by (intro lk.calm_andthen lk.calm_when calm_locks lk.calm_bnd lk.calm_getr lk.calm_option lk.calm_if lk.calm_ret)
    (rule calm_verify, rule assms)

lemma stepTaker_locking:
  "keeps (locking (maker_verdict E c side) (taker_may_lock E c side)) (stepTaker E c)"
proof -
  have lock: "keeps (locking (maker_verdict E c side) (taker_may_lock E c side)) (taker_lock E c mine amount)"
    if "taker_keys E c = Inr (secret, key)" "sha (en_C E) secret = c_hash c \<and> toHex (xOnly (en_C E) key) = t_takerKey (c_t c)"
      "t_makerKey (c_t c) = Some makerKey" "BigInt_of (t_takerAmount (c_t c)) = Some amount"
      "scanned E (t_takerChain (c_t c)) (taker_mine c makerKey) mine" "pickExact (sn_outs mine) amount False = None"
    for secret key makerKey amount mine
    by (rule taker_lock_section) (use that in \<open>auto simp: taker_may_lock_def\<close>)
  have lock_any: "keeps (locking (maker_verdict E c side) (\<lambda>_. True)) (taker_lock E c mine amount)" for mine amount
    by (rule taker_lock_section) simp
  show ?thesis
    unfolding stepTaker_def Let_def
    apply (rule lk.P_in_method, rule lk.P_bnd, intro lk.P_calm lk.calm_rules)
    apply (rule lk.P_result, intro lk.P_calm lk.calm_rules, drule of_sum_Done, rule lk.P_prod)
    apply (rule lk.P_if, intro lk.P_calm calm_locks, rule lk.P_if, intro lk.P_calm lk.calm_rules)
    apply (simp only: de_Morgan_disj not_not)
    apply (rule lk.P_result, intro lk.P_calm calm_locks, drule amount_Done)
    apply (rule lk.P_result, intro lk.P_calm calm_locks, drule amount_Done)
    apply (rule lk.P_andthen, rule lk.P_calm, rule calm_taker_proofs, force simp: maker_verdict_def)
    apply (rule lk.P_option, intro lk.P_calm calm_locks)
    apply (rule lk.P_result, intro lk.P_calm calm_locks, drule scan_Done)
    apply (rule adopt_then)
     apply (rule lk.P_andthen, rule lock_any, intro lk.P_calm calm_locks)
    apply (rule lk.P_andthen, rule lock, assumption+)
    apply (intro lk.P_calm calm_locks)
    done
qed

end
