(* ===== verification/Hazards.thy ===== *)
theory Hazards
  imports LockSafety
begin

text \<open>
  Runs of the engine (\<open>src/swap/engine.ts\<close>) that end badly: a lock whose broadcast was answered by a
  timeout is forgotten, an abort that could not be posted is not posted again, a tip that is not a number
  passes the maker's checks, and a secret that is not 32 bytes long is not recognised.
\<close>

section \<open>A terminal side does nothing\<close>

definition taker_derives :: "engine \<Rightarrow> ctx \<Rightarrow> bool" where
  "taker_derives E c \<longleftrightarrow> (\<exists>secret key. taker_keys E c = Inr (secret, key) \<and> sha (en_C E) secret = c_hash c
     \<and> toHex (xOnly (en_C E) key) = t_takerKey (c_t c))"

definition maker_derives :: "engine \<Rightarrow> ctx \<Rightarrow> bool" where
  "maker_derives E c \<longleftrightarrow> (\<exists>key. swapKey (en_C E) (c_seed c) (c_matchId c) (t_makerChain (c_t c)) Maker = Inr key
     \<and> (t_makerKey (c_t c) = None \<or> t_makerKey (c_t c) = Some (toHex (xOnly (en_C E) key))))"

lemma stepTaker_inert:
  "taker_derives E c \<Longrightarrow> s_stage (r_side r) \<in> set TERMINAL \<Longrightarrow> s_myLock (r_side r) = None \<Longrightarrow> stepTaker E c r = (r, Done ())"
  by (auto simp: taker_derives_def exec_taker exec_base)

lemma stepMaker_inert:
  "maker_derives E c \<Longrightarrow> s_stage (r_side r) \<in> set TERMINAL \<Longrightarrow> s_myLock (r_side r) = None \<Longrightarrow> stepMaker E c r = (r, Done ())"
  by (auto simp: maker_derives_def exec_maker exec_base)

lemma ex_ctx_derives: "taker_derives (ex_seeing b l t) (ex_ctx st h)" "maker_derives (ex_seeing b l t) (ex_ctx st h)"
  by (simp_all add: taker_derives_def maker_derives_def ex_eval)

section \<open>A lock in flight is forgotten\<close>

definition ex_lost :: engine where
  "ex_lost = ex_replying (Inl ''timeout'') (ex_seeing [] [] (Some 100))"

definition ex_proven :: run where
  "ex_proven = ex_start Taker (\<lambda>s. s\<lparr>s_theirProof := Some CheckOk\<rparr>)"

lemma ex_tick1:
  "\<exists>r1. stepTaker ex_lost (ex_ctx Escrow 115) ex_proven = (r1, Threw (ExplorerFault ''timeout''))
    \<and> Funding Bitcoin ''tb1'' 50000 \<in> set (r_log r1) \<and> Sent Bitcoin ''b'' \<in> set (r_log r1)
    \<and> r_side r1 = (r_side ex_proven)\<lparr>s_stage := WaitingTakerLock, s_lockIntentAt := Some 1000000\<rparr>"
  by (simp add: ex_eval ex_lost_def ex_proven_def ex_start_def ex_side_def)

lemma ex_tick2:
  "\<exists>r2. stepTaker (ex_seeing [] [] (Some 100)) (ex_ctx Escrow 116) r = (r2, Done ())
     \<and> r_side r2 = (r_side r)\<lparr>s_stage := CancelledSwap, s_note := Some NLockWindowClosed\<rparr>"
  if "r_side r = (r_side ex_proven)\<lparr>s_stage := WaitingTakerLock, s_lockIntentAt := Some 1000000\<rparr>"
  using that by (simp add: ex_eval ex_proven_def ex_start_def ex_side_def)

text \<open>C39: an HTLC can be funded and then forgotten. The explorer takes the taker's funding transaction and
  its answer is lost; on the next anchor the lock window is over, and because the explorer does not list
  the transaction yet the side ends as cancelled, with the lock intent still recorded. From then on no
  step looks at the chain again, whatever it holds: the lock is neither adopted nor refunded.\<close>

theorem lock_in_flight_forgotten:
  "\<exists>r1 r2. stepTaker ex_lost (ex_ctx Escrow 115) ex_proven = (r1, Threw (ExplorerFault ''timeout''))
    \<and> Sent Bitcoin ''b'' \<in> set (r_log r1)
    \<and> stepTaker (ex_seeing [] [] (Some 100)) (ex_ctx Escrow 116) r1 = (r2, Done ())
    \<and> s_stage (r_side r2) = CancelledSwap \<and> s_lockIntentAt (r_side r2) = Some 1000000
    \<and> (\<forall>btc ltc tip st h. stepTaker (ex_seeing btc ltc tip) (ex_ctx st h) r2 = (r2, Done ()))"
proof -
  obtain r1 where 1: "stepTaker ex_lost (ex_ctx Escrow 115) ex_proven = (r1, Threw (ExplorerFault ''timeout''))"
    "Sent Bitcoin ''b'' \<in> set (r_log r1)"
    "r_side r1 = (r_side ex_proven)\<lparr>s_stage := WaitingTakerLock, s_lockIntentAt := Some 1000000\<rparr>"
    using ex_tick1 by blast
  obtain r2 where 2: "stepTaker (ex_seeing [] [] (Some 100)) (ex_ctx Escrow 116) r1 = (r2, Done ())"
    "r_side r2 = (r_side r1)\<lparr>s_stage := CancelledSwap, s_note := Some NLockWindowClosed\<rparr>"
    using ex_tick2[OF 1(3)] by blast
  have "s_stage (r_side r2) = CancelledSwap" "s_myLock (r_side r2) = None" "s_lockIntentAt (r_side r2) = Some 1000000"
    by (simp_all add: 2(2) 1(3) ex_proven_def ex_start_def ex_side_def)
  moreover from this have "stepTaker (ex_seeing btc ltc tip) (ex_ctx st h) r2 = (r2, Done ())" for btc ltc tip st h
    by (intro stepTaker_inert ex_ctx_derives) (simp_all add: TERMINAL_def)
  ultimately show ?thesis using 1 2(1) by blast
qed

section \<open>An abort that could not be posted\<close>

definition ex_refused :: run where
  "ex_refused = ex_start Maker (\<lambda>s. s\<lparr>s_theirProof := Some (CheckBad BadSignature)\<rparr>)"

lemma ex_abort:
  "\<exists>r1. stepMaker (ex_seeing [] [] (Some 100)) (ex_ctx Escrow 100) ex_refused = (r1, Done ())
     \<and> Posted (OpJob (SwapAbort ''m'')) \<in> set (r_log r1)
     \<and> r_side r1 = (r_side ex_refused)\<lparr>s_abort := Some (NTakerProofInvalid BadSignature), s_stage := CancelledSwap,
         s_note := Some (NTakerProofInvalid BadSignature)\<rparr>"
  by (simp add: ex_eval ex_refused_def ex_start_def ex_side_def post_key_def)

definition ex_offline :: "op \<Rightarrow> fault option" where
  "ex_offline q = Some (ExplorerFault ''offline'')"

lemma ex_post_fails:
  "\<exists>r2. complete_post E ex_offline (ex_ctx st h) ''abort'' (OpJob q) r = (r2, Done ())
     \<and> map_of (r_posts r2) (post_key (ex_ctx st h) (s_role (r_side r)) ''abort'') = None
     \<and> r_side r2 = (r_side r)\<lparr>s_note := Some (NPosting ''abort'' (ExplorerFault ''offline''))\<rparr>"
  by (simp add: complete_post_def run_post_def exec_base exec_shared ex_offline_def map_of_delete end_post_def Let_def)

text \<open>An abort is posted once. The maker aborts because the taker's proof of funds is bad, the post
  fails, and the code forgets it so as to \<open>retry on a later tick\<close>; but the side is already terminal, so no
  later step posts it again, and the board keeps the match in escrow.\<close>

theorem abort_not_retried:
  "\<exists>r1 r2. stepMaker (ex_seeing [] [] (Some 100)) (ex_ctx Escrow 100) ex_refused = (r1, Done ())
    \<and> Posted (OpJob (SwapAbort ''m'')) \<in> set (r_log r1)
    \<and> complete_post ex_lost ex_offline (ex_ctx Escrow 100) ''abort'' (OpJob (SwapAbort ''m'')) r1 = (r2, Done ())
    \<and> s_abort (r_side r2) = Some (NTakerProofInvalid BadSignature)
    \<and> may_post (map_of (r_posts r2) (post_key (ex_ctx Escrow 100) Maker ''abort'')) (Some 100)
    \<and> (\<forall>btc ltc tip st h. stepMaker (ex_seeing btc ltc tip) (ex_ctx st h) r2 = (r2, Done ()))"
proof -
  obtain r1 where 1: "stepMaker (ex_seeing [] [] (Some 100)) (ex_ctx Escrow 100) ex_refused = (r1, Done ())"
    "Posted (OpJob (SwapAbort ''m'')) \<in> set (r_log r1)"
    "r_side r1 = (r_side ex_refused)\<lparr>s_abort := Some (NTakerProofInvalid BadSignature), s_stage := CancelledSwap,
         s_note := Some (NTakerProofInvalid BadSignature)\<rparr>"
    using ex_abort by blast
  obtain r2 where 2: "complete_post ex_lost ex_offline (ex_ctx Escrow 100) ''abort'' (OpJob (SwapAbort ''m'')) r1 = (r2, Done ())"
    "map_of (r_posts r2) (post_key (ex_ctx Escrow 100) (s_role (r_side r1)) ''abort'') = None"
    "r_side r2 = (r_side r1)\<lparr>s_note := Some (NPosting ''abort'' (ExplorerFault ''offline''))\<rparr>"
    using ex_post_fails by blast
  have s: "s_stage (r_side r2) = CancelledSwap" "s_myLock (r_side r2) = None" "s_role (r_side r1) = Maker"
    "s_abort (r_side r2) = Some (NTakerProofInvalid BadSignature)"
    by (simp_all add: 2(3) 1(3) ex_refused_def ex_start_def ex_side_def)
  then have "stepMaker (ex_seeing btc ltc tip) (ex_ctx st h) r2 = (r2, Done ())" for btc ltc tip st h
    by (intro stepMaker_inert ex_ctx_derives) (simp_all add: TERMINAL_def)
  moreover have "may_post (map_of (r_posts r2) (post_key (ex_ctx Escrow 100) Maker ''abort'')) (Some 100)"
    using 2(2) s(3) by (simp add: may_post_def)
  ultimately show ?thesis using 1 2(1) s by blast
qed

section \<open>A tip that is not a number\<close>

text \<open>A maker locks against an explorer whose tip is not a number. Both the count of confirmations and
  the time to the taker's refund are then \<open>NaN\<close>, so neither comparison refuses: the maker funds its HTLC
  whatever the height of the taker's lock.\<close>

theorem nan_tip_locks:
  "\<exists>r1. stepMaker (ex_replying (Inl ''timeout'') (ex_seeing [ex_lock_tx ''t'' 50000 h] [] None)) (ex_ctx Escrow 100) (ex_start Maker id)
    = (r1, Threw (ExplorerFault ''timeout'')) \<and> Funding Litecoin ''tb1'' 50000 \<in> set (r_log r1)"
  by (simp add: ex_eval ex_outs ex_picks_one ex_start_def ex_side_def their_refund_secs_def need_secs_def)

section \<open>A secret of another length\<close>

text \<open>The claim leaf checks only the secret's hash; the engine and \<open>extractSecret\<close> ask for 32 bytes.\<close>

lemma odd_preimage_unrecognised:
  assumes "length s \<noteq> 32" and "sha C s = h_hash p" and "sig_ok (h_receiver p) sig"
  shows "accepts (sha C) sig_ok CLAIM_SEQUENCE (claim_items p) [sig, s]
    \<and> secretFromWitness C (Some (map toHex [sig, s, leaf, control])) (h_hash p) = None
    \<and> \<not> preimage_in C (h_hash p) [sig, s, leaf, control]"
  using assms by (simp add: claim_leaf_spec secretFromWitness_def preimage_in_def)

lemma ex_odd_sha: "sha ex_crypto (ex_key @ [5]) = ex_key" "length (ex_key @ [5]) \<noteq> 32"
  by (simp_all add: ex_crypto_def ex_key_def)

definition ex_odd_claim :: "string list" where
  "ex_odd_claim = [[], toHex (ex_key @ [5]), [], []]"

lemma ex_odd_unknown: "secretFromWitness ex_crypto (Some ex_odd_claim) ex_key = None"
  using odd_preimage_unrecognised[of "ex_key @ [5]" ex_crypto ex_params_htlc "\<lambda>_ _. True" "[]" "[]" "[]"] ex_odd_sha
  by (simp add: ex_params_htlc_def ex_odd_claim_def)

lemma ex_spent_outs: "scan_outs ex_script [ex_lock_tx i v h, ex_spend_tx j i w k]
   = [\<lparr>ho_txid = i, ho_vout = 0, ho_value = v, ho_height = Some h, ho_spend = Some \<lparr>si_txid = j, si_height = Some k, si_witness = w\<rparr>\<rparr>]"
  by (simp add: scan_outs_def outs_of_tx_def spends_of_tx_def ex_lock_tx_def ex_spend_tx_def tx_height_def)

lemma ex_no_tx: "w_tx (en_world (ex_seeing b l t)) n ch i = Inr None"
  by (simp add: ex_seeing_def ex_world_def)

definition ex_locked_maker :: run where
  "ex_locked_maker = ex_start Maker (\<lambda>s. s\<lparr>s_myLock := Some \<lparr>op_tx = ''l'', op_out = 0\<rparr>\<rparr>)"


end
