(* ===== verification/SwapSafety.thy ===== *)
theory SwapSafety
  imports Hazards
begin

text \<open>
  What a step of the swap engine (\<open>src/swap/engine.ts\<close>) may do, for every engine, match and world: when
  it funds an HTLC, when the taker reveals its secret, and that nothing is sent to a chain before the disk
  knows of it.
\<close>

section \<open>Locking\<close>

lemma new_funding:
  assumes "keeps (locking V G) m" "verdict_in V r" "Funding ch a n \<in> set (drop (length (r_log r)) (r_log (fst (m r))))"
  shows "G (Funding ch a n) \<and> s_myLock (r_side r) = None"
proof -
  have "extends (\<lambda>ev. is_funding ev \<longrightarrow> G ev \<and> unlocked r) r (fst (m r))"
    using keepsD[OF assms(1), of r] assms(2) by (simp add: locking_def)
  from extends_event[OF this assms(3)] show ?thesis by (simp add: unlocked_def)
qed



text \<open>C36: when the maker locks. A step funds the maker's HTLC only while no lock is recorded, the match is in
  escrow and neither cancelled nor pruned and funding is enabled; it pays the agreed amount to the HTLC's
  address, of which a scan has just shown no output of that amount; and the explorer of the taker's chain
  has shown an unspent output of exactly the taker's amount on the taker's HTLC which, unless the tip it
  gave is not a number, has the confirmations asked for and can only be refunded the agreed margin after
  the maker's own lock.\<close>

theorem maker_locks_safely:
  assumes "Funding ch a n \<in> set (drop (length (r_log r)) (r_log (fst (stepMaker E c r))))"
  shows "s_myLock (r_side r) = None \<and> m_is c Escrow \<and> \<not> pruned c \<and> en_mode E = ModeOn
    \<and> (\<exists>key mine theirs x. swapKey (en_C E) (c_seed c) (c_matchId c) (t_makerChain (c_t c)) Maker = Inr key
         \<and> ch = t_makerChain (c_t c) \<and> BigInt_of (t_makerAmount (c_t c)) = Some n
         \<and> scanned E ch (maker_mine c (toHex (xOnly (en_C E) key))) mine \<and> a = sn_address mine
         \<and> pickExact (sn_outs mine) n False = None
         \<and> scanned E (t_takerChain (c_t c)) (maker_theirs c (toHex (xOnly (en_C E) key))) theirs
         \<and> x \<in> set (sn_outs theirs) \<and> ho_spend x = None \<and> BigInt_of (t_takerAmount (c_t c)) = Some (ho_value x)
         \<and> (sn_tip theirs \<noteq> None \<longrightarrow>
              num_ge (confsOf (ho_height x) (sn_tip theirs)) (sp_confirmations (en_policy E) (t_takerChain (c_t c)))
              \<and> num_ge (their_refund_secs c theirs x) (need_secs E c)))"
proof -
  have "verdict_in (\<lambda>_. True) r" by (simp add: verdict_in_def)
  from new_funding[OF stepMaker_locking this assms] show ?thesis
    unfolding maker_may_lock_def good_lock_def by auto
qed

lemma ex_maker_funds:
  "\<exists>r1. stepMaker (ex_replying (Inl ''timeout'') (ex_seeing [ex_lock_tx ''t'' 50000 60] [] (Some 100))) (ex_ctx Escrow 100) (ex_start Maker id)
    = (r1, Threw (ExplorerFault ''timeout'')) \<and> Funding Litecoin ''tb1'' 50000 \<in> set (r_log r1)"
  by (simp add: ex_eval ex_outs ex_picks_one ex_start_def ex_side_def their_refund_secs_def need_secs_def BTC_NW_def LTC_NW_def)

theorem maker_locks_safely_witness:
  "\<exists>mine. scanned (ex_replying (Inl ''timeout'') (ex_seeing [ex_lock_tx ''t'' 50000 60] [] (Some 100))) Litecoin
      (maker_mine (ex_ctx Escrow 100) (toHex ex_key)) mine \<and> sn_address mine = ''tb1''"
proof -
  let ?E = "ex_replying (Inl ''timeout'') (ex_seeing [ex_lock_tx ''t'' 50000 60] [] (Some 100))"
  have "Funding Litecoin ''tb1'' 50000
      \<in> set (drop (length (r_log (ex_start Maker id))) (r_log (fst (stepMaker ?E (ex_ctx Escrow 100) (ex_start Maker id)))))"
    using ex_maker_funds by (auto simp: ex_start_def)
  from maker_locks_safely[OF this] show ?thesis
    by (auto simp: ex_ctx_sel ex_terms_sel ex_engine_sel ex_maker_key ex_xOnly)
qed

section \<open>Nothing is sent that the disk does not know\<close>

text \<open>The side as the disk has it after these events, and what it must know before an event.\<close>

fun disk_after :: "side \<Rightarrow> swap_event \<Rightarrow> side" where
  "disk_after d (Saved s) = s"
| "disk_after d _ = d"

fun knows :: "side \<Rightarrow> swap_event \<Rightarrow> bool" where
  "knows d (Sent ch hex) \<longleftrightarrow> map_option st_hex (s_claim d) = Some hex \<or> map_option st_hex (s_refund d) = Some hex
     \<or> s_lockIntentAt d \<noteq> None"
| "knows d _ \<longleftrightarrow> True"

fun disk :: "side \<Rightarrow> swap_event list \<Rightarrow> side" where
  "disk d [] = d"
| "disk d (ev # l) = disk (disk_after d ev) l"

fun sends_known :: "side \<Rightarrow> swap_event list \<Rightarrow> bool" where
  "sends_known d [] \<longleftrightarrow> True"
| "sends_known d (ev # l) \<longleftrightarrow> knows d ev \<and> sends_known (disk_after d ev) l"

lemma disk_append: "disk d (l @ m) = disk (disk d l) m"
  by (induction l arbitrary: d) simp_all

lemma sends_known_append: "sends_known d (l @ m) \<longleftrightarrow> sends_known d l \<and> sends_known (disk d l) m"
  by (induction l arbitrary: d) auto

lemma sends_known_nth:
  "sends_known d (l @ Sent ch hex # m) \<Longrightarrow> knows (disk d l) (Sent ch hex)"
  by (simp add: sends_known_append)

definition in_sync :: "side \<Rightarrow> run \<Rightarrow> bool" where
  "in_sync d r \<longleftrightarrow> s_claim (r_side r) = s_claim (disk d (r_log r)) \<and> s_refund (r_side r) = s_refund (disk d (r_log r))"

definition persists :: "side \<Rightarrow> run \<Rightarrow> run \<Rightarrow> bool" where
  "persists d r s \<longleftrightarrow> (\<exists>evs. r_log s = r_log r @ evs
     \<and> (in_sync d r \<longrightarrow> in_sync d s \<and> sends_known (disk d (r_log r)) evs))"

lemma persists_refl: "persists d r r"
  by (simp add: persists_def)

lemma persists_trans: "persists d r s \<Longrightarrow> persists d s t \<Longrightarrow> persists d r t"
  by (auto simp: persists_def disk_append sends_known_append)

interpretation ps: effect "persists d" "persists d" "\<lambda>_. True" for d
  by unfold_locales (auto intro: persists_refl persists_trans)

text \<open>Programs that leave the side alone and save nothing; \<open>B\<close> bounds their events.\<close>

fun is_saved :: "swap_event \<Rightarrow> bool" where
  "is_saved (Saved _) = True"
| "is_saved _ = False"

fun is_sent :: "swap_event \<Rightarrow> bool" where
  "is_sent (Sent _ _) = True"
| "is_sent _ = False"

definition quiet :: "(swap_event \<Rightarrow> bool) \<Rightarrow> run \<Rightarrow> run \<Rightarrow> bool" where
  "quiet B r s \<longleftrightarrow> r_side s = r_side r \<and> extends (\<lambda>ev. \<not> is_saved ev \<and> B ev) r s"

interpretation qu: effect "quiet B" "quiet B" "\<lambda>_. True" for B
  by unfold_locales (auto simp: quiet_def extends_refl intro: extends_trans)

named_theorems quiet_rules \<open>programs that leave the side alone\<close>

lemma quiet_basic [quiet_rules]:
  "keeps (quiet B) (upd_live g)" "keeps (quiet B) (upd_posts h)" "keeps (quiet B) (upd_wallets w)"
  "\<not> is_saved ev \<Longrightarrow> B ev \<Longrightarrow> keeps (quiet B) (emit ev)" "\<not> is_saved ev \<Longrightarrow> B ev \<Longrightarrow> keeps (quiet B) (ask ev ans)"
  by (auto simp: keeps_def upd_live_def upd_posts_def upd_wallets_def emit_def ask_def quiet_def extends_def split: sum.splits)

lemma quiet_wallet_for [quiet_rules]: "keeps (quiet B) (wallet_for E i ch)"
  unfolding wallet_for_def by (intro qu.calm_rules quiet_rules)

lemma quiet_scan [quiet_rules]: "keeps (quiet (\<lambda>ev. \<not> is_sent ev)) (scan_chain E ch p)"
  unfolding scan_chain_def by (intro qu.calm_rules quiet_rules) simp_all

lemma quiet_address [quiet_rules]: "keeps (quiet B) (my_address E ch)"
  unfolding my_address_def by (intro qu.calm_rules quiet_rules)

lemma quiet_pay: "keeps (quiet (\<lambda>_. True)) (fundHtlc E k a)"
  unfolding fundHtlc_def payNow_def signAndBroadcast_def wallet_utxos_def set_wallet_def
  by (intro qu.calm_rules quiet_rules) simp_all

text \<open>Silent programs, and payments once the lock intent is on disk, keep the disk ahead of the chain.\<close>

lemma disk_unsaved: "\<forall>ev \<in> set evs. \<not> is_saved ev \<Longrightarrow> disk d evs = d"
proof (induction evs arbitrary: d)
  case (Cons ev evs)
  then have "disk_after d ev = d" by (cases ev) auto
  with Cons show ?case by simp
qed simp

lemma sends_known_unsaved: "\<forall>ev \<in> set evs. \<not> is_saved ev \<and> knows d ev \<Longrightarrow> sends_known d evs"
proof (induction evs)
  case (Cons ev evs)
  then have "disk_after d ev = d" by (cases ev) auto
  with Cons show ?case by simp
qed simp

lemma quiet_sent:
  assumes q: "quiet B r s" and B: "\<And>ev. B ev \<Longrightarrow> knows (disk d (r_log r)) ev"
  shows "persists d r s"
proof -
  obtain evs where e: "r_log s = r_log r @ evs" "\<forall>ev \<in> set evs. \<not> is_saved ev \<and> B ev" and same: "r_side s = r_side r"
    using q by (auto simp: quiet_def extends_def)
  then have "disk (disk d (r_log r)) evs = disk d (r_log r)" by (intro disk_unsaved) blast
  moreover have "sends_known (disk d (r_log r)) evs" using e(2) B by (intro sends_known_unsaved) blast
  ultimately show ?thesis using e(1) same by (auto simp: persists_def in_sync_def disk_append)
qed

lemma unsent_known: "\<not> is_sent ev \<Longrightarrow> knows d ev"
  by (cases ev) simp_all

lemma quiet_persists: "keeps (quiet (\<lambda>ev. \<not> is_sent ev)) m \<Longrightarrow> keeps (persists d) m"
  unfolding keeps_def by (auto intro: quiet_sent unsent_known)

named_theorems persist_rules \<open>programs that save what they are about to send\<close>

lemma persists_upd_side [persist_rules]:
  "(\<And>s. s_claim (f s) = s_claim s \<and> s_refund (f s) = s_refund s) \<Longrightarrow> keeps (persists d) (upd_side f)"
  by (auto simp: keeps_def upd_side_def persists_def in_sync_def)

lemma persists_basic [persist_rules]:
  "keeps (persists d) (upd_live g)" "keeps (persists d) (upd_posts h)" "keeps (persists d) (upd_wallets w)"
  "\<not> is_saved ev \<Longrightarrow> \<not> is_sent ev \<Longrightarrow> keeps (persists d) (emit ev)"
  "\<not> is_saved ev \<Longrightarrow> \<not> is_sent ev \<Longrightarrow> keeps (persists d) (ask ev ans)"
  by (intro quiet_persists quiet_basic; simp)+

lemma persists_save [persist_rules]: "keeps (persists d) save"
  by (simp add: keeps_def save_def bnd_def getr_def emit_def persists_def in_sync_def disk_append)

lemma persists_steps [persist_rules]:
  "keeps (persists d) (set_stage st)" "keeps (persists d) (set_note n)" "keeps (persists d) (finish st n)"
  "keeps (persists d) (refund_pending n)" "keeps (persists d) (scan_chain E ch p)" "keeps (persists d) (wallet_for E i ch)"
  "keeps (persists d) (my_address E ch)"
  unfolding set_stage_def set_note_def finish_def refund_pending_def
  by (intro persist_rules quiet_persists quiet_rules; simp)+

text \<open>At one state: a part that reads the state, and what follows a part.\<close>

lemma at_getr: "(\<And>r. P r (fst (f r r))) \<Longrightarrow> keeps P (bnd getr f)"
  by (simp add: keeps_def bnd_def getr_def)

lemma at_andthen:
  assumes "persists d r (fst (m r))" "keeps (persists d) k"
  shows "persists d r (fst (andthen m k r))"
  using assms persists_trans[of d r "fst (m r)"] keepsD[OF assms(2)]
  by (auto simp: andthen_def bnd_def split: prod.splits outcome.splits)

lemma at_broadcast:
  assumes "in_sync d r \<Longrightarrow> knows (disk d (r_log r)) (Sent ch hex)"
  shows "persists d r (fst (broadcast_hex E ch hex r))"
proof -
  have "\<exists>n. fst (broadcast_hex E ch hex r) = (let s = r\<lparr>r_log := r_log r @ [Sent ch hex]\<rparr> in
      case n of None \<Rightarrow> s | Some e \<Rightarrow> s\<lparr>r_side := (r_side s)\<lparr>s_note := Some (NBroadcast ch e)\<rparr>\<rparr>)"
    by (cases "w_send (en_world E) (length (r_log r)) ch hex")
      (auto simp: broadcast_hex_def catch_def bnd_def ask_def ret_def set_note_def upd_side_def Let_def intro: exI[of _ None] exI[of _ "Some e" for e])
  then obtain n where n: "fst (broadcast_hex E ch hex r) = (let s = r\<lparr>r_log := r_log r @ [Sent ch hex]\<rparr> in
      case n of None \<Rightarrow> s | Some e \<Rightarrow> s\<lparr>r_side := (r_side s)\<lparr>s_note := Some (NBroadcast ch e)\<rparr>\<rparr>)" ..
  show ?thesis
    using assms unfolding n persists_def by (auto simp: Let_def in_sync_def disk_append split: option.splits)
qed

lemma saved_then:
  assumes "keeps_if (\<lambda>s. disk d (r_log s) = r_side s \<and> (\<exists>x. r_side s = f x)) (persists d) k"
  shows "keeps (persists d) (andthen (upd_side f) (andthen save k))"
  unfolding keeps_def
proof
  fix r :: run
  let ?s = "r\<lparr>r_side := f (r_side r), r_log := r_log r @ [Saved (f (r_side r))]\<rparr>"
  have "persists d r ?s" by (simp add: persists_def in_sync_def disk_append)
  moreover have "persists d ?s (fst (k ?s))"
    using keeps_ifD[OF assms, of ?s] by (auto simp: disk_append)
  moreover have "andthen (upd_side f) (andthen save k) r = k ?s"
    by (simp add: andthen_def save_def bnd_def upd_side_def getr_def emit_def)
  ultimately show "persists d r (fst (andthen (upd_side f) (andthen save k) r))"
    by (auto intro: persists_trans)
qed

lemma sent_after_save:
  assumes "\<And>x. s_claim (f x) = Some st \<or> s_refund (f x) = Some st"
  shows "keeps (persists d) (andthen (upd_side f) (andthen save (broadcast_hex E ch (st_hex st))))"
proof (rule saved_then)
  show "keeps_if (\<lambda>s. disk d (r_log s) = r_side s \<and> (\<exists>x. r_side s = f x)) (persists d) (broadcast_hex E ch (st_hex st))"
    unfolding keeps_if_def
  proof (intro allI impI at_broadcast, elim conjE exE)
    fix r x assume "disk d (r_log r) = r_side r" "r_side r = f x"
    with assms[of x] show "knows (disk d (r_log r)) (Sent ch (st_hex st))" by auto
  qed
qed

lemma persists_claim [persist_rules]: "keeps (persists d) (do_claim E ch p x secret key)"
  unfolding do_claim_def
  by (intro ps.calm_bnd persist_rules ps.calm_of_sum)
    (use sent_after_save[where st = "stored_of spend" for spend] in \<open>simp add: stored_of_def\<close>)

lemma persists_refund [persist_rules]: "keeps (persists d) (maybeRefund E ch p x tip key)"
proof -
  have send: "persists d r (fst (broadcast_hex E ch (st_hex st) r))" if "s_refund (r_side r) = Some st" for r st
  proof (rule at_broadcast)
    assume "in_sync d r"
    with that have "s_refund (disk d (r_log r)) = Some st" by (simp add: in_sync_def)
    then show "knows (disk d (r_log r)) (Sent ch (st_hex st))" by simp
  qed
  have build: "keeps (persists d) (andthen (upd_side (\<lambda>s. s\<lparr>s_refund := Some (stored_of spend)\<rparr>)) (andthen save
      (broadcast_hex E ch (ss_hex spend))))" for spend
    using sent_after_save[where st = "stored_of spend"] by (simp add: stored_of_def)
  show ?thesis
    unfolding maybeRefund_def
    apply (intro ps.calm_option ps.calm_ret ps.calm_if at_getr)
    subgoal for y r
      by (cases "s_refund (r_side r)")
        (simp_all add: send, intro conjI impI keepsD ps.calm_ret ps.calm_bnd persist_rules ps.calm_of_sum build)
    done
qed

text \<open>A payment made while the disk holds the lock intent.\<close>

definition intent_saved :: "side \<Rightarrow> run \<Rightarrow> bool" where
  "intent_saved d r \<longleftrightarrow> s_lockIntentAt (disk d (r_log r)) \<noteq> None"

lemma pay_then:
  assumes "keeps (quiet (\<lambda>_. True)) m" "\<And>a. keeps_if (intent_saved d) (persists d) (f a)"
  shows "keeps_if (intent_saved d) (persists d) (bnd m f)"
  unfolding keeps_if_def
proof (intro allI impI)
  fix r assume n: "intent_saved d r"
  have q: "quiet (\<lambda>_. True) r (fst (m r))" by (rule keepsD[OF assms(1)])
  have known: "knows (disk d (r_log r)) ev" for ev using n by (cases ev) (simp_all add: intent_saved_def)
  have p: "persists d r (fst (m r))" by (rule quiet_sent[OF q known])
  have "disk (disk d (r_log r)) evs = disk d (r_log r)" if "\<forall>ev \<in> set evs. \<not> is_saved ev" for evs
    by (rule disk_unsaved[OF that])
  with q n have "intent_saved d (fst (m r))" by (auto simp: quiet_def extends_def intent_saved_def disk_append)
  from keeps_ifD[OF assms(2) this] p show "persists d r (fst (bnd m f r))"
    using persists_trans by (auto simp: bnd_def split: prod.splits outcome.splits)
qed

lemma pay_last: "keeps (persists d) m \<Longrightarrow> keeps_if (intent_saved d) (persists d) m"
  by (simp add: keeps_def keeps_if_def)

lemma persists_fund:
  "keeps_if (intent_saved d) (persists d)
     (bnd getr (\<lambda>r. bnd (wallet_for E (s_identity (r_side r)) ch) (\<lambda>k. andthen (emit (Funding ch address amount))
     (bnd (fundHtlc E k a) (\<lambda>pay.
       andthen (upd_side (\<lambda>s. s\<lparr>s_myLock := Some \<lparr>op_tx = pm_txid pay, op_out = pm_vout pay\<rparr>, s_lockIntentAt := None,
         s_note := None\<rparr>)) save)))))"
  unfolding andthen_def[of "emit (Funding ch address amount)"]
  by (intro pay_then pay_last qu.calm_getr quiet_rules quiet_pay ps.calm_andthen persist_rules) simp_all

lemma persists_lock [persist_rules]: "keeps (persists d) (lock_htlc E ch address amount)"
proof -
  have "keeps (persists d) (lock_fund E ch address amount now)" for now
    unfolding lock_fund_def
  proof (rule saved_then, unfold keeps_if_def, intro allI impI, elim conjE exE)
    fix r :: run and x :: side assume "disk d (r_log r) = r_side r" "r_side r = x\<lparr>s_lockIntentAt := Some now\<rparr>"
    then show "persists d r (fst (bnd getr (\<lambda>r. bnd (wallet_for E (s_identity (r_side r)) ch) (\<lambda>k.
        andthen (emit (Funding ch address amount))
        (bnd (fundHtlc E k \<lparr>pa_to = address, pa_amount = amount, pa_feeRate = sp_feeRate (en_policy E) ch\<rparr>) (\<lambda>pay.
        andthen (upd_side (\<lambda>s. s\<lparr>s_myLock := Some \<lparr>op_tx = pm_txid pay, op_out = pm_vout pay\<rparr>, s_lockIntentAt := None,
          s_note := None\<rparr>)) save)))) r))"
      by (intro keeps_ifD[OF persists_fund]) (simp add: intent_saved_def)
  qed
  then show ?thesis
    unfolding lock_htlc_def Let_def
    by (intro ps.calm_bnd ps.calm_getr ps.calm_if persist_rules)
qed

lemma persists_verify [persist_rules]: "keeps (persists d) (verifyProof E c p ch amount)"
  unfolding verifyProof_def by (intro ps.calm_rules persist_rules) simp_all

lemma persists_post [persist_rules]: "keeps (persists d) (postOp c what j)" "keeps (persists d) (abort_swap c why)"
  "keeps (persists d) (post_locked c)" "keeps (persists d) (postProof E c ch n k)"
proof -
  show p: "keeps (persists d) (postOp c what j)" for what j
    unfolding postOp_def by (intro ps.calm_rules persist_rules) simp_all
  show "keeps (persists d) (abort_swap c why)" "keeps (persists d) (post_locked c)" "keeps (persists d) (postProof E c ch n k)"
    unfolding abort_swap_def post_locked_def postProof_def by (intro ps.calm_rules persist_rules p; simp)+
qed

lemma persists_adopt [persist_rules]: "keeps (persists d) (adopt_existing mine n)"
  unfolding adopt_existing_def adoptLock_def by (intro ps.calm_rules persist_rules) simp

lemma persists_amount [persist_rules]: "keeps (persists d) (amount_of t)"
  unfolding amount_of_def by (intro ps.calm_rules)

lemma persists_show [persist_rules]: "keeps (persists d) (show_my_lock p n)" "keeps (persists d) (show_their_lock sn x)"
  "keeps (persists d) (show_refund_in y b m)"
  unfolding show_my_lock_def show_their_lock_def show_refund_in_def by (intro ps.calm_rules persist_rules)+

lemma persists_resend:
  "s_claim (r_side r) = Some st \<Longrightarrow> persists d r (fst (broadcast_hex E ch (st_hex st) r))"
proof (rule at_broadcast)
  assume "s_claim (r_side r) = Some st" "in_sync d r"
  then have "s_claim (disk d (r_log r)) = Some st" by (simp add: in_sync_def)
  then show "knows (disk d (r_log r)) (Sent ch (st_hex st))" by simp
qed

lemma persists_taker_claim [persist_rules]: "keeps (persists d) (taker_claim E c theirs x p secret key)"
  unfolding taker_claim_def Let_def
proof (rule at_getr)
  fix r
  show "persists d r (fst ((case x of None \<Rightarrow> ret False | Some x \<Rightarrow>
       if ho_spend x \<noteq> None then ret False
       else case s_claim (r_side r) of
         Some st \<Rightarrow> andthen (broadcast_hex E (t_makerChain (c_t c)) (st_hex st)) (ret False)
       | None \<Rightarrow> 
           if \<not> num_ge (confsOf (ho_height x) (sn_tip theirs)) (sp_confirmations (en_policy E) (t_makerChain (c_t c))) then ret False
           else if num_gt (confsOf (ho_height x) (sn_tip theirs)) (t_makerRefundBlocks (c_t c) - claimSafetyBlocks (t_makerRefundBlocks (c_t c)))
           then andthen (set_note (Some (NLateInWindow (the (confsOf (ho_height x) (sn_tip theirs))) (t_makerRefundBlocks (c_t c))))) (ret True)
           else andthen (upd_side (\<lambda>s. s\<lparr>s_theirLock := Some (outpoint_of x)\<rparr>))
             (andthen (do_claim E (t_makerChain (c_t c)) p x secret key) (ret False))) r))"
  proof (cases "s_claim (r_side r)")
    case None
    show ?thesis
      unfolding None option.case
      by (rule keepsD, intro ps.calm_option ps.calm_ret ps.calm_if ps.calm_andthen persist_rules) simp
  next
    case (Some st)
    have "persists d r (fst (andthen (broadcast_hex E (t_makerChain (c_t c)) (st_hex st)) (ret False) r))"
      by (rule at_andthen, rule persists_resend[OF Some], rule ps.calm_ret)
    moreover have "persists d r (fst (ret False r))" by (rule keepsD[OF ps.calm_ret])
    ultimately show ?thesis by (cases x) (simp_all add: Some)
  qed
qed

lemma keeps_check: "keeps P m \<Longrightarrow> (\<And>w. keeps P (f w)) \<Longrightarrow> keeps P (case x of CheckOk \<Rightarrow> m | CheckBad w \<Rightarrow> f w)"
  by (cases x) simp_all

lemma persists_taker_stage [persist_rules]: "keeps (persists d) (taker_stage c x n y w l)"
  unfolding taker_stage_def by (intro ps.calm_rules persist_rules)

lemma stepTaker_persists: "keeps (persists d) (stepTaker E c)"
  unfolding stepTaker_def taker_proofs_def taker_no_maker_def taker_lock_def taker_locked_def
  by (intro ps.calm_rules persist_rules keeps_check) simp_all

lemma persists_maker_stage [persist_rules]: "keeps (persists d) (maker_stage c x n y w l)"
  unfolding maker_stage_def by (intro ps.calm_rules persist_rules)

lemma persists_maker_secret [persist_rules]: "keeps (persists d) (maker_secret E c w)"
  unfolding maker_secret_def by (intro ps.calm_rules persist_rules) simp_all

lemma persists_maker_wait [persist_rules]: "keeps (persists d) (maker_wait E c mine p n m)"
  unfolding maker_wait_def maker_rescan_def maker_no_lock_seen_def maker_lock_seen_def Let_def
  by (intro ps.calm_rules persist_rules keeps_check) simp_all

lemma persists_maker_send:
  assumes k: "keeps (persists d) k"
  shows "keeps (persists d) (bnd getr (\<lambda>r. andthen (case x of None \<Rightarrow> ret () | Some x \<Rightarrow>
      if ho_spend x \<noteq> None then ret ()
      else case s_claim (r_side r) of
        Some st \<Rightarrow> broadcast_hex E ch (st_hex st)
      | None \<Rightarrow> (case secret of None \<Rightarrow> ret () | Some s \<Rightarrow> do_claim E ch p x s key)) k))"
proof (rule at_getr, rule at_andthen[OF _ k])
  fix r
  have d: "persists d r (fst (ret () r))" "persists d r (fst (do_claim E ch p y s key r))" for y s
    by (rule keepsD, intro ps.calm_ret persist_rules)+
  show "persists d r (fst ((case x of None \<Rightarrow> ret () | Some x \<Rightarrow>
      if ho_spend x \<noteq> None then ret ()
      else case s_claim (r_side r) of
        Some st \<Rightarrow> broadcast_hex E ch (st_hex st)
      | None \<Rightarrow> (case secret of None \<Rightarrow> ret () | Some s \<Rightarrow> do_claim E ch p x s key)) r))"
    using d by (cases "s_claim (r_side r)") (auto simp: persists_resend split: option.split)
qed

lemma persists_maker_locked [persist_rules]: "keeps (persists d) (maker_locked E c mine p q n key)"
  unfolding maker_locked_def Let_def
  by (intro ps.calm_getr ps.calm_when ps.calm_option ps.calm_ret persist_rules ps.calm_andthen persists_maker_send ps.calm_bnd) simp_all

lemma stepMaker_persists: "keeps (persists d) (stepMaker E c)"
  unfolding stepMaker_def maker_proofs_def
  by (intro ps.calm_rules persist_rules keeps_check)

text \<open>Nothing is sent to a chain before the disk knows of it. When a step of either side starts with the
  disk holding the side's claim and refund, then whenever it sends a transaction, the file last written
  holds that transaction as the side's claim or refund, or holds a lock intent (the transaction then funds
  the HTLC); and the step ends with the disk holding claim and refund again. So a crash at any moment
  leaves a file from which the next run re-sends what was sent, or looks for the lock on the chain.\<close>

theorem nothing_sent_unsaved:
  assumes "in_sync d r" and "r_log (fst (step E c r)) = r_log r @ l @ Sent ch hex # m"
  shows "(map_option st_hex (s_claim (disk d (r_log r @ l))) = Some hex
      \<or> map_option st_hex (s_refund (disk d (r_log r @ l))) = Some hex
      \<or> s_lockIntentAt (disk d (r_log r @ l)) \<noteq> None)
    \<and> in_sync d (fst (step E c r))"
proof -
  have "keeps (persists d) (case s_role (r_side r') of Taker \<Rightarrow> stepTaker E c | Maker \<Rightarrow> stepMaker E c)" for r'
    by (cases "s_role (r_side r')") (simp_all add: stepTaker_persists stepMaker_persists)
  then have "keeps (persists d) (step E c)"
    unfolding step_def by (intro ps.calm_andthen ps.calm_if ps.calm_bnd ps.calm_getr ps.calm_ret persist_rules)
  from keepsD[OF this, of r] assms show ?thesis
    using sends_known_nth[of "disk d (r_log r)" l ch hex m] by (auto simp: persists_def disk_append)
qed

lemma ex_step_taker: "stepTaker ex_lost (ex_ctx Escrow 115) ex_proven = y \<Longrightarrow> step ex_lost (ex_ctx Escrow 115) ex_proven = y"
  by (simp add: step_def exec_base m_is_def ex_ctx_sel ex_match_sel) (simp add: ex_proven_def ex_start_def ex_side_def)

theorem nothing_sent_unsaved_witness:
  "\<exists>l m. r_log (fst (step ex_lost (ex_ctx Escrow 115) ex_proven)) = l @ Sent Bitcoin ''b'' # m
     \<and> in_sync (ex_side Taker) (fst (step ex_lost (ex_ctx Escrow 115) ex_proven))"
proof -
  obtain r1 where r1: "step ex_lost (ex_ctx Escrow 115) ex_proven = (r1, Threw (ExplorerFault ''timeout''))"
    "Sent Bitcoin ''b'' \<in> set (r_log r1)" using ex_tick1 ex_step_taker by blast
  then obtain l m where "r_log r1 = l @ Sent Bitcoin ''b'' # m" by (meson split_list)
  then have lm: "r_log (fst (step ex_lost (ex_ctx Escrow 115) ex_proven)) = r_log ex_proven @ l @ Sent Bitcoin ''b'' # m"
    using r1(1) by (simp add: ex_proven_def ex_start_def)
  moreover have "in_sync (ex_side Taker) ex_proven" by (simp add: in_sync_def ex_proven_def ex_start_def ex_side_def)
  ultimately show ?thesis
    using nothing_sent_unsaved[OF _ lm] by (auto simp: ex_proven_def ex_start_def)
qed

section \<open>Claims\<close>

text \<open>\<open>claims G\<close>: a claim that a program records satisfies \<open>G\<close>.\<close>

definition same_claim :: "bool \<Rightarrow> run \<Rightarrow> run \<Rightarrow> bool" where
  "same_claim B r s \<longleftrightarrow> s_claim (r_side s) = s_claim (r_side r) \<and> (B \<longrightarrow> s_theirLock (r_side s) = s_theirLock (r_side r))"

definition claims :: "(stored_tx \<Rightarrow> bool) \<Rightarrow> run \<Rightarrow> run \<Rightarrow> bool" where
  "claims G r s \<longleftrightarrow> (\<forall>st. s_claim (r_side s) = Some st \<longrightarrow> s_claim (r_side r) = Some st \<or> G st)"

lemma claims_trans: "claims G r s \<Longrightarrow> claims G s t \<Longrightarrow> claims G r t"
  unfolding claims_def by blast

lemma same_claims: "same_claim B r s \<Longrightarrow> claims G r s"
  by (simp add: same_claim_def claims_def)

interpretation cm: effect "same_claim B" "claims G" "\<lambda>_. True" for B G
  by unfold_locales (auto simp: same_claim_def intro: claims_trans same_claims)

text \<open>The taker's section is entered with its record of the maker's lock as the step found it.\<close>

definition their_lock :: "outpoint option \<Rightarrow> run \<Rightarrow> bool" where
  "their_lock L r \<longleftrightarrow> s_theirLock (r_side r) = L"

definition reveals :: "outpoint option \<Rightarrow> (stored_tx \<Rightarrow> bool) \<Rightarrow> run \<Rightarrow> run \<Rightarrow> bool" where
  "reveals L G r s \<longleftrightarrow> (if their_lock L r then claims G r s
     else s_claim (r_side s) = s_claim (r_side r) \<and> \<not> their_lock L s)"

interpretation rv: effect "same_claim True" "reveals L G" "their_lock L" for L G
proof
  fix r s t
  show "same_claim True r r" by (simp add: same_claim_def)
  show "same_claim True r s \<Longrightarrow> same_claim True s t \<Longrightarrow> same_claim True r t" by (simp add: same_claim_def)
  show "reveals L G r s \<Longrightarrow> reveals L G s t \<Longrightarrow> reveals L G r t"
    by (auto simp: reveals_def intro: claims_trans split: if_splits) (auto simp: claims_def)
  show "same_claim True r s \<Longrightarrow> reveals L G r s"
    by (auto simp: reveals_def their_lock_def same_claim_def claims_def)
  show "same_claim True r s \<Longrightarrow> their_lock L r \<Longrightarrow> their_lock L s" by (simp add: same_claim_def their_lock_def)
qed

named_theorems claim_rules \<open>programs that record no claim\<close>

lemma quiet_same: "keeps (quiet (\<lambda>_. True)) m \<Longrightarrow> keeps (same_claim B) m"
  by (simp add: keeps_def quiet_def same_claim_def)

lemma same_upd_side [claim_rules]:
  "(\<And>s. s_claim (f s) = s_claim s \<and> (B \<longrightarrow> s_theirLock (f s) = s_theirLock s)) \<Longrightarrow> keeps (same_claim B) (upd_side f)"
  by (simp add: keeps_def upd_side_def same_claim_def)

lemma same_basic [claim_rules]:
  "keeps (same_claim B) (upd_live g)" "keeps (same_claim B) (upd_posts h)" "keeps (same_claim B) (upd_wallets w)"
  "keeps (same_claim B) (emit ev)" "keeps (same_claim B) (ask ev ans)" "keeps (same_claim B) save"
  by (simp_all add: keeps_def upd_live_def upd_posts_def upd_wallets_def save_def bnd_def getr_def emit_def ask_def
      same_claim_def split: sum.splits)

lemma same_wallet [claim_rules]:
  "keeps (same_claim B) (fundHtlc E k a)" "keeps (same_claim B) (wallet_for E i ch)" "keeps (same_claim B) (my_address E ch)"
  by (intro quiet_same quiet_rules quiet_pay)+

lemma same_steps [claim_rules]:
  "keeps (same_claim B) (set_stage st)" "keeps (same_claim B) (set_note n)" "keeps (same_claim B) (finish st n)"
  "keeps (same_claim B) (refund_pending n)" "keeps (same_claim B) (scan_chain E ch p)" "keeps (same_claim B) (amount_of t)"
  "keeps (same_claim B) (broadcast_hex E ch hex)" "keeps (same_claim B) (adopt_existing mine k)"
  "keeps (same_claim B) (show_my_lock q n')" "keeps (same_claim B) (show_their_lock sn x)" "keeps (same_claim B) (show_refund_in y b m)"
  unfolding set_stage_def set_note_def finish_def refund_pending_def scan_chain_def amount_of_def broadcast_hex_def
    adopt_existing_def adoptLock_def show_my_lock_def show_their_lock_def show_refund_in_def Let_def
  by (intro cm.calm_rules claim_rules; simp)+

lemma same_refund [claim_rules]: "keeps (same_claim B) (maybeRefund E ch p x tip key)"
  unfolding maybeRefund_def by (intro cm.calm_rules claim_rules) simp

lemma same_lock [claim_rules]: "keeps (same_claim B) (lock_htlc E ch address amount)"
  unfolding lock_htlc_def lock_fund_def Let_def by (intro cm.calm_rules claim_rules) simp_all

lemma same_verify [claim_rules]: "keeps (same_claim B) (verifyProof E c p ch amount)"
  unfolding verifyProof_def by (intro cm.calm_rules claim_rules) simp_all

lemma same_post [claim_rules]: "keeps (same_claim B) (postOp c what j)" "keeps (same_claim B) (abort_swap c why)"
  "keeps (same_claim B) (post_locked c)" "keeps (same_claim B) (postProof E c ch n k)"
  unfolding abort_swap_def post_locked_def postProof_def postOp_def Let_def by (intro cm.calm_rules claim_rules; simp)+

text \<open>A claim built from \<open>x\<close> with \<open>secret\<close>.\<close>

definition claim_built :: "engine \<Rightarrow> chain \<Rightarrow> htlc_params \<Rightarrow> htlc_out \<Rightarrow> bytes \<Rightarrow> bytes \<Rightarrow> stored_tx \<Rightarrow> bool" where
  "claim_built E ch p x secret key st \<longleftrightarrow> (\<exists>to spend. buildClaimTx (en_C E) (en_S E)
     \<lparr>sc_utxo = utxo_of x, sc_params = p, sc_to = to, sc_feeRate = sp_feeRate (en_policy E) ch,
      sc_network = network E ch, ca_secret = secret, ca_receiverKey = key\<rparr> = Inr spend \<and> st = stored_of spend)"

lemma of_sum_value: "of_sum g x r = (s, Done a) \<Longrightarrow> x = Inr a"
  by (cases x) (simp_all add: of_sum_def ret_def throw_def)

lemma claims_do_claim:
  assumes "\<And>st. claim_built E ch p x secret key st \<Longrightarrow> G st"
  shows "keeps (claims G) (do_claim E ch p x secret key)"
  unfolding do_claim_def
proof (rule cm.P_bnd)
  show "keeps (claims G) (my_address E ch)" by (intro cm.P_calm claim_rules)
  fix to
  show "keeps (claims G) (bnd (of_sum HtlcFault (buildClaimTx (en_C E) (en_S E)
       \<lparr>sc_utxo = utxo_of x, sc_params = p, sc_to = to, sc_feeRate = sp_feeRate (en_policy E) ch,
        sc_network = network E ch, ca_secret = secret, ca_receiverKey = key\<rparr>)) (\<lambda>spend.
     andthen (upd_side (\<lambda>s. s\<lparr>s_claim := Some (stored_of spend)\<rparr>)) (andthen save (broadcast_hex E ch (ss_hex spend)))))"
  proof (rule cm.P_result, intro cm.P_calm cm.calm_of_sum, drule of_sum_value)
    fix spend :: signed_spend
    assume "buildClaimTx (en_C E) (en_S E)
       \<lparr>sc_utxo = utxo_of x, sc_params = p, sc_to = to, sc_feeRate = sp_feeRate (en_policy E) ch,
        sc_network = network E ch, ca_secret = secret, ca_receiverKey = key\<rparr> = Inr spend"
    then have "G (stored_of spend)" by (intro assms) (auto simp: claim_built_def)
    then have "keeps (claims G) (upd_side (\<lambda>s. s\<lparr>s_claim := Some (stored_of spend)\<rparr>))"
      by (simp add: keeps_def upd_side_def claims_def)
    then show "keeps (claims G) (andthen (upd_side (\<lambda>s. s\<lparr>s_claim := Some (stored_of spend)\<rparr>))
        (andthen save (broadcast_hex E ch (ss_hex spend))))"
      by (intro cm.P_andthen cm.P_calm[OF same_basic(6)] cm.P_calm[OF same_steps(7)])
  qed
qed

subsection \<open>The taker\<close>

lemma claims_taker_claim:
  assumes "\<And>y st. x = Some y \<Longrightarrow> ho_spend y = None \<Longrightarrow>
      num_ge (confsOf (ho_height y) (sn_tip theirs)) (sp_confirmations (en_policy E) (t_makerChain (c_t c))) \<Longrightarrow>
      \<not> num_gt (confsOf (ho_height y) (sn_tip theirs)) (t_makerRefundBlocks (c_t c) - claimSafetyBlocks (t_makerRefundBlocks (c_t c))) \<Longrightarrow>
      claim_built E (t_makerChain (c_t c)) p y secret key st \<Longrightarrow> G st"
  shows "keeps (claims G) (taker_claim E c theirs x p secret key)"
  unfolding taker_claim_def Let_def
proof (intro cm.P_bnd cm.P_option cm.P_if, goal_cases)
  case (6 r y)
  then show ?case
    by (intro cm.P_andthen claims_do_claim assms) (auto intro!: cm.P_calm claim_rules cm.calm_ret)
qed (intro cm.P_calm cm.calm_rules claim_rules)+

lemma same_taker_lock [claim_rules]: "keeps (same_claim True) (taker_lock E c mine n)"
  unfolding taker_lock_def by (intro cm.calm_rules claim_rules keeps_check) simp_all

lemma same_taker_stage [claim_rules]: "keeps (same_claim B) (taker_stage c x n y w l)"
  unfolding taker_stage_def by (intro cm.calm_rules claim_rules)

lemma same_taker_proofs [claim_rules]: "keeps (same_claim B) (taker_proofs E c n m)" "keeps (same_claim B) (taker_no_maker c)"
  unfolding taker_proofs_def taker_no_maker_def by (intro cm.calm_rules claim_rules)+

lemma find_out_Some: "find_out sn p = Some x \<Longrightarrow> x \<in> set (sn_outs sn) \<and> outpoint_of x = p"
  by (auto simp: find_out_def find_Some_iff sameOutpoint_def outpoint_of_def)

text \<open>The output the taker claims: unspent, confirmed, with a quarter of its refund window left, and of the
  agreed amount (or the one the side has recorded).\<close>

definition revealed_for :: "engine \<Rightarrow> ctx \<Rightarrow> outpoint option \<Rightarrow> string \<Rightarrow> int \<Rightarrow> bytes \<Rightarrow> bytes \<Rightarrow> stored_tx \<Rightarrow> bool" where
  "revealed_for E c L makerKey n secret key st \<longleftrightarrow> (\<exists>theirs x.
     scanned E (t_makerChain (c_t c)) (taker_theirs c makerKey) theirs \<and> x \<in> set (sn_outs theirs) \<and> ho_spend x = None
     \<and> (ho_value x = n \<or> L = Some (outpoint_of x))
     \<and> num_ge (confsOf (ho_height x) (sn_tip theirs)) (sp_confirmations (en_policy E) (t_makerChain (c_t c)))
     \<and> \<not> num_gt (confsOf (ho_height x) (sn_tip theirs)) (t_makerRefundBlocks (c_t c) - claimSafetyBlocks (t_makerRefundBlocks (c_t c)))
     \<and> claim_built E (t_makerChain (c_t c)) (taker_theirs c makerKey) x secret key st)"

lemma reveals_claims: "keeps (claims G) m \<Longrightarrow> keeps_if (their_lock L) (reveals L G) m"
  by (simp add: keeps_def keeps_if_def reveals_def)

lemma reveal_tail:
  assumes "scanned E (t_makerChain (c_t c)) (taker_theirs c makerKey) theirs" and "their_lock L r"
  shows "keeps_if (their_lock L) (reveals L (revealed_for E c L makerKey n secret key))
    (let theirOut = (case s_theirLock (r_side r) of None \<Rightarrow> pickExact (sn_outs theirs) n False | Some p \<Rightarrow> find_out theirs p);
         wrong = (if theirOut = None then List.find (\<lambda>x. ho_spend x = None \<and> ho_value x \<noteq> n) (sn_outs theirs) else None)
     in andthen (case theirOut of None \<Rightarrow> ret () | Some x \<Rightarrow> show_their_lock theirs x)
         (andthen (set_note (map_option (\<lambda>x. NMakerHolds (ho_value x) n) wrong))
           (bnd (taker_claim E c theirs theirOut (taker_theirs c makerKey) secret key) (\<lambda>tooLate.
             andthen (maybeRefund E ch mineP myOut tip refundKey)
               (taker_stage c myOut myConfs theirOut (wrong \<noteq> None) tooLate)))))"
proof -
  define x where "x = (case s_theirLock (r_side r) of None \<Rightarrow> pickExact (sn_outs theirs) n False | Some p \<Rightarrow> find_out theirs p)"
  have L: "s_theirLock (r_side r) = L" using assms(2) by (simp add: their_lock_def)
  have x: "y \<in> set (sn_outs theirs) \<and> (ho_value y = n \<or> L = Some (outpoint_of y))" if "x = Some y" for y
    using that pickExact_Some[of "sn_outs theirs" n False y] find_out_Some[of theirs _ y]
    unfolding x_def L by (auto split: option.splits)
  have "keeps (claims (revealed_for E c L makerKey n secret key)) (taker_claim E c theirs x (taker_theirs c makerKey) secret key)"
    by (rule claims_taker_claim) (use assms(1) x in \<open>unfold revealed_for_def, blast\<close>)
  then show ?thesis
    unfolding x_def[symmetric]
    by (intro rv.N_Let rv.N_andthen rv.N_then reveals_claims cm.calm_option cm.calm_ret cm.calm_andthen claim_rules)
qed

lemma reveal_section:
  "keeps_if (their_lock L) (reveals L (revealed_for E c L makerKey n secret key))
     (taker_locked E c mine mineP (taker_theirs c makerKey) n secret key)"
  unfolding taker_locked_def
  by (rule rv.N_getr, rule rv.N_Let, rule rv.N_andthen, intro cm.calm_when claim_rules, rule rv.N_option,
    intro rv.N_calm cm.calm_ret, rule rv.N_Let, rule rv.N_Let, rule rv.N_andthen, intro claim_rules,
    rule rv.N_result, intro claim_rules, drule scan_Done, rule rv.N_getr, rule reveal_tail; assumption)

lemma stepTaker_reveals:
  "keeps_if (their_lock L) (reveals L (\<lambda>st. \<exists>secret key makerKey n. taker_keys E c = Inr (secret, key)
      \<and> sha (en_C E) secret = c_hash c \<and> t_makerKey (c_t c) = Some makerKey \<and> BigInt_of (t_makerAmount (c_t c)) = Some n
      \<and> revealed_for E c L makerKey n secret key st)) (stepTaker E c)" (is "keeps_if _ (reveals L ?G) _")
proof -
  have "keeps_if (their_lock L) (reveals L ?G) (taker_locked E c mine mineP (taker_theirs c makerKey) n secret key)"
    if "taker_keys E c = Inr (secret, key)" "sha (en_C E) secret = c_hash c" "t_makerKey (c_t c) = Some makerKey"
      "BigInt_of (t_makerAmount (c_t c)) = Some n" for mine mineP makerKey n secret key
  proof -
    have "reveals L (revealed_for E c L makerKey n secret key) r s \<Longrightarrow> reveals L ?G r s" for r s
      using that unfolding reveals_def claims_def by (auto split: if_splits)
    then show ?thesis
      using reveal_section[of L E c makerKey n secret key mine mineP] unfolding keeps_if_def by blast
  qed
  then show ?thesis
    unfolding stepTaker_def Let_def
    apply (intro rv.N_in_method)
    apply (rule rv.N_getr)
    apply (rule rv.N_result, intro cm.calm_of_sum, drule of_sum_value, rule rv.N_prod)
    apply (rule rv.N_if, intro rv.N_calm claim_rules, rule rv.N_if, intro rv.N_calm cm.calm_leave)
    apply (rule rv.N_bnd, intro claim_rules)
    apply (rule rv.N_result, intro claim_rules, drule amount_Done)
    apply (rule rv.N_andthen, intro claim_rules)
    apply (rule rv.N_option, intro rv.N_calm claim_rules)
    apply (intro rv.N_bnd rv.N_andthen claim_rules)
    apply simp
    done
qed

subsection \<open>The maker\<close>

lemma secret_known:
  "secretFromWitness C w h = Some s \<Longrightarrow> sha C s = h"
  by (auto simp: secretFromWitness_def Let_def split: option.splits list.splits if_splits)

lemma fold_secret:
  "fold (\<lambda>i acc. if acc = None then f i else acc) xs acc = Some s \<Longrightarrow> acc = Some s \<or> (\<exists>i \<in> set xs. f i = Some s)"
  by (induction xs arbitrary: acc) (fastforce split: if_splits)+

lemma maker_secret_known:
  assumes "maker_secret E c w r = (r', Done x)" and "x = Some s"
  shows "sha (en_C E) s = c_hash c"
  using assms unfolding maker_secret_def
  by (auto simp: ret_def bnd_def ask_def split: option.splits sum.splits dest!: fold_secret secret_known)

definition claimed_with :: "engine \<Rightarrow> ctx \<Rightarrow> bytes \<Rightarrow> stored_tx \<Rightarrow> bool" where
  "claimed_with E c key st \<longleftrightarrow> (\<exists>theirs x secret.
     scanned E (t_takerChain (c_t c)) (maker_theirs c (toHex (xOnly (en_C E) key))) theirs
     \<and> x \<in> set (sn_outs theirs) \<and> ho_spend x = None \<and> sha (en_C E) secret = c_hash c
     \<and> claim_built E (t_takerChain (c_t c)) (maker_theirs c (toHex (xOnly (en_C E) key))) x secret key st)"

lemma same_maker_proofs [claim_rules]: "keeps (same_claim B) (maker_proofs E c k n m)"
  unfolding maker_proofs_def by (intro cm.calm_rules claim_rules)

lemma same_maker_wait [claim_rules]: "keeps (same_claim False) (maker_wait E c mine p n m)"
  unfolding maker_wait_def maker_rescan_def maker_no_lock_seen_def maker_lock_seen_def Let_def
  by (intro cm.calm_rules claim_rules keeps_check) simp_all

lemma same_maker_stage [claim_rules]: "keeps (same_claim B) (maker_stage c x n y w l)"
  unfolding maker_stage_def by (intro cm.calm_rules claim_rules)

lemma same_maker_secret [claim_rules]: "keeps (same_claim B) (maker_secret E c w)"
  unfolding maker_secret_def by (intro cm.calm_rules claim_rules)

lemma claims_maker_send:
  assumes "scanned E (t_takerChain (c_t c)) (maker_theirs c (toHex (xOnly (en_C E) key))) theirs"
    and "\<And>y. x = Some y \<Longrightarrow> y \<in> set (sn_outs theirs)" and "\<And>s. secret = Some s \<Longrightarrow> sha (en_C E) s = c_hash c"
  shows "keeps (claims (claimed_with E c key)) (case x of None \<Rightarrow> ret () | Some x \<Rightarrow>
      if ho_spend x \<noteq> None then ret ()
      else case s_claim (r_side r) of
        Some st \<Rightarrow> broadcast_hex E (t_takerChain (c_t c)) (st_hex st)
      | None \<Rightarrow> (case secret of None \<Rightarrow> ret ()
          | Some s \<Rightarrow> do_claim E (t_takerChain (c_t c)) (maker_theirs c (toHex (xOnly (en_C E) key))) x s key))"
proof (intro cm.P_option cm.P_if claims_do_claim, goal_cases)
  case (4 y s st)
  from assms(1) assms(2)[OF 4(1)] 4(2) assms(3)[OF 4(4)] 4(5) show ?case
    unfolding claimed_with_def by (intro exI[of _ theirs] exI[of _ y] exI[of _ s]) simp
qed (intro cm.P_calm cm.calm_ret claim_rules)+

lemma calm_claims: "keeps (same_claim False) m \<Longrightarrow> keeps (claims G) m"
  by (rule cm.P_calm)

lemma maker_section:
  "keeps (claims (claimed_with E c key))
     (maker_locked E c mine mineP (maker_theirs c (toHex (xOnly (en_C E) key))) n key)"
proof -
  have found: "(case L of Some p \<Rightarrow> find_out theirs p | None \<Rightarrow> pickExact (sn_outs theirs) n True) = Some y \<Longrightarrow> y \<in> set (sn_outs theirs)"
    for L theirs y using find_out_Some pickExact_Some by (cases L) auto
  show ?thesis
    unfolding maker_locked_def
    apply (rule cm.P_bnd, intro cm.P_calm cm.calm_getr, rule cm.P_Let, rule cm.P_andthen, intro cm.P_calm cm.calm_when claim_rules)
    apply (rule cm.P_option, intro cm.P_calm cm.calm_ret, rule cm.P_Let, rule cm.P_Let, rule cm.P_andthen, intro cm.P_calm claim_rules)
    apply (rule cm.P_result, intro cm.P_calm claim_rules, drule scan_Done)
    apply (rule cm.P_bnd, intro cm.P_calm cm.calm_getr, rule cm.P_Let, rule cm.P_Let, rule cm.P_andthen)
     apply (intro calm_claims cm.calm_option cm.calm_ret cm.calm_andthen claim_rules, simp)
    apply (rule cm.P_result, intro cm.P_calm claim_rules)
    apply (rule cm.P_bnd, intro cm.P_calm cm.calm_getr, rule cm.P_andthen)
     apply (rule claims_maker_send, assumption, erule found, erule maker_secret_known, assumption)
    apply (intro cm.P_calm cm.calm_andthen claim_rules)
    done
qed

lemma stepMaker_claims:
  "keeps (claims (\<lambda>st. \<exists>key. swapKey (en_C E) (c_seed c) (c_matchId c) (t_makerChain (c_t c)) Maker = Inr key
     \<and> claimed_with E c key st)) (stepMaker E c)" (is "keeps (claims ?G) _")
proof -
  have "keeps (claims ?G) (maker_locked E c mine mineP (maker_theirs c (toHex (xOnly (en_C E) key))) n key)"
    if "swapKey (en_C E) (c_seed c) (c_matchId c) (t_makerChain (c_t c)) Maker = Inr key" for mine mineP n key
  proof -
    have "claims (claimed_with E c key) r s \<Longrightarrow> claims ?G r s" for r s using that unfolding claims_def by blast
    then show ?thesis using maker_section[of E c key mine mineP n] unfolding keeps_def by blast
  qed
  then show ?thesis
    unfolding stepMaker_def Let_def
    apply (intro cm.P_in_method)
    apply (rule cm.P_bnd, intro calm_claims cm.calm_getr)
    apply (rule cm.P_result, intro calm_claims cm.calm_of_sum, drule of_sum_value)
    apply (rule cm.P_if, intro calm_claims claim_rules, rule cm.P_if, intro calm_claims cm.calm_leave)
    apply (rule cm.P_bnd, intro calm_claims claim_rules)+
    apply (rule cm.P_andthen, intro calm_claims claim_rules)
    apply (rule cm.P_bnd, intro calm_claims claim_rules)
    apply (rule cm.P_andthen, intro calm_claims claim_rules)+
    apply simp
    done
qed

subsection \<open>Properties\<close>

text \<open>C37: when the taker reveals its secret. A claim that a step records, and so the reveal, is built with the
  secret derived for the take, which hashes to the agreed hash, from an output that the explorer of the
  maker's chain has shown on the maker's HTLC: unspent, of exactly the agreed amount (or the one the side
  had recorded as the maker's lock), with the confirmations asked for and not yet in the last quarter of
  its refund window.\<close>

theorem taker_reveals_safely:
  assumes "s_claim (r_side (fst (stepTaker E c r))) = Some st" and "s_claim (r_side r) = None"
  shows "\<exists>secret key makerKey n theirs x. taker_keys E c = Inr (secret, key) \<and> sha (en_C E) secret = c_hash c
     \<and> t_makerKey (c_t c) = Some makerKey \<and> BigInt_of (t_makerAmount (c_t c)) = Some n
     \<and> scanned E (t_makerChain (c_t c)) (taker_theirs c makerKey) theirs \<and> x \<in> set (sn_outs theirs) \<and> ho_spend x = None
     \<and> (ho_value x = n \<or> s_theirLock (r_side r) = Some (outpoint_of x))
     \<and> num_ge (confsOf (ho_height x) (sn_tip theirs)) (sp_confirmations (en_policy E) (t_makerChain (c_t c)))
     \<and> \<not> num_gt (confsOf (ho_height x) (sn_tip theirs)) (t_makerRefundBlocks (c_t c) - claimSafetyBlocks (t_makerRefundBlocks (c_t c)))
     \<and> claim_built E (t_makerChain (c_t c)) (taker_theirs c makerKey) x secret key st"
proof -
  have "their_lock (s_theirLock (r_side r)) r" by (simp add: their_lock_def)
  from keeps_ifD[OF stepTaker_reveals this] assms this show ?thesis
    unfolding reveals_def claims_def revealed_for_def by fastforce
qed

definition ex_claim_of :: "chain \<Rightarrow> string \<Rightarrow> int \<Rightarrow> claim_args" where
  "ex_claim_of ch i n = \<lparr>sc_utxo = \<lparr>hu_txid = i, hu_vout = 0, hu_amount = 50000\<rparr>,
     sc_params = \<lparr>h_hash = ex_key, h_receiver = ex_key, h_sender = ex_key, h_refundBlocks = n\<rparr>, sc_to = ''tb1w'',
     sc_feeRate = Double 2 0, sc_network = NETWORKS ch Testnet, ca_secret = ex_key, ca_receiverKey = ex_key\<rparr>"

definition ex_claimed :: signed_spend where
  "ex_claimed = \<lparr>ss_hex = ''a'', ss_txid = ''id'', ss_vsize = 140, ss_fee = 280, ss_value = 49720\<rparr>"

lemma ex_claims: "buildClaimTx ex_crypto ex_signer (ex_claim_of Litecoin ''l'' 288) = Inr ex_claimed"
  "buildClaimTx ex_crypto ex_signer (ex_claim_of Bitcoin ''t'' 144) = Inr ex_claimed"
proof -
  have f: "fee_ceil (Double 2 0) 140 = Some 280" by code_simp
  have dust: "dustThreshold (NETWORKS Bitcoin Testnet) P2TR_SCRIPT \<le> 49720" "dustThreshold (NETWORKS Litecoin Testnet) P2TR_SCRIPT \<le> 49720"
    by code_simp+
  then have d: "dustThreshold (NETWORKS ch Testnet) P2TR_SCRIPT \<le> 49720" for ch by (cases ch) simp_all
  have k: "pub_of ex_crypto ex_key = ex_key" "hashOf ex_crypto ex_key = ex_key" "xOnly ex_crypto ex_key = ex_key"
    using ex_sha ex_xOnly by (simp_all add: ex_crypto_def hashOf_def)
  have c: "concatBytes [[0xc0], NUMS_INTERNAL_KEY, []] = 0xc0 # NUMS_INTERNAL_KEY" by code_simp
  have "buildClaimTx ex_crypto ex_signer (ex_claim_of ch i n) = Inr ex_claimed" if "1 \<le> n" "n \<le> 65535" for ch i n
    using f d[of ch] ex_htlcScript[OF that]
    by (simp add: buildClaimTx_def ex_claim_of_def k spend_def Let_def ex_htlc_def)
      (simp add: ex_signer_def rate_ok_def spend_build_def tx_witnesses_def ex_witness_def ex_claimed_def ex_crypto_def c)
  then show "buildClaimTx ex_crypto ex_signer (ex_claim_of Litecoin ''l'' 288) = Inr ex_claimed"
    "buildClaimTx ex_crypto ex_signer (ex_claim_of Bitcoin ''t'' 144) = Inr ex_claimed" by simp_all
qed

lemma ex_address: "wallet_address (ex_seeing b l t) w = ''tb1w''" "network (ex_seeing b l t) ch = NETWORKS ch Testnet"
  by (simp_all add: wallet_address_def network_def ex_seeing_def ex_engine_def swapNetwork_def)

lemma ex_sends: "w_send (en_world (ex_seeing b l t)) n ch h = Inr ''id''"
  by (simp add: ex_seeing_def ex_world_def)

definition ex_locked :: "swap_role \<Rightarrow> run" where
  "ex_locked ro = ex_start ro (\<lambda>s. s\<lparr>s_myLock := Some \<lparr>op_tx = (case ro of Taker \<Rightarrow> ''t'' | Maker \<Rightarrow> ''l''), op_out = 0\<rparr>\<rparr>)"

lemma ex_taker_claims:
  "\<exists>r1. stepTaker (ex_seeing [ex_lock_tx ''t'' 50000 50] [ex_lock_tx ''l'' 50000 60] (Some 100)) (ex_ctx Escrow 100) (ex_locked Taker) = (r1, Done ())
     \<and> s_claim (r_side r1) = Some (stored_of ex_claimed)"
  using ex_claims(1)
  by (simp add: ex_eval ex_outs ex_picks_one ex_locked_def ex_start_def ex_side_def ex_address ex_claim_of_def ex_sends
     ceil_div_def the_wallet_def)

theorem taker_reveals_safely_witness:
  "\<exists>theirs x secret. scanned (ex_seeing [ex_lock_tx ''t'' 50000 50] [ex_lock_tx ''l'' 50000 60] (Some 100)) Litecoin
      (taker_theirs (ex_ctx Escrow 100) (toHex ex_key)) theirs
    \<and> x \<in> set (sn_outs theirs) \<and> ho_spend x = None \<and> ho_value x = 50000 \<and> sha ex_crypto secret = ex_key"
proof -
  let ?E = "ex_seeing [ex_lock_tx ''t'' 50000 50] [ex_lock_tx ''l'' 50000 60] (Some 100)"
  have "s_claim (r_side (fst (stepTaker ?E (ex_ctx Escrow 100) (ex_locked Taker)))) = Some (stored_of ex_claimed)"
    using ex_taker_claims by auto
  moreover have "s_claim (r_side (ex_locked Taker)) = None" "s_theirLock (r_side (ex_locked Taker)) = None"
    by (simp_all add: ex_locked_def ex_start_def ex_side_def)
  ultimately show ?thesis
    using taker_reveals_safely[of ?E "ex_ctx Escrow 100" "ex_locked Taker" "stored_of ex_claimed"]
    by (auto simp: ex_ctx_sel ex_terms_sel ex_engine_sel)
qed

text \<open>C38: what the maker claims with. A claim that a step of the maker records is built with a secret, read
  from a spend of its own HTLC, that hashes to the agreed hash, from an output of the taker's HTLC that the
  explorer has shown unspent.\<close>

theorem maker_claims_with_secret:
  assumes "s_claim (r_side (fst (stepMaker E c r))) = Some st" and "s_claim (r_side r) = None"
  shows "\<exists>key theirs x secret. swapKey (en_C E) (c_seed c) (c_matchId c) (t_makerChain (c_t c)) Maker = Inr key
     \<and> scanned E (t_takerChain (c_t c)) (maker_theirs c (toHex (xOnly (en_C E) key))) theirs
     \<and> x \<in> set (sn_outs theirs) \<and> ho_spend x = None \<and> sha (en_C E) secret = c_hash c
     \<and> claim_built E (t_takerChain (c_t c)) (maker_theirs c (toHex (xOnly (en_C E) key))) x secret key st"
  using keepsD[OF stepMaker_claims, of E c r] assms unfolding claims_def claimed_with_def by fastforce

definition ex_good_claim :: "string list" where
  "ex_good_claim = [[], toHex ex_key, [], []]"

lemma ex_known: "secretFromWitness ex_crypto (Some ex_good_claim) ex_key = Some ex_key"
  by code_simp

lemma ex_maker_claims:
  "\<exists>r1. stepMaker (ex_seeing [ex_lock_tx ''t'' 50000 50] [ex_lock_tx ''l'' 50000 60, ex_spend_tx ''s'' ''l'' ex_good_claim 70] (Some 100))
      (ex_ctx Escrow 100) (ex_locked Maker) = (r1, Done ()) \<and> s_claim (r_side r1) = Some (stored_of ex_claimed)"
  using ex_claims(2)
  by (simp add: ex_eval ex_outs ex_spent_outs ex_picks_one ex_locked_def ex_start_def ex_side_def ex_address ex_claim_of_def ex_sends
     ex_known the_wallet_def)

theorem maker_claims_with_secret_witness:
  "\<exists>theirs x secret. scanned (ex_seeing [ex_lock_tx ''t'' 50000 50]
        [ex_lock_tx ''l'' 50000 60, ex_spend_tx ''s'' ''l'' ex_good_claim 70] (Some 100)) Bitcoin
      (maker_theirs (ex_ctx Escrow 100) (toHex ex_key)) theirs
    \<and> x \<in> set (sn_outs theirs) \<and> ho_spend x = None \<and> sha ex_crypto secret = ex_key"
proof -
  let ?E = "ex_seeing [ex_lock_tx ''t'' 50000 50] [ex_lock_tx ''l'' 50000 60, ex_spend_tx ''s'' ''l'' ex_good_claim 70] (Some 100)"
  have "s_claim (r_side (fst (stepMaker ?E (ex_ctx Escrow 100) (ex_locked Maker)))) = Some (stored_of ex_claimed)"
    using ex_maker_claims by auto
  moreover have "s_claim (r_side (ex_locked Maker)) = None" by (simp add: ex_locked_def ex_start_def ex_side_def)
  ultimately show ?thesis
    using maker_claims_with_secret[of ?E "ex_ctx Escrow 100" "ex_locked Maker" "stored_of ex_claimed"]
    by (auto simp: ex_ctx_sel ex_terms_sel ex_engine_sel ex_maker_key ex_xOnly)
qed

end
