(* ===== verification/Pass.thy ===== *)
theory Pass
  imports SwapSafety
begin

text \<open>
  \<open>SwapEngine.pass\<close> and the engine's persistence (\<open>src/swap/engine.ts\<close>): adopting the matches of the board,
  stepping every side of every file, saving, dropping, loading, and the answer to the API.

  A pass steps its files concurrently. They share the wallets and nothing else, and events are numbered only
  to index the answers of the world, so the files are run here one after another in the order the engine
  starts them; likewise a posted operation ends between two passes. The trace lists every event with the
  file it belongs to as the file then is, and what is on disk after a crash is what a prefix of the trace has
  written. Each side runs on a log of its own, in a world whose answers start where the trace has got to.
  \<open>JSON.stringify(f) !== before\<close> is inequality of the files.
\<close>

section \<open>Files and the engine\<close>

record swap_file =
  sf_matchId :: string
  sf_network :: string
  sf_terms :: swap_terms
  sf_sides :: "side list"

type_synonym dir = "(string, swap_file) jsmap"
type_synonym trace = "(swap_file \<times> swap_event) list"

record engine_st =
  es_files :: dir
  es_live :: "(string, live) jsmap"
  es_posts :: "(string, post) jsmap"
  es_wallets :: "(string, wallet) jsmap"
  es_trace :: trace

record host =
  hs_height :: "int option"
  hs_view :: view
  hs_channel :: string

definition put_side :: "side \<Rightarrow> swap_file \<Rightarrow> swap_file" where
  "put_side s f = f\<lparr>sf_sides := map (\<lambda>x. if s_role x = s_role s then s else x) (sf_sides f)\<rparr>"

text \<open>What an event does to the directory: \<open>save(file)\<close> writes the whole file.\<close>

fun dir_write :: "swap_file \<times> swap_event \<Rightarrow> dir \<Rightarrow> dir" where
  "dir_write (f, Saved s) d = map_set (sf_matchId f) (put_side s f) d"
| "dir_write (f, SavedFile _) d = map_set (sf_matchId f) f d"
| "dir_write (f, DroppedFile _) d = map_del (sf_matchId f) d"
| "dir_write _ d = d"

definition dir_after :: "dir \<Rightarrow> trace \<Rightarrow> dir" where
  "dir_after d tr = fold dir_write tr d"

section \<open>Loading\<close>

definition is_swap_name :: "string \<Rightarrow> bool" where
  "is_swap_name name \<longleftrightarrow> length name = 69 \<and> list_all is_hex_lower (take 64 name) \<and> drop 64 name = ''.json''"

text \<open>\<open>parse\<close> reads a file's text: its version and itself, or \<open>None\<close> where \<open>JSON.parse\<close> throws or gives no object.\<close>

definition load_file :: "(string \<Rightarrow> (int \<times> swap_file) option) \<Rightarrow> string \<times> string \<Rightarrow> dir \<Rightarrow> dir" where
  "load_file parse x files = (case x of (name, content) \<Rightarrow>
     if \<not> is_swap_name name then files
     else case parse content of None \<Rightarrow> files
       | Some (v, f) \<Rightarrow> if v = 1 \<and> sf_matchId f = take 64 name then map_set (sf_matchId f) f files else files)"

definition load :: "(string \<Rightarrow> (int \<times> swap_file) option) \<Rightarrow> (string \<times> string) list \<Rightarrow> dir" where
  "load parse names = fold (load_file parse) names []"

definition newEngine :: "dir \<Rightarrow> engine_st" where
  "newEngine files = \<lparr>es_files = files, es_live = [], es_posts = [], es_wallets = [], es_trace = []\<rparr>"

section \<open>Adopting\<close>

definition seed_of :: "engine \<Rightarrow> string \<Rightarrow> bytes option" where
  "seed_of E k = map_of (rev (en_identities E)) k"

definition has_role :: "swap_role \<Rightarrow> swap_file \<Rightarrow> bool" where
  "has_role r f = list_ex (\<lambda>s. s_role s = r) (sf_sides f)"

definition new_side :: "swap_role \<Rightarrow> string \<Rightarrow> side" where
  "new_side r i = \<lparr>s_role = r, s_identity = i, s_stage = Proofs, s_note = None, s_theirProof = None, s_lockIntentAt = None,
     s_myLock = None, s_theirLock = None, s_claim = None, s_refund = None, s_abort = None, s_lockPosted = False\<rparr>"

definition local_roles :: "engine \<Rightarrow> match \<Rightarrow> (swap_role \<times> string) list" where
  "local_roles E m = (if seed_of E (m_taker m) \<noteq> None then [(Taker, m_taker m)] else [])
     @ (if seed_of E (m_maker m) \<noteq> None then [(Maker, m_maker m)] else [])"

definition add_role :: "swap_role \<times> string \<Rightarrow> swap_file \<Rightarrow> swap_file" where
  "add_role x f = (if has_role (fst x) f then f else f\<lparr>sf_sides := sf_sides f @ [new_side (fst x) (snd x)]\<rparr>)"

definition adopt_match :: "engine \<Rightarrow> host \<Rightarrow> match \<Rightarrow> dir \<times> string list \<Rightarrow> dir \<times> string list" where
  "adopt_match E H m x = (case x of (files, fresh) \<Rightarrow>
     let roles = local_roles E m in
     if roles = [] then (files, fresh)
     else let known = map_of files (m_id m);
              f = (case known of Some f \<Rightarrow> f
                   | None \<Rightarrow> \<lparr>sf_matchId = m_id m, sf_network = hs_channel H, sf_terms = termsOf m, sf_sides = []\<rparr>)
          in (map_set (m_id m) (fold add_role roles f) files, if known = None then fresh @ [m_id m] else fresh))"

definition adopt_matches :: "engine \<Rightarrow> host \<Rightarrow> dir \<Rightarrow> dir \<times> string list" where
  "adopt_matches E H files = fold (adopt_match E H) (vals (matches (hs_view H))) (files, [])"

section \<open>Stepping\<close>

definition obs_key :: "string \<Rightarrow> swap_role \<Rightarrow> string" where
  "obs_key matchId r = matchId @ CHR '':'' # role_text r"

definition run_of :: "engine_st \<Rightarrow> side \<Rightarrow> run" where
  "run_of es s = \<lparr>r_side = s, r_live = no_live, r_posts = es_posts es, r_wallets = es_wallets es, r_log = []\<rparr>"

definition world_from :: "nat \<Rightarrow> engine \<Rightarrow> engine" where
  "world_from n E = (let W = en_world E in E\<lparr>en_world := \<lparr>w_txs = \<lambda>k. w_txs W (n + k), w_tip = \<lambda>k. w_tip W (n + k),
     w_tx = \<lambda>k. w_tx W (n + k), w_utxos = \<lambda>k. w_utxos W (n + k), w_send = \<lambda>k. w_send W (n + k), w_now = \<lambda>k. w_now W (n + k)\<rparr>\<rparr>)"

text \<open>The engine after a program has run on one side of \<open>f\<close>.\<close>

definition after_run :: "swap_file \<Rightarrow> run \<Rightarrow> engine_st \<Rightarrow> engine_st" where
  "after_run f r es = es\<lparr>es_posts := r_posts r, es_wallets := r_wallets r, es_trace := es_trace es @ map (Pair f) (r_log r)\<rparr>"

definition ctx_of :: "swap_file \<Rightarrow> match option \<Rightarrow> int option \<Rightarrow> bytes \<Rightarrow> ctx" where
  "ctx_of f m h seed = \<lparr>c_matchId = sf_matchId f, c_t = sf_terms f, c_m = m, c_h = h, c_seed = seed, c_hash = fromHex (t_hash (sf_terms f))\<rparr>"

text \<open>A throw of the step becomes the side's note.\<close>

definition caught :: "run \<times> unit outcome \<Rightarrow> side" where
  "caught x = (case snd x of Threw e \<Rightarrow> (r_side (fst x))\<lparr>s_note := Some (NFault e)\<rparr> | _ \<Rightarrow> r_side (fst x))"

definition pass_side :: "engine \<Rightarrow> match option \<Rightarrow> int option \<Rightarrow> swap_file \<Rightarrow> side \<Rightarrow> engine_st \<Rightarrow> side \<times> engine_st" where
  "pass_side E m h f s es = (case seed_of E (s_identity s) of
     None \<Rightarrow> (s\<lparr>s_note := Some NNoIdentity\<rparr>, es)
   | Some seed \<Rightarrow> let x = step (world_from (length (es_trace es)) E) (ctx_of f m h seed) (run_of es s) in
       (caught x, after_run f (fst x)
          (es\<lparr>es_live := map_set (obs_key (sf_matchId f) (s_role (caught x))) (r_live (fst x)) (es_live es)\<rparr>)))"

fun pass_sides :: "engine \<Rightarrow> match option \<Rightarrow> int option \<Rightarrow> swap_file \<Rightarrow> side list \<Rightarrow> side list \<Rightarrow> engine_st \<Rightarrow> side list \<times> engine_st" where
  "pass_sides E m h f pre [] es = (pre, es)"
| "pass_sides E m h f pre (s # rest) es = (case pass_side E m h (f\<lparr>sf_sides := pre @ s # rest\<rparr>) s es of
     (s', es') \<Rightarrow> pass_sides E m h f (pre @ [s']) rest es')"

definition record_event :: "swap_file \<Rightarrow> swap_event \<Rightarrow> engine_st \<Rightarrow> engine_st" where
  "record_event f ev es = es\<lparr>es_trace := es_trace es @ [(f, ev)]\<rparr>"

definition save_file :: "swap_file \<Rightarrow> engine_st \<Rightarrow> engine_st" where
  "save_file f = record_event f (SavedFile (sf_matchId f))"

definition drop_file :: "swap_file \<Rightarrow> engine_st \<Rightarrow> engine_st" where
  "drop_file f es = record_event f (DroppedFile (sf_matchId f)) (es\<lparr>es_files := map_del (sf_matchId f) (es_files es),
     es_live := fold (\<lambda>s. map_del (obs_key (sf_matchId f) (s_role s))) (sf_sides f) (es_live es)\<rparr>)"

definition learn_makerKey :: "match option \<Rightarrow> swap_terms \<Rightarrow> swap_terms" where
  "learn_makerKey m t = (case Option.bind m m_makerKey of
     Some k \<Rightarrow> if k \<noteq> [] \<and> (t_makerKey t = None \<or> t_makerKey t = Some []) then t\<lparr>t_makerKey := Some k\<rparr> else t
   | None \<Rightarrow> t)"

definition may_drop :: "int option \<Rightarrow> swap_file \<Rightarrow> bool" where
  "may_drop h f \<longleftrightarrow> (case h of None \<Rightarrow> False | Some n \<Rightarrow> n \<ge> t_pruneAt (sf_terms f) \<and> list_all (\<lambda>s. s_stage s \<in> set TERMINAL) (sf_sides f))"

definition pass_file :: "engine \<Rightarrow> host \<Rightarrow> string list \<Rightarrow> swap_file \<Rightarrow> engine_st \<Rightarrow> engine_st" where
  "pass_file E H fresh f es =
     (let onBoard = (sf_network f = hs_channel H);
          m = (if onBoard then map_of (matches (hs_view H)) (sf_matchId f) else None);
          h = (if onBoard then hs_height H else None);
          f1 = f\<lparr>sf_terms := learn_makerKey m (sf_terms f)\<rparr>
      in case pass_sides E m h f1 [] (sf_sides f1) es of (sides, es) \<Rightarrow>
        let f2 = f1\<lparr>sf_sides := sides\<rparr>;
            es = es\<lparr>es_files := map_set (sf_matchId f) f2 (es_files es)\<rparr>;
            es = (if sf_matchId f \<in> set fresh \<or> f2 \<noteq> f then save_file f2 es else es)
        in if may_drop h f2 then drop_file f2 es else es)"

definition pass :: "engine \<Rightarrow> host \<Rightarrow> engine_st \<Rightarrow> engine_st" where
  "pass E H es = (case adopt_matches E H (es_files es) of (files, fresh) \<Rightarrow>
     fold (pass_file E H fresh) (vals files) (es\<lparr>es_files := files\<rparr>))"

text \<open>The end of a posted operation, on the side it was posted for.\<close>

definition find_side :: "swap_role \<Rightarrow> swap_file \<Rightarrow> side option" where
  "find_side r f = List.find (\<lambda>s. s_role s = r) (sf_sides f)"

definition finish_post :: "engine \<Rightarrow> (op \<Rightarrow> fault option) \<Rightarrow> ctx \<Rightarrow> swap_role \<Rightarrow> string \<Rightarrow> post_job \<Rightarrow> engine_st \<Rightarrow> engine_st" where
  "finish_post E submitOp c r what j es = (case map_of (es_files es) (c_matchId c) of None \<Rightarrow> es
     | Some f \<Rightarrow> (case find_side r f of None \<Rightarrow> es
       | Some s \<Rightarrow> let r = fst (complete_post (world_from (length (es_trace es)) E) submitOp c what j (run_of es s)) in
           after_run f r (es\<lparr>es_files := map_set (c_matchId c) (put_side (r_side r) f) (es_files es)\<rparr>)))"

text \<open>What can happen to an engine: a pass, or the end of a posted operation.\<close>

datatype move = PassMove host | PostMove "op \<Rightarrow> fault option" ctx swap_role string post_job

fun apply_move :: "engine \<Rightarrow> move \<Rightarrow> engine_st \<Rightarrow> engine_st" where
  "apply_move E (PassMove H) es = pass E H es"
| "apply_move E (PostMove submitOp c r what j) es = finish_post E submitOp c r what j es"

section \<open>The answer to the API\<close>

record swap_info =
  in_matchId :: string
  in_offerId :: string
  in_identity :: string
  in_role :: swap_role
  in_stage :: stage
  in_myChain :: chain
  in_myAmount :: string
  in_theirChain :: chain
  in_theirAmount :: string
  in_myLock :: "lock_info option"
  in_theirLock :: "lock_info option"
  in_claimTxid :: "string option"
  in_refundTxid :: "string option"
  in_refundIn :: "int option option"
  in_deadline :: "deadline option"
  in_note :: "side_note option"

definition shown_lock :: "lock_info option \<Rightarrow> outpoint option \<Rightarrow> lock_info option" where
  "shown_lock live stored = (case live of Some l \<Rightarrow> Some l | None \<Rightarrow> map_option (\<lambda>p. \<lparr>li_point = p, li_confs = Some 0\<rparr>) stored)"

definition info_of :: "swap_file \<Rightarrow> side \<Rightarrow> live \<Rightarrow> swap_info" where
  "info_of f s l = (let t = sf_terms f; taker = (s_role s = Taker); over = s_stage s \<in> set TERMINAL in
     \<lparr>in_matchId = sf_matchId f, in_offerId = t_offerId t, in_identity = s_identity s, in_role = s_role s, in_stage = s_stage s,
      in_myChain = (if taker then t_takerChain t else t_makerChain t), in_myAmount = (if taker then t_takerAmount t else t_makerAmount t),
      in_theirChain = (if taker then t_makerChain t else t_takerChain t), in_theirAmount = (if taker then t_makerAmount t else t_takerAmount t),
      in_myLock = shown_lock (lv_myLock l) (s_myLock s), in_theirLock = shown_lock (lv_theirLock l) (s_theirLock s),
      in_claimTxid = map_option st_txid (s_claim s), in_refundTxid = map_option st_txid (s_refund s),
      in_refundIn = (if over then None else lv_refundIn l), in_deadline = (if over then None else lv_deadline l), in_note = s_note s\<rparr>)"

text \<open>What \<open>swaps()\<close> lists, before it sorts by \<open>takenAt\<close>.\<close>

definition swap_infos :: "engine_st \<Rightarrow> (int \<times> swap_info) list" where
  "swap_infos es = concat (map (\<lambda>f. map (\<lambda>s. (t_takenAt (sf_terms f), info_of f s
     (or_else (map_of (es_live es) (obs_key (sf_matchId f) (s_role s))) no_live))) (sf_sides f)) (vals (es_files es)))"

end
