(* ===== verification/Recovery.thy ===== *)
theory Recovery
  imports Pass
begin

text \<open>
  What a pass of the engine keeps: files stay well formed, nothing is sent that a crash would forget, and a
  file is dropped only when it is over. A step keeps the side's role and identity, which is proved along its
  text as the effects of the previous theories are.
\<close>

section \<open>A step keeps its party\<close>

fun own_event :: "swap_role \<Rightarrow> string \<Rightarrow> swap_event \<Rightarrow> bool" where
  "own_event R i (Saved s) \<longleftrightarrow> s_role s = R \<and> s_identity s = i"
| "own_event R i (SavedFile _) \<longleftrightarrow> False"
| "own_event R i (DroppedFile _) \<longleftrightarrow> False"
| "own_event R i _ \<longleftrightarrow> True"

definition is_party :: "swap_role \<Rightarrow> string \<Rightarrow> run \<Rightarrow> bool" where
  "is_party R i r \<longleftrightarrow> s_role (r_side r) = R \<and> s_identity (r_side r) = i"

definition party :: "swap_role \<Rightarrow> string \<Rightarrow> run \<Rightarrow> run \<Rightarrow> bool" where
  "party R i r s \<longleftrightarrow> (is_party R i r \<longrightarrow> is_party R i s \<and> extends (own_event R i) r s)"

interpretation pt: effect "party R i" "party R i" "\<lambda>_. True" for R i
  by unfold_locales (auto simp: party_def extends_refl intro: extends_trans)

named_theorems party_rules \<open>programs that keep the party of a side\<close>

lemma party_upd_side [party_rules]:
  "(\<And>s. s_role (f s) = s_role s \<and> s_identity (f s) = s_identity s) \<Longrightarrow> keeps (party R i) (upd_side f)"
  by (simp add: keeps_def upd_side_def party_def is_party_def extends_def)

lemma party_basic [party_rules]:
  "keeps (party R i) (upd_live g)" "keeps (party R i) (upd_posts h)" "keeps (party R i) (upd_wallets w)"
  "own_event R i ev \<Longrightarrow> keeps (party R i) (emit ev)" "own_event R i ev \<Longrightarrow> keeps (party R i) (ask ev ans)"
  "keeps (party R i) save"
  by (auto simp: keeps_def upd_live_def upd_posts_def upd_wallets_def save_def bnd_def getr_def emit_def ask_def
      party_def is_party_def extends_def split: sum.splits)

lemma party_wallet [party_rules]:
  "keeps (party R i) (wallet_for E j ch)" "keeps (party R i) (my_address E ch)" "keeps (party R i) (fundHtlc E k a)"
  unfolding my_address_def wallet_for_def fundHtlc_def payNow_def signAndBroadcast_def wallet_utxos_def set_wallet_def Let_def
  by (intro pt.calm_rules party_rules; simp)+

lemma party_steps [party_rules]:
  "keeps (party R i) (set_stage st)" "keeps (party R i) (set_note n)" "keeps (party R i) (finish st n)"
  "keeps (party R i) (refund_pending n)" "keeps (party R i) (scan_chain E ch p)" "keeps (party R i) (amount_of t)"
  "keeps (party R i) (broadcast_hex E ch hex)" "keeps (party R i) (adopt_existing mine k)"
  "keeps (party R i) (show_my_lock q n')" "keeps (party R i) (show_their_lock sn x)" "keeps (party R i) (show_refund_in y b m)"
  unfolding set_stage_def set_note_def finish_def refund_pending_def scan_chain_def amount_of_def broadcast_hex_def
    adopt_existing_def adoptLock_def show_my_lock_def show_their_lock_def show_refund_in_def Let_def
  by (intro pt.calm_rules party_rules; simp)+

lemma party_spends [party_rules]:
  "keeps (party R i) (maybeRefund E ch p x tip key)" "keeps (party R i) (do_claim E ch p y secret key)"
  "keeps (party R i) (lock_htlc E ch address amount)" "keeps (party R i) (verifyProof E c q ch amount)"
  unfolding maybeRefund_def do_claim_def lock_htlc_def lock_fund_def verifyProof_def Let_def
  by (intro pt.calm_rules party_rules; simp)+

lemma party_post [party_rules]: "keeps (party R i) (postOp c what j)" "keeps (party R i) (abort_swap c why)"
  "keeps (party R i) (post_locked c)" "keeps (party R i) (postProof E c ch n k)"
  unfolding abort_swap_def post_locked_def postProof_def postOp_def Let_def by (intro pt.calm_rules party_rules; simp)+

lemma party_taker [party_rules]: "keeps (party R i) (stepTaker E c)"
  unfolding stepTaker_def taker_proofs_def taker_no_maker_def taker_lock_def taker_locked_def taker_claim_def taker_stage_def Let_def
  by (intro pt.calm_rules party_rules keeps_check) simp_all

lemma party_maker_wait [party_rules]: "keeps (party R i) (maker_wait E c mine p n m)"
  unfolding maker_wait_def maker_rescan_def maker_no_lock_seen_def maker_lock_seen_def Let_def
  by (intro pt.calm_rules party_rules keeps_check) simp_all

lemma party_maker [party_rules]: "keeps (party R i) (stepMaker E c)"
  unfolding stepMaker_def maker_proofs_def maker_locked_def maker_secret_def maker_stage_def Let_def
  by (intro pt.calm_rules party_rules keeps_check) simp_all

lemma party_step: "keeps (party R i) (step E c)"
proof -
  have "keeps (party R i) (case s_role (r_side r) of Taker \<Rightarrow> stepTaker E c | Maker \<Rightarrow> stepMaker E c)" for r
    by (cases "s_role (r_side r)") (simp_all add: party_rules)
  then show ?thesis unfolding step_def by (intro pt.calm_andthen pt.calm_if pt.calm_bnd pt.calm_getr pt.calm_ret party_rules)
qed

section \<open>Files stay well formed\<close>

definition roles :: "swap_file \<Rightarrow> swap_role list" where
  "roles f = map s_role (sf_sides f)"

definition files_ok :: "dir \<Rightarrow> bool" where
  "files_ok d \<longleftrightarrow> distinct (keys d) \<and> (\<forall>(k, f) \<in> set d. sf_matchId f = k \<and> distinct (roles f))"

lemma files_okD: "files_ok d \<Longrightarrow> map_of d k = Some f \<Longrightarrow> sf_matchId f = k \<and> distinct (roles f)"
  by (auto simp: files_ok_def dest!: map_of_SomeD)

lemma files_ok_set: "files_ok d \<Longrightarrow> sf_matchId f = k \<Longrightarrow> distinct (roles f) \<Longrightarrow> files_ok (map_set k f d)"
proof -
  assume a: "files_ok d" "sf_matchId f = k" "distinct (roles f)"
  have "set (map_set k f d) \<subseteq> insert (k, f) (set d)" by (induction d) auto
  with a show ?thesis by (auto simp: files_ok_def distinct_update)
qed

lemma files_ok_del: "files_ok d \<Longrightarrow> files_ok (map_del k d)"
  by (auto simp: files_ok_def map_del_filter distinct_keys_filter)

lemma put_side_id [simp]: "sf_matchId (put_side s f) = sf_matchId f"
  by (simp add: put_side_def)

lemma roles_put: "roles (put_side s f) = roles f"
  by (induction "sf_sides f" arbitrary: f) (auto simp: roles_def put_side_def comp_def)

lemma add_role_ok: "distinct (roles f) \<Longrightarrow> distinct (roles (add_role x f)) \<and> sf_matchId (add_role x f) = sf_matchId f
    \<and> set (roles f) \<subseteq> set (roles (add_role x f))"
  by (auto simp: add_role_def has_role_def roles_def new_side_def list_ex_iff image_iff)

lemma add_roles_ok: "distinct (roles f) \<Longrightarrow> distinct (roles (fold add_role xs f)) \<and> sf_matchId (fold add_role xs f) = sf_matchId f
    \<and> set (roles f) \<subseteq> set (roles (fold add_role xs f))"
proof (induction xs arbitrary: f)
  case (Cons x xs)
  from add_role_ok[OF Cons.prems, of x] Cons.IH[of "add_role x f"] show ?case by auto
qed simp

lemma adopt_match_ok: "files_ok files \<Longrightarrow> files_ok (fst (adopt_match E H m (files, fresh)))"
  unfolding adopt_match_def Let_def
  by (auto intro!: files_ok_set simp: add_roles_ok files_okD roles_def[of "\<lparr>sf_matchId = _, sf_network = _, sf_terms = _, sf_sides = []\<rparr>"]
      split: option.splits dest: files_okD)

lemma adopt_ok: "files_ok files \<Longrightarrow> files_ok (fst (adopt_matches E H files))"
proof -
  have "files_ok (fst x) \<Longrightarrow> files_ok (fst (fold (adopt_match E H) ms x))" for ms x
  proof (induction ms arbitrary: x)
    case (Cons m ms)
    then show ?case using adopt_match_ok[of "fst x" E H m "snd x"] by simp
  qed simp
  then show "files_ok files \<Longrightarrow> files_ok (fst (adopt_matches E H files))" by (simp add: adopt_matches_def)
qed

text \<open>A program that keeps the party, on one side.\<close>

lemma caught_party: "keeps (party (s_role s) (s_identity s)) m \<Longrightarrow>
   s_role (caught (m (run_of es s))) = s_role s \<and> s_identity (caught (m (run_of es s))) = s_identity s
   \<and> (\<forall>ev \<in> set (r_log (fst (m (run_of es s)))). own_event (s_role s) (s_identity s) ev)"
  using keepsD[of "party (s_role s) (s_identity s)" m "run_of es s"]
  by (auto simp: party_def is_party_def run_of_def caught_def extends_def split: outcome.splits)

lemma pass_side_party:
  assumes "pass_side E m h f s es = (s', es')"
  shows "s_role s' = s_role s \<and> s_identity s' = s_identity s \<and> es_files es' = es_files es"
  using assms caught_party[OF party_step, where s = s and es = es]
  by (auto simp: pass_side_def Let_def after_run_def split: option.splits)

lemma pass_sides_party:
  "pass_sides E m h f pre ss es = (ss', es') \<Longrightarrow> map s_role ss' = map s_role pre @ map s_role ss \<and> es_files es' = es_files es"
proof (induction ss arbitrary: pre es)
  case (Cons s ss)
  obtain s1 es1 where p: "pass_side E m h (f\<lparr>sf_sides := pre @ s # ss\<rparr>) s es = (s1, es1)" by fastforce
  with Cons.prems have "pass_sides E m h f (pre @ [s1]) ss es1 = (ss', es')" by simp
  from Cons.IH[OF this] pass_side_party[OF p] show ?case by simp
qed simp

lemma pass_file_ok:
  assumes "files_ok (es_files es)" and "distinct (roles f)"
  shows "files_ok (es_files (pass_file E H fresh f es))"
proof -
  define m where "m = (if sf_network f = hs_channel H then map_of (matches (hs_view H)) (sf_matchId f) else None)"
  define h where "h = (if sf_network f = hs_channel H then hs_height H else None)"
  let ?f1 = "f\<lparr>sf_terms := learn_makerKey m (sf_terms f)\<rparr>"
  obtain ss es1 where p: "pass_sides E m h ?f1 [] (sf_sides ?f1) es = (ss, es1)" by fastforce
  let ?f2 = "?f1\<lparr>sf_sides := ss\<rparr>"
  have "roles ?f2 = roles f" "es_files es1 = es_files es" using pass_sides_party[OF p] by (simp_all add: roles_def)
  with assms have "files_ok (map_set (sf_matchId f) ?f2 (es_files es1))" by (auto intro: files_ok_set)
  then show ?thesis
    using p unfolding pass_file_def m_def[symmetric] h_def[symmetric] Let_def
    by (auto simp: save_file_def drop_file_def record_event_def files_ok_del split: if_splits)
qed

lemma pass_files_ok:
  "files_ok (es_files es) \<Longrightarrow> \<forall>f \<in> set fs. distinct (roles f) \<Longrightarrow> files_ok (es_files (fold (pass_file E H fresh) fs es))"
proof (induction fs arbitrary: es)
  case (Cons f fs)
  then show ?case using pass_file_ok[of es f E H fresh] by simp
qed simp

lemma files_ok_vals: "files_ok d \<Longrightarrow> f \<in> set (vals d) \<Longrightarrow> distinct (roles f)"
  by (auto simp: files_ok_def)

lemma pass_ok:
  assumes "files_ok (es_files es)"
  shows "files_ok (es_files (pass E H es))"
proof -
  obtain files fresh where a: "adopt_matches E H (es_files es) = (files, fresh)" by fastforce
  have ok: "files_ok files" using adopt_ok[OF assms, of E H] a by simp
  then have "\<forall>f \<in> set (vals files). distinct (roles f)" using files_ok_vals by blast
  with ok have "files_ok (es_files (fold (pass_file E H fresh) (vals files) (es\<lparr>es_files := files\<rparr>)))"
    by (intro pass_files_ok) auto
  then show ?thesis by (simp add: pass_def a)
qed

lemma finish_post_ok:
  assumes "files_ok (es_files es)"
  shows "files_ok (es_files (finish_post E submitOp c r what j es))"
  using assms unfolding finish_post_def Let_def
  by (auto simp: after_run_def roles_put dest: files_okD intro!: files_ok_set split: option.splits)

lemma moves_ok: "files_ok (es_files es) \<Longrightarrow> files_ok (es_files (fold (apply_move E) ms es))"
proof (induction ms arbitrary: es)
  case (Cons mv ms)
  have "files_ok (es_files (apply_move E mv es))"
    using Cons.prems by (cases mv) (simp_all add: pass_ok finish_post_ok)
  with Cons.IH show ?case by simp
qed simp

section \<open>What is on disk\<close>

definition disk_side :: "dir \<Rightarrow> string \<Rightarrow> swap_role \<Rightarrow> side option" where
  "disk_side d k R = Option.bind (map_of d k) (find_side R)"

definition kept_tx :: "dir \<Rightarrow> string \<Rightarrow> side \<Rightarrow> bool" where
  "kept_tx d k s \<longleftrightarrow> (let x = disk_side d k (s_role s) in
     s_claim s = Option.bind x s_claim \<and> s_refund s = Option.bind x s_refund)"

text \<open>The directory \<open>d\<close> is in step with the sides held of one match, and with all of them.\<close>

definition in_step :: "dir \<Rightarrow> string \<Rightarrow> side list \<Rightarrow> bool" where
  "in_step d k ss \<longleftrightarrow> (\<forall>s \<in> set ss. kept_tx d k s)
     \<and> (case map_of d k of None \<Rightarrow> True | Some g \<Rightarrow> set (roles g) \<subseteq> set (map s_role ss))"

definition all_in_step :: "dir \<Rightarrow> dir \<Rightarrow> bool" where
  "all_in_step d files \<longleftrightarrow> (\<forall>k. case map_of files k of None \<Rightarrow> map_of d k = None | Some f \<Rightarrow> in_step d k (sf_sides f))"

fun sends_safe :: "dir \<Rightarrow> trace \<Rightarrow> bool" where
  "sends_safe d [] \<longleftrightarrow> True"
| "sends_safe d ((f, ev) # tr) \<longleftrightarrow> (\<not> is_sent ev \<or> (\<exists>R x. disk_side d (sf_matchId f) R = Some x \<and> knows x ev))
     \<and> sends_safe (dir_write (f, ev) d) tr"

lemma dir_after_append: "dir_after d (a @ b) = dir_after (dir_after d a) b"
  by (simp add: dir_after_def)

lemma sends_safe_append: "sends_safe d (a @ b) \<longleftrightarrow> sends_safe d a \<and> sends_safe (dir_after d a) b"
proof (induction a arbitrary: d)
  case (Cons x a)
  then show ?case by (cases x) (simp add: dir_after_def)
qed (simp add: dir_after_def)

lemma sends_safe_at:
  "sends_safe d (a @ (f, Sent ch hex) # b) \<Longrightarrow> \<exists>R x. disk_side (dir_after d a) (sf_matchId f) R = Some x \<and> knows x (Sent ch hex)"
  by (simp add: sends_safe_append)

lemma find_put:
  "List.find (\<lambda>x. s_role x = R) (map (\<lambda>x. if s_role x = s_role s then s else x) l)
    = (if R = s_role s \<and> s_role s \<in> set (map s_role l) then Some s else List.find (\<lambda>x. s_role x = R) l)"
  by (induction l) auto

lemma find_side_put: "s_role s \<in> set (roles f) \<Longrightarrow> find_side R (put_side s f) = (if R = s_role s then Some s else find_side R f)"
  by (simp add: find_side_def put_side_def find_put roles_def)

lemma find_of: "s \<in> set l \<Longrightarrow> distinct (map s_role l) \<Longrightarrow> List.find (\<lambda>x. s_role x = s_role s) l = Some s"
  by (induction l) (auto simp: image_iff)

lemma find_side_of: "s \<in> set (sf_sides f) \<Longrightarrow> distinct (roles f) \<Longrightarrow> find_side (s_role s) f = Some s"
  unfolding find_side_def roles_def by (rule find_of)

lemma find_side_role: "find_side R f = Some s \<Longrightarrow> s_role s = R \<and> s \<in> set (sf_sides f)"
  by (auto simp: find_side_def find_Some_iff)

section \<open>One side's run and the disk\<close>

text \<open>\<open>d\<close> is the disk's copy of the side with role \<open>R\<close>, or knows of nothing where the disk has none.\<close>

definition copy_of :: "dir \<Rightarrow> string \<Rightarrow> swap_role \<Rightarrow> side \<Rightarrow> bool" where
  "copy_of D k R d \<longleftrightarrow> (case disk_side D k R of Some x \<Rightarrow> x = d
     | None \<Rightarrow> s_claim d = None \<and> s_refund d = None \<and> s_lockIntentAt d = None)"

lemma disk_side_set: "disk_side (map_set k f D) k R = find_side R f"
  by (simp add: disk_side_def map_of_set)

lemma disk_side_other: "map_of D' k = map_of D k \<Longrightarrow> disk_side D' k R = disk_side D k R \<and> kept_tx D' k s = kept_tx D k s"
  by (simp add: disk_side_def kept_tx_def)

lemma write_own:
  assumes f: "distinct (roles f)" "R \<in> set (roles f)" and ev: "own_event R i ev" and c: "copy_of D (sf_matchId f) R d"
  defines "D' \<equiv> dir_write (f, ev) D"
  shows "copy_of D' (sf_matchId f) R (disk_after d ev) \<and> (\<forall>k. k \<noteq> sf_matchId f \<longrightarrow> map_of D' k = map_of D k)
    \<and> (\<forall>x \<in> set (sf_sides f). s_role x \<noteq> R \<longrightarrow> kept_tx D (sf_matchId f) x \<longrightarrow> kept_tx D' (sf_matchId f) x)
    \<and> (case map_of D' (sf_matchId f) of None \<Rightarrow> map_of D (sf_matchId f) = None
       | Some g \<Rightarrow> set (roles g) \<subseteq> set (roles f) \<or> map_of D (sf_matchId f) = Some g)"
proof (cases "\<exists>s. ev = Saved s")
  case True
  then obtain s where s: "ev = Saved s" "s_role s = R" using ev by auto
  have fs: "find_side R' (put_side s f) = (if R' = R then Some s else find_side R' f)" for R'
    using find_side_put[of s f R'] f(2) s(2) by simp
  show ?thesis
    using f(1) s find_side_of[of _ f]
    by (auto simp: D'_def copy_of_def disk_side_set fs map_of_set kept_tx_def roles_put)
next
  case False
  then have "D' = D" "disk_after d ev = d" using ev by (cases ev; simp add: D'_def)+
  with c show ?thesis by (auto split: option.splits)
qed

lemma writes_own:
  assumes f: "distinct (roles f)" "R \<in> set (roles f)"
  shows "\<forall>ev \<in> set evs. own_event R i ev \<Longrightarrow> copy_of D (sf_matchId f) R d \<Longrightarrow> sends_known d evs \<Longrightarrow>
    (case map_of D (sf_matchId f) of None \<Rightarrow> True | Some g \<Rightarrow> set (roles g) \<subseteq> set (roles f)) \<Longrightarrow>
    sends_safe D (map (Pair f) evs) \<and> copy_of (dir_after D (map (Pair f) evs)) (sf_matchId f) R (disk d evs)
    \<and> (\<forall>k. k \<noteq> sf_matchId f \<longrightarrow> map_of (dir_after D (map (Pair f) evs)) k = map_of D k)
    \<and> (\<forall>x \<in> set (sf_sides f). s_role x \<noteq> R \<longrightarrow> kept_tx D (sf_matchId f) x \<longrightarrow>
         kept_tx (dir_after D (map (Pair f) evs)) (sf_matchId f) x)
    \<and> (case map_of (dir_after D (map (Pair f) evs)) (sf_matchId f) of None \<Rightarrow> True | Some g \<Rightarrow> set (roles g) \<subseteq> set (roles f))"
proof (induction evs arbitrary: D d)
  case Nil
  then show ?case by (simp add: dir_after_def)
next
  case (Cons ev evs)
  let ?D = "dir_write (f, ev) D"
  have ev: "own_event R i ev" using Cons.prems(1) by simp
  note w = write_own[OF f ev Cons.prems(2)]
  have safe: "\<not> is_sent ev \<or> (\<exists>R x. disk_side D (sf_matchId f) R = Some x \<and> knows x ev)"
  proof (cases ev)
    case (Sent ch hex)
    then have "knows d ev" using Cons.prems(3) by simp
    moreover have "disk_side D (sf_matchId f) R = Some d"
      using Cons.prems(2) \<open>knows d ev\<close> unfolding Sent by (auto simp: copy_of_def split: option.splits)
    ultimately show ?thesis by blast
  qed simp_all
  have "\<forall>ev \<in> set evs. own_event R i ev" "sends_known (disk_after d ev) evs" using Cons.prems(1,3) by simp_all
  moreover have "case map_of ?D (sf_matchId f) of None \<Rightarrow> True | Some g \<Rightarrow> set (roles g) \<subseteq> set (roles f)"
    using w Cons.prems(4) by (auto split: option.splits)
  moreover have a: "dir_after D (map (Pair f) (ev # evs)) = dir_after ?D (map (Pair f) evs)" by (simp add: dir_after_def)
  ultimately show ?case
    using Cons.IH[of ?D "disk_after d ev"] w safe unfolding a by simp
qed

lemma run_in_step:
  fixes m :: "unit prog"
  assumes m: "\<And>d. keeps (persists d) m" "keeps (party (s_role s) (s_identity s)) m"
    and f: "sf_sides f = pre @ s # rest" "distinct (roles f)"
    and D: "in_step D (sf_matchId f) (sf_sides f)"
    and s': "s_role s' = s_role s" "s_claim s' = s_claim (r_side (fst (m (run_of es s))))" "s_refund s' = s_refund (r_side (fst (m (run_of es s))))"
  defines "tr \<equiv> map (Pair f) (r_log (fst (m (run_of es s))))"
  shows "in_step (dir_after D tr) (sf_matchId f) (pre @ s' # rest) \<and> sends_safe D tr
    \<and> (\<forall>k. k \<noteq> sf_matchId f \<longrightarrow> map_of (dir_after D tr) k = map_of D k)"
proof -
  let ?R = "s_role s" and ?k = "sf_matchId f" and ?r = "fst (m (run_of es s))"
  define d where "d = (case disk_side D ?k ?R of Some x \<Rightarrow> x | None \<Rightarrow> s\<lparr>s_lockIntentAt := None\<rparr>)"
  have ks: "kept_tx D ?k s" using D f(1) by (simp add: in_step_def)
  then have c: "copy_of D ?k ?R d" by (auto simp: copy_of_def d_def kept_tx_def split: option.splits)
  have "in_sync d (run_of es s)" using ks by (auto simp: in_sync_def run_of_def d_def kept_tx_def split: option.splits)
  with keepsD[OF m(1)[of d], of "run_of es s"] have sy: "in_sync d ?r" "sends_known d (r_log ?r)"
    by (auto simp: persists_def run_of_def)
  have own: "\<forall>ev \<in> set (r_log ?r). own_event ?R (s_identity s) ev" using caught_party[OF m(2), of es] by simp
  have R: "?R \<in> set (roles f)" using f(1) by (simp add: roles_def)
  have dk: "case map_of D ?k of None \<Rightarrow> True | Some g \<Rightarrow> set (roles g) \<subseteq> set (roles f)"
    using D by (auto simp: in_step_def roles_def split: option.splits)
  note w = writes_own[OF f(2) R own c sy(2) dk, folded tr_def]
  have "kept_tx (dir_after D tr) ?k s'"
    using w sy(1) s' by (auto simp: copy_of_def kept_tx_def in_sync_def split: option.splits)
  moreover have "kept_tx (dir_after D tr) ?k x" if "x \<in> set pre \<union> set rest" for x
  proof -
    have "?R \<notin> s_role ` (set pre \<union> set rest)" using f by (auto simp: roles_def)
    then have "s_role x \<noteq> ?R" using that by (metis imageI)
    then show ?thesis using w D that f(1) by (auto simp: in_step_def)
  qed
  moreover have "set (map s_role (pre @ s' # rest)) = set (roles f)" using f(1) s'(1) by (simp add: roles_def)
  ultimately show ?thesis using w unfolding in_step_def by (simp only:) auto
qed

section \<open>A pass and the disk\<close>

lemma persists_step: "keeps (persists d) (step E c)"
proof -
  have "keeps (persists d) (case s_role (r_side r') of Taker \<Rightarrow> stepTaker E c | Maker \<Rightarrow> stepMaker E c)" for r'
    by (cases "s_role (r_side r')") (simp_all add: stepTaker_persists stepMaker_persists)
  then show ?thesis
    unfolding step_def by (intro ps.calm_andthen ps.calm_if ps.calm_bnd ps.calm_getr ps.calm_ret persist_rules)
qed

lemma caught_txs: "s_claim (caught x) = s_claim (r_side (fst x))" "s_refund (caught x) = s_refund (r_side (fst x))"
  by (simp_all add: caught_def split: outcome.splits)

lemma pass_side_in_step:
  assumes p: "pass_side E m h f s es = (s', es')" and f: "sf_sides f = pre @ s # rest" "distinct (roles f)"
    and D: "in_step D (sf_matchId f) (sf_sides f)"
  shows "\<exists>tr. es_trace es' = es_trace es @ tr \<and> in_step (dir_after D tr) (sf_matchId f) (pre @ s' # rest) \<and> sends_safe D tr
    \<and> (\<forall>k. k \<noteq> sf_matchId f \<longrightarrow> map_of (dir_after D tr) k = map_of D k)"
proof (cases "seed_of E (s_identity s)")
  case None
  then have "s' = s\<lparr>s_note := Some NNoIdentity\<rparr>" "es' = es" using p by (simp_all add: pass_side_def)
  then show ?thesis using D f(1) by (intro exI[of _ "[]"]) (auto simp: dir_after_def in_step_def kept_tx_def split: option.splits)
next
  case (Some seed)
  define go where "go = step (world_from (length (es_trace es)) E) (ctx_of f m h seed)"
  have s': "s' = caught (go (run_of es s))" "es_trace es' = es_trace es @ map (Pair f) (r_log (fst (go (run_of es s))))"
    using p Some by (auto simp: pass_side_def Let_def go_def after_run_def)
  have k: "keeps (persists d) go" "keeps (party R i) go" for d R i by (simp_all add: go_def persists_step party_step)
  have "s_role s' = s_role s" using pass_side_party[OF p] by simp
  from run_in_step[OF k f D this] s' show ?thesis by (auto simp: caught_txs)
qed

lemma pass_sides_in_step:
  "pass_sides E m h f pre ss es = (ss', es') \<Longrightarrow> distinct (map s_role (pre @ ss)) \<Longrightarrow> in_step D (sf_matchId f) (pre @ ss) \<Longrightarrow>
   \<exists>tr. es_trace es' = es_trace es @ tr \<and> in_step (dir_after D tr) (sf_matchId f) ss' \<and> sends_safe D tr
    \<and> (\<forall>k. k \<noteq> sf_matchId f \<longrightarrow> map_of (dir_after D tr) k = map_of D k)"
proof (induction ss arbitrary: pre es D)
  case Nil
  then show ?case by (intro exI[of _ "[]"]) (auto simp: dir_after_def)
next
  case (Cons s ss)
  let ?f = "f\<lparr>sf_sides := pre @ s # ss\<rparr>"
  obtain s1 es1 where p: "pass_side E m h ?f s es = (s1, es1)" by fastforce
  with Cons.prems(1) have rest: "pass_sides E m h f (pre @ [s1]) ss es1 = (ss', es')" by simp
  obtain tr1 where 1: "es_trace es1 = es_trace es @ tr1" "in_step (dir_after D tr1) (sf_matchId f) (pre @ s1 # ss)" "sends_safe D tr1"
    "\<forall>k. k \<noteq> sf_matchId f \<longrightarrow> map_of (dir_after D tr1) k = map_of D k"
    using pass_side_in_step[OF p, of pre ss D] Cons.prems(2,3) by (auto simp: roles_def)
  have "distinct (map s_role ((pre @ [s1]) @ ss))" using Cons.prems(2) pass_side_party[OF p] by simp
  from Cons.IH[OF rest this, of "dir_after D tr1"] 1(2) obtain tr2 where
    "es_trace es' = es_trace es1 @ tr2" "in_step (dir_after (dir_after D tr1) tr2) (sf_matchId f) ss'" "sends_safe (dir_after D tr1) tr2"
    "\<forall>k. k \<noteq> sf_matchId f \<longrightarrow> map_of (dir_after (dir_after D tr1) tr2) k = map_of (dir_after D tr1) k" by auto
  with 1 show ?case by (intro exI[of _ "tr1 @ tr2"]) (simp add: dir_after_append sends_safe_append)
qed

lemma in_step_written:
  assumes "distinct (map s_role ss)" and f: "sf_sides f = ss"
  shows "in_step (map_set k f D) k ss"
proof -
  have "kept_tx (map_set k f D) k s" if "s \<in> set ss" for s
    using find_side_of[of s f] that assms by (simp add: kept_tx_def disk_side_set roles_def)
  then show ?thesis by (simp add: in_step_def map_of_set roles_def f)
qed

lemma all_in_step_at: "all_in_step D files \<Longrightarrow> map_of files k = Some f \<Longrightarrow> in_step D k (sf_sides f)"
  unfolding all_in_step_def by (metis option.simps(5))

lemma in_step_other:
  assumes e: "map_of D' k = map_of D k"
  shows "in_step D' k ss = in_step D k ss"
proof -
  have "kept_tx D' k s = kept_tx D k s" for s using disk_side_other[OF e] by blast
  then show ?thesis by (simp only: in_step_def e)
qed

lemma all_in_step_change:
  assumes "all_in_step D files" and "\<And>k'. k' \<noteq> k \<Longrightarrow> map_of D' k' = map_of D k' \<and> map_of files' k' = map_of files k'"
    and "case map_of files' k of None \<Rightarrow> map_of D' k = None | Some f \<Rightarrow> in_step D' k (sf_sides f)"
  shows "all_in_step D' files'"
  unfolding all_in_step_def
proof
  fix k'
  show "case map_of files' k' of None \<Rightarrow> map_of D' k' = None | Some f \<Rightarrow> in_step D' k' (sf_sides f)"
  proof (cases "k' = k")
    case False
    have "case map_of files k' of None \<Rightarrow> map_of D k' = None | Some f \<Rightarrow> in_step D k' (sf_sides f)"
      using assms(1) unfolding all_in_step_def by blast
    then show ?thesis using assms(2)[OF False] in_step_other[of D' k' D] by (cases "map_of files k'") simp_all
  next
    case True
    then show ?thesis using assms(3) by (simp only:)
  qed
qed

lemma pass_file_in_step:
  assumes ok: "files_ok (es_files es)" and f: "map_of (es_files es) (sf_matchId f) = Some f" and D: "all_in_step D (es_files es)"
  shows "\<exists>tr. es_trace (pass_file E H fresh f es) = es_trace es @ tr \<and> all_in_step (dir_after D tr) (es_files (pass_file E H fresh f es))
    \<and> sends_safe D tr \<and> (\<forall>k. k \<noteq> sf_matchId f \<longrightarrow> map_of (es_files (pass_file E H fresh f es)) k = map_of (es_files es) k)"
proof -
  define m where "m = (if sf_network f = hs_channel H then map_of (matches (hs_view H)) (sf_matchId f) else None)"
  define h where "h = (if sf_network f = hs_channel H then hs_height H else None)"
  define f1 where "f1 = f\<lparr>sf_terms := learn_makerKey m (sf_terms f)\<rparr>"
  let ?k = "sf_matchId f"
  obtain ss es1 where p: "pass_sides E m h f1 [] (sf_sides f1) es = (ss, es1)" by fastforce
  define f2 where "f2 = f1\<lparr>sf_sides := ss\<rparr>"
  have df: "distinct (map s_role (sf_sides f1))" using files_okD[OF ok f] by (simp add: f1_def roles_def)
  have "in_step D (sf_matchId f1) (sf_sides f1)" using all_in_step_at[OF D f] by (simp add: f1_def)
  with pass_sides_in_step[OF p, of D] df obtain tr1 where
    1: "es_trace es1 = es_trace es @ tr1" "in_step (dir_after D tr1) ?k ss" "sends_safe D tr1"
      "\<forall>k. k \<noteq> ?k \<longrightarrow> map_of (dir_after D tr1) k = map_of D k" by (auto simp: f1_def)
  have r: "map s_role ss = map s_role (sf_sides f1)" "es_files es1 = es_files es" using pass_sides_party[OF p] by simp_all
  have k2: "sf_matchId f2 = ?k" "sf_sides f2 = ss" by (simp_all add: f2_def f1_def)
  define es2 where "es2 = es1\<lparr>es_files := map_set ?k f2 (es_files es1)\<rparr>"
  define es3 where "es3 = (if ?k \<in> set fresh \<or> f2 \<noteq> f then save_file f2 es2 else es2)"
  have e: "pass_file E H fresh f es = (if may_drop h f2 then drop_file f2 es3 else es3)"
    unfolding pass_file_def Let_def m_def[symmetric] h_def[symmetric] f1_def[symmetric] p prod.case f2_def[symmetric]
      es2_def[symmetric] es3_def[symmetric] ..
  define tr3 where "tr3 = tr1 @ (if ?k \<in> set fresh \<or> f2 \<noteq> f then [(f2, SavedFile ?k)] else [])"
  have t3: "es_trace es3 = es_trace es @ tr3" "es_files es3 = map_set ?k f2 (es_files es)"
    using 1(1) r(2) k2 by (simp_all add: es3_def es2_def tr3_def save_file_def record_event_def)
  have s3: "sends_safe D tr3" using 1(3) by (simp add: tr3_def sends_safe_append)
  have d3: "dir_after D tr3 = (if ?k \<in> set fresh \<or> f2 \<noteq> f then map_set ?k f2 (dir_after D tr1) else dir_after D tr1)"
    using k2 by (simp add: tr3_def dir_after_append) (simp add: dir_after_def)
  have o3: "\<forall>k. k \<noteq> ?k \<longrightarrow> map_of (dir_after D tr3) k = map_of D k" using 1(4) by (simp add: d3 map_of_set)
  have "in_step (dir_after D tr3) ?k ss"
    using 1(2) in_step_written[of ss f2 ?k] df r(1) k2(2) by (simp add: d3)
  then have a3: "all_in_step (dir_after D tr3) (es_files es3)"
    using o3 k2 by (intro all_in_step_change[OF D, of ?k]) (simp_all add: t3 map_of_set)
  show ?thesis
  proof (cases "may_drop h f2")
    case True
    define tr where "tr = tr3 @ [(f2, DroppedFile ?k)]"
    have "es_trace (pass_file E H fresh f es) = es_trace es @ tr" "es_files (pass_file E H fresh f es) = map_del ?k (es_files es3)"
      using True k2 t3 by (simp_all add: e drop_file_def record_event_def tr_def)
    moreover have dd: "dir_after D tr = map_del ?k (dir_after D tr3)"
      using k2 by (simp add: tr_def dir_after_append) (simp add: dir_after_def)
    moreover have "all_in_step (map_del ?k (dir_after D tr3)) (map_del ?k (es_files es3))"
      by (rule all_in_step_change[OF a3, of ?k]) (simp_all add: map_of_delete)
    moreover have "sends_safe D tr" using s3 by (simp add: tr_def sends_safe_append)
    ultimately show ?thesis using t3 by (intro exI[of _ tr]) (simp add: map_of_delete map_of_set)
  next
    case False
    then show ?thesis using t3 a3 s3 by (intro exI[of _ tr3]) (simp add: e map_of_set)
  qed
qed

lemma pass_files_in_step:
  assumes "files_ok (es_files es)" and "all_in_step D (es_files es)"
    and "distinct (map sf_matchId fs)" and "\<forall>f \<in> set fs. map_of (es_files es) (sf_matchId f) = Some f"
  shows "\<exists>tr. es_trace (fold (pass_file E H fresh) fs es) = es_trace es @ tr
    \<and> all_in_step (dir_after D tr) (es_files (fold (pass_file E H fresh) fs es)) \<and> sends_safe D tr"
  using assms
proof (induction fs arbitrary: es D)
  case Nil
  then show ?case by (intro exI[of _ "[]"]) (simp add: dir_after_def)
next
  case (Cons f fs)
  have f: "map_of (es_files es) (sf_matchId f) = Some f" using Cons.prems(4) by simp
  let ?es = "pass_file E H fresh f es"
  obtain tr1 where 1: "es_trace ?es = es_trace es @ tr1" "all_in_step (dir_after D tr1) (es_files ?es)" "sends_safe D tr1"
    "\<forall>k. k \<noteq> sf_matchId f \<longrightarrow> map_of (es_files ?es) k = map_of (es_files es) k"
    using pass_file_in_step[OF Cons.prems(1) f Cons.prems(2)] by blast
  have "\<forall>g \<in> set fs. map_of (es_files ?es) (sf_matchId g) = Some g"
    using 1(4) Cons.prems(3,4) by (metis distinct.simps(2) image_eqI list.set_intros(2) list.set_map list.simps(9))
  moreover have "files_ok (es_files ?es)" using pass_file_ok[OF Cons.prems(1)] files_okD[OF Cons.prems(1) f] by blast
  ultimately obtain tr2 where "es_trace (fold (pass_file E H fresh) fs ?es) = es_trace ?es @ tr2"
    "all_in_step (dir_after (dir_after D tr1) tr2) (es_files (fold (pass_file E H fresh) fs ?es))" "sends_safe (dir_after D tr1) tr2"
    using Cons.IH[OF _ 1(2)] Cons.prems(3) by auto
  with 1 show ?case by (intro exI[of _ "tr1 @ tr2"]) (simp add: dir_after_append sends_safe_append)
qed

text \<open>A side that is added has nothing on disk and nothing to save.\<close>

lemma add_role_in_step:
  assumes "in_step D k (sf_sides f)"
  shows "in_step D k (sf_sides (add_role x f))"
proof (cases "has_role (fst x) f")
  case False
  have "disk_side D k (fst x) = None"
  proof (rule ccontr)
    assume "disk_side D k (fst x) \<noteq> None"
    then obtain g s where g: "map_of D k = Some g" "find_side (fst x) g = Some s"
      by (auto simp: disk_side_def bind_eq_Some_conv)
    then have "fst x \<in> set (roles g)" using find_side_role[OF g(2)] by (force simp: roles_def)
    then have "fst x \<in> set (map s_role (sf_sides f))" using assms g(1) by (auto simp: in_step_def)
    with False show False by (auto simp: has_role_def list_ex_iff)
  qed
  then have "kept_tx D k (new_side (fst x) (snd x))" by (simp add: kept_tx_def new_side_def)
  then show ?thesis using False assms by (auto simp: add_role_def in_step_def split: option.splits)
qed (use assms in \<open>simp add: add_role_def\<close>)

lemma add_roles_in_step: "in_step D k (sf_sides f) \<Longrightarrow> in_step D k (sf_sides (fold add_role xs f))"
  by (induction xs arbitrary: f) (auto intro: add_role_in_step)

lemma adopt_match_in_step:
  assumes "all_in_step D files"
  shows "all_in_step D (fst (adopt_match E H m (files, fresh)))"
proof (cases "local_roles E m = []")
  case False
  let ?f = "case map_of files (m_id m) of Some f \<Rightarrow> f
    | None \<Rightarrow> \<lparr>sf_matchId = m_id m, sf_network = hs_channel H, sf_terms = termsOf m, sf_sides = []\<rparr>"
  have "case map_of files (m_id m) of None \<Rightarrow> map_of D (m_id m) = None | Some f \<Rightarrow> in_step D (m_id m) (sf_sides f)"
    using assms unfolding all_in_step_def by blast
  then have "in_step D (m_id m) (sf_sides ?f)" by (cases "map_of files (m_id m)") (simp_all add: in_step_def)
  then have "in_step D (m_id m) (sf_sides (fold add_role (local_roles E m) ?f))" by (rule add_roles_in_step)
  then have "all_in_step D (map_set (m_id m) (fold add_role (local_roles E m) ?f) files)"
    by (intro all_in_step_change[OF assms, of "m_id m"]) (simp_all add: map_of_set)
  with False show ?thesis by (simp add: adopt_match_def Let_def)
qed (use assms in \<open>simp add: adopt_match_def\<close>)

lemma adopt_in_step: "all_in_step D files \<Longrightarrow> all_in_step D (fst (adopt_matches E H files))"
proof -
  have "all_in_step D (fst x) \<Longrightarrow> all_in_step D (fst (fold (adopt_match E H) ms x))" for ms x
  proof (induction ms arbitrary: x)
    case (Cons m ms)
    then show ?case using adopt_match_in_step[of D "fst x" E H m "snd x"] by simp
  qed simp
  then show "all_in_step D files \<Longrightarrow> all_in_step D (fst (adopt_matches E H files))" by (simp add: adopt_matches_def)
qed

lemma pass_in_step:
  assumes "files_ok (es_files es)" and "all_in_step D (es_files es)"
  shows "\<exists>tr. es_trace (pass E H es) = es_trace es @ tr \<and> all_in_step (dir_after D tr) (es_files (pass E H es)) \<and> sends_safe D tr"
proof -
  obtain files fresh where a: "adopt_matches E H (es_files es) = (files, fresh)" by fastforce
  have ok: "files_ok files" "all_in_step D files" using adopt_ok[OF assms(1), of E H] adopt_in_step[OF assms(2), of E H] a by simp_all
  have ids: "map sf_matchId (vals files) = keys files" using ok(1) by (auto simp: files_ok_def)
  have "distinct (map sf_matchId (vals files))" unfolding ids using ok(1) by (simp add: files_ok_def)
  moreover have "\<forall>f \<in> set (vals files). map_of files (sf_matchId f) = Some f" using ok(1) by (auto simp: files_ok_def)
  ultimately have "\<exists>tr. es_trace (fold (pass_file E H fresh) (vals files) (es\<lparr>es_files := files\<rparr>)) = es_trace (es\<lparr>es_files := files\<rparr>) @ tr
    \<and> all_in_step (dir_after D tr) (es_files (fold (pass_file E H fresh) (vals files) (es\<lparr>es_files := files\<rparr>))) \<and> sends_safe D tr"
    using ok by (intro pass_files_in_step) simp_all
  then show ?thesis by (simp add: pass_def a)
qed

text \<open>The end of a posted operation: nothing of what the disk must know changes.\<close>

lemma quiet_prove: "keeps (quiet (\<lambda>ev. \<not> is_sent ev)) (proveFunds E k matchId required)"
  unfolding proveFunds_def wallet_utxos_def set_wallet_def Let_def
  by (intro qu.calm_rules quiet_rules) simp_all

lemma persists_complete: "keeps (persists d) (complete_post E submitOp c what j)"
proof -
  have run: "keeps (persists d) (run_post E submitOp k j)" for k
    unfolding run_post_def
    by (cases j) (simp_all, (intro ps.calm_rules persist_rules quiet_persists[OF quiet_prove])+)
  show ?thesis unfolding complete_post_def Let_def
    by (intro ps.calm_rules persist_rules run) simp_all
qed

lemma party_complete: "keeps (party R i) (complete_post E submitOp c what j)"
proof -
  have prove: "keeps (party R i) (proveFunds E k matchId required)" for k matchId required
    unfolding proveFunds_def wallet_utxos_def set_wallet_def Let_def by (intro pt.calm_rules party_rules) simp_all
  have run: "keeps (party R i) (run_post E submitOp k j)" for k
    unfolding run_post_def by (cases j) (simp_all, (intro pt.calm_rules party_rules prove)+)
  show ?thesis unfolding complete_post_def Let_def
    by (intro pt.calm_rules party_rules run) simp_all
qed

lemma sides_put:
  assumes "sf_sides f = pre @ s # rest" "distinct (roles f)" "s_role s' = s_role s"
  shows "sf_sides (put_side s' f) = pre @ s' # rest"
proof -
  have "s_role s \<notin> s_role ` (set pre \<union> set rest)" using assms by (auto simp: roles_def)
  then have "\<forall>x \<in> set pre \<union> set rest. s_role x \<noteq> s_role s" by (metis imageI)
  then show ?thesis using assms(1,3) by (auto simp: put_side_def map_idI)
qed

lemma finish_post_in_step:
  assumes ok: "files_ok (es_files es)" and D: "all_in_step D (es_files es)"
  shows "\<exists>tr. es_trace (finish_post E submitOp c r what j es) = es_trace es @ tr
    \<and> all_in_step (dir_after D tr) (es_files (finish_post E submitOp c r what j es)) \<and> sends_safe D tr"
proof (cases "\<exists>f s. map_of (es_files es) (c_matchId c) = Some f \<and> find_side r f = Some s")
  case False
  then have "finish_post E submitOp c r what j es = es" by (auto simp: finish_post_def split: option.splits)
  with D show ?thesis by (intro exI[of _ "[]"]) (simp add: dir_after_def)
next
  case True
  then obtain f s where f: "map_of (es_files es) (c_matchId c) = Some f" and s: "find_side r f = Some s" by auto
  have k: "sf_matchId f = c_matchId c" "distinct (roles f)" using files_okD[OF ok f] by simp_all
  obtain pre rest where sides: "sf_sides f = pre @ s # rest" using find_side_role[OF s] by (meson split_list)
  define go where "go = complete_post (world_from (length (es_trace es)) E) submitOp c what j"
  define q where "q = fst (go (run_of es s))"
  have go: "keeps (persists d) go" "keeps (party R i) go" for d R i by (simp_all add: go_def persists_complete party_complete)
  have role: "s_role (r_side q) = s_role s"
    using keepsD[OF go(2)[of "s_role s" "s_identity s"], of "run_of es s"] by (simp add: party_def is_party_def run_of_def q_def)
  have Df: "in_step D (sf_matchId f) (sf_sides f)" using all_in_step_at[OF D f] k by simp
  define tr where "tr = map (Pair f) (r_log q)"
  have st: "in_step (dir_after D tr) (c_matchId c) (sf_sides (put_side (r_side q) f))" "sends_safe D tr"
    "\<forall>k. k \<noteq> c_matchId c \<longrightarrow> map_of (dir_after D tr) k = map_of D k"
    using run_in_step[OF go sides k(2) Df role, where es = es] k(1) sides_put[OF sides k(2) role] by (simp_all add: q_def tr_def)
  have e: "finish_post E submitOp c r what j es = after_run f q (es\<lparr>es_files := map_set (c_matchId c) (put_side (r_side q) f) (es_files es)\<rparr>)"
    using f s by (simp add: finish_post_def go_def q_def Let_def)
  have "all_in_step (dir_after D tr) (map_set (c_matchId c) (put_side (r_side q) f) (es_files es))"
    using st by (intro all_in_step_change[OF D, of "c_matchId c"]) (simp_all add: map_of_set)
  with st(2) show ?thesis by (intro exI[of _ tr]) (simp add: e after_run_def tr_def)
qed

lemma moves_in_step:
  "files_ok (es_files es) \<Longrightarrow> all_in_step D (es_files es) \<Longrightarrow>
   \<exists>tr. es_trace (fold (apply_move E) ms es) = es_trace es @ tr
     \<and> all_in_step (dir_after D tr) (es_files (fold (apply_move E) ms es)) \<and> sends_safe D tr"
proof (induction ms arbitrary: es D)
  case Nil
  then show ?case by (intro exI[of _ "[]"]) (simp add: dir_after_def)
next
  case (Cons mv ms)
  let ?es = "apply_move E mv es"
  obtain tr1 where 1: "es_trace ?es = es_trace es @ tr1" "all_in_step (dir_after D tr1) (es_files ?es)" "sends_safe D tr1"
    using pass_in_step[OF Cons.prems] finish_post_in_step[OF Cons.prems] by (cases mv) (auto, blast+)
  have "files_ok (es_files ?es)" using moves_ok[OF Cons.prems(1), of E "[mv]"] by simp
  from Cons.IH[OF this 1(2)] obtain tr2 where "es_trace (fold (apply_move E) ms ?es) = es_trace ?es @ tr2"
    "all_in_step (dir_after (dir_after D tr1) tr2) (es_files (fold (apply_move E) ms ?es))" "sends_safe (dir_after D tr1) tr2" by blast
  with 1 show ?case by (intro exI[of _ "tr1 @ tr2"]) (simp add: dir_after_append sends_safe_append)
qed

section \<open>The engine over any sequence of moves\<close>

lemma files_in_step: "files_ok d \<Longrightarrow> all_in_step d d"
proof -
  assume ok: "files_ok d"
  have "in_step d k (sf_sides f)" if "map_of d k = Some f" for k f
  proof -
    have "kept_tx d k s" if "s \<in> set (sf_sides f)" for s
      using find_side_of[OF that] files_okD[OF ok \<open>map_of d k = Some f\<close>] \<open>map_of d k = Some f\<close>
      by (simp add: kept_tx_def disk_side_def)
    then show ?thesis using that by (simp add: in_step_def roles_def)
  qed
  then show ?thesis by (simp add: all_in_step_def split: option.split)
qed

text \<open>C31: the type of the engine's files. Whatever passes and ends of posts an engine goes through, it holds each
  file once, under the id of its match, and a file has at most one side per role.\<close>

theorem engine_files_typed:
  assumes "files_ok d0" and "es = fold (apply_move E) ms (newEngine d0)"
  shows "distinct (keys (es_files es))
    \<and> (\<forall>(k, f) \<in> set (es_files es). sf_matchId f = k \<and> distinct (map s_role (sf_sides f)) \<and> length (sf_sides f) \<le> 2)"
proof -
  have ok: "files_ok (es_files es)" using assms moves_ok[of "newEngine d0" E ms] by (simp add: newEngine_def)
  have two: "length l \<le> 2" if "distinct (map s_role l)" for l :: "side list"
  proof -
    have "length l = card (set (map s_role l))" using distinct_card[OF that] by simp
    also have "\<dots> \<le> card {Maker, Taker}" using swap_role.exhaust by (intro card_mono) auto
    finally show ?thesis by simp
  qed
  with ok show ?thesis by (auto simp: files_ok_def roles_def)
qed

text \<open>C29: a crash forgets nothing that was sent. Take an engine started from the files of a directory, and any
  passes and ends of posts. When it sends a transaction, the directory as it is at that moment holds, for a
  side of the match, that transaction as its claim or refund, or a lock intent: started again from the
  directory, the engine sends it again, or looks for its lock on the chain.\<close>

theorem crash_forgets_nothing:
  assumes "files_ok d0" and "es_trace (fold (apply_move E) ms (newEngine d0)) = tr @ (f, Sent ch hex) # rest"
  shows "\<exists>R s. disk_side (dir_after d0 tr) (sf_matchId f) R = Some s
    \<and> (map_option st_hex (s_claim s) = Some hex \<or> map_option st_hex (s_refund s) = Some hex \<or> s_lockIntentAt s \<noteq> None)"
proof -
  have "files_ok (es_files (newEngine d0))" "all_in_step d0 (es_files (newEngine d0))"
    using assms(1) files_in_step by (simp_all add: newEngine_def)
  from moves_in_step[OF this, of E ms] assms(2) have "sends_safe d0 (tr @ (f, Sent ch hex) # rest)"
    by (auto simp: newEngine_def)
  from sends_safe_at[OF this] show ?thesis by auto
qed

section \<open>Dropping\<close>

lemma pass_file_drops:
  assumes "map_of (es_files (pass_file E H fresh f es)) (sf_matchId f) = None"
  shows "\<exists>n g. hs_height H = Some n \<and> sf_network f = hs_channel H \<and> n \<ge> t_pruneAt (sf_terms f)
    \<and> list_all (\<lambda>s. s_stage s \<in> set TERMINAL) (sf_sides g) \<and> (g, DroppedFile (sf_matchId f)) \<in> set (es_trace (pass_file E H fresh f es))"
proof -
  define m where "m = (if sf_network f = hs_channel H then map_of (matches (hs_view H)) (sf_matchId f) else None)"
  define h where "h = (if sf_network f = hs_channel H then hs_height H else None)"
  define f1 where "f1 = f\<lparr>sf_terms := learn_makerKey m (sf_terms f)\<rparr>"
  obtain ss es1 where p: "pass_sides E m h f1 [] (sf_sides f1) es = (ss, es1)" by fastforce
  define f2 where "f2 = f1\<lparr>sf_sides := ss\<rparr>"
  define es2 where "es2 = es1\<lparr>es_files := map_set (sf_matchId f) f2 (es_files es1)\<rparr>"
  define es3 where "es3 = (if sf_matchId f \<in> set fresh \<or> f2 \<noteq> f then save_file f2 es2 else es2)"
  have e: "pass_file E H fresh f es = (if may_drop h f2 then drop_file f2 es3 else es3)"
    unfolding pass_file_def Let_def m_def[symmetric] h_def[symmetric] f1_def[symmetric] p prod.case f2_def[symmetric]
      es2_def[symmetric] es3_def[symmetric] ..
  have "map_of (es_files es3) (sf_matchId f) = Some f2"
    by (simp add: es3_def es2_def save_file_def record_event_def map_of_set)
  then have d: "may_drop h f2" using assms e by (auto split: if_splits)
  have t: "t_pruneAt (sf_terms f2) = t_pruneAt (sf_terms f)" "sf_matchId f2 = sf_matchId f"
    by (simp_all add: f2_def f1_def learn_makerKey_def split: option.splits)
  have "(f2, DroppedFile (sf_matchId f)) \<in> set (es_trace (pass_file E H fresh f es))"
    using d t(2) by (simp add: e drop_file_def record_event_def)
  with d t show ?thesis by (auto simp: may_drop_def h_def split: option.splits if_splits)
qed

lemma pass_side_grows: "pass_side E m h f s es = (s', es') \<Longrightarrow> set (es_trace es) \<subseteq> set (es_trace es')"
  by (auto simp: pass_side_def Let_def after_run_def split: option.splits)

lemma pass_sides_grow: "pass_sides E m h f pre ss es = (ss', es') \<Longrightarrow> set (es_trace es) \<subseteq> set (es_trace es')"
proof (induction ss arbitrary: pre es)
  case (Cons s ss)
  obtain s1 es1 where p: "pass_side E m h (f\<lparr>sf_sides := pre @ s # ss\<rparr>) s es = (s1, es1)" by fastforce
  with Cons.prems have "pass_sides E m h f (pre @ [s1]) ss es1 = (ss', es')" by simp
  from Cons.IH[OF this] pass_side_grows[OF p] show ?case by blast
qed simp

lemma pass_file_grows: "set (es_trace es) \<subseteq> set (es_trace (pass_file E H fresh f es))"
  unfolding pass_file_def Let_def
  by (auto simp: save_file_def drop_file_def record_event_def split: prod.splits dest!: pass_sides_grow)

lemma pass_file_others:
  assumes "k \<noteq> sf_matchId f"
  shows "map_of (es_files (pass_file E H fresh f es)) k = map_of (es_files es) k"
  using assms unfolding pass_file_def Let_def
  by (auto simp: save_file_def drop_file_def record_event_def map_of_set map_of_delete split: prod.splits dest!: pass_sides_party)

lemma pass_files_grow: "set (es_trace es) \<subseteq> set (es_trace (fold (pass_file E H fresh) fs es))"
proof (induction fs arbitrary: es)
  case (Cons f fs)
  from pass_file_grows[of es E H fresh f] Cons[of "pass_file E H fresh f es"] show ?case by auto
qed simp

lemma pass_files_drop:
  assumes "map_of (es_files es) k \<noteq> None" and "map_of (es_files (fold (pass_file E H fresh) fs es)) k = None"
  shows "\<exists>f n g. f \<in> set fs \<and> sf_matchId f = k \<and> hs_height H = Some n \<and> sf_network f = hs_channel H \<and> n \<ge> t_pruneAt (sf_terms f)
    \<and> list_all (\<lambda>s. s_stage s \<in> set TERMINAL) (sf_sides g) \<and> (g, DroppedFile k) \<in> set (es_trace (fold (pass_file E H fresh) fs es))"
  using assms
proof (induction fs arbitrary: es)
  case (Cons f fs)
  let ?es = "pass_file E H fresh f es"
  show ?case
  proof (cases "map_of (es_files ?es) k")
    case None
    then have k: "sf_matchId f = k" using Cons.prems(1) pass_file_others[of k f E H fresh es] by metis
    from pass_file_drops[of E H fresh f es] None k obtain n g where
      "hs_height H = Some n" "sf_network f = hs_channel H" "n \<ge> t_pruneAt (sf_terms f)"
      "list_all (\<lambda>s. s_stage s \<in> set TERMINAL) (sf_sides g)" "(g, DroppedFile k) \<in> set (es_trace ?es)" by auto
    with k pass_files_grow[of ?es E H fresh fs] show ?thesis by (intro exI[of _ f] exI[of _ n] exI[of _ g]) auto
  next
    case (Some g)
    with Cons.IH[of ?es] Cons.prems(2) show ?thesis by auto
  qed
qed simp

lemma add_roles_terms: "sf_terms (fold add_role xs f) = sf_terms f \<and> sf_network (fold add_role xs f) = sf_network f"
  by (induction xs arbitrary: f) (simp_all add: add_role_def)

lemma adopt_keeps:
  "map_of files k = Some f \<Longrightarrow> \<exists>g. map_of (fst (fold (adopt_match E H) ms (files, fresh))) k = Some g
    \<and> sf_terms g = sf_terms f \<and> sf_network g = sf_network f"
proof (induction ms arbitrary: files fresh f)
  case (Cons m ms)
  obtain files' fresh' where a: "adopt_match E H m (files, fresh) = (files', fresh')" by fastforce
  have "\<exists>g. map_of files' k = Some g \<and> sf_terms g = sf_terms f \<and> sf_network g = sf_network f"
    using a Cons.prems by (auto simp: adopt_match_def Let_def map_of_set add_roles_terms split: if_splits)
  with Cons.IH a show ?case by fastforce
qed simp

text \<open>C30: a file is dropped only when its match is over. When a pass leaves the engine without a file it held, the
  board of the file's channel has reached the height at which the match is pruned, and every side of the
  file, as the pass left it, is in a terminal stage. So no side that still has to act is lost, whatever the
  board and the explorers say.\<close>

theorem dropped_only_when_over:
  assumes "files_ok (es_files es)" and "map_of (es_files es) k = Some f" and "map_of (es_files (pass E H es)) k = None"
  shows "\<exists>n g. hs_height H = Some n \<and> sf_network f = hs_channel H \<and> n \<ge> t_pruneAt (sf_terms f)
    \<and> list_all (\<lambda>s. s_stage s \<in> set TERMINAL) (sf_sides g) \<and> (g, DroppedFile k) \<in> set (es_trace (pass E H es))"
proof -
  obtain files fresh where a: "adopt_matches E H (es_files es) = (files, fresh)" by fastforce
  have ok: "files_ok files" using adopt_ok[OF assms(1), of E H] a by simp
  obtain g where g: "map_of files k = Some g" "sf_terms g = sf_terms f" "sf_network g = sf_network f"
    using adopt_keeps[OF assms(2), of E H "vals (matches (hs_view H))" "[]"] a by (auto simp: adopt_matches_def)
  have "map_of (es_files (es\<lparr>es_files := files\<rparr>)) k \<noteq> None" using g(1) by simp
  from pass_files_drop[OF this, of E H fresh "vals files"] assms(3) a obtain f' n x where
    x: "f' \<in> set (vals files)" "sf_matchId f' = k" "hs_height H = Some n" "sf_network f' = hs_channel H" "n \<ge> t_pruneAt (sf_terms f')"
      "list_all (\<lambda>s. s_stage s \<in> set TERMINAL) (sf_sides x)" "(x, DroppedFile k) \<in> set (es_trace (pass E H es))"
    by (auto simp: pass_def)
  obtain a where "(a, f') \<in> set files" using x(1) by auto
  with ok x(2) have "map_of files k = Some f'" by (auto simp: files_ok_def)
  then have "f' = g" using g(1) by simp
  with x g show ?thesis by auto
qed

section \<open>Starting again\<close>

definition hex_id :: "string \<Rightarrow> bool" where
  "hex_id k \<longleftrightarrow> length k = 64 \<and> list_all is_hex_lower k"

lemma swap_name: "hex_id k \<Longrightarrow> is_swap_name (k @ ''.json'') \<and> take 64 (k @ ''.json'') = k"
  by (simp add: hex_id_def is_swap_name_def)


section \<open>An example\<close>

definition ex_file :: swap_file where
  "ex_file = \<lparr>sf_matchId = ''m'', sf_network = ''net'', sf_terms = ex_terms, sf_sides = [r_side ex_proven]\<rparr>"

definition ex_host :: host where
  "ex_host = \<lparr>hs_height = Some 115, hs_view = \<lparr>offers = [], matches = [(''m'', ex_swap_match Escrow)]\<rparr>, hs_channel = ''net''\<rparr>"

lemma ex_files_ok: "files_ok [(''m'', ex_file)]"
  by (simp add: files_ok_def ex_file_def roles_def)

theorem engine_files_typed_witness:
  "let es = fold (apply_move ex_lost) [PassMove ex_host] (newEngine [(''m'', ex_file)]) in
     distinct (keys (es_files es))
     \<and> (\<forall>(k, f) \<in> set (es_files es). sf_matchId f = k \<and> distinct (map s_role (sf_sides f)) \<and> length (sf_sides f) \<le> 2)"
  unfolding Let_def by (rule engine_files_typed[OF ex_files_ok refl])

lemma ex_adopted: "adopt_matches ex_lost ex_host [(''m'', ex_file)]
    = ([(''m'', ex_file\<lparr>sf_sides := [r_side ex_proven, new_side Maker ''me'']\<rparr>)], [])"
  by (simp add: adopt_matches_def adopt_match_def ex_host_def local_roles_def seed_of_def ex_lost_def ex_sel ex_swap_match_def
    add_role_def has_role_def ex_file_def ex_proven_def ex_start_def ex_side_def new_side_def)

lemma world_from_0: "world_from 0 E = E"
  by (simp add: world_from_def Let_def)

lemma ex_first_step:
  "\<exists>s1 es1. pass_side ex_lost (Some (ex_swap_match Escrow)) (Some 115)
      (f\<lparr>sf_sides := ss\<rparr>) (r_side ex_proven) (newEngine d) = (s1, es1)
     \<and> (f\<lparr>sf_sides := ss\<rparr>, Sent Bitcoin ''b'') \<in> set (es_trace es1)"
  if "sf_matchId f = ''m''" "sf_terms f = ex_terms"
proof -
  have c: "ctx_of (f\<lparr>sf_sides := ss\<rparr>) (Some (ex_swap_match Escrow)) (Some 115) (replicate 32 7) = ex_ctx Escrow 115"
    using that by (simp add: ctx_of_def ex_ctx_def ex_terms_def ex_from_hex)
  have r: "run_of (newEngine d) (r_side ex_proven) = ex_proven"
    by (simp add: run_of_def newEngine_def ex_proven_def ex_start_def)
  have seed: "seed_of ex_lost (s_identity (r_side ex_proven)) = Some (replicate 32 7)"
    by (simp add: seed_of_def ex_lost_def ex_engine_sel ex_proven_def ex_start_def ex_side_def)
  obtain r1 where "step ex_lost (ex_ctx Escrow 115) ex_proven = (r1, Threw (ExplorerFault ''timeout''))"
    "Sent Bitcoin ''b'' \<in> set (r_log r1)" using ex_tick1 ex_step_taker by blast
  then show ?thesis
    by (simp add: pass_side_def seed Let_def c r newEngine_def[of d, THEN arg_cong, of es_trace] world_from_0 after_run_def image_iff)
qed

lemma ex_pass_sends:
  "\<exists>f. sf_matchId f = ''m'' \<and> (f, Sent Bitcoin ''b'') \<in> set (es_trace (pass ex_lost ex_host (newEngine [(''m'', ex_file)])))"
proof -
  let ?g = "ex_file\<lparr>sf_sides := [r_side ex_proven, new_side Maker ''me'']\<rparr>"
  have g: "sf_matchId ?g = ''m''" "sf_terms ?g = ex_terms" "sf_network ?g = ''net''" by (simp_all add: ex_file_def)
  have t: "learn_makerKey x ex_terms = ex_terms" for x
  proof -
    have "ex_key \<noteq> fromHex []" by (simp add: ex_key_def)
    then have "toHex ex_key \<noteq> []" using ex_from_hex by metis
    then show ?thesis by (simp add: learn_makerKey_def ex_terms_sel split: option.splits)
  qed
  have gt: "?g\<lparr>sf_terms := learn_makerKey x (sf_terms ?g)\<rparr> = ?g" for x using t by (simp add: ex_file_def)
  let ?es = "newEngine [(''m'', ?g)]"
  obtain s1 es1 where 1: "pass_side ex_lost (Some (ex_swap_match Escrow)) (Some 115)
      (?g\<lparr>sf_sides := [r_side ex_proven, new_side Maker ''me'']\<rparr>) (r_side ex_proven) ?es = (s1, es1)"
    "(?g\<lparr>sf_sides := [r_side ex_proven, new_side Maker ''me'']\<rparr>, Sent Bitcoin ''b'') \<in> set (es_trace es1)"
    using ex_first_step[OF g(1,2)] by blast
  obtain ss es2 where 2: "pass_sides ex_lost (Some (ex_swap_match Escrow)) (Some 115) ?g [s1] [new_side Maker ''me''] es1 = (ss, es2)"
    by fastforce
  have "set (es_trace es2) \<subseteq> set (es_trace (pass_file ex_lost ex_host [] ?g ?es))"
    unfolding pass_file_def Let_def gt using 1(1) 2
    by (auto simp: g ex_host_def save_file_def drop_file_def record_event_def)
  moreover have "pass ex_lost ex_host (newEngine [(''m'', ex_file)]) = pass_file ex_lost ex_host [] ?g ?es"
    by (simp add: pass_def ex_adopted newEngine_def)
  moreover have "(?g, Sent Bitcoin ''b'') \<in> set (es_trace es2)" using 1(2) pass_sides_grow[OF 2] by auto
  ultimately have "(?g, Sent Bitcoin ''b'') \<in> set (es_trace (pass ex_lost ex_host (newEngine [(''m'', ex_file)])))" by auto
  with g(1) show ?thesis by blast
qed

theorem crash_forgets_nothing_witness:
  "\<exists>tr f rest R s. es_trace (fold (apply_move ex_lost) [PassMove ex_host] (newEngine [(''m'', ex_file)])) = tr @ (f, Sent Bitcoin ''b'') # rest
    \<and> disk_side (dir_after [(''m'', ex_file)] tr) (sf_matchId f) R = Some s
    \<and> (map_option st_hex (s_claim s) = Some ''b'' \<or> map_option st_hex (s_refund s) = Some ''b'' \<or> s_lockIntentAt s \<noteq> None)"
proof -
  obtain f where "(f, Sent Bitcoin ''b'') \<in> set (es_trace (fold (apply_move ex_lost) [PassMove ex_host] (newEngine [(''m'', ex_file)])))"
    using ex_pass_sends by auto
  then obtain tr rest where t: "es_trace (fold (apply_move ex_lost) [PassMove ex_host] (newEngine [(''m'', ex_file)]))
    = tr @ (f, Sent Bitcoin ''b'') # rest" by (meson split_list)
  from crash_forgets_nothing[OF ex_files_ok t] t show ?thesis by blast
qed

definition ex_over :: swap_file where
  "ex_over = ex_file\<lparr>sf_sides := [(ex_side Taker)\<lparr>s_stage := Refunded\<rparr>]\<rparr>"

definition ex_late :: host where
  "ex_late = \<lparr>hs_height = Some 5000, hs_view = emptyView, hs_channel = ''net''\<rparr>"

theorem dropped_only_when_over_witness:
  "\<exists>n g. hs_height ex_late = Some n \<and> sf_network ex_over = hs_channel ex_late \<and> n \<ge> t_pruneAt (sf_terms ex_over)
    \<and> list_all (\<lambda>s. s_stage s \<in> set TERMINAL) (sf_sides g)
    \<and> (g, DroppedFile ''m'') \<in> set (es_trace (pass (ex_lost\<lparr>en_identities := []\<rparr>) ex_late (newEngine [(''m'', ex_over)])))"
proof (rule dropped_only_when_over)
  show "files_ok (es_files (newEngine [(''m'', ex_over)]))"
    by (simp add: files_ok_def newEngine_def ex_over_def ex_file_def roles_def)
  show "map_of (es_files (newEngine [(''m'', ex_over)])) ''m'' = Some ex_over" by (simp add: newEngine_def)
  show "map_of (es_files (pass (ex_lost\<lparr>en_identities := []\<rparr>) ex_late (newEngine [(''m'', ex_over)]))) ''m'' = None"
    by (simp add: pass_def adopt_matches_def ex_late_def emptyView_def newEngine_def pass_file_def Let_def ex_over_def ex_file_def
      learn_makerKey_def pass_side_def seed_of_def ex_side_def may_drop_def ex_terms_sel TERMINAL_def drop_file_def record_event_def save_file_def)
qed

definition ex_named :: swap_file where
  "ex_named = ex_file\<lparr>sf_matchId := replicate 64 CHR ''a''\<rparr>"


section \<open>A posted lock is not remembered\<close>

text \<open>The end of a \<open>swap.locked\<close> post sets \<open>lockPosted\<close> on the side the engine holds and writes nothing. A pass compares
  a file with what the engine held when the pass started, so a later pass that changes nothing else does not
  write it either, and after a restart the engine posts the lock again.\<close>

theorem lock_posted_unsaved:
  assumes "map_of (es_files es) (c_matchId c) = Some f" and "find_side r f = Some s"
  shows "let es1 = finish_post E (\<lambda>_. None) c r ''locked'' (OpJob q) es in
    es_trace es1 = es_trace es \<and> map_of (es_files es1) (c_matchId c) = Some (put_side (s\<lparr>s_lockPosted := True\<rparr>) f)"
  using assms
  by (simp add: finish_post_def Let_def complete_post_def run_post_def after_run_def run_of_def map_of_set
    bnd_def getr_def andthen_def catch_def when_p_def ret_def upd_side_def upd_posts_def)

theorem unchanged_not_saved:
  assumes "sf_network f \<noteq> hs_channel H" and "pass_sides E None None f [] (sf_sides f) es = (sf_sides f, es1)"
    and "sf_matchId f \<notin> set fresh"
  shows "es_trace (pass_file E H fresh f es) = es_trace es1"
  using assms by (simp add: pass_file_def learn_makerKey_def may_drop_def)

end
