(* ===== verification/Chunk.thy ===== *)
theory Chunk
  imports Canonical
begin

text \<open>
  \<open>src/sync/chunk.ts\<close>: a frame too large for a relay is cut into base64 parts and put together again by
  the receiver. Base64 is written out, as Node's \<open>Buffer\<close> encodes and (leniently) decodes it; \<open>txt\<close> stands
  for \<open>Buffer.toString("utf8")\<close>, of which only \<open>txt (utf8 s) = s\<close> is used. Numbers read from an event's tags
  may be no integers: they are \<open>int option\<close>, and \<open>None\<close> is refused.
\<close>

section \<open>Base64\<close>

definition b64_char :: "nat \<Rightarrow> char" where
  "b64_char n = (if n < 26 then char_of (65 + n) else if n < 52 then char_of (71 + n)
     else if n < 62 then char_of (n - 4) else if n = 62 then CHR ''+'' else CHR ''/'')"

definition b64_digit :: "char \<Rightarrow> nat option" where
  "b64_digit c = (let n = of_char c :: nat in
     if 65 \<le> n \<and> n \<le> 90 then Some (n - 65) else if 97 \<le> n \<and> n \<le> 122 then Some (n - 71)
     else if 48 \<le> n \<and> n \<le> 57 then Some (n + 4) else if c = CHR ''+'' \<or> c = CHR ''-'' then Some 62
     else if c = CHR ''/'' \<or> c = CHR ''_'' then Some 63 else None)"

fun to_base64 :: "bytes \<Rightarrow> string" where
  "to_base64 (a # b # c # r) = (let x = unat a; y = unat b; z = unat c in
     b64_char (x div 4) # b64_char (x mod 4 * 16 + y div 16) # b64_char (y mod 16 * 4 + z div 64) # b64_char (z mod 64) # to_base64 r)"
| "to_base64 [a, b] = (let x = unat a; y = unat b in
     [b64_char (x div 4), b64_char (x mod 4 * 16 + y div 16), b64_char (y mod 16 * 4), CHR ''=''])"
| "to_base64 [a] = (let x = unat a in [b64_char (x div 4), b64_char (x mod 4 * 16), CHR ''='', CHR ''=''])"
| "to_base64 [] = []"

fun of_digits :: "nat list \<Rightarrow> bytes" where
  "of_digits (p # q # r # s # l) =
     of_nat (p * 4 + q div 16) # of_nat (q mod 16 * 16 + r div 4) # of_nat (r mod 4 * 64 + s) # of_digits l"
| "of_digits [p, q, r] = [of_nat (p * 4 + q div 16), of_nat (q mod 16 * 16 + r div 4)]"
| "of_digits [p, q] = [of_nat (p * 4 + q div 16)]"
| "of_digits _ = []"

text \<open>What precedes the first \<open>=\<close>, with every other character that is no digit skipped.\<close>

definition from_base64 :: "string \<Rightarrow> bytes" where
  "from_base64 s = of_digits (List.map_filter b64_digit (takeWhile (\<lambda>c. c \<noteq> CHR ''='') s))"

section \<open>Splitting and joining\<close>

definition MAX_PARTS :: nat where "MAX_PARTS = 1024"

function slices :: "nat \<Rightarrow> string \<Rightarrow> string list" where
  "slices n s = (if s = [] \<or> n = 0 then [] else take n s # slices n (drop n s))"
  by auto
termination by (relation "measure (\<lambda>(n, s). length s)") auto

declare slices.simps [simp del]

text \<open>\<open>None\<close>: the frame fits as it is. \<open>Inl\<close>: the number of parts that would be needed (infinitely many for a
  limit of 0, which is refused too).\<close>

definition splitPayload :: "string \<Rightarrow> nat \<Rightarrow> nat + string list option" where
  "splitPayload json maxContent =
     (if length json \<le> maxContent then Inr None
      else let b64 = to_base64 (utf8 json); n = (length b64 + maxContent - 1) div maxContent
        in if maxContent = 0 \<or> n > MAX_PARTS then Inl n else Inr (Some (slices maxContent b64)))"

definition joinPayload :: "(bytes \<Rightarrow> string) \<Rightarrow> string list \<Rightarrow> string" where
  "joinPayload txt parts = txt (from_base64 (concat parts))"

section \<open>The reassembler\<close>

record partial =
  pt_total :: nat
  pt_parts :: "string option list"
  pt_have :: nat
  pt_bytes :: int
  pt_at :: int

record reassembler =
  ra_ttlMs :: int
  ra_maxPartialPerSender :: nat
  ra_maxBytes :: int
  ra_maxPartLen :: nat
  ra_bySender :: "(string, (string, partial) jsmap) jsmap"
  ra_done :: "(string, int) jsmap"
  ra_bytes :: int

record reassembler_options =
  ro_ttlMs :: "int option"
  ro_maxPartialPerSender :: "nat option"
  ro_maxBytes :: "int option"
  ro_maxPartLen :: "nat option"

definition newReassembler :: "reassembler_options \<Rightarrow> reassembler" where
  "newReassembler opts = \<lparr>ra_ttlMs = or_else (ro_ttlMs opts) 60000,
     ra_maxPartialPerSender = or_else (ro_maxPartialPerSender opts) 4,
     ra_maxBytes = or_else (ro_maxBytes opts) (8 * 1024 * 1024), ra_maxPartLen = or_else (ro_maxPartLen opts) (64 * 1024),
     ra_bySender = [], ra_done = [], ra_bytes = 0\<rparr>"

definition lookup_partial :: "reassembler \<Rightarrow> string \<Rightarrow> string \<Rightarrow> partial option" where
  "lookup_partial r sender i = Option.bind (map_of (ra_bySender r) sender) (\<lambda>msgs. map_of msgs i)"

definition drop_partial :: "string \<Rightarrow> string \<Rightarrow> partial \<Rightarrow> reassembler \<Rightarrow> reassembler" where
  "drop_partial sender i p r = (let r = r\<lparr>ra_bytes := ra_bytes r - pt_bytes p\<rparr> in
     case map_of (ra_bySender r) sender of None \<Rightarrow> r
     | Some msgs \<Rightarrow> let left = map_del i msgs in
         r\<lparr>ra_bySender := (if left = [] then map_del sender (ra_bySender r) else map_set sender left (ra_bySender r))\<rparr>)"

definition forget :: "string \<Rightarrow> string \<Rightarrow> reassembler \<Rightarrow> reassembler" where
  "forget sender i r = (case lookup_partial r sender i of None \<Rightarrow> r | Some p \<Rightarrow> drop_partial sender i p r)"

definition sweep_sender :: "int \<Rightarrow> string \<times> (string, partial) jsmap \<Rightarrow> reassembler \<Rightarrow> reassembler" where
  "sweep_sender now x r = (case x of (sender, msgs) \<Rightarrow>
     let r = fold (\<lambda>(i, p) r. if now - pt_at p > ra_ttlMs r then drop_partial sender i p r else r) msgs r
     in if map_of (ra_bySender r) sender = Some [] then r\<lparr>ra_bySender := map_del sender (ra_bySender r)\<rparr> else r)"

definition sweep :: "int \<Rightarrow> reassembler \<Rightarrow> reassembler" where
  "sweep now r = (let r = fold (sweep_sender now) (ra_bySender r) r;
       live = filter (\<lambda>(_, at). \<not> now - at > ra_ttlMs r) (ra_done r)
     in r\<lparr>ra_done := drop (length live - 4096) live\<rparr>)"

definition older :: "'k \<times> partial \<Rightarrow> ('k \<times> int) option \<Rightarrow> ('k \<times> int) option" where
  "older x acc = (case x of (k, p) \<Rightarrow> (case acc of None \<Rightarrow> Some (k, pt_at p)
     | Some (_, at) \<Rightarrow> if pt_at p < at then Some (k, pt_at p) else acc))"

definition evictOldestOf :: "string \<Rightarrow> reassembler \<Rightarrow> reassembler" where
  "evictOldestOf sender r = (case map_of (ra_bySender r) sender of None \<Rightarrow> r
     | Some msgs \<Rightarrow> (case fold older msgs None of None \<Rightarrow> r | Some (i, _) \<Rightarrow> forget sender i r))"

definition all_partials :: "reassembler \<Rightarrow> ((string \<times> string) \<times> partial) list" where
  "all_partials r = concat (map (\<lambda>(sender, msgs). map (\<lambda>(i, p). ((sender, i), p)) msgs) (ra_bySender r))"

definition evictOldest :: "reassembler \<Rightarrow> reassembler option" where
  "evictOldest r = (case fold older (all_partials r) None of None \<Rightarrow> None
     | Some ((sender, i), _) \<Rightarrow> Some (forget sender i r))"

definition pendingCount :: "reassembler \<Rightarrow> nat" where
  "pendingCount r = (\<Sum>(_, msgs) \<leftarrow> ra_bySender r. length msgs)"

definition bufferedBytes :: "reassembler \<Rightarrow> int" where
  "bufferedBytes r = ra_bytes r"

text \<open>The eviction loop; as many turns as there are partial messages are enough (\<open>shed_ends\<close>).\<close>

fun shed :: "nat \<Rightarrow> reassembler \<Rightarrow> reassembler" where
  "shed 0 r = r"
| "shed (Suc n) r = (if ra_bytes r > ra_maxBytes r then (case evictOldest r of None \<Rightarrow> r | Some r' \<Rightarrow> shed n r') else r)"

definition set_partial :: "string \<Rightarrow> string \<Rightarrow> partial \<Rightarrow> reassembler \<Rightarrow> reassembler" where
  "set_partial sender i p r = r\<lparr>ra_bySender := map_set sender (map_set i p (or_else (map_of (ra_bySender r) sender) [])) (ra_bySender r)\<rparr>"

definition put_part :: "nat \<Rightarrow> string \<Rightarrow> int \<Rightarrow> partial \<Rightarrow> partial" where
  "put_part index part now p = (if pt_parts p ! index = None
     then p\<lparr>pt_parts := (pt_parts p)[index := Some part], pt_have := pt_have p + 1, pt_bytes := pt_bytes p + int (length part), pt_at := now\<rparr>
     else p\<lparr>pt_at := now\<rparr>)"

definition done_key :: "string \<Rightarrow> string \<Rightarrow> string" where
  "done_key sender i = sender @ CHR ''|'' # i"

definition fresh_partial :: "nat \<Rightarrow> int \<Rightarrow> partial" where
  "fresh_partial tot now = \<lparr>pt_total = tot, pt_parts = replicate tot None, pt_have = 0, pt_bytes = 0, pt_at = now\<rparr>"

text \<open>The part of \<open>accept\<close> that finds or opens the message's partial.\<close>

definition open_partial :: "string \<Rightarrow> string \<Rightarrow> nat \<Rightarrow> int \<Rightarrow> reassembler \<Rightarrow> reassembler \<times> partial" where
  "open_partial sender i tot now r =
     (let r = (case lookup_partial r sender i of Some p \<Rightarrow> if pt_total p \<noteq> tot then forget sender i r else r | None \<Rightarrow> r)
      in case lookup_partial r sender i of
        Some p \<Rightarrow> (r, p)
      | None \<Rightarrow> let r = (if length (or_else (map_of (ra_bySender r) sender) []) \<ge> ra_maxPartialPerSender r
                        then evictOldestOf sender r else r);
                   p = fresh_partial tot now
               in (set_partial sender i p r, p))"

definition accept_part :: "(bytes \<Rightarrow> string) \<Rightarrow> string \<Rightarrow> string \<Rightarrow> nat \<Rightarrow> nat \<Rightarrow> string \<Rightarrow> int \<Rightarrow> reassembler \<Rightarrow> reassembler \<times> string option" where
  "accept_part txt sender i index tot part now r =
     (let r = sweep now r in
      if map_has (ra_done r) (done_key sender i) then (r, None)
      else case open_partial sender i tot now r of (r, p) \<Rightarrow>
        let q = put_part index part now p;
            r = set_partial sender i q (r\<lparr>ra_bytes := ra_bytes r + (pt_bytes q - pt_bytes p)\<rparr>);
            r = shed (pendingCount r) r
        in if lookup_partial r sender i = None then (r, None)
           else if pt_have q \<noteq> pt_total q then (r, None)
           else let payload = joinPayload txt (map (\<lambda>x. or_else x []) (pt_parts q));
                    r = forget sender i r
                in (r\<lparr>ra_done := map_set (done_key sender i) now (ra_done r)\<rparr>, Some payload))"

definition accept :: "(bytes \<Rightarrow> string) \<Rightarrow> string \<Rightarrow> string \<Rightarrow> int option \<Rightarrow> int option \<Rightarrow> string \<Rightarrow> int \<Rightarrow> reassembler \<Rightarrow> reassembler \<times> string option" where
  "accept txt sender i index tot part now r = (case (index, tot) of
     (Some x, Some n) \<Rightarrow>
       if n < 1 \<or> n > int MAX_PARTS then (r, None)
       else if x < 0 \<or> x \<ge> n then (r, None)
       else if length part > ra_maxPartLen r then (r, None)
       else accept_part txt sender i (nat x) (nat n) part now r
   | _ \<Rightarrow> (r, None))"

section \<open>Base64 is read back\<close>

lemma b64_digit_char: "n < 64 \<Longrightarrow> b64_digit (b64_char n) = Some n"
  by (auto simp: b64_digit_def b64_char_def Let_def)

lemma b64_char_pad: "n < 64 \<Longrightarrow> b64_char n \<noteq> CHR ''=''"
proof -
  have "b64_digit (CHR ''='') = None" by code_simp
  then show "n < 64 \<Longrightarrow> b64_char n \<noteq> CHR ''=''" using b64_digit_char[of n] by auto
qed

fun digits :: "nat list \<Rightarrow> nat list" where
  "digits (x # y # z # r) = x div 4 # (x mod 4 * 16 + y div 16) # (y mod 16 * 4 + z div 64) # z mod 64 # digits r"
| "digits [x, y] = [x div 4, x mod 4 * 16 + y div 16, y mod 16 * 4]"
| "digits [x] = [x div 4, x mod 4 * 16]"
| "digits [] = []"

lemma digits_bound: "\<forall>x \<in> set l. x < 256 \<Longrightarrow> \<forall>d \<in> set (digits l). d < 64"
  by (induction l rule: digits.induct) auto

lemma digits_joined: "\<forall>x \<in> set l. x < 256 \<Longrightarrow> of_digits (digits l) = map of_nat l"
proof (induction l rule: digits.induct)
  case (1 x y z r)
  then have l: "x < 256" "y < 256" "z < 256" by auto
  then have "x div 4 * 4 + (x mod 4 * 16 + y div 16) div 16 = x"
    "(x mod 4 * 16 + y div 16) mod 16 * 16 + (y mod 16 * 4 + z div 64) div 4 = y"
    "(y mod 16 * 4 + z div 64) mod 4 * 64 + z mod 64 = z" by auto
  with 1 show ?case by (simp only: digits.simps of_digits.simps list.map) simp
next
  case (2 x y)
  then have l: "x < 256" "y < 256" by auto
  then have "x div 4 * 4 + (x mod 4 * 16 + y div 16) div 16 = x"
    "(x mod 4 * 16 + y div 16) mod 16 * 16 + y mod 16 * 4 div 4 = y" by auto
  then show ?case by (simp only: digits.simps of_digits.simps list.map)
next
  case (3 x)
  then have "x div 4 * 4 + x mod 4 * 16 div 16 = x" by auto
  then show ?case by (simp only: digits.simps of_digits.simps list.map)
qed simp

lemma byte_bound: "unat (a :: 8 word) < 256"
proof -
  have "unat a < 2 ^ LENGTH(8)" by (rule unsigned_less)
  then show ?thesis by simp
qed

lemma base64_digits: "takeWhile (\<lambda>c. c \<noteq> CHR ''='') (to_base64 bs) = map b64_char (digits (map unat bs))"
proof (induction bs rule: to_base64.induct)
  case (1 a b c r)
  have "\<forall>d \<in> set (digits [unat a, unat b, unat c]). d < 64" by (rule digits_bound) (simp add: byte_bound)
  with 1 show ?case by (simp add: Let_def b64_char_pad)
next
  case (2 a b)
  have "\<forall>d \<in> set (digits [unat a, unat b]). d < 64" by (rule digits_bound) (simp add: byte_bound)
  then show ?case by (simp add: Let_def b64_char_pad)
next
  case (3 a)
  have "\<forall>d \<in> set (digits [unat a]). d < 64" by (rule digits_bound) (simp add: byte_bound)
  then show ?case by (simp add: Let_def b64_char_pad)
qed simp

lemma from_to_base64: "from_base64 (to_base64 bs) = bs"
proof -
  have b: "\<forall>x \<in> set (map unat bs). x < 256" by (simp add: byte_bound)
  have "List.map_filter b64_digit (map b64_char l) = l" if "\<forall>d \<in> set l. d < 64" for l
    using that by (induction l) (simp_all add: List.map_filter_simps b64_digit_char)
  with digits_bound[OF b] digits_joined[OF b] show ?thesis
    by (simp add: from_base64_def base64_digits comp_def)
qed

section \<open>Cutting\<close>

lemma concat_slices: "0 < n \<Longrightarrow> concat (slices n s) = s"
proof (induction n s rule: slices.induct)
  case (1 n s)
  then show ?case by (subst slices.simps) simp
qed

lemma slices_bound: "p \<in> set (slices n s) \<Longrightarrow> p \<noteq> [] \<and> length p \<le> n"
proof (induction n s rule: slices.induct)
  case (1 n s)
  then show ?case by (subst (asm) (2) slices.simps) (auto split: if_splits)
qed

lemma length_slices: "0 < n \<Longrightarrow> length (slices n s) = (length s + n - 1) div n"
proof (induction n s rule: slices.induct)
  case (1 n s)
  show ?case
  proof (cases "s = []")
    case True
    with 1 show ?thesis by (subst slices.simps) simp
  next
    case False
    with 1 have "length (slices n s) = Suc ((length s - n + n - 1) div n)" by (subst slices.simps) simp
    moreover have "Suc ((length s - n + n - 1) div n) = (length s + n - 1) div n"
    proof (cases "length s \<le> n")
      case True
      moreover have "(length s + n - 1) div n = 1"
        using True \<open>s \<noteq> []\<close> 1(2) by (cases s) (auto intro!: div_nat_eqI)
      ultimately show ?thesis using 1(2) by simp
    next
      case False
      then have e: "length s + n - 1 = (length s - n + n - 1) + n" by simp
      have "((length s - n + n - 1) + n) div n = Suc ((length s - n + n - 1) div n)"
        using 1(2) by (simp only: div_add_self2 neq0_conv)
      then show ?thesis by (simp only: e)
    qed
    ultimately show ?thesis by simp
  qed
qed

text \<open>Splitting loses nothing, and what it makes a receiver accepts.\<close>

lemma split_join:
  assumes "splitPayload json n = Inr (Some parts)" and "\<And>s. txt (utf8 s) = s"
  shows "joinPayload txt parts = json \<and> length parts \<le> MAX_PARTS \<and> (\<forall>p \<in> set parts. p \<noteq> [] \<and> length p \<le> n)
    \<and> length parts = (length (to_base64 (utf8 json)) + n - 1) div n"
proof -
  have n: "0 < n" "parts = slices n (to_base64 (utf8 json))" "(length (to_base64 (utf8 json)) + n - 1) div n \<le> MAX_PARTS"
    using assms(1) by (auto simp: splitPayload_def Let_def split: if_splits)
  then show ?thesis
    using assms(2) slices_bound[of _ n] by (auto simp: joinPayload_def concat_slices from_to_base64 length_slices)
qed

text \<open>A decoder of the UTF-8 of \<open>char\<close>s, for the examples.\<close>

fun latin1 :: "bytes \<Rightarrow> string" where
  "latin1 (a # b # r) = (if unat a < 128 then char_of (unat a) # latin1 (b # r)
     else char_of ((unat a - 192) * 64 + (unat b - 128)) # latin1 r)"
| "latin1 [a] = [char_of (unat a)]"
| "latin1 [] = []"

lemma latin1_utf8: "latin1 (utf8 s) = s"
proof (induction s)
  case (Cons c s)
  have n: "of_char c < (256 :: nat)" by simp
  show ?case
  proof (cases "of_char c < (128 :: nat)")
    case True
    then have c: "utf8 (c # s) = of_nat (of_char c) # utf8 s" by (simp add: utf8_def utf8_char_def Let_def)
    have "unat (of_nat (of_char c) :: 8 word) = of_char c" using True by (simp add: unat_of_nat)
    with c Cons True show ?thesis by (cases "utf8 s") simp_all
  next
    case False
    let ?a = "192 + of_char c div 64 :: nat" and ?b = "128 + of_char c mod 64 :: nat"
    have c: "utf8 (c # s) = of_nat ?a # of_nat ?b # utf8 s" using False by (simp add: utf8_def utf8_char_def Let_def)
    have u: "unat (of_nat m :: 8 word) = m" if "m < 256" for m
      using that by (simp only: unat_of_nat) simp
    have "of_char c div 64 < (4 :: nat)" using n by (intro less_mult_imp_div_less) simp
    then have "unat (of_nat ?a :: 8 word) = ?a" "unat (of_nat ?b :: 8 word) = ?b" by (intro u; simp)+
    with c Cons show ?thesis by simp
  qed
qed (simp add: utf8_def)

end
