(* ===== verification/Reassembly.thy ===== *)
theory Reassembly
  imports Chunk
begin

text \<open>
  What the reassembler of \<open>src/sync/chunk.ts\<close> keeps: its two-level map is a map from pairs of a sender and a
  message id (an instance of the maps of \<open>Prelude\<close>), its byte count is the sum over what is buffered, eviction
  ends, and a split frame is delivered exactly once however its parts arrive.
\<close>

context js_map
begin

lemma get_fold_del: "get (fold del ks m) k = (if k \<in> set ks then None else get m k)"
  by (induction ks arbitrary: m) (auto simp: get_del)

lemma invar_fold_del: "invar m \<Longrightarrow> invar (fold del ks m)"
  by (induction ks arbitrary: m) (auto intro: invar_del)

end

section \<open>A map of maps is a map\<close>

definition nested :: "('k, ('j, 'v) jsmap) jsmap \<Rightarrow> bool" where
  "nested m \<longleftrightarrow> distinct (keys m) \<and> (\<forall>l \<in> set (vals m). l \<noteq> [] \<and> distinct (keys l))"

abbreviation senders_ok :: "reassembler \<Rightarrow> bool" where
  "senders_ok r \<equiv> nested (ra_bySender r)"

abbreviation at_key :: "reassembler \<Rightarrow> string \<times> string \<Rightarrow> partial option" where
  "at_key r k \<equiv> lookup_partial r (fst k) (snd k)"

abbreviation forget_key :: "string \<times> string \<Rightarrow> reassembler \<Rightarrow> reassembler" where
  "forget_key k r \<equiv> forget (fst k) (snd k) r"

lemma nested_set:
  assumes "nested m" and "l \<noteq> []" "distinct (keys l)"
  shows "nested (map_set s l m)"
proof -
  have "set (vals (map_set s l m)) \<subseteq> insert l (set (vals m))" by (induction m) auto
  then have "\<forall>x \<in> set (vals (map_set s l m)). x \<noteq> [] \<and> distinct (keys x)"
    using assms unfolding nested_def by blast
  with assms(1) show ?thesis unfolding nested_def by (simp add: distinct_update)
qed

lemma nested_del: "nested m \<Longrightarrow> nested (map_del s m)"
  unfolding nested_def by (auto simp: distinct_delete[unfolded map_del_filter] map_del_filter distinct_keys_filter)

lemma nested_at: "nested m \<Longrightarrow> map_of m s = Some l \<Longrightarrow> l \<noteq> [] \<and> distinct (keys l)"
  unfolding nested_def by (force dest: map_of_SomeD)

lemma by_sender_forget:
  "ra_bySender (forget s i r) = (case map_of (ra_bySender r) s of None \<Rightarrow> ra_bySender r
     | Some l \<Rightarrow> if map_of l i = None then ra_bySender r
        else if map_del i l = [] then map_del s (ra_bySender r) else map_set s (map_del i l) (ra_bySender r))"
  by (simp add: forget_def lookup_partial_def drop_partial_def Let_def split: option.splits)

lemma forget_absent: "lookup_partial r s i = None \<Longrightarrow> forget s i r = r"
  by (simp add: forget_def)

lemma forget_drop: "lookup_partial r s i = Some p \<Longrightarrow> forget s i r = drop_partial s i p r"
  by (simp add: forget_def)

lemma forget_frame [simp]:
  "ra_ttlMs (forget s i r) = ra_ttlMs r" "ra_maxPartialPerSender (forget s i r) = ra_maxPartialPerSender r"
  "ra_maxBytes (forget s i r) = ra_maxBytes r" "ra_maxPartLen (forget s i r) = ra_maxPartLen r"
  "ra_done (forget s i r) = ra_done r"
  by (simp_all add: forget_def drop_partial_def Let_def split: option.splits)

lemma fold_forget_frame [simp]:
  "ra_ttlMs (fold forget_key ks r) = ra_ttlMs r" "ra_maxPartialPerSender (fold forget_key ks r) = ra_maxPartialPerSender r"
  "ra_maxBytes (fold forget_key ks r) = ra_maxBytes r" "ra_maxPartLen (fold forget_key ks r) = ra_maxPartLen r"
  "ra_done (fold forget_key ks r) = ra_done r"
  by (induction ks arbitrary: r) simp_all

lemma set_partial_frame [simp]:
  "ra_ttlMs (set_partial s i p r) = ra_ttlMs r" "ra_maxPartialPerSender (set_partial s i p r) = ra_maxPartialPerSender r"
  "ra_maxBytes (set_partial s i p r) = ra_maxBytes r" "ra_maxPartLen (set_partial s i p r) = ra_maxPartLen r"
  "ra_done (set_partial s i p r) = ra_done r" "ra_bytes (set_partial s i p r) = ra_bytes r"
  by (simp_all add: set_partial_def)

lemma at_key_set: "at_key (set_partial s i p r) k = (if k = (s, i) then Some p else at_key r k)"
  by (cases k) (auto simp: lookup_partial_def set_partial_def or_else_def update_conv' split: option.splits)

lemma at_key_forget: "at_key (forget s i r) k = (if k = (s, i) then None else at_key r k)"
proof -
  have "map_of l i' = None" if "map_del i l = []" "i' \<noteq> i" for l :: "(string, partial) jsmap" and i'
    using map_of_delete[of i l i'] that by simp
  then show ?thesis
    by (cases k) (auto simp: lookup_partial_def by_sender_forget update_conv' map_of_delete split: option.splits)
qed

lemma at_key_new: "at_key (newReassembler opts) k = None"
  by (simp add: lookup_partial_def newReassembler_def)

interpretation partials: js_map "newReassembler opts" at_key "\<lambda>k. set_partial (fst k) (snd k)" forget_key senders_ok
  for opts
proof unfold_locales
  fix r k and p :: partial
  assume ok: "senders_ok r"
  show "senders_ok (set_partial (fst k) (snd k) p r)"
    using ok unfolding set_partial_def or_else_def
    by (auto intro!: nested_set split: option.splits simp: distinct_update dest: nested_at)
  show "senders_ok (forget_key k r)"
    using ok unfolding by_sender_forget
    by (auto intro!: nested_set nested_del split: option.splits simp: distinct_delete dest: nested_at)
qed (simp_all add: at_key_set at_key_forget nested_def at_key_new, simp add: newReassembler_def)

section \<open>Totals over what is buffered\<close>

definition weight :: "(partial \<Rightarrow> int) \<Rightarrow> reassembler \<Rightarrow> int" where
  "weight f r = (\<Sum>(s, l) \<leftarrow> ra_bySender r. \<Sum>(i, p) \<leftarrow> l. f p)"

lemma sum_list_del_old:
  fixes f :: "'k \<Rightarrow> 'v \<Rightarrow> int"
  shows "distinct (keys m) \<Longrightarrow> map_of m k = Some v \<Longrightarrow> (\<Sum>(k, v) \<leftarrow> map_del k m. f k v) = (\<Sum>(k, v) \<leftarrow> m. f k v) - f k v"
proof (induction m)
  case (Cons x m)
  show ?case
  proof (cases "fst x = k")
    case True
    with Cons.prems(1) have "k \<notin> fst ` set m" by auto
    then have "map_del k m = m" by (simp add: delete_id)
    with Cons.prems(2) True show ?thesis by (cases x) simp
  qed (use Cons in \<open>auto split: prod.splits\<close>)
qed simp

lemma weight_set:
  assumes "senders_ok r"
  shows "weight f (set_partial s i p r) = weight f r - (case lookup_partial r s i of None \<Rightarrow> 0 | Some q \<Rightarrow> f q) + f p"
proof (cases "map_of (ra_bySender r) s")
  case None
  then show ?thesis
    by (simp add: weight_def set_partial_def lookup_partial_def or_else_def
      sum_list_set_new[of _ _ "\<lambda>_ l. \<Sum>(i, p) \<leftarrow> l. f p"])
next
  case (Some l)
  have d: "distinct (keys (ra_bySender r))" and l: "distinct (keys l)"
    using assms nested_at[OF assms Some] by (auto simp: nested_def)
  have "(\<Sum>(i, p) \<leftarrow> map_set i p l. f p) = (\<Sum>(i, p) \<leftarrow> l. f p) - (case map_of l i of None \<Rightarrow> 0 | Some q \<Rightarrow> f q) + f p"
    using sum_list_set_old[OF l, of i _ "\<lambda>_. f"] sum_list_set_new[of l i "\<lambda>_. f"] by (cases "map_of l i") auto
  with Some show ?thesis
    by (simp add: weight_def set_partial_def lookup_partial_def or_else_def
      sum_list_set_old[OF d Some, of "\<lambda>_ l. \<Sum>(i, p) \<leftarrow> l. f p"])
qed

lemma weight_forget:
  assumes "senders_ok r"
  shows "weight f (forget s i r) = weight f r - (case lookup_partial r s i of None \<Rightarrow> 0 | Some q \<Rightarrow> f q)"
proof (cases "lookup_partial r s i")
  case (Some q)
  then obtain l where l: "map_of (ra_bySender r) s = Some l" "map_of l i = Some q"
    by (auto simp: lookup_partial_def bind_eq_Some_conv)
  have d: "distinct (keys (ra_bySender r))" "distinct (keys l)"
    using assms nested_at[OF assms l(1)] by (auto simp: nested_def)
  note inner = sum_list_del_old[OF d(2) l(2), of "\<lambda>_. f"]
  show ?thesis
  proof (cases "map_del i l = []")
    case True
    with inner have "(\<Sum>(i, p) \<leftarrow> l. f p) = f q" by simp
    with True l Some show ?thesis
      by (simp add: weight_def by_sender_forget sum_list_del_old[OF d(1) l(1), of "\<lambda>_ l. \<Sum>(i, p) \<leftarrow> l. f p"])
  next
    case False
    with l Some inner show ?thesis
      by (simp add: weight_def by_sender_forget sum_list_set_old[OF d(1) l(1), of "\<lambda>_ l. \<Sum>(i, p) \<leftarrow> l. f p"])
  qed
qed (simp add: forget_absent)

lemma pendingCount_weight: "int (pendingCount r) = weight (\<lambda>_. 1) r"
proof -
  have "int (\<Sum>(s, l) \<leftarrow> m. length l) = (\<Sum>(s, l) \<leftarrow> m. \<Sum>(i, p) \<leftarrow> l. 1)" for m :: "(string, (string, partial) jsmap) jsmap"
  proof -
    have "(\<Sum>(i, p) \<leftarrow> l. 1 :: int) = int (length l)" for l :: "(string, partial) jsmap" by (induction l) auto
    then show ?thesis by (induction m) auto
  qed
  then show ?thesis by (simp add: pendingCount_def weight_def)
qed

lemma at_key_mem:
  assumes "senders_ok r"
  shows "lookup_partial r s i = Some p \<longleftrightarrow> ((s, i), p) \<in> set (all_partials r)"
proof
  assume "lookup_partial r s i = Some p"
  then show "((s, i), p) \<in> set (all_partials r)"
    by (force simp: lookup_partial_def bind_eq_Some_conv all_partials_def dest: map_of_SomeD)
next
  assume "((s, i), p) \<in> set (all_partials r)"
  then obtain l where l: "(s, l) \<in> set (ra_bySender r)" "(i, p) \<in> set l" by (auto simp: all_partials_def)
  with assms have "map_of (ra_bySender r) s = Some l" by (auto simp: nested_def)
  with nested_at[OF assms this] l(2) show "lookup_partial r s i = Some p" by (auto simp: lookup_partial_def)
qed

lemma weight_all: "weight f r = (\<Sum>x \<leftarrow> all_partials r. f (snd x))"
proof -
  have i: "(\<Sum>(i, p) \<leftarrow> l. f p) = sum_list (map ((\<lambda>x. f (snd x)) \<circ> (\<lambda>(i, p). ((s, i), p))) l)" for s and l :: "(string, partial) jsmap"
    by (induction l) auto
  have "(\<Sum>(s, l) \<leftarrow> m. \<Sum>(i, p) \<leftarrow> l. f p)
      = (\<Sum>x \<leftarrow> concat (map (\<lambda>(s, l). map (\<lambda>(i, p). ((s, i), p)) l) m). f (snd x))" for m :: "(string, (string, partial) jsmap) jsmap"
    by (induction m) (simp_all add: i split: prod.splits)
  then show ?thesis by (simp add: weight_def all_partials_def)
qed

section \<open>Eviction\<close>

lemma older_mem: "fold older l acc = Some (k, at) \<Longrightarrow> acc = Some (k, at) \<or> (\<exists>p. (k, p) \<in> set l)"
proof (induction l arbitrary: acc)
  case (Cons x l)
  have "older x acc = acc \<or> older x acc = Some (fst x, pt_at (snd x))"
    by (simp add: older_def split: prod.splits option.splits)
  moreover have "(fst x, snd x) = x" by simp
  ultimately show ?case using Cons.IH[of "older x acc"] Cons.prems by (metis fold_simps(2) list.set_intros option.inject prod.inject)
qed simp

lemma older_None: "fold older l acc = None \<longleftrightarrow> acc = None \<and> l = []"
proof (induction l arbitrary: acc)
  case (Cons x l)
  have "older x acc \<noteq> None" by (auto simp: older_def split: prod.splits option.splits)
  with Cons show ?case by simp
qed simp

lemma evictOldest_None: "evictOldest r = None \<longleftrightarrow> all_partials r = []"
  by (auto simp: evictOldest_def older_None split: option.splits)

lemma evictOldest_Some:
  assumes "senders_ok r" and "evictOldest r = Some r'"
  shows "\<exists>s i p. lookup_partial r s i = Some p \<and> r' = forget s i r"
proof -
  from assms(2) obtain s i at where o: "fold older (all_partials r) None = Some ((s, i), at)" "r' = forget s i r"
    by (auto simp: evictOldest_def split: option.splits prod.splits)
  from older_mem[OF o(1)] o(2) assms(1) show ?thesis by (auto simp: at_key_mem)
qed

lemma evictOldestOf_forgets: "evictOldestOf s r = r \<or> (\<exists>i. evictOldestOf s r = forget s i r)"
  by (auto simp: evictOldestOf_def split: option.splits)

lemma shed_forgets: "senders_ok r \<Longrightarrow> \<exists>ks. shed n r = fold forget_key ks r"
proof (induction n arbitrary: r)
  case (Suc n)
  show ?case
  proof (cases "ra_bytes r > ra_maxBytes r \<and> evictOldest r \<noteq> None")
    case True
    then obtain r' where r': "evictOldest r = Some r'" by auto
    with evictOldest_Some[OF Suc.prems r'] obtain s i where f: "r' = forget s i r" by auto
    with Suc.prems have "senders_ok r'" using partials.invar_del[of r "(s, i)"] by simp
    from Suc.IH[OF this] obtain ks where "shed n r' = fold forget_key ks r'" ..
    then have "shed (Suc n) r = fold forget_key ((s, i) # ks) r" using True r' f by simp
    then show ?thesis ..
  next
    case False
    then have "shed (Suc n) r = r" by auto
    then show ?thesis by (auto intro: exI[of _ "[]"])
  qed
qed (auto intro: exI[of _ "[]"])

lemma shed_ends:
  assumes "senders_ok r" and "pendingCount r \<le> n"
  shows "ra_bytes (shed n r) \<le> ra_maxBytes r \<or> all_partials (shed n r) = []"
  using assms
proof (induction n arbitrary: r)
  case 0
  then have "weight (\<lambda>_. 1) r = 0" using pendingCount_weight[of r] by simp
  then show ?case by (simp add: weight_all sum_list_triv)
next
  case (Suc n)
  show ?case
  proof (cases "ra_bytes r > ra_maxBytes r \<and> evictOldest r \<noteq> None")
    case True
    then obtain r' where r': "evictOldest r = Some r'" by auto
    with evictOldest_Some[OF Suc.prems(1) r'] obtain s i p
      where f: "lookup_partial r s i = Some p" "r' = forget s i r" by auto
    have ok: "senders_ok r'" using partials.invar_del[OF Suc.prems(1), of "(s, i)"] f by simp
    have "int (pendingCount r') = int (pendingCount r) - 1"
      using weight_forget[OF Suc.prems(1), of "\<lambda>_. 1" s i] f by (simp add: pendingCount_weight)
    with Suc.prems(2) have "pendingCount r' \<le> n" by simp
    from Suc.IH[OF ok this] True r' f(2) show ?thesis by simp
  next
    case False
    then have "shed (Suc n) r = r" by auto
    with False show ?thesis by (auto simp: evictOldest_None)
  qed
qed

section \<open>The books\<close>

definition parts_size :: "string option list \<Rightarrow> nat" where
  "parts_size ps = (\<Sum>x \<leftarrow> ps. length (or_else x []))"

definition partial_ok :: "nat \<Rightarrow> partial \<Rightarrow> bool" where
  "partial_ok m p \<longleftrightarrow> length (pt_parts p) = pt_total p \<and> 1 \<le> pt_total p \<and> pt_total p \<le> MAX_PARTS
     \<and> pt_have p = length (filter (\<lambda>x. x \<noteq> None) (pt_parts p)) \<and> pt_bytes p = int (parts_size (pt_parts p))
     \<and> (\<forall>x \<in> set (pt_parts p). length (or_else x []) \<le> m)"

definition sender_cap :: "reassembler \<Rightarrow> nat" where
  "sender_cap r = max 1 (ra_maxPartialPerSender r)"

definition books :: "reassembler \<Rightarrow> bool" where
  "books r \<longleftrightarrow> senders_ok r \<and> ra_bytes r = weight pt_bytes r
     \<and> (\<forall>(k, p) \<in> set (all_partials r). partial_ok (ra_maxPartLen r) p)
     \<and> (\<forall>(s, l) \<in> set (ra_bySender r). length l \<le> sender_cap r)"

lemma sender_cap_frame [simp]: "sender_cap (forget s i r) = sender_cap r" "sender_cap (set_partial s i p r) = sender_cap r"
  by (simp_all add: sender_cap_def)

lemma bytes_forget: "ra_bytes (forget s i r) = ra_bytes r - (case lookup_partial r s i of None \<Rightarrow> 0 | Some q \<Rightarrow> pt_bytes q)"
  by (simp add: forget_def drop_partial_def Let_def split: option.splits)

lemma books_at: "books r \<Longrightarrow> lookup_partial r s i = Some p \<Longrightarrow> partial_ok (ra_maxPartLen r) p"
  by (auto simp: books_def at_key_mem)

lemma length_del: "length (map_del k m) \<le> length m"
  by (simp add: map_del_filter)

lemma books_forget:
  assumes "books r"
  shows "books (forget s i r)"
proof -
  have ok: "senders_ok r" and ok': "senders_ok (forget s i r)"
    using assms partials.invar_del[of r "(s, i)"] by (auto simp: books_def)
  have sub: "(\<forall>(k, p) \<in> set (all_partials (forget s i r)). partial_ok (ra_maxPartLen r) p)"
  proof clarify
    fix s' i' p assume "((s', i'), p) \<in> set (all_partials (forget s i r))"
    then have "at_key (forget s i r) (s', i') = Some p" by (simp add: at_key_mem[OF ok'])
    then have "lookup_partial r s' i' = Some p" using at_key_forget[of s i r "(s', i')"] by (auto split: if_splits)
    then show "partial_ok (ra_maxPartLen r) p" using assms by (rule books_at[rotated])
  qed
  have cap: "\<forall>(s, l) \<in> set (ra_bySender r). length l \<le> sender_cap r" using assms by (simp add: books_def)
  have "length l \<le> sender_cap r" if "(s', l) \<in> set (ra_bySender (forget s i r))" for s' l
  proof -
    have "set (map_set s x m) \<subseteq> insert (s, x) (set m)" for x and m :: "(string, (string, partial) jsmap) jsmap"
      by (induction m) auto
    with that consider "(s', l) \<in> set (ra_bySender r)" | l0 where "map_of (ra_bySender r) s = Some l0" "l = map_del i l0"
      unfolding by_sender_forget by (auto split: option.splits if_splits simp: map_del_filter)
    then show ?thesis using cap by cases (auto dest!: map_of_SomeD intro: order_trans[OF length_del])
  qed
  with assms sub ok' weight_forget[OF ok, of pt_bytes s i] show ?thesis
    by (auto simp: books_def bytes_forget)
qed

lemma books_forgets: "books r \<Longrightarrow> books (fold forget_key ks r)"
  by (induction ks arbitrary: r) (auto intro: books_forget)

lemma books_done: "books (r\<lparr>ra_done := d\<rparr>) \<longleftrightarrow> books r"
  by (simp add: books_def weight_def all_partials_def sender_cap_def)

section \<open>Sweeping\<close>

definition stale_key :: "int \<Rightarrow> int \<Rightarrow> (string \<times> string) \<times> partial \<Rightarrow> bool" where
  "stale_key ttl now x \<longleftrightarrow> now - pt_at (snd x) > ttl"

lemma sweep_inner:
  assumes "distinct (keys l)" and "\<forall>(i, p) \<in> set l. lookup_partial r s i = Some p" and "ra_ttlMs r = ttl"
  shows "fold (\<lambda>(i, p) r. if now - pt_at p > ra_ttlMs r then drop_partial s i p r else r) l r
    = fold forget_key (map fst (filter (stale_key ttl now) (map (\<lambda>(i, p). ((s, i), p)) l))) r"
  using assms
proof (induction l arbitrary: r)
  case (Cons x l)
  obtain i p where x: "x = (i, p)" by (cases x)
  have p: "lookup_partial r s i = Some p" using Cons.prems(2) x by auto
  let ?r = "if now - pt_at p > ttl then forget s i r else r"
  have "\<forall>(i, p) \<in> set l. lookup_partial ?r s i = Some p"
  proof clarify
    fix i' p' assume m: "(i', p') \<in> set l"
    then have "i' \<noteq> i" using Cons.prems(1) x by force
    with m Cons.prems(2) show "lookup_partial ?r s i' = Some p'" using at_key_forget[of s i r "(s, i')"] by auto
  qed
  with Cons.IH[of ?r] Cons.prems x show ?case by (auto simp: stale_key_def forget_drop[OF p, symmetric])
qed simp

lemma by_sender_forgets_other:
  "\<forall>k \<in> set ks. fst k = s \<Longrightarrow> s' \<noteq> s \<Longrightarrow> map_of (ra_bySender (fold forget_key ks r)) s' = map_of (ra_bySender r) s'"
proof (induction ks arbitrary: r)
  case (Cons k ks)
  have "map_of (ra_bySender (forget s i r)) s' = map_of (ra_bySender r) s'" for i
    using Cons.prems(2) by (auto simp: by_sender_forget map_of_delete update_conv' split: option.splits)
  with Cons show ?case by simp
qed simp

lemma sweep_sender_forgets:
  assumes "senders_ok r" and "map_of (ra_bySender r) s = Some l" and "ra_ttlMs r = ttl"
  shows "sweep_sender now (s, l) r = fold forget_key (map fst (filter (stale_key ttl now) (map (\<lambda>(i, p). ((s, i), p)) l))) r"
proof -
  have l: "distinct (keys l)" using nested_at[OF assms(1,2)] by simp
  then have "\<forall>(i, p) \<in> set l. lookup_partial r s i = Some p" using assms(2) by (auto simp: lookup_partial_def)
  note e = sweep_inner[OF l this assms(3), of now]
  have "map_of (ra_bySender (fold forget_key ks r)) s \<noteq> Some []" for ks
    using nested_at[OF partials.invar_fold_del[OF assms(1), of ks], of s "[]"] by auto
  then show ?thesis by (simp add: sweep_sender_def e Let_def)
qed

lemma sweep_outer:
  assumes "senders_ok r" and "distinct (keys m)" and "\<forall>(s, l) \<in> set m. map_of (ra_bySender r) s = Some l" and "ra_ttlMs r = ttl"
  shows "fold (sweep_sender now) m r = fold forget_key (map fst (filter (stale_key ttl now)
    (concat (map (\<lambda>(s, l). map (\<lambda>(i, p). ((s, i), p)) l) m)))) r"
  using assms
proof (induction m arbitrary: r)
  case (Cons x m)
  obtain s l where x: "x = (s, l)" by (cases x)
  let ?ks = "map fst (filter (stale_key ttl now) (map (\<lambda>(i, p). ((s, i), p)) l))"
  have sw: "sweep_sender now x r = fold forget_key ?ks r"
    using Cons.prems sweep_sender_forgets[of r s l ttl now] x by auto
  have ks: "\<forall>k \<in> set ?ks. fst k = s" by auto
  have "senders_ok (fold forget_key ?ks r)" using Cons.prems(1) by (rule partials.invar_fold_del)
  moreover have "\<forall>(s', l') \<in> set m. map_of (ra_bySender (fold forget_key ?ks r)) s' = Some l'"
  proof clarify
    fix s' l' assume m: "(s', l') \<in> set m"
    then have "s' \<noteq> s" using Cons.prems(2) x by force
    with m Cons.prems(3) by_sender_forgets_other[OF ks] show "map_of (ra_bySender (fold forget_key ?ks r)) s' = Some l'" by auto
  qed
  ultimately show ?case using Cons.IH[of "fold forget_key ?ks r"] Cons.prems sw x by simp
qed simp

definition live_done :: "int \<Rightarrow> int \<Rightarrow> (string, int) jsmap \<Rightarrow> (string, int) jsmap" where
  "live_done ttl now d = (let l = filter (\<lambda>(_, at). \<not> now - at > ttl) d in drop (length l - 4096) l)"

lemma sweep_forgets:
  assumes "senders_ok r"
  shows "sweep now r = (fold forget_key (map fst (filter (stale_key (ra_ttlMs r) now) (all_partials r))) r)
    \<lparr>ra_done := live_done (ra_ttlMs r) now (ra_done r)\<rparr>"
proof -
  have "distinct (keys (ra_bySender r))" "\<forall>(s, l) \<in> set (ra_bySender r). map_of (ra_bySender r) s = Some l"
    using assms by (auto simp: nested_def)
  from sweep_outer[OF assms this refl] show ?thesis
    by (simp add: sweep_def live_done_def Let_def all_partials_def)
qed

lemma books_sweep: "books r \<Longrightarrow> books (sweep now r)"
  by (simp add: sweep_forgets[OF books_def[THEN iffD1, THEN conjunct1]] books_done books_forgets)

section \<open>Accepting keeps the books\<close>

lemma length_del_mem: "distinct (keys m) \<Longrightarrow> k \<in> set (keys m) \<Longrightarrow> length (map_del k m) = length m - 1"
proof (induction m)
  case (Cons x m)
  show ?case
  proof (cases "fst x = k")
    case True
    then have "map_del k m = m" using Cons.prems(1) by (auto intro: delete_id)
    with True show ?thesis by simp
  next
    case False
    with Cons have "length (map_del k m) = length m - 1" "m \<noteq> []" by auto
    with False show ?thesis by (cases m) auto
  qed
qed simp

lemma length_set: "length (map_set k v m) = (if map_of m k = None then length m + 1 else length m)"
  by (induction m) auto

definition of_sender :: "string \<Rightarrow> reassembler \<Rightarrow> (string, partial) jsmap" where
  "of_sender s r = or_else (map_of (ra_bySender r) s) []"

lemma lookup_of_sender: "lookup_partial r s i = map_of (of_sender s r) i"
  by (simp add: of_sender_def or_else_def lookup_partial_def split: option.splits)

lemma books_cap: "books r \<Longrightarrow> length (of_sender s r) \<le> sender_cap r"
  by (auto simp: books_def of_sender_def or_else_def sender_cap_def dest!: map_of_SomeD split: option.splits)

lemma books_senders: "books r \<Longrightarrow> senders_ok r"
  by (simp add: books_def)

lemma books_store:
  assumes b: "books r" and q: "partial_ok (ra_maxPartLen r) q"
    and cap: "lookup_partial r s i \<noteq> None \<or> length (of_sender s r) < sender_cap r"
    and n: "n = ra_bytes r - (case lookup_partial r s i of None \<Rightarrow> 0 | Some p \<Rightarrow> pt_bytes p) + pt_bytes q"
  shows "books (set_partial s i q (r\<lparr>ra_bytes := n\<rparr>))" (is "books ?r")
proof -
  let ?rb = "r\<lparr>ra_bytes := n\<rparr>"
  have ok: "senders_ok ?rb" using books_senders[OF b] by simp
  then have ok': "senders_ok ?r" using partials.invar_set[of ?rb "(s, i)" q] by simp
  have l0: "lookup_partial ?rb s' i' = lookup_partial r s' i'" for s' i' by (simp add: lookup_partial_def)
  have w0: "weight pt_bytes ?rb = weight pt_bytes r" by (simp add: weight_def)
  have "weight pt_bytes ?r = weight pt_bytes r - (case lookup_partial r s i of None \<Rightarrow> 0 | Some p \<Rightarrow> pt_bytes p) + pt_bytes q"
    by (simp only: weight_set[OF ok] l0 w0)
  moreover have "ra_bytes ?r = n" by simp
  ultimately have "ra_bytes ?r = weight pt_bytes ?r" using b n by (simp add: books_def)
  moreover have "\<forall>(k, p) \<in> set (all_partials ?r). partial_ok (ra_maxPartLen r) p"
  proof clarify
    fix s' i' p assume "((s', i'), p) \<in> set (all_partials ?r)"
    then have "at_key ?r (s', i') = Some p" by (simp add: at_key_mem[OF ok'])
    then have "p = q \<or> lookup_partial r s' i' = Some p" using at_key_set[of s i q ?rb "(s', i')"] by (auto simp: l0 split: if_splits)
    then show "partial_ok (ra_maxPartLen r) p" using q books_at[OF b] by auto
  qed
  moreover have "length l \<le> sender_cap r" if "(s', l) \<in> set (ra_bySender ?r)" for s' l
  proof -
    have "set (map_set s x m) \<subseteq> insert (s, x) (set m)" for x and m :: "(string, (string, partial) jsmap) jsmap"
      by (induction m) auto
    with that consider "(s', l) \<in> set (ra_bySender r)" | "l = map_set i q (of_sender s r)"
      by (auto simp: set_partial_def of_sender_def)
    then show ?thesis
    proof cases
      case 1
      then show ?thesis using b by (auto simp: books_def)
    next
      case 2
      then show ?thesis using cap books_cap[OF b, of s] by (auto simp: length_set lookup_of_sender)
    qed
  qed
  ultimately show ?thesis using ok' by (auto simp: books_def sender_cap_def)
qed

lemma evictOldestOf_shorter:
  assumes "books r"
  shows "length (of_sender s (evictOldestOf s r)) = length (of_sender s r) - 1"
proof (cases "map_of (ra_bySender r) s")
  case (Some l)
  note l = nested_at[OF books_senders[OF assms] Some]
  then obtain i at where o: "fold older l None = Some (i, at)" using older_None[of l None] by auto
  then have "i \<in> set (keys l)" using older_mem[OF o] by force
  with l have "length (map_del i l) = length l - 1" "map_of l i \<noteq> None"
    by (simp_all only: length_del_mem map_of_None_keys not_not)
  moreover have "evictOldestOf s r = forget s i r" using Some o by (simp add: evictOldestOf_def)
  ultimately show ?thesis using Some
    by (auto simp: of_sender_def or_else_def by_sender_forget map_of_delete update_conv')
qed (simp add: evictOldestOf_def of_sender_def or_else_def)

lemma books_evictOldestOf: "books r \<Longrightarrow> books (evictOldestOf s r)"
  using evictOldestOf_forgets[of s r] books_forget by metis

lemma fresh_ok: "1 \<le> tot \<Longrightarrow> tot \<le> MAX_PARTS \<Longrightarrow> partial_ok m (fresh_partial tot now)"
  by (simp add: partial_ok_def fresh_partial_def parts_size_def or_else_def sum_list_replicate)

lemma put_part_ok:
  assumes "partial_ok m p" and "index < pt_total p" and "length part \<le> m"
  shows "partial_ok m (put_part index part now p)"
proof (cases "pt_parts p ! index = None")
  case True
  have i: "index < length (pt_parts p)" using assms(1,2) by (simp add: partial_ok_def)
  define l where "l = take index (pt_parts p)"
  define r where "r = drop (Suc index) (pt_parts p)"
  have "pt_parts p = l @ None # r" "index = length l"
    using id_take_nth_drop[OF i] True i by (simp_all add: l_def r_def)
  with assms show ?thesis
    by (auto simp: partial_ok_def put_part_def parts_size_def or_else_def list_update_append)
next
  case False
  then have "put_part index part now p = p\<lparr>pt_at := now\<rparr>" by (auto simp: put_part_def)
  with assms(1) show ?thesis by (simp add: partial_ok_def)
qed

definition same_limits :: "reassembler \<Rightarrow> reassembler \<Rightarrow> bool" where
  "same_limits r r' \<longleftrightarrow> ra_ttlMs r' = ra_ttlMs r \<and> ra_maxPartialPerSender r' = ra_maxPartialPerSender r
     \<and> ra_maxBytes r' = ra_maxBytes r \<and> ra_maxPartLen r' = ra_maxPartLen r"

lemma open_partial_books:
  assumes b: "books r" and tot: "1 \<le> tot" "tot \<le> MAX_PARTS" and o: "open_partial s i tot now r = (r', p)"
  shows "books r' \<and> lookup_partial r' s i = Some p \<and> pt_total p = tot \<and> same_limits r r' \<and> ra_done r' = ra_done r"
proof -
  define r1 where "r1 = (case lookup_partial r s i of Some p \<Rightarrow> if pt_total p \<noteq> tot then forget s i r else r | None \<Rightarrow> r)"
  have b1: "books r1" using b books_forget by (auto simp: r1_def split: option.splits)
  have s1: "same_limits r r1" "ra_done r1 = ra_done r" by (auto simp: r1_def same_limits_def split: option.splits)
  show ?thesis
  proof (cases "lookup_partial r1 s i")
    case (Some q)
    have "pt_total q = tot"
    proof (rule ccontr)
      assume "pt_total q \<noteq> tot"
      with Some show False using at_key_forget[of s i r "(s, i)"] by (auto simp: r1_def split: option.splits if_splits)
    qed
    with Some o b1 s1 show ?thesis by (simp add: open_partial_def r1_def[symmetric])
  next
    case None
    define r2 where "r2 = (if ra_maxPartialPerSender r1 \<le> length (of_sender s r1) then evictOldestOf s r1 else r1)"
    have b2: "books r2" using b1 books_evictOldestOf by (simp add: r2_def)
    have f2: "r2 = r1 \<or> (\<exists>j. r2 = forget s j r1)" using evictOldestOf_forgets by (auto simp: r2_def)
    then have n2: "lookup_partial r2 s i = None" using None at_key_forget[of s _ r1 "(s, i)"] by auto
    have s2: "same_limits r1 r2" "ra_done r2 = ra_done r1" using f2 by (auto simp: same_limits_def)
    have "length (of_sender s r2) < sender_cap r2"
      using evictOldestOf_shorter[OF b1, of s] books_cap[OF b1, of s] s2
      by (auto simp: r2_def sender_cap_def same_limits_def)
    moreover have "ra_bytes r2 = ra_bytes r2 - (case lookup_partial r2 s i of None \<Rightarrow> 0 | Some p \<Rightarrow> pt_bytes p) + pt_bytes (fresh_partial tot now)"
      using n2 by (simp add: fresh_partial_def)
    ultimately have b3: "books (set_partial s i (fresh_partial tot now) r2)"
      using books_store[OF b2 fresh_ok[OF tot, of "ra_maxPartLen r2" now], of s i "ra_bytes r2"] by simp
    have "open_partial s i tot now r = (set_partial s i (fresh_partial tot now) r2, fresh_partial tot now)"
      using None by (simp add: open_partial_def r1_def[symmetric] r2_def of_sender_def Let_def)
    with o b3 s1 s2 at_key_set[of s i "fresh_partial tot now" r2 "(s, i)"] show ?thesis
      by (auto simp: same_limits_def fresh_partial_def)
  qed
qed

definition bounded :: "reassembler \<Rightarrow> bool" where
  "bounded r \<longleftrightarrow> books r \<and> ra_bytes r \<le> max 0 (ra_maxBytes r) \<and> length (ra_done r) \<le> 4097"

lemma bounded_forget:
  assumes "bounded r"
  shows "bounded (forget s i r)"
proof -
  have b: "books r" using assms by (simp add: bounded_def)
  have "0 \<le> (case lookup_partial r s i of None \<Rightarrow> 0 | Some q \<Rightarrow> pt_bytes q)"
    using books_at[OF b] by (auto simp: partial_ok_def split: option.splits)
  with assms books_forget[OF b] show ?thesis by (auto simp: bounded_def bytes_forget)
qed

lemma bounded_forgets: "bounded r \<Longrightarrow> bounded (fold forget_key ks r)"
  by (induction ks arbitrary: r) (auto intro: bounded_forget)

lemma accept_part_bounded:
  assumes b: "bounded r" and i: "index < tot" "tot \<le> MAX_PARTS" and m: "length part \<le> ra_maxPartLen r"
    and a: "accept_part txt s i index tot part now r = (r', out)"
  shows "bounded r' \<and> same_limits r r'"
proof -
  let ?r1 = "sweep now r"
  note sw = sweep_forgets[OF books_senders, of r now]
  have b1: "books ?r1" using b by (simp add: bounded_def books_sweep)
  have s1: "same_limits r ?r1" and d1: "length (ra_done ?r1) \<le> 4096"
    using b sw by (simp_all add: bounded_def same_limits_def live_done_def Let_def)
  have "ra_bytes (fold forget_key ks r) \<le> max 0 (ra_maxBytes r)" for ks
    using bounded_forgets[OF b, of ks] by (simp add: bounded_def)
  then have y1: "ra_bytes ?r1 \<le> max 0 (ra_maxBytes r)" using b sw by (simp add: bounded_def)
  show ?thesis
  proof (cases "map_has (ra_done ?r1) (done_key s i)")
    case True
    with a b1 s1 d1 y1 show ?thesis by (auto simp: accept_part_def Let_def bounded_def same_limits_def)
  next
    case False
    obtain r2 p where o: "open_partial s i tot now ?r1 = (r2, p)" by (cases "open_partial s i tot now ?r1")
    have tot: "1 \<le> tot" using i by simp
    note op = open_partial_books[OF b1 tot i(2) o]
    let ?q = "put_part index part now p"
    define r3 where "r3 = set_partial s i ?q (r2\<lparr>ra_bytes := ra_bytes r2 + (pt_bytes ?q - pt_bytes p)\<rparr>)"
    define r4 where "r4 = shed (pendingCount r3) r3"
    have "partial_ok (ra_maxPartLen r2) ?q"
      using books_at[of r2 s i p] op i m s1 by (intro put_part_ok) (auto simp: same_limits_def)
    then have b3: "books r3" unfolding r3_def by (rule books_store[rotated]) (use op in auto)
    obtain ks where f4: "r4 = fold forget_key ks r3" using shed_forgets[OF books_senders[OF b3]] r4_def by blast
    have b4: "books r4" using b3 f4 books_forgets by simp
    have "ra_bytes r4 \<le> ra_maxBytes r3 \<or> all_partials r4 = []"
      using shed_ends[OF books_senders[OF b3], of "pendingCount r3"] f4 unfolding r4_def[symmetric] by auto
    then have "ra_bytes r4 \<le> max 0 (ra_maxBytes r4)" using b4 f4 by (auto simp: books_def weight_all)
    moreover have d4: "length (ra_done r4) \<le> 4096" and s4: "same_limits r r4"
      using f4 op s1 d1 by (auto simp: r3_def same_limits_def)
    ultimately have 4: "bounded r4" using b4 by (simp add: bounded_def)
    have "(r', out) = (if lookup_partial r4 s i = None then (r4, None) else if pt_have ?q \<noteq> pt_total ?q then (r4, None)
       else ((forget s i r4)\<lparr>ra_done := map_set (done_key s i) now (ra_done r4)\<rparr>,
         Some (joinPayload txt (map (\<lambda>x. or_else x []) (pt_parts ?q)))))"
      using a False o unfolding accept_part_def r4_def r3_def by (simp add: Let_def cong: if_cong split del: if_split)
    then have "r' = r4 \<or> r' = (forget s i r4)\<lparr>ra_done := map_set (done_key s i) now (ra_done r4)\<rparr>"
      by (auto split: if_splits)
    then show ?thesis using 4 s4 d4 bounded_forget[OF 4, of s i]
      by (auto simp: bounded_def same_limits_def books_done length_set)
  qed
qed

section \<open>Many chunks\<close>

record chunk =
  ck_sender :: string
  ck_id :: string
  ck_index :: "int option"
  ck_total :: "int option"
  ck_part :: string
  ck_now :: int

fun receive :: "(bytes \<Rightarrow> string) \<Rightarrow> chunk list \<Rightarrow> reassembler \<Rightarrow> reassembler \<times> string list" where
  "receive txt [] r = (r, [])"
| "receive txt (c # cs) r = (case accept txt (ck_sender c) (ck_id c) (ck_index c) (ck_total c) (ck_part c) (ck_now c) r of
     (r', out) \<Rightarrow> (case receive txt cs r' of (r'', outs) \<Rightarrow> (r'', case out of None \<Rightarrow> outs | Some s \<Rightarrow> s # outs)))"

lemma accept_bounded:
  assumes "bounded r" and "accept txt s i x n part now r = (r', out)"
  shows "bounded r' \<and> same_limits r r'"
proof (cases "r' = r")
  case False
  with assms obtain x' n' where a: "x = Some x'" "n = Some n'" "n' \<le> int MAX_PARTS" "0 \<le> x'" "x' < n'"
    "length part \<le> ra_maxPartLen r" "accept_part txt s i (nat x') (nat n') part now r = (r', out)"
    by (auto simp: accept_def split: option.splits if_splits)
  show ?thesis by (rule accept_part_bounded[OF assms(1) _ _ a(6,7)]) (use a in auto)
qed (use assms in \<open>simp add: same_limits_def\<close>)

lemma receive_bounded: "bounded r \<Longrightarrow> receive txt cs r = (r', outs) \<Longrightarrow> bounded r' \<and> same_limits r r'"
proof (induction cs arbitrary: r outs)
  case (Cons c cs)
  obtain r1 out where a: "accept txt (ck_sender c) (ck_id c) (ck_index c) (ck_total c) (ck_part c) (ck_now c) r = (r1, out)"
    by fastforce
  obtain outs' where "receive txt cs r1 = (r', outs')" using Cons.prems(2) a by (auto split: prod.splits)
  with Cons.IH accept_bounded[OF Cons.prems(1) a] show ?case by (auto simp: same_limits_def)
qed (simp add: same_limits_def)

lemma bounded_new: "bounded (newReassembler opts)"
  by (simp add: bounded_def books_def newReassembler_def nested_def weight_def all_partials_def)

text \<open>C34: what a hostile peer can make a receiver buffer is bounded. Whatever chunks arrive, in whatever order, the
  byte count is the sum of the parts really held and never above \<open>maxBytes\<close>, no sender has more unfinished
  messages than the cap, no part is longer than \<open>maxPartLen\<close>, no message has more than \<open>MAX_PARTS\<close> parts, and the
  memory of finished messages stays below 4098 entries.\<close>

theorem reassembler_bounded:
  "let r0 = newReassembler opts in case receive txt cs r0 of (r, outs) \<Rightarrow>
     bufferedBytes r = (\<Sum>(k, p) \<leftarrow> all_partials r. \<Sum>x \<leftarrow> pt_parts p. int (length (or_else x [])))
     \<and> bufferedBytes r \<le> max 0 (ra_maxBytes r0)
     \<and> (\<forall>(s, l) \<in> set (ra_bySender r). length l \<le> max 1 (ra_maxPartialPerSender r0))
     \<and> (\<forall>(k, p) \<in> set (all_partials r). length (pt_parts p) \<le> MAX_PARTS
          \<and> (\<forall>x \<in> set (pt_parts p). length (or_else x []) \<le> ra_maxPartLen r0))
     \<and> length (ra_done r) \<le> 4097"
proof -
  define r0 where "r0 = newReassembler opts"
  obtain r outs where e: "receive txt cs r0 = (r, outs)" by fastforce
  from receive_bounded[OF bounded_new e[unfolded r0_def]]
  have b: "books r" "bounded r" and s: "same_limits r0 r" by (simp_all add: bounded_def r0_def)
  have ok: "\<forall>(k, p) \<in> set (all_partials r). partial_ok (ra_maxPartLen r) p" using b(1) by (simp add: books_def)
  have "int (sum_list (map (\<lambda>x. length (or_else x [])) l)) = (\<Sum>x \<leftarrow> l. int (length (or_else x [])))" for l :: "string option list"
    by (induction l) auto
  then have "map (\<lambda>x. pt_bytes (snd x)) (all_partials r) = map (\<lambda>(k, p). \<Sum>x \<leftarrow> pt_parts p. int (length (or_else x []))) (all_partials r)"
    using ok by (intro map_cong) (auto simp: partial_ok_def parts_size_def)
  then have "bufferedBytes r = (\<Sum>(k, p) \<leftarrow> all_partials r. \<Sum>x \<leftarrow> pt_parts p. int (length (or_else x [])))"
    using b(1) arg_cong[where f = sum_list] unfolding bufferedBytes_def books_def weight_all by metis
  then show ?thesis unfolding r0_def[symmetric] Let_def using b s ok e
    by (fastforce simp: bounded_def books_def sender_cap_def same_limits_def bufferedBytes_def partial_ok_def)
qed

section \<open>Delivery\<close>

definition part_chunk :: "string \<Rightarrow> string \<Rightarrow> string list \<Rightarrow> nat \<times> int \<Rightarrow> chunk" where
  "part_chunk s i ps xt = \<lparr>ck_sender = s, ck_id = i, ck_index = Some (int (fst xt)), ck_total = Some (int (length ps)),
     ck_part = ps ! fst xt, ck_now = snd xt\<rparr>"

lemma part_chunk_simps [simp]:
  "ck_sender (part_chunk s i ps (x, t)) = s" "ck_id (part_chunk s i ps (x, t)) = i"
  "ck_index (part_chunk s i ps (x, t)) = Some (int x)" "ck_total (part_chunk s i ps (x, t)) = Some (int (length ps))"
  "ck_part (part_chunk s i ps (x, t)) = ps ! x" "ck_now (part_chunk s i ps (x, t)) = t"
  by (simp_all add: part_chunk_def)

definition held :: "string list \<Rightarrow> nat set \<Rightarrow> string option list" where
  "held ps seen = map (\<lambda>k. if k \<in> seen then Some (ps ! k) else None) [0..<length ps]"

definition holding :: "string \<Rightarrow> string \<Rightarrow> string list \<Rightarrow> nat set \<Rightarrow> partial \<Rightarrow> reassembler \<Rightarrow> bool" where
  "holding s i ps seen p r \<longleftrightarrow> ra_done r = [] \<and> ra_bySender r = [(s, [(i, p)])] \<and> ra_bytes r = pt_bytes p
     \<and> pt_total p = length ps \<and> partial_ok (ra_maxPartLen r) p \<and> pt_parts p = held ps seen"

lemma held_put: "x < length ps \<Longrightarrow> (held ps seen)[x := Some (ps ! x)] = held ps (insert x seen)"
  by (rule nth_equalityI) (auto simp: held_def nth_list_update)

lemma held_nth: "x < length ps \<Longrightarrow> held ps seen ! x = (if x \<in> seen then Some (ps ! x) else None)"
  by (simp add: held_def)

lemma held_full: "length (filter (\<lambda>x. x \<noteq> None) (held ps seen)) = length ps \<longleftrightarrow> {..<length ps} \<subseteq> seen"
proof -
  have "length (filter (\<lambda>x. x \<noteq> None) l) = length l \<longleftrightarrow> (\<forall>x \<in> set l. x \<noteq> None)" for l :: "string option list"
    by (metis (mono_tags, lifting) filter_True length_filter_less less_irrefl)
  from this[of "held ps seen"] show ?thesis by (auto simp: held_def)
qed

lemma held_all: "{..<length ps} \<subseteq> seen \<Longrightarrow> map (\<lambda>x. or_else x []) (held ps seen) = ps"
  by (rule nth_equalityI) (auto simp: held_def or_else_def)

lemma held_size: "parts_size (held ps seen) \<le> length (concat ps)"
proof -
  have "parts_size (held ps seen) \<le> (\<Sum>k \<leftarrow> [0..<length ps]. length (ps ! k))"
    unfolding parts_size_def held_def map_map by (rule sum_list_mono) (auto simp: or_else_def)
  also have "(\<Sum>k \<leftarrow> [0..<length ps]. length (ps ! k)) = length (concat ps)"
    unfolding length_concat by (rule arg_cong[where f = sum_list]) (rule nth_equalityI, auto)
  finally show ?thesis .
qed

lemma open_fresh:
  assumes "ra_bySender r = []" "ra_bytes r = 0" "ra_done r = []" and "0 < length ps" "length ps \<le> MAX_PARTS"
  shows "holding s i ps {} (fresh_partial (length ps) t) (fst (open_partial s i (length ps) t r))
    \<and> snd (open_partial s i (length ps) t r) = fresh_partial (length ps) t
    \<and> same_limits r (fst (open_partial s i (length ps) t r))"
proof -
  have "held ps {} = replicate (length ps) None" by (simp add: held_def map_replicate_const)
  moreover have "partial_ok (ra_maxPartLen r) (fresh_partial (length ps) t)" using assms(4,5) by (intro fresh_ok) linarith+
  ultimately show ?thesis using assms
    by (simp add: open_partial_def lookup_partial_def holding_def Let_def or_else_def evictOldestOf_def set_partial_def
      fresh_partial_def same_limits_def)
qed

lemma sweep_empty: "ra_bySender r = [] \<Longrightarrow> ra_done r = [] \<Longrightarrow> sweep t r = r"
  by (simp add: sweep_def)

lemma sweep_holding:
  assumes "holding s i ps seen p r" and "t - pt_at p \<le> ra_ttlMs r"
  shows "sweep t r = r"
  using assms by (simp add: sweep_def sweep_sender_def holding_def)

lemma open_holding: "holding s i ps seen p r \<Longrightarrow> open_partial s i (length ps) t r = (r, p)"
  by (simp add: open_partial_def lookup_partial_def holding_def)

lemma shed_fits: "ra_bytes r \<le> ra_maxBytes r \<Longrightarrow> shed n r = r"
  by (cases n) simp_all

lemma put_holding:
  assumes h: "holding s i ps seen p r" and x: "x < length ps" and m: "length (ps ! x) \<le> ra_maxPartLen r"
    and q_def: "q = put_part x (ps ! x) t p"
  shows "holding s i ps (insert x seen) q (set_partial s i q (r\<lparr>ra_bytes := ra_bytes r + (pt_bytes q - pt_bytes p)\<rparr>)) \<and> pt_at q = t"
proof -
  from h have p: "ra_done r = []" "ra_bySender r = [(s, [(i, p)])]" "ra_bytes r = pt_bytes p" "pt_total p = length ps"
    "partial_ok (ra_maxPartLen r) p" "pt_parts p = held ps seen" by (auto simp: holding_def)
  have "pt_parts q = held ps (insert x seen)" "pt_at q = t" "pt_total q = pt_total p"
    using p held_nth[OF x, of seen] by (auto simp: q_def put_part_def held_put[OF x] insert_absorb)
  moreover have "partial_ok (ra_maxPartLen r) q" unfolding q_def using put_part_ok[OF p(5)] x m p(4) by simp
  ultimately show ?thesis using p by (simp add: holding_def set_partial_def or_else_def)
qed

text \<open>One chunk of the message: it is kept, and the last missing one delivers.\<close>

definition delivered :: "string \<Rightarrow> string \<Rightarrow> int \<Rightarrow> reassembler \<Rightarrow> bool" where
  "delivered s i t r \<longleftrightarrow> ra_bySender r = [] \<and> ra_bytes r = 0 \<and> ra_done r = [(done_key s i, t)]"

lemma accept_holding:
  assumes h: "holding s i ps seen p r" and x: "x < length ps" and m: "length (ps ! x) \<le> ra_maxPartLen r"
    and sz: "int (length (concat ps)) \<le> ra_maxBytes r"
    and sw: "sweep t r0 = r1" "ra_done r1 = []" and o: "open_partial s i (length ps) t r1 = (r, p)"
    and a: "accept_part txt s i x (length ps) (ps ! x) t r0 = (r', out)"
  shows "same_limits r r' \<and> (if {..<length ps} \<subseteq> insert x seen then delivered s i t r' \<and> out = Some (joinPayload txt ps)
    else out = None \<and> (\<exists>q. holding s i ps (insert x seen) q r' \<and> pt_at q = t))"
proof -
  let ?q = "put_part x (ps ! x) t p"
  define r3 where "r3 = set_partial s i ?q (r\<lparr>ra_bytes := ra_bytes r + (pt_bytes ?q - pt_bytes p)\<rparr>)"
  have h3: "holding s i ps (insert x seen) ?q r3" "pt_at ?q = t" using put_holding[OF h x m refl, of t] by (simp_all add: r3_def)
  have l3: "same_limits r r3" by (simp add: r3_def same_limits_def)
  have "ra_bytes r3 \<le> ra_maxBytes r3"
    using h3 l3 sz held_size[of ps "insert x seen"] by (simp add: holding_def partial_ok_def same_limits_def)
  then have "shed (pendingCount r3) r3 = r3" by (rule shed_fits)
  then have e: "(r', out) = (if lookup_partial r3 s i = None then (r3, None) else if pt_have ?q \<noteq> pt_total ?q then (r3, None)
       else ((forget s i r3)\<lparr>ra_done := map_set (done_key s i) t (ra_done r3)\<rparr>,
         Some (joinPayload txt (map (\<lambda>x. or_else x []) (pt_parts ?q)))))"
    using a sw o unfolding accept_part_def by (simp add: Let_def map_has_def r3_def[symmetric] cong: if_cong split del: if_split)
  have l: "lookup_partial r3 s i = Some ?q" using h3 by (simp add: holding_def lookup_partial_def)
  have f: "pt_have ?q = pt_total ?q \<longleftrightarrow> {..<length ps} \<subseteq> insert x seen"
    using h3 held_full[of ps "insert x seen"] by (auto simp: holding_def partial_ok_def)
  show ?thesis
  proof (cases "{..<length ps} \<subseteq> insert x seen")
    case True
    then have "map (\<lambda>x. or_else x []) (pt_parts ?q) = ps" using h3 by (simp add: holding_def held_all)
    with True e l f h3 l3 show ?thesis
      by (simp add: delivered_def by_sender_forget holding_def bytes_forget same_limits_def)
  next
    case False
    with e l f h3 l3 show ?thesis by auto
  qed
qed

definition collecting :: "string \<Rightarrow> string \<Rightarrow> string list \<Rightarrow> nat set \<Rightarrow> int \<Rightarrow> reassembler \<Rightarrow> bool" where
  "collecting s i ps seen lo r \<longleftrightarrow> (seen = {} \<and> ra_bySender r = [] \<and> ra_bytes r = 0 \<and> ra_done r = [])
     \<or> (\<exists>p. holding s i ps seen p r \<and> lo \<le> pt_at p)"

definition fits :: "string list \<Rightarrow> reassembler \<Rightarrow> bool" where
  "fits ps r \<longleftrightarrow> 0 < length ps \<and> length ps \<le> MAX_PARTS \<and> (\<forall>p \<in> set ps. length p \<le> ra_maxPartLen r)
     \<and> int (length (concat ps)) \<le> ra_maxBytes r"

lemma fits_same: "fits ps r \<Longrightarrow> same_limits r r' \<Longrightarrow> fits ps r'"
  by (simp add: fits_def same_limits_def)

lemma accept_chunk:
  assumes "fits ps r" and "x < length ps"
  shows "accept txt s i (Some (int x)) (Some (int (length ps))) (ps ! x) t r = accept_part txt s i x (length ps) (ps ! x) t r"
proof -
  have "ps ! x \<in> set ps" using assms(2) by simp
  moreover have "\<forall>p \<in> set ps. length p \<le> ra_maxPartLen r" using assms(1) by (simp add: fits_def)
  ultimately have "\<not> length (ps ! x) > ra_maxPartLen r" by (metis not_le)
  with assms show ?thesis by (auto simp: accept_def fits_def)
qed

lemma accept_collecting:
  assumes c: "collecting s i ps seen lo r" and fit: "fits ps r" and x: "x < length ps"
    and t: "lo \<le> t" "t \<le> lo + ra_ttlMs r"
    and a: "accept_part txt s i x (length ps) (ps ! x) t r = (r', out)"
  shows "same_limits r r' \<and> (if {..<length ps} \<subseteq> insert x seen then delivered s i t r' \<and> out = Some (joinPayload txt ps)
    else out = None \<and> collecting s i ps (insert x seen) lo r')"
proof -
  have m: "length (ps ! x) \<le> ra_maxPartLen r" and sz: "int (length (concat ps)) \<le> ra_maxBytes r"
    using fit x by (auto simp: fits_def)
  obtain r2 p where h: "holding s i ps seen p r2" "same_limits r r2"
    and sw: "sweep t r = r" "ra_done r = []" and o: "open_partial s i (length ps) t r = (r2, p)"
  proof (cases "\<exists>p. holding s i ps seen p r \<and> lo \<le> pt_at p")
    case True
    then obtain p where p: "holding s i ps seen p r" "lo \<le> pt_at p" by auto
    have "sweep t r = r" using p t by (intro sweep_holding[OF p(1)]) simp
    with that[of p r] p open_holding[OF p(1)] show thesis by (simp add: same_limits_def holding_def)
  next
    case False
    with c have e: "seen = {}" "ra_bySender r = []" "ra_bytes r = 0" "ra_done r = []" by (auto simp: collecting_def)
    have "open_partial s i (length ps) t r = (fst (open_partial s i (length ps) t r), fresh_partial (length ps) t)"
      using open_fresh[OF e(2-4), of ps s i t] fit by (simp add: fits_def prod_eq_iff)
    with that[OF _ _ sweep_empty[OF e(2,4)] e(4)] open_fresh[OF e(2-4), of ps s i t] fit e(1)
    show thesis by (auto simp: fits_def)
  qed
  have "length (ps ! x) \<le> ra_maxPartLen r2" "int (length (concat ps)) \<le> ra_maxBytes r2"
    using m sz h(2) by (simp_all add: same_limits_def)
  from accept_holding[OF h(1) x this sw o a] h(2) t(1) show ?thesis
    by (auto simp: collecting_def same_limits_def split: if_splits)
qed

lemma delivered_ignores:
  assumes "delivered s i t0 r" and "t - t0 \<le> ra_ttlMs r"
  shows "accept_part txt s i x n part t r = (r, None)"
proof -
  have "sweep t r = r" using assms by (simp add: sweep_def delivered_def)
  then show ?thesis using assms by (simp add: accept_part_def delivered_def map_has_def)
qed

lemma receive_delivered:
  assumes "delivered s i t0 r" "fits ps r" and "\<forall>(x, t) \<in> set xs. x < length ps \<and> t - t0 \<le> ra_ttlMs r"
  shows "receive txt (map (part_chunk s i ps) xs) r = (r, [])"
  using assms(3)
proof (induction xs)
  case (Cons y xs)
  obtain x t where y: "y = (x, t)" by (cases y)
  with Cons.prems have "x < length ps" "t - t0 \<le> ra_ttlMs r" by auto
  with y Cons assms accept_chunk[OF assms(2) this(1)] delivered_ignores[OF assms(1)] show ?case
    by simp
qed simp

lemma receive_collecting:
  assumes "collecting s i ps seen lo r" "fits ps r" and "\<not> {..<length ps} \<subseteq> seen" "{..<length ps} \<subseteq> seen \<union> fst ` set xs"
    and "\<forall>(x, t) \<in> set xs. x < length ps \<and> lo \<le> t \<and> t \<le> lo + ra_ttlMs r"
  shows "\<exists>t r'. receive txt (map (part_chunk s i ps) xs) r = (r', [joinPayload txt ps]) \<and> delivered s i t r'"
  using assms
proof (induction xs arbitrary: r seen)
  case (Cons y xs)
  obtain x t where y: "y = (x, t)" by (cases y)
  with Cons.prems(5) have x: "x < length ps" "lo \<le> t" "t \<le> lo + ra_ttlMs r" by auto
  obtain r1 out where a: "accept_part txt s i x (length ps) (ps ! x) t r = (r1, out)" by fastforce
  note ac = accept_collecting[OF Cons.prems(1,2) x a]
  note e = accept_chunk[OF Cons.prems(2) x(1), of "txt" s i t, unfolded a]
  have fit1: "fits ps r1" using ac fits_same[OF Cons.prems(2)] by simp
  show ?case
  proof (cases "{..<length ps} \<subseteq> insert x seen")
    case True
    with ac have d: "delivered s i t r1" "out = Some (joinPayload txt ps)" by simp_all
    have "\<forall>(x, u) \<in> set xs. x < length ps \<and> u - t \<le> ra_ttlMs r1"
      using Cons.prems(5) ac x(2) by (fastforce simp: same_limits_def)
    from receive_delivered[OF d(1) fit1 this, of "txt"] d e y show ?thesis
      by auto
  next
    case False
    with ac have d: "out = None" "collecting s i ps (insert x seen) lo r1" by simp_all
    from Cons.IH[OF d(2) fit1 False] obtain u r' where
      "receive txt (map (part_chunk s i ps) xs) r1 = (r', [joinPayload txt ps])" "delivered s i u r'"
      using Cons.prems(4,5) y ac by (auto simp: same_limits_def)
    with d e y show ?thesis by auto
  qed
qed simp

text \<open>C33: a frame split for the relays reaches the other side whole and once. Whatever the order its parts arrive
  in and however often each of them does, as long as every part arrives within the receiver's \<open>ttlMs\<close> and the
  frame is within its limits, the receiver hands on exactly the frame, exactly once, and holds nothing
  afterwards.\<close>

theorem chunks_delivered:
  assumes "splitPayload json n = Inr (Some parts)" and "\<And>s. txt (utf8 s) = s"
    and "n \<le> ra_maxPartLen r0" "int (length (to_base64 (utf8 json))) \<le> ra_maxBytes r0" and "r0 = newReassembler opts"
    and "fst ` set arrivals = {..<length parts}" and "\<forall>(x, t) \<in> set arrivals. t0 \<le> t \<and> t \<le> t0 + ra_ttlMs r0"
  shows "\<exists>r. receive txt (map (part_chunk s i parts) arrivals) r0 = (r, [json]) \<and> bufferedBytes r = 0 \<and> pendingCount r = 0"
proof -
  have n: "0 < n" "parts = slices n (to_base64 (utf8 json))" "(length (to_base64 (utf8 json)) + n - 1) div n \<le> MAX_PARTS" "length json > n"
    using assms(1) by (auto simp: splitPayload_def Let_def split: if_splits)
  have parts: "concat parts = to_base64 (utf8 json)" "\<forall>p \<in> set parts. length p \<le> n" "length parts \<le> MAX_PARTS"
    using n slices_bound[of _ n] by (auto simp: concat_slices length_slices)
  have j: "joinPayload txt parts = json" using parts(1) assms(2) by (simp add: joinPayload_def from_to_base64)
  have ne: "parts \<noteq> []"
  proof
    assume "parts = []"
    then have "utf8 json = []" using parts(1) from_to_base64[of "utf8 json"] from_to_base64[of "[]"] by simp
    moreover have "utf8 [] = []" by (simp add: utf8_def)
    ultimately have "json = txt (utf8 [])" using assms(2)[of json] by simp
    then show False using assms(2)[of "[]"] n by simp
  qed
  have c: "collecting s i parts {} t0 r0" using assms(5) by (simp add: collecting_def newReassembler_def)
  have f: "fits parts r0" using parts ne assms(3,4) by (auto simp: fits_def)
  have w: "\<forall>(x, t) \<in> set arrivals. x < length parts \<and> t0 \<le> t \<and> t \<le> t0 + ra_ttlMs r0"
    using assms(6,7) by force
  have "\<not> {..<length parts} \<subseteq> {}" using ne by (auto simp: lessThan_def)
  from receive_collecting[OF c f this _ w, of "txt"] assms(6) j show ?thesis
    by (auto simp: delivered_def bufferedBytes_def pendingCount_def)
qed

definition default_options :: reassembler_options where
  "default_options = \<lparr>ro_ttlMs = None, ro_maxPartialPerSender = None, ro_maxBytes = None, ro_maxPartLen = None\<rparr>"

lemma ex_split: "splitPayload ''hello'' 3 = Inr (Some [''aGV'', ''sbG'', ''8=''])"
  by code_simp

theorem chunks_delivered_witness:
  "\<exists>r. receive latin1 (map (part_chunk ''a'' ''m'' [''aGV'', ''sbG'', ''8='']) [(2, 5), (0, 7), (2, 7), (1, 9), (0, 9)])
      (newReassembler default_options) = (r, [''hello'']) \<and> bufferedBytes r = 0 \<and> pendingCount r = 0"
proof (rule chunks_delivered[OF ex_split latin1_utf8 _ _ refl, where ?t0.0 = 5])
  show "fst ` set [(2 :: nat, 5 :: int), (0, 7), (2, 7), (1, 9), (0, 9)] = {..<length [''aGV'', ''sbG'', ''8='']}"
    by (auto simp: lessThan_def)
qed (simp_all add: newReassembler_def default_options_def or_else_def utf8_def utf8_char_def Let_def)

section \<open>Messages that weigh nothing\<close>

lemma sweep_quiet:
  assumes "senders_ok r" and "\<forall>(k, p) \<in> set (all_partials r). now - pt_at p \<le> ra_ttlMs r" and "ra_done r = []"
  shows "sweep now r = r"
proof -
  have "filter (stale_key (ra_ttlMs r) now) (all_partials r) = []"
    using assms(2) by (auto simp: filter_empty_conv stale_key_def)
  with assms show ?thesis by (cases r) (simp add: sweep_forgets live_done_def)
qed

definition empty_chunk :: "nat \<Rightarrow> chunk" where
  "empty_chunk k = \<lparr>ck_sender = replicate k CHR ''a'', ck_id = ''m'', ck_index = Some 0, ck_total = Some (int MAX_PARTS), ck_part = [], ck_now = 0\<rparr>"

definition weightless :: partial where
  "weightless = put_part 0 [] 0 (fresh_partial MAX_PARTS 0)"

lemma receive_append:
  "receive txt (cs @ ds) r = (case receive txt cs r of (r', outs) \<Rightarrow> (case receive txt ds r' of (r'', outs') \<Rightarrow> (r'', outs @ outs')))"
  by (induction cs arbitrary: r) (auto split: prod.splits option.splits)

lemma weightless_simps: "pt_bytes weightless = 0" "pt_at weightless = 0" "pt_have weightless \<noteq> pt_total weightless"
  "pt_bytes (fresh_partial n t) = 0"
  by (simp_all add: weightless_def put_part_def fresh_partial_def MAX_PARTS_def)

lemma set_last: "k \<notin> set (keys m) \<Longrightarrow> map_set k w (m @ [(k, v)]) = m @ [(k, w)]"
  by (induction m) auto

lemma store_last:
  assumes "s \<notin> set (keys (ra_bySender r))"
  shows "set_partial s i w ((set_partial s i q r)\<lparr>ra_bytes := b\<rparr>) = r\<lparr>ra_bySender := ra_bySender r @ [(s, [(i, w)])], ra_bytes := b\<rparr>"
proof -
  have n: "map_of (ra_bySender r) s = None" using assms by (simp add: map_of_eq_None_iff)
  then have "map_of (ra_bySender r @ [(s, v)]) s = Some v" for v by (simp add: map_add_def)
  with n show ?thesis using assms by (simp add: set_partial_def or_else_def keys_set_new set_last)
qed

lemma accept_weightless:
  assumes b: "bounded r" and r: "ra_bySender r = map (\<lambda>k. (replicate k CHR ''a'', [(''m'', weightless)])) [0..<n]"
    "ra_bytes r = 0" "ra_done r = []" "0 \<le> ra_maxBytes r" "0 \<le> ra_ttlMs r" "0 < ra_maxPartialPerSender r"
  shows "accept txt (replicate n CHR ''a'') ''m'' (Some 0) (Some (int MAX_PARTS)) [] 0 r
    = (r\<lparr>ra_bySender := map (\<lambda>k. (replicate k CHR ''a'', [(''m'', weightless)])) [0..<Suc n]\<rparr>, None)"
proof -
  let ?s = "replicate n CHR ''a''"
  have sw: "sweep 0 r = r"
    using b r by (intro sweep_quiet) (auto simp: bounded_def books_def all_partials_def weightless_simps)
  have new: "?s \<notin> set (keys (ra_bySender r))" unfolding r(1) by auto
  then have none: "map_of (ra_bySender r) ?s = None" by (simp add: map_of_eq_None_iff)
  then have o: "open_partial ?s ''m'' MAX_PARTS 0 r = (set_partial ?s ''m'' (fresh_partial MAX_PARTS 0) r, fresh_partial MAX_PARTS 0)"
    using r(6) none by (simp add: open_partial_def lookup_partial_def or_else_def Let_def)
  define r3 where "r3 = r\<lparr>ra_bySender := map (\<lambda>k. (replicate k CHR ''a'', [(''m'', weightless)])) [0..<Suc n]\<rparr>"
  have e: "r\<lparr>ra_bySender := x, ra_bytes := 0\<rparr> = r\<lparr>ra_bySender := x\<rparr>" for x using r(2) by (cases r) simp
  have "set_partial ?s ''m'' weightless ((set_partial ?s ''m'' (fresh_partial MAX_PARTS 0) r)\<lparr>ra_bytes := 0\<rparr>) = r3"
    using store_last[OF new, where i = "''m''" and w = weightless and q = "fresh_partial MAX_PARTS 0" and b = 0] by (simp add: e r3_def r(1))
  moreover have "shed m r3 = r3" for m using r by (intro shed_fits) (simp add: r3_def)
  moreover have "0 \<le> ra_maxPartLen r" by simp
  ultimately have "accept_part txt ?s ''m'' 0 MAX_PARTS [] 0 r = (r3, None)"
    using r weightless_simps
    by (simp add: accept_part_def sw Let_def map_has_def o weightless_def[symmetric])
  then show ?thesis by (simp add: accept_def r3_def MAX_PARTS_def)
qed

lemma receive_weightless:
  "receive txt (map empty_chunk [0..<n]) (newReassembler default_options)
    = ((newReassembler default_options)\<lparr>ra_bySender := map (\<lambda>k. (replicate k CHR ''a'', [(''m'', weightless)])) [0..<n]\<rparr>, [])"
proof (induction n)
  case 0
  show ?case by (simp add: newReassembler_def)
next
  case (Suc n)
  let ?r = "(newReassembler default_options)\<lparr>ra_bySender := map (\<lambda>k. (replicate k CHR ''a'', [(''m'', weightless)])) [0..<n]\<rparr>"
  have "bounded ?r" using receive_bounded[OF bounded_new Suc.IH] by simp
  from accept_weightless[OF this, of n "txt"]
  have "accept txt (replicate n CHR ''a'') ''m'' (Some 0) (Some (int MAX_PARTS)) [] 0 ?r
    = (?r\<lparr>ra_bySender := map (\<lambda>k. (replicate k CHR ''a'', [(''m'', weightless)])) [0..<Suc n]\<rparr>, None)"
    by (simp add: newReassembler_def default_options_def or_else_def)
  then have "receive txt [empty_chunk n] ?r
    = (?r\<lparr>ra_bySender := map (\<lambda>k. (replicate k CHR ''a'', [(''m'', weightless)])) [0..<Suc n]\<rparr>, [])"
    by (simp add: empty_chunk_def)
  with Suc.IH show ?case by (simp add: receive_append)
qed

text \<open>What is bounded is the bytes of the parts, not the messages. Chunks with empty parts, each the first of
  \<open>MAX_PARTS\<close> and each under another name, leave any number of unfinished messages with a row of
  \<open>MAX_PARTS\<close> slots each, at a byte count of 0, so nothing is ever evicted before \<open>ttlMs\<close> has passed.\<close>

theorem empty_parts_unbounded:
  "case receive txt (map empty_chunk [0..<n]) (newReassembler default_options) of (r, outs) \<Rightarrow>
    pendingCount r = n \<and> bufferedBytes r = 0 \<and> (\<forall>(k, p) \<in> set (all_partials r). length (pt_parts p) = MAX_PARTS)"
  unfolding receive_weightless
  by (auto simp: pendingCount_def bufferedBytes_def newReassembler_def all_partials_def comp_def
    sum_list_triv weightless_def put_part_def fresh_partial_def)

theorem reassembler_bounded_witness:
  "let r0 = newReassembler default_options in
   case receive latin1 (map (part_chunk ''a'' ''m'' [''aGV'', ''sbG'', ''8='']) [(2, 5), (0, 7)] @ [empty_chunk 3]) r0 of (r, outs) \<Rightarrow>
     bufferedBytes r = (\<Sum>(k, p) \<leftarrow> all_partials r. \<Sum>x \<leftarrow> pt_parts p. int (length (or_else x [])))
     \<and> bufferedBytes r \<le> max 0 (ra_maxBytes r0)
     \<and> (\<forall>(s, l) \<in> set (ra_bySender r). length l \<le> max 1 (ra_maxPartialPerSender r0))
     \<and> (\<forall>(k, p) \<in> set (all_partials r). length (pt_parts p) \<le> MAX_PARTS
          \<and> (\<forall>x \<in> set (pt_parts p). length (or_else x []) \<le> ra_maxPartLen r0))
     \<and> length (ra_done r) \<le> 4097"
  by (rule reassembler_bounded)

end
