(* ===== verification/Spec2Isabelle.thy ===== *)
theory Spec2Isabelle
  imports FundsCheck Order Gossip Recovery Reassembly
begin

text \<open>
  A verification library for Gavl (\<open>src/src\<close>): an ephemeral order board for Bitcoin--Litecoin atomic swaps
  that runs on its own proof-of-space-and-time chain. This theory imports all others.

  \<^bold>\<open>The program.\<close> Every identity writes its own hash chain of signed writes, each with a proof of space and time.
  A ledger holds the chains it has verified. Anchors, mined the same way, form one chain of their own; an
  anchor commits to the heads of the writer chains, so the anchor chain fixes which writes count and in
  which order. Folding the finalized writes in that order gives the order board: offers, takes, matches.
  Gossip nodes exchange heads and missing writes. A swap engine watches the board for the matches of local
  identities and carries them out with hash time-locked contracts on the two chains, through explorers.

  \<^bold>\<open>Theories and sources.\<close>
  \<^item> \<open>Prelude\<close>: insertion-ordered maps (locale \<open>js_map\<close>), sorting (locales \<open>comparator\<close>, \<open>strict_comparator\<close>).
    \<open>Decimal\<close>, \<open>Canonical\<close>, \<open>Json\<close>: numbers as text, UTF-8, and the canonical JSON that is hashed and signed
    (\<open>det/canonical.ts\<close>), with its injectivity.
  \<^item> \<open>Iters\<close>, \<open>Space\<close>: iteration formula, delay function (locale \<open>vdf\<close>), Merkle plots (\<open>chain/iters.ts\<close>, \<open>pot\<close>,
    \<open>pos/space.ts\<close>). \<open>Writer\<close>, \<open>Ledger\<close>: writes, writer chains and the ledger (\<open>chain/writer.ts\<close>, \<open>ledger/ledger.ts\<close>).
  \<^item> \<open>Anchor\<close>, \<open>Difficulty\<close>, \<open>Chain\<close>, \<open>ForkChoice\<close>, \<open>Pruning\<close>: anchors, retargeting, the anchor chain with locks and
    fork resolution, and pruning (\<open>consensus/*.ts\<close>). \<open>Order\<close>: the order the chain induces and the board of an
    anchor (\<open>consensus/order.ts\<close>, \<open>market/fold.ts\<close>).
  \<^item> \<open>Ops\<close>, \<open>State\<close>, \<open>Fold\<close>: operations and their strict parser, the board and its snapshot, the clock and the effect of
    each operation (\<open>market/ops.ts\<close>, \<open>state.ts\<close>, \<open>fold.ts\<close>).
  \<^item> \<open>Node\<close>, \<open>Gossip\<close>: message handlers and what an exchange achieves (\<open>sync/node.ts\<close>). \<open>Chunk\<close>, \<open>Reassembly\<close>: splitting
    frames for relays and putting them together (\<open>sync/chunk.ts\<close>).
  \<^item> \<open>Networks\<close>, \<open>FundsProof\<close>, \<open>FundsCheck\<close>, \<open>Keys\<close>, \<open>Htlc\<close>, \<open>Esplora\<close>: parameters of the two chains, proofs of funds, key
    derivations, contracts with their claims and refunds, the explorer client (\<open>swap\<close>, \<open>chains/esplora.ts\<close>).
  \<^item> \<open>Effects\<close>, \<open>Wallet\<close>, \<open>Engine\<close>, \<open>TakerStep\<close>, \<open>MakerStep\<close>: the engine's asynchronous code as programs over an explicit
    run state with a log of calls and writes to disk; hot wallets; the steps of the two roles
    (\<open>wallet/chainwallet.ts\<close>, \<open>swap/engine.ts\<close>). \<open>Pass\<close>: adoption of matches, the pass over all files, saving,
    dropping, loading. \<open>Runs\<close> runs examples; \<open>LockSafety\<close>, \<open>Hazards\<close>, \<open>SwapSafety\<close> and \<open>Recovery\<close> hold what is proved.

  \<^bold>\<open>Correspondence.\<close> An interface or class is a record, a union a datatype, a \<open>Map\<close> a \<open>jsmap\<close> in insertion order,
  bytes are 8-bit words, JavaScript strings lists of code units below 256, numbers that stay integral \<open>int\<close>; a
  number that may be \<open>NaN\<close> or a missing field is an option. Methods that change \<open>this\<close> take and return the state; a
  throw is a value of an error datatype. A method is split only where the code has a section of its own.

  \<^bold>\<open>Parameters.\<close> SHA-256, HMAC, Ed25519, secp256k1, the transaction library, UTF-8 decoding, the delay function, the
  space backend, \<open>JSON.parse\<close> with an unchecked cast, and everything an explorer answers are arguments. What is
  assumed of them is documented behaviour, stated at each theorem, and each has a witness: a signature
  verifies under its key, a decoder reads back what the encoder wrote. Where a hash matters for safety, the
  theorems say that two different preimages would have to collide instead of assuming that none do.

  \<^bold>\<open>What is shown.\<close> Parsers and encoders are inverse and injective; each component's invariant is kept by each
  operation; settled anchors are never reverted, two nodes that hold the same anchors and writes have the
  same board, and the order of arrival does not matter; the taker funds its contract only against an
  accepted proof of funds and the maker only against the taker's confirmed contract, each at most once, secrets
  are revealed only while the claim is safe, nothing is sent to a chain
  that a crash would forget, and a file is dropped only when its match is over. Where the code falls short of
  what it means to do, the theorem says what it does: \<open>Hazards\<close> (funding whose answer is lost, preimages of
  another length, tips that are no number), \<open>Reassembly\<close> (messages that weigh nothing), \<open>Recovery\<close> (a posted lock
  that is not remembered).

  \<^bold>\<open>Bounds and fuel.\<close> Walks along \<open>prev\<close> run with as many turns as anchors are held, which is enough since heights
  fall (\<open>walks_end\<close>). The reassembler's eviction loop runs with as many turns as there are partial messages
  (\<open>shed_ends\<close>). Other loops recurse on their data or carry a measure.

  \<^bold>\<open>Simplifications.\<close> A pass of the engine steps the files concurrently; here one after another, which the arbitrary
  answers of the world make general except for payments of one wallet, and those the wallet queues itself. A
  posted operation ends between two passes.

  \<^bold>\<open>Not modelled.\<close> The daemon, the HTTP server, the relay and in-process transports, the store, the producer's loop,
  key files and configuration: input and output around the modelled parts, with one exception that is
  protocol logic and would come next, the daemon's checkpoints and snapshots. Of the engine the timer
  (\<open>start\<close>, \<open>stop\<close>, \<open>poke\<close>, \<open>tick\<close>) and the order of \<open>swaps()\<close> are left out.
\<close>

end
